(* ===== verification/Prelude.thy ===== *)
theory Prelude
  imports Main "HOL-Library.Word"
begin

text \<open>
  What every theory of the development shares: the model's type names, the conversion
  between the program's \<^verbatim>\<open>std::string\<close> (a list of characters) and its byte buffers
  (a list of 8-bit words), the little-endian 32-bit layout that three components write by
  hand, the generic rule for invariants of event-driven components, and a few facts on lists.
\<close>

unbundle bit_operations_syntax

type_synonym byte = "8 word"
type_synonym bytes = "8 word list"
type_synonym u32 = "32 word"
type_synonym u64 = "64 word"

text \<open>Facts a component proof may always rewrite with.\<close>

named_theorems choir_simps

section \<open>Characters and bytes\<close>

text \<open>\<^verbatim>\<open>static_cast<uint8_t>(c)\<close> and \<^verbatim>\<open>reinterpret_cast<const char*>(buf)\<close>.\<close>

definition byte_of :: "char \<Rightarrow> byte" where
  "byte_of c = word_of_nat (of_char c)"

definition chr_of :: "byte \<Rightarrow> char" where
  "chr_of b = char_of (unat b)"

definition bytes_of :: "string \<Rightarrow> bytes" where
  "bytes_of s = map byte_of s"

definition str_of :: "bytes \<Rightarrow> string" where
  "str_of bs = map chr_of bs"

lemma of_char_less_256: "(of_char c :: nat) < 256"
  by (cases c) simp

lemma unat_byte_of: "unat (byte_of c) = of_char c"
  by (simp add: byte_of_def unat_of_nat take_bit_eq_mod of_char_less_256)

lemma chr_of_byte_of [simp]: "chr_of (byte_of c) = c"
  by (simp add: chr_of_def unat_byte_of)

lemma byte_of_chr_of [simp]: "byte_of (chr_of b) = b"
proof -
  have "unat b < 256" using unsigned_less [of b] by simp
  then show ?thesis by (simp add: byte_of_def chr_of_def)
qed

lemma str_of_bytes_of [simp]: "str_of (bytes_of s) = s"
  by (simp add: str_of_def bytes_of_def comp_def)

lemma bytes_of_str_of [simp]: "bytes_of (str_of bs) = bs"
  by (simp add: str_of_def bytes_of_def comp_def)

lemma length_bytes_of [simp]: "length (bytes_of s) = length s"
  by (simp add: bytes_of_def)

lemma length_str_of [simp]: "length (str_of bs) = length bs"
  by (simp add: str_of_def)

lemma bytes_of_append [simp]: "bytes_of (s @ t) = bytes_of s @ bytes_of t"
  by (simp add: bytes_of_def)

section \<open>Little-endian 32-bit words\<close>

text \<open>
  The four bytes \<^verbatim>\<open>v & 0xFF, (v >> 8) & 0xFF, (v >> 16) & 0xFF, (v >> 24) & 0xFF\<close>
  and the word they are read back to.
\<close>

definition le32_bytes :: "u32 \<Rightarrow> bytes" where
  "le32_bytes v =
     [ucast (v AND 0xFF), ucast (drop_bit 8 v AND 0xFF),
      ucast (drop_bit 16 v AND 0xFF), ucast (drop_bit 24 v AND 0xFF)]"

definition le32_word :: "byte \<Rightarrow> byte \<Rightarrow> byte \<Rightarrow> byte \<Rightarrow> u32" where
  "le32_word b0 b1 b2 b3 =
     ucast b0 OR push_bit 8 (ucast b1) OR push_bit 16 (ucast b2) OR push_bit 24 (ucast b3)"

lemma length_le32_bytes [simp]: "length (le32_bytes v) = 4"
  by (simp add: le32_bytes_def)

lemma le32_word_bytes:
  "le32_word (ucast (v AND 0xFF)) (ucast (drop_bit 8 v AND 0xFF))
     (ucast (drop_bit 16 v AND 0xFF)) (ucast (drop_bit 24 v AND 0xFF)) = v"
proof -
  have m: "(0xFF :: u32) = mask 8" by (simp add: mask_eq_exp_minus_1)
  show ?thesis
    unfolding le32_word_def m
  proof (rule bit_word_eqI)
    fix n :: nat
    assume n: "n < LENGTH(32)"
    consider "n < 8" | "8 \<le> n" "n < 16" | "16 \<le> n" "n < 24" | "24 \<le> n"
      by linarith
    then show "bit (ucast (ucast (v AND mask 8) :: byte) OR
        push_bit 8 (ucast (ucast (drop_bit 8 v AND mask 8) :: byte)) OR
        push_bit 16 (ucast (ucast (drop_bit 16 v AND mask 8) :: byte)) OR
        push_bit 24 (ucast (ucast (drop_bit 24 v AND mask 8) :: byte)) :: u32) n = bit v n"
      by cases (use n in \<open>auto simp: bit_simps\<close>)
  qed
qed

lemma le32_bytes_word:
  "le32_bytes (le32_word b0 b1 b2 b3) = [b0, b1, b2, b3]"
proof -
  have m: "(0xFF :: u32) = mask 8" by (simp add: mask_eq_exp_minus_1)
  show ?thesis
    unfolding le32_bytes_def le32_word_def m
    by (simp only: list.inject simp_thms, intro conjI; rule bit_word_eqI)
      (simp_all add: bit_simps, (auto dest: bit_imp_le_length)+)
qed

lemma le32_word_nth:
  assumes "take 4 buf = le32_bytes v"
  shows "le32_word (buf ! 0) (buf ! 1) (buf ! 2) (buf ! 3) = v"
proof -
  have "buf ! i = le32_bytes v ! i" if "i < 4" for i
    using that assms by (metis nth_take)
  then show ?thesis by (simp add: le32_bytes_def le32_word_bytes)
qed

lemma le32_bytes_nth:
  assumes "4 \<le> length buf"
  shows "le32_bytes (le32_word (buf ! 0) (buf ! 1) (buf ! 2) (buf ! 3)) = take 4 buf"
proof -
  have "take 4 buf = [buf ! 0, buf ! 1, buf ! 2, buf ! 3]"
    using assms by (intro nth_equalityI) (auto simp: less_Suc_eq numeral_eq_Suc)
  then show ?thesis by (simp add: le32_bytes_word)
qed

text \<open>The same four bytes read into a 64-bit \<^verbatim>\<open>size_t\<close>.\<close>

lemma take_bit_ucast_byte:
  "8 \<le> k \<Longrightarrow> take_bit k (ucast (b :: byte) :: 'a::len word) = ucast b"
  by (rule bit_word_eqI) (auto simp: bit_simps dest: bit_imp_le_length)

lemma le64_word_le32:
  "(ucast b0 OR push_bit 8 (ucast b1) OR push_bit 16 (ucast b2) OR push_bit 24 (ucast b3) :: u64)
     = ucast (le32_word b0 b1 b2 b3)"
  by (simp add: le32_word_def unsigned_or_eq unsigned_push_bit_eq unsigned_ucast_eq
      take_bit_push_bit take_bit_ucast_byte)

lemma unat_ucast_32_64: "unat (ucast (w :: u32) :: u64) = unat w"
  by transfer (simp add: take_bit_take_bit)

section \<open>Decimal numbers\<close>

text \<open>\<^verbatim>\<open>std::to_string\<close> of an unsigned integer.\<close>

fun dec_of :: "nat \<Rightarrow> string" where
  "dec_of n = (if n < 10 then [char_of (48 + n)] else dec_of (n div 10) @ [char_of (48 + n mod 10)])"

declare dec_of.simps [simp del]

definition dec_value :: "string \<Rightarrow> nat" where
  "dec_value s = foldl (\<lambda>v c. 10 * v + (of_char c - 48)) 0 s"

lemma dec_value_dec_of [simp]: "dec_value (dec_of n) = n"
proof (induction n rule: dec_of.induct)
  case (1 n)
  show ?case
  proof (cases "n < 10")
    case True
    then show ?thesis by (simp add: dec_of.simps dec_value_def)
  next
    case False
    have "dec_value (dec_of n) = 10 * dec_value (dec_of (n div 10)) + n mod 10"
      using False by (subst dec_of.simps) (simp add: dec_value_def)
    then show ?thesis using 1 [OF False] by simp
  qed
qed

lemma dec_of_inj [simp]: "dec_of m = dec_of n \<longleftrightarrow> m = n"
  by (metis dec_value_dec_of)

section \<open>Event-driven components\<close>

text \<open>
  A component that handles one event at a time, returning its next state and what it sent
  out: the run over a list of events, and the contract under which an invariant of the
  handler is an invariant of every run.
\<close>

fun run_events :: "('s \<Rightarrow> 'e \<Rightarrow> 's \<times> 'o list) \<Rightarrow> 's \<Rightarrow> 'e list \<Rightarrow> 's \<times> 'o list" where
  "run_events step s [] = (s, [])"
| "run_events step s (e # es) =
     (let (s1, o1) = step s e; (s2, o2) = run_events step s1 es in (s2, o1 @ o2))"

lemma run_events_append:
  "run_events step s (es @ fs) =
     (let (s1, o1) = run_events step s es; (s2, o2) = run_events step s1 fs in (s2, o1 @ o2))"
  by (induction es arbitrary: s) (simp_all add: Let_def case_prod_unfold)

locale machine =
  fixes step :: "'s \<Rightarrow> 'e \<Rightarrow> 's \<times> 'o list"
    and inv :: "'s \<Rightarrow> bool"
    and good :: "'e \<Rightarrow> bool"
  assumes inv_step: "inv s \<Longrightarrow> good e \<Longrightarrow> inv (fst (step s e))"
begin

lemma inv_run: "inv s \<Longrightarrow> list_all good es \<Longrightarrow> inv (fst (run_events step s es))"
proof (induction es arbitrary: s)
  case (Cons e es)
  then have "inv (fst (run_events step (fst (step s e)) es))"
    by (simp add: inv_step)
  then show ?case by (simp add: Let_def case_prod_unfold)
qed simp

end

text \<open>
  The same for a handler that may end the process (an exception nothing catches, a failed
  assertion): the run is \<^term>\<open>None\<close> from there on. The contract also covers what is sent.
\<close>

fun run_opt :: "('s \<Rightarrow> 'e \<Rightarrow> ('s \<times> 'o list) option) \<Rightarrow> 's \<Rightarrow> 'e list \<Rightarrow> ('s \<times> 'o list) option" where
  "run_opt step s [] = Some (s, [])"
| "run_opt step s (e # es) =
     (case step s e of
        None \<Rightarrow> None
      | Some (s1, o1) \<Rightarrow> map_option (\<lambda>(s2, o2). (s2, o1 @ o2)) (run_opt step s1 es))"

locale partial_machine =
  fixes step :: "'s \<Rightarrow> 'e \<Rightarrow> ('s \<times> 'o list) option"
    and inv :: "'s \<Rightarrow> bool"
    and good :: "'e \<Rightarrow> bool"
    and sent :: "'o \<Rightarrow> bool"
  assumes step_ok: "inv s \<Longrightarrow> good e \<Longrightarrow> step s e = Some (s', out) \<Longrightarrow> inv s' \<and> list_all sent out"
begin

lemma run_ok:
  "inv s \<Longrightarrow> list_all good es \<Longrightarrow> run_opt step s es = Some (s', out) \<Longrightarrow> inv s' \<and> list_all sent out"
proof (induction es arbitrary: s out)
  case (Cons e es)
  then obtain s1 o1 o2 where "step s e = Some (s1, o1)" "run_opt step s1 es = Some (s', o2)" "out = o1 @ o2"
    by (auto split: option.splits)
  with Cons.IH [of s1 o2] Cons.prems step_ok show ?case by fastforce
qed simp

end

section \<open>Steps that may end the process\<close>

text \<open>
  Statements of a handler in sequence, the empty statement and a loop over a list, on a state;
  \<^term>\<open>None\<close> is an exception that leaves the handler. \<open>preserves P f\<close> is the rule by which
  an invariant goes through a handler statement by statement.
\<close>

type_synonym 's stmt = "'s \<Rightarrow> 's option"

definition skip :: "'s stmt" where
  "skip s = Some s"

definition seq :: "'s stmt \<Rightarrow> 's stmt \<Rightarrow> 's stmt" where
  "seq f g s = (case f s of None \<Rightarrow> None | Some s' \<Rightarrow> g s')"

definition upd :: "('s \<Rightarrow> 's) \<Rightarrow> 's stmt" where
  "upd f s = Some (f s)"

fun each :: "('a \<Rightarrow> 's stmt) \<Rightarrow> 'a list \<Rightarrow> 's stmt" where
  "each f [] s = Some s"
| "each f (x # xs) s = (case f x s of None \<Rightarrow> None | Some s' \<Rightarrow> each f xs s')"

definition preserves :: "('s \<Rightarrow> bool) \<Rightarrow> 's stmt \<Rightarrow> bool" where
  "preserves P f \<longleftrightarrow> (\<forall>s s'. P s \<longrightarrow> f s = Some s' \<longrightarrow> P s')"

named_theorems preserve

lemma preservesI: "(\<And>s s'. P s \<Longrightarrow> f s = Some s' \<Longrightarrow> P s') \<Longrightarrow> preserves P f"
  unfolding preserves_def by blast

lemma preservesD: "preserves P f \<Longrightarrow> P s \<Longrightarrow> f s = Some s' \<Longrightarrow> P s'"
  unfolding preserves_def by blast

lemma preserves_skip [preserve]: "preserves P skip"
  by (rule preservesI) (simp add: skip_def)

lemma preserves_seq [preserve]:
  assumes "preserves P f" "preserves P g"
  shows "preserves P (seq f g)"
proof (rule preservesI)
  fix s s'
  assume "P s" "seq f g s = Some s'"
  then obtain t where "f s = Some t" "g t = Some s'" by (cases "f s") (simp_all add: seq_def)
  with \<open>P s\<close> show "P s'" by (blast intro: preservesD [OF assms(1)] preservesD [OF assms(2)])
qed

lemma preserves_upd [preserve]: "(\<And>s. P s \<Longrightarrow> P (f s)) \<Longrightarrow> preserves P (upd f)"
  by (rule preservesI) (auto simp: upd_def)

lemma preserves_each [preserve]:
  assumes "\<And>x. preserves P (f x)"
  shows "preserves P (each f xs)"
proof (rule preservesI)
  show "P s \<Longrightarrow> each f xs s = Some s' \<Longrightarrow> P s'" for s s'
  proof (induction xs arbitrary: s)
    case (Cons x xs)
    then obtain t where "f x s = Some t" "each f xs t = Some s'" by (cases "f x s") simp_all
    with Cons show ?case by (blast intro: preservesD [OF assms])
  qed simp
qed

lemma preserves_if [preserve]:
  assumes "preserves P f" "preserves P g"
  shows "preserves P (\<lambda>s. if b s then f s else g s)"
  by (rule preservesI) (auto dest: preservesD [OF assms(1)] preservesD [OF assms(2)] split: if_splits)

section \<open>Lists\<close>

lemma map_of_mapped_keys:
  "distinct (map fst xs) \<Longrightarrow> (k, v) \<in> set xs \<Longrightarrow> map_of xs k = Some v"
  by (rule map_of_is_SomeI)

lemma option_eqI: "(\<And>v. x = Some v \<longleftrightarrow> y = Some v) \<Longrightarrow> x = y"
  by (cases x; cases y) auto

lemma take_append_prefix:
  "p @ q = xs \<Longrightarrow> take (length p) xs = p"
  by auto

end
