(* ===== verification/Json.thy ===== *)
theory Json
  imports Prelude "HOL-Library.Finite_Map" "HOL-Library.Log_Nat" Complex_Main
begin

text \<open>
  JSON values as the program handles them. The library that parses and prints them
  (nlohmann/json, outside the repository) is a parameter \<open>json_lib\<close>; the accessors the
  program calls on a value (\<^verbatim>\<open>at\<close>, \<^verbatim>\<open>get_to\<close>, \<^verbatim>\<open>value\<close>, \<^verbatim>\<open>find\<close>, the \<^verbatim>\<open>is_*\<close>
  tests) are defined as the library documents them, \<^term>\<open>None\<close> standing for an exception.
  The second part is the \<^verbatim>\<open>float\<close> a \<^verbatim>\<open>double\<close> of the document is cast to.
\<close>

section \<open>Values\<close>

text \<open>
  Integers are those of \<^verbatim>\<open>int64_t\<close> and \<^verbatim>\<open>uint64_t\<close>; a float is the rational a finite
  \<^verbatim>\<open>double\<close> denotes.
\<close>

datatype json =
    JNull | JBool bool | JInt int | JFloat rat | JStr string
  | JArr "json list" | JObj "(string, json) fmap"

definition jobj :: "(string \<times> json) list \<Rightarrow> json" where
  "jobj kvs = JObj (fmap_of_list kvs)"

record json_lib =
  lib_parse :: "string \<Rightarrow> json option"
  lib_dump :: "json \<Rightarrow> string option"

text \<open>The library's promise: what it prints, it parses back.\<close>

definition lib_ok :: "json_lib \<Rightarrow> bool" where
  "lib_ok lib \<longleftrightarrow> (\<forall>j s. lib_dump lib j = Some s \<longrightarrow> lib_parse lib s = Some j)"

text \<open>A library that knows one document, for concrete instances.\<close>

definition one_doc :: "json \<Rightarrow> string \<Rightarrow> json_lib" where
  "one_doc j s = \<lparr>lib_parse = (\<lambda>t. if t = s then Some j else None),
                  lib_dump = (\<lambda>k. if k = j then Some s else None)\<rparr>"

lemma lib_ok_one_doc: "lib_ok (one_doc j s)"
  by (simp add: lib_ok_def one_doc_def)

section \<open>Accessors\<close>

fun is_object :: "json \<Rightarrow> bool" where
  "is_object (JObj m) = True" | "is_object _ = False"

fun jfind :: "json \<Rightarrow> string \<Rightarrow> json option" where
  "jfind (JObj m) k = fmlookup m k"
| "jfind _ k = None"

text \<open>\<^verbatim>\<open>at\<close> throws on a value that is no object and on a missing key.\<close>

definition jat :: "json \<Rightarrow> string \<Rightarrow> json option" where
  "jat j k = jfind j k"

fun get_string :: "json \<Rightarrow> string option" where
  "get_string (JStr s) = Some s" | "get_string _ = None"

fun get_boolean :: "json \<Rightarrow> bool option" where
  "get_boolean (JBool b) = Some b" | "get_boolean _ = None"

fun get_array :: "json \<Rightarrow> json list option" where
  "get_array (JArr js) = Some js" | "get_array _ = None"

text \<open>
  Numbers: any number, and for target types other than the library's own 64-bit ones a boolean
  too, goes through \<^verbatim>\<open>static_cast\<close>: a fraction is cut off, an integer wraps to the width.
\<close>

definition trunc_rat :: "rat \<Rightarrow> int" where
  "trunc_rat q = (if 0 \<le> q then \<lfloor>q\<rfloor> else - \<lfloor>- q\<rfloor>)"

fun get_int64_like :: "json \<Rightarrow> int option" where
  "get_int64_like (JInt n) = Some n"
| "get_int64_like (JFloat q) = Some (trunc_rat q)"
| "get_int64_like _ = None"

fun get_int_like :: "json \<Rightarrow> int option" where
  "get_int_like (JBool b) = Some (if b then 1 else 0)"
| "get_int_like j = get_int64_like j"

definition get_u8 :: "json \<Rightarrow> byte option" where
  "get_u8 j = map_option word_of_int (get_int_like j)"

definition get_int32 :: "json \<Rightarrow> int option" where
  "get_int32 j = map_option (\<lambda>n. sint (word_of_int n :: 32 word)) (get_int_like j)"

definition get_int64 :: "json \<Rightarrow> int option" where
  "get_int64 j = map_option (\<lambda>n. sint (word_of_int n :: 64 word)) (get_int64_like j)"

definition get_u64 :: "json \<Rightarrow> u64 option" where
  "get_u64 j = map_option word_of_int (get_int64_like j)"

section \<open>Single precision\<close>

text \<open>
  \<^verbatim>\<open>static_cast<float>\<close> of a finite value: to the nearest multiple of the unit in the last
  place, ties to even, with gradual underflow at \<open>2 ^ -149\<close>. Infinities do not occur.
\<close>

definition pow2 :: "int \<Rightarrow> rat" where
  "pow2 e = (if 0 \<le> e then 2 ^ nat e else 1 / 2 ^ nat (- e))"

definition log2_floor :: "rat \<Rightarrow> int" where
  "log2_floor q =
     (let (n, d) = quotient_of q; e = int (floorlog 2 (nat n)) - int (floorlog 2 (nat d))
      in if q < pow2 e then e - 1 else e)"

definition round_even :: "rat \<Rightarrow> int" where
  "round_even q =
     (let f = \<lfloor>q\<rfloor>; r = q - of_int f in
      if r < 1 / 2 \<or> (r = 1 / 2 \<and> even f) then f else f + 1)"

definition f32_round :: "rat \<Rightarrow> rat" where
  "f32_round q =
     (if q = 0 then 0
      else let e = max (log2_floor \<bar>q\<bar> - 23) (- 149)
           in of_int (round_even (q / pow2 e)) * pow2 e)"

definition is_f32 :: "rat \<Rightarrow> bool" where
  "is_f32 q \<longleftrightarrow> f32_round q = q"

fun get_double_like :: "json \<Rightarrow> rat option" where
  "get_double_like (JBool b) = Some (if b then 1 else 0)"
| "get_double_like (JInt n) = Some (of_int n)"
| "get_double_like (JFloat q) = Some q"
| "get_double_like _ = None"

definition get_f32 :: "json \<Rightarrow> rat option" where
  "get_f32 j = map_option f32_round (get_double_like j)"

text \<open>\<^verbatim>\<open>value(key, default)\<close>: throws only when the value is present and of the wrong type.\<close>

definition jvalue :: "(json \<Rightarrow> 'a option) \<Rightarrow> json \<Rightarrow> string \<Rightarrow> 'a \<Rightarrow> 'a option" where
  "jvalue get j k d =
     (if is_object j then (case jfind j k of Some v \<Rightarrow> get v | None \<Rightarrow> Some d) else None)"

text \<open>A \<^verbatim>\<open>std::vector\<close>: an array, every element of which converts.\<close>

definition get_vec :: "(json \<Rightarrow> 'a option) \<Rightarrow> json \<Rightarrow> 'a list option" where
  "get_vec get j = (case get_array j of None \<Rightarrow> None | Some js \<Rightarrow> those (map get js))"

section \<open>Types with a JSON form\<close>

text \<open>
  The pair \<^verbatim>\<open>to_json\<close>, \<^verbatim>\<open>from_json\<close> of a type: what is written reads back, and so do
  vectors of it.
\<close>

locale json_form =
  fixes to_json :: "'a \<Rightarrow> json"
    and from_json :: "json \<Rightarrow> 'a option"
    and valid :: "'a \<Rightarrow> bool"
  assumes from_to: "valid x \<Longrightarrow> from_json (to_json x) = Some x"
begin

lemma vec_from_to: "list_all valid xs \<Longrightarrow> get_vec from_json (JArr (map to_json xs)) = Some xs"
proof -
  have "list_all valid xs \<Longrightarrow> those (map from_json (map to_json xs)) = Some xs"
    by (induction xs) (simp_all add: from_to)
  then show "list_all valid xs \<Longrightarrow> get_vec from_json (JArr (map to_json xs)) = Some xs"
    by (simp add: get_vec_def)
qed

lemma text_from_to:
  "lib_ok lib \<Longrightarrow> valid x \<Longrightarrow> lib_dump lib (to_json x) = Some s \<Longrightarrow>
     Option.bind (lib_parse lib s) from_json = Some x"
  by (simp add: lib_ok_def from_to)

end

section \<open>Lemmas\<close>

lemma is_object_jobj [simp]: "is_object (jobj kvs)"
  by (simp add: jobj_def)

lemma jfind_jobj [simp]: "jfind (jobj kvs) k = map_of kvs k"
  by (simp add: jobj_def fmap_of_list.rep_eq)

lemma jat_jobj [simp]: "jat (jobj kvs) k = map_of kvs k"
  by (simp add: jat_def)

lemma jvalue_jobj [simp]:
  "jvalue get (jobj kvs) k d = (case map_of kvs k of Some v \<Rightarrow> get v | None \<Rightarrow> Some d)"
  by (simp add: jvalue_def)

text \<open>What is in range survives the cast.\<close>

definition in_int32 :: "int \<Rightarrow> bool" where
  "in_int32 n \<longleftrightarrow> - (2 ^ 31) \<le> n \<and> n < 2 ^ 31"

definition in_int64 :: "int \<Rightarrow> bool" where
  "in_int64 n \<longleftrightarrow> - (2 ^ 63) \<le> n \<and> n < 2 ^ 63"

lemma get_int32_JInt: "in_int32 n \<Longrightarrow> get_int32 (JInt n) = Some n"
  by (simp add: get_int32_def in_int32_def signed_of_int signed_take_bit_int_eq_self)

lemma get_int64_JInt: "in_int64 n \<Longrightarrow> get_int64 (JInt n) = Some n"
  by (simp add: get_int64_def in_int64_def signed_of_int signed_take_bit_int_eq_self)

lemma get_u64_JInt [simp]: "get_u64 (JInt (uint w)) = Some w"
  by (simp add: get_u64_def)

lemma get_f32_JFloat: "is_f32 q \<Longrightarrow> get_f32 (JFloat q) = Some q"
  by (simp add: get_f32_def is_f32_def)

lemma get_int32_range: "get_int32 j = Some n \<Longrightarrow> in_int32 n"
  by (auto simp: get_int32_def in_int32_def)
    (use sint_ge [where 'a = 32] sint_lt [where 'a = 32] in simp_all)

lemma get_int64_range: "get_int64 j = Some n \<Longrightarrow> in_int64 n"
  by (auto simp: get_int64_def in_int64_def)
    (use sint_ge [where 'a = 64] sint_lt [where 'a = 64] in simp_all)

end
