(* ===== verification/State.thy ===== *)
theory State
  imports Json
begin

text \<open>
  The state the host shows the overlay (\<^verbatim>\<open>src/ipc/state.hpp\<close>, \<^verbatim>\<open>state.cpp\<close>) and its
  JSON form. \<^verbatim>\<open>get_to\<close> chains are nested \<open>Option.bind\<close>: the first conversion that
  throws ends the parse.
\<close>

section \<open>Data\<close>

datatype anchor = TopLeft | TopRight | BottomLeft | BottomRight | CenterLeft | CenterRight

record participant =
  p_user_id :: string
  p_display_name :: string
  p_avatar_hash :: string
  p_speaking :: bool
  p_mute :: bool
  p_deaf :: bool
  p_self_mute :: bool
  p_self_deaf :: bool

record notification =
  n_id :: string
  n_title :: string
  n_body :: string
  n_icon_hash :: string
  n_created_ms :: int

record appearance =
  c_anchor :: anchor
  c_scale :: rat
  c_hdr_nits :: rat
  c_show_all_members :: bool
  c_toast_anchor :: anchor
  c_toast_duration_ms :: int

record snapshot =
  s_in_voice :: bool
  s_channel_name :: string
  s_participants :: "participant list"
  s_notifications :: "notification list"
  s_config :: appearance
  s_revision :: u64

text \<open>The default member initialisers.\<close>

definition new_participant :: participant where
  "new_participant =
     \<lparr>p_user_id = [], p_display_name = [], p_avatar_hash = [], p_speaking = False,
      p_mute = False, p_deaf = False, p_self_mute = False, p_self_deaf = False\<rparr>"

definition new_notification :: notification where
  "new_notification =
     \<lparr>n_id = [], n_title = [], n_body = [], n_icon_hash = [], n_created_ms = 0\<rparr>"

definition default_appearance :: appearance where
  "default_appearance =
     \<lparr>c_anchor = CenterLeft, c_scale = 1, c_hdr_nits = 200, c_show_all_members = True,
      c_toast_anchor = TopRight, c_toast_duration_ms = 5000\<rparr>"

definition new_snapshot :: snapshot where
  "new_snapshot =
     \<lparr>s_in_voice = False, s_channel_name = [], s_participants = [], s_notifications = [],
      s_config = default_appearance, s_revision = 0\<rparr>"

section \<open>The JSON form\<close>

text \<open>The enum's underlying value orders it, and the bound check of the parser compares it.\<close>

fun anchor_code :: "anchor \<Rightarrow> byte" where
  "anchor_code TopLeft = 0"
| "anchor_code TopRight = 1"
| "anchor_code BottomLeft = 2"
| "anchor_code BottomRight = 3"
| "anchor_code CenterLeft = 4"
| "anchor_code CenterRight = 5"

definition anchor_of_code :: "byte \<Rightarrow> anchor" where
  "anchor_of_code v =
     (if v = 0 then TopLeft else if v = 1 then TopRight else if v = 2 then BottomLeft
      else if v = 3 then BottomRight else if v = 4 then CenterLeft else CenterRight)"

definition anchor_to_json :: "anchor \<Rightarrow> json" where
  "anchor_to_json a = JInt (uint (anchor_code a))"

definition anchor_from_json :: "json \<Rightarrow> anchor option" where
  "anchor_from_json j =
     map_option (\<lambda>v. if v \<le> anchor_code CenterRight then anchor_of_code v else TopRight) (get_u8 j)"

definition participant_to_json :: "participant \<Rightarrow> json" where
  "participant_to_json p = jobj
     [(''user_id'', JStr (p_user_id p)),
      (''display_name'', JStr (p_display_name p)),
      (''avatar_hash'', JStr (p_avatar_hash p)),
      (''speaking'', JBool (p_speaking p)),
      (''mute'', JBool (p_mute p)),
      (''deaf'', JBool (p_deaf p)),
      (''self_mute'', JBool (p_self_mute p)),
      (''self_deaf'', JBool (p_self_deaf p))]"

definition participant_from_json :: "json \<Rightarrow> participant option" where
  "participant_from_json j =
     Option.bind (Option.bind (jat j ''user_id'') get_string) (\<lambda>a.
     Option.bind (Option.bind (jat j ''display_name'') get_string) (\<lambda>b.
     Option.bind (Option.bind (jat j ''avatar_hash'') get_string) (\<lambda>c.
     Option.bind (Option.bind (jat j ''speaking'') get_boolean) (\<lambda>d.
     Option.bind (Option.bind (jat j ''mute'') get_boolean) (\<lambda>e.
     Option.bind (Option.bind (jat j ''deaf'') get_boolean) (\<lambda>f.
     Option.bind (Option.bind (jat j ''self_mute'') get_boolean) (\<lambda>g.
     Option.bind (Option.bind (jat j ''self_deaf'') get_boolean) (\<lambda>h.
       Some \<lparr>p_user_id = a, p_display_name = b, p_avatar_hash = c, p_speaking = d,
             p_mute = e, p_deaf = f, p_self_mute = g, p_self_deaf = h\<rparr>))))))))"

definition notification_to_json :: "notification \<Rightarrow> json" where
  "notification_to_json n = jobj
     [(''id'', JStr (n_id n)),
      (''title'', JStr (n_title n)),
      (''body'', JStr (n_body n)),
      (''icon_hash'', JStr (n_icon_hash n)),
      (''created_ms'', JInt (n_created_ms n))]"

definition notification_from_json :: "json \<Rightarrow> notification option" where
  "notification_from_json j =
     Option.bind (Option.bind (jat j ''id'') get_string) (\<lambda>a.
     Option.bind (Option.bind (jat j ''title'') get_string) (\<lambda>b.
     Option.bind (Option.bind (jat j ''body'') get_string) (\<lambda>c.
     Option.bind (Option.bind (jat j ''icon_hash'') get_string) (\<lambda>d.
     Option.bind (Option.bind (jat j ''created_ms'') get_int64) (\<lambda>e.
       Some \<lparr>n_id = a, n_title = b, n_body = c, n_icon_hash = d, n_created_ms = e\<rparr>)))))"

definition appearance_to_json :: "appearance \<Rightarrow> json" where
  "appearance_to_json c = jobj
     [(''anchor'', anchor_to_json (c_anchor c)),
      (''scale'', JFloat (c_scale c)),
      (''hdr_nits'', JFloat (c_hdr_nits c)),
      (''show_all_members'', JBool (c_show_all_members c)),
      (''toast_anchor'', anchor_to_json (c_toast_anchor c)),
      (''toast_duration_ms'', JInt (c_toast_duration_ms c))]"

definition appearance_from_json :: "json \<Rightarrow> appearance option" where
  "appearance_from_json j =
     Option.bind (Option.bind (jat j ''anchor'') anchor_from_json) (\<lambda>a.
     Option.bind (Option.bind (jat j ''scale'') get_f32) (\<lambda>b.
     Option.bind (jvalue get_f32 j ''hdr_nits'' 200) (\<lambda>c.
     Option.bind (Option.bind (jat j ''show_all_members'') get_boolean) (\<lambda>d.
     Option.bind (Option.bind (jat j ''toast_anchor'') anchor_from_json) (\<lambda>e.
     Option.bind (Option.bind (jat j ''toast_duration_ms'') get_int32) (\<lambda>f.
       Some \<lparr>c_anchor = a, c_scale = b, c_hdr_nits = c, c_show_all_members = d,
             c_toast_anchor = e, c_toast_duration_ms = f\<rparr>))))))"

definition snapshot_to_json :: "snapshot \<Rightarrow> json" where
  "snapshot_to_json s = jobj
     [(''in_voice'', JBool (s_in_voice s)),
      (''channel_name'', JStr (s_channel_name s)),
      (''participants'', JArr (map participant_to_json (s_participants s))),
      (''notifications'', JArr (map notification_to_json (s_notifications s))),
      (''config'', appearance_to_json (s_config s)),
      (''revision'', JInt (uint (s_revision s)))]"

definition snapshot_from_json :: "json \<Rightarrow> snapshot option" where
  "snapshot_from_json j =
     Option.bind (Option.bind (jat j ''in_voice'') get_boolean) (\<lambda>a.
     Option.bind (Option.bind (jat j ''channel_name'') get_string) (\<lambda>b.
     Option.bind (Option.bind (jat j ''participants'') (get_vec participant_from_json)) (\<lambda>c.
     Option.bind (Option.bind (jat j ''notifications'') (get_vec notification_from_json)) (\<lambda>d.
     Option.bind (Option.bind (jat j ''config'') appearance_from_json) (\<lambda>e.
     Option.bind (Option.bind (jat j ''revision'') get_u64) (\<lambda>f.
       Some \<lparr>s_in_voice = a, s_channel_name = b, s_participants = c, s_notifications = d,
             s_config = e, s_revision = f\<rparr>))))))"

text \<open>\<open>to_json_str\<close> lets the printer's exception escape; \<open>from_json_str\<close> catches all.\<close>

definition to_json_str :: "json_lib \<Rightarrow> snapshot \<Rightarrow> string option" where
  "to_json_str lib s = lib_dump lib (snapshot_to_json s)"

definition from_json_str :: "json_lib \<Rightarrow> string \<Rightarrow> snapshot \<Rightarrow> bool \<times> snapshot" where
  "from_json_str lib inp out =
     (case Option.bind (lib_parse lib inp) snapshot_from_json of
        Some s \<Rightarrow> (True, s)
      | None \<Rightarrow> (False, out))"

section \<open>Lemmas\<close>

text \<open>The members hold values of their C++ types.\<close>

definition wf_appearance :: "appearance \<Rightarrow> bool" where
  "wf_appearance c \<longleftrightarrow> is_f32 (c_scale c) \<and> is_f32 (c_hdr_nits c) \<and> in_int32 (c_toast_duration_ms c)"

definition wf_notification :: "notification \<Rightarrow> bool" where
  "wf_notification n \<longleftrightarrow> in_int64 (n_created_ms n)"

definition wf_snapshot :: "snapshot \<Rightarrow> bool" where
  "wf_snapshot s \<longleftrightarrow> list_all wf_notification (s_notifications s) \<and> wf_appearance (s_config s)"

lemma anchor_of_code_code [simp]: "anchor_of_code (anchor_code a) = a"
  by (cases a) (simp_all add: anchor_of_code_def)

lemma anchor_code_le: "anchor_code a \<le> anchor_code CenterRight"
  by (cases a) simp_all

interpretation anchor_form: json_form anchor_to_json anchor_from_json "\<lambda>_. True"
  by unfold_locales (use anchor_code_le in \<open>simp add: anchor_to_json_def anchor_from_json_def get_u8_def\<close>)

interpretation participant_form: json_form participant_to_json participant_from_json "\<lambda>_. True"
  by unfold_locales (simp add: participant_to_json_def participant_from_json_def)

interpretation notification_form: json_form notification_to_json notification_from_json wf_notification
  by unfold_locales
    (simp add: notification_to_json_def notification_from_json_def wf_notification_def get_int64_JInt)

interpretation appearance_form: json_form appearance_to_json appearance_from_json wf_appearance
  by unfold_locales
    (simp add: appearance_to_json_def appearance_from_json_def wf_appearance_def get_int32_JInt
      get_f32_JFloat anchor_form.from_to)

interpretation snapshot_form: json_form snapshot_to_json snapshot_from_json wf_snapshot
  by unfold_locales
    (simp add: snapshot_to_json_def snapshot_from_json_def wf_snapshot_def
      participant_form.vec_from_to notification_form.vec_from_to appearance_form.from_to
      list_all_iff)

lemma wf_default_appearance: "wf_appearance default_appearance"
proof -
  have "is_f32 1" "is_f32 200" by code_simp+
  then show ?thesis by (simp add: wf_appearance_def default_appearance_def in_int32_def)
qed

lemma wf_new_snapshot: "wf_snapshot new_snapshot"
  using wf_default_appearance by (simp add: wf_snapshot_def new_snapshot_def)

lemma appearance_in_range:
  "appearance_from_json j = Some c \<Longrightarrow> in_int32 (c_toast_duration_ms c)"
  by (auto simp: appearance_from_json_def bind_eq_Some_conv dest: get_int32_range)

text \<open>The clamp of an anchor comes after the cast to eight bits: 256 is not out of range.\<close>

lemma anchor_wraps:
  "anchor_from_json (JInt n) = anchor_from_json (JInt (n mod 256))"
  "anchor_from_json (JInt 256) = Some TopLeft"
proof -
  have "(word_of_int (n mod 256) :: byte) = word_of_int n"
    by (rule word_of_int_eq_iff [THEN iffD2]) (simp add: take_bit_eq_mod)
  then show "anchor_from_json (JInt n) = anchor_from_json (JInt (n mod 256))"
    by (simp add: anchor_from_json_def get_u8_def)
  show "anchor_from_json (JInt 256) = Some TopLeft"
    by (simp add: anchor_from_json_def get_u8_def anchor_of_code_def)
qed

section \<open>Properties\<close>

text \<open>
  C22: The overlay reads back exactly the snapshot the host serialised: roster, notifications,
  appearance and revision, for every snapshot whose members hold values of their types.
\<close>

theorem snapshot_round_trip:
  assumes "lib_ok lib" and "wf_snapshot s" and "to_json_str lib s = Some txt"
  shows "from_json_str lib txt out = (True, s)"
  using snapshot_form.text_from_to [OF assms(1,2)] assms(3)
  by (simp add: from_json_str_def to_json_str_def)

theorem snapshot_round_trip_witness:
  "from_json_str (one_doc (snapshot_to_json (new_snapshot\<lparr>s_revision := 7\<rparr>)) ''{}'') ''{}'' new_snapshot
     = (True, new_snapshot\<lparr>s_revision := 7\<rparr>)"
proof -
  have "wf_snapshot (new_snapshot\<lparr>s_revision := 7\<rparr>)"
    using wf_new_snapshot by (simp add: wf_snapshot_def)
  then show ?thesis
    by (rule snapshot_round_trip [OF lib_ok_one_doc]) (simp add: to_json_str_def one_doc_def)
qed

text \<open>
  Parsing untrusted text is total and all-or-nothing: it either reports failure and leaves
  the target snapshot untouched, or reports success and yields a snapshot whose integers are
  in the range of their types.
\<close>

theorem from_json_str_all_or_nothing:
  "case from_json_str lib txt out of (ok, s) \<Rightarrow>
     if ok then list_all wf_notification (s_notifications s) \<and> in_int32 (c_toast_duration_ms (s_config s))
     else s = out"
proof (cases "Option.bind (lib_parse lib txt) snapshot_from_json")
  case (Some s)
  then obtain j where j: "snapshot_from_json j = Some s" by (auto simp: bind_eq_Some_conv)
  then obtain v a where v: "get_vec notification_from_json v = Some (s_notifications s)"
    and a: "appearance_from_json a = Some (s_config s)"
    by (auto simp: snapshot_from_json_def bind_eq_Some_conv)
  have n: "wf_notification n" if "notification_from_json x = Some n" for x n
    using that get_int64_range
    by (auto simp: notification_from_json_def bind_eq_Some_conv wf_notification_def)
  have those: "those (map notification_from_json xs) = Some ns \<Longrightarrow> list_all wf_notification ns" for xs ns
    by (induction xs arbitrary: ns) (auto split: option.splits dest: n)
  have "list_all wf_notification (s_notifications s)"
    using v those by (auto simp: get_vec_def split: option.splits)
  moreover have "in_int32 (c_toast_duration_ms (s_config s))"
    using a by (rule appearance_in_range)
  ultimately show ?thesis using Some by (simp add: from_json_str_def)
qed (simp add: from_json_str_def)

end
