(* ===== verification/Emoji.thy ===== *)
theory Emoji
  imports Prelude "HOL-Library.Sublist"
begin

text \<open>
  Emoji detection shared by host and overlay (\<^verbatim>\<open>src/ipc/emoji.cpp\<close>). A pair of
  pointers \<^verbatim>\<open>p, end\<close> is the suffix of the text still to be read; a matcher that
  returns 0 is \<^term>\<open>None\<close>; code points are 32-bit words, as in the source.
\<close>

section \<open>Definitions\<close>

fun decode_cont :: "nat \<Rightarrow> u32 \<Rightarrow> string \<Rightarrow> u32 option" where
  "decode_cont 0 cp s = Some cp"
| "decode_cont (Suc k) cp [] = None"
| "decode_cont (Suc k) cp (c # s) =
     (if byte_of c AND 0xC0 \<noteq> 0x80 then None
      else decode_cont k (push_bit 6 cp OR ucast (byte_of c AND 0x3F)) s)"

definition decode_utf8 :: "string \<Rightarrow> (u32 \<times> nat) option" where
  "decode_utf8 s =
     (case s of
        [] \<Rightarrow> None
      | c # r \<Rightarrow>
          let b = byte_of c in
          if b < 0x80 then Some (ucast b, 1)
          else
            case (if b AND 0xE0 = 0xC0 then Some (2, ucast (b AND 0x1F))
                  else if b AND 0xF0 = 0xE0 then Some (3, ucast (b AND 0x0F))
                  else if b AND 0xF8 = 0xF0 then Some (4, ucast (b AND 0x07))
                  else None) of
              None \<Rightarrow> None
            | Some (len, cp) \<Rightarrow>
                if length s < len then None
                else map_option (\<lambda>cp. (cp, len)) (decode_cont (len - 1) cp r))"

definition always_emoji :: "u32 \<Rightarrow> bool" where
  "always_emoji cp \<longleftrightarrow>
     (cp \<ge> 0x1F000 \<and> cp \<le> 0x1FAFF) \<or> (cp \<ge> 0x2600 \<and> cp \<le> 0x27BF) \<or>
     (cp \<ge> 0x2B05 \<and> cp \<le> 0x2B07) \<or>
     cp = 0x2B1B \<or> cp = 0x2B1C \<or> cp = 0x2B50 \<or> cp = 0x2B55 \<or>
     cp = 0x231A \<or> cp = 0x231B \<or> (cp \<ge> 0x23E9 \<and> cp \<le> 0x23FA)"

definition vs16_gated :: "u32 \<Rightarrow> bool" where
  "vs16_gated cp \<longleftrightarrow>
     cp = 0x00A9 \<or> cp = 0x00AE \<or> cp = 0x2122 \<or> cp = 0x203C \<or> cp = 0x2049 \<or> cp = 0x2139 \<or>
     (cp \<ge> 0x2194 \<and> cp \<le> 0x2199) \<or> cp = 0x21A9 \<or> cp = 0x21AA \<or>
     cp = 0x2328 \<or> cp = 0x23CF \<or> cp = 0x24C2 \<or>
     cp = 0x25AA \<or> cp = 0x25AB \<or> cp = 0x25B6 \<or> cp = 0x25C0 \<or>
     (cp \<ge> 0x25FB \<and> cp \<le> 0x25FE) \<or> cp = 0x2934 \<or> cp = 0x2935 \<or>
     cp = 0x3030 \<or> cp = 0x303D \<or> cp = 0x3297 \<or> cp = 0x3299"

definition is_regional_indicator :: "u32 \<Rightarrow> bool" where
  "is_regional_indicator cp \<longleftrightarrow> cp \<ge> 0x1F1E6 \<and> cp \<le> 0x1F1FF"

definition is_skin_tone :: "u32 \<Rightarrow> bool" where
  "is_skin_tone cp \<longleftrightarrow> cp \<ge> 0x1F3FB \<and> cp \<le> 0x1F3FF"

definition is_tag :: "u32 \<Rightarrow> bool" where
  "is_tag cp \<longleftrightarrow> cp \<ge> 0xE0020 \<and> cp \<le> 0xE007F"

definition kVS16 :: u32 where "kVS16 = 0xFE0F"
definition kZWJ :: u32 where "kZWJ = 0x200D"
definition kKeycap :: u32 where "kKeycap = 0x20E3"

text \<open>\<^verbatim>\<open>std::isdigit\<close> and \<^verbatim>\<open>std::isalnum(c) || c == '_'\<close> in the C locale.\<close>

definition isdigit :: "char \<Rightarrow> bool" where
  "isdigit c \<longleftrightarrow> byte_of c \<ge> 48 \<and> byte_of c \<le> 57"

definition word_char :: "char \<Rightarrow> bool" where
  "word_char c \<longleftrightarrow> isdigit c \<or> (byte_of c \<ge> 65 \<and> byte_of c \<le> 90) \<or>
     (byte_of c \<ge> 97 \<and> byte_of c \<le> 122) \<or> c = CHR ''_''"

text \<open>\<open>match_custom\<close>: the bytes consumed, the name and the id.\<close>

definition match_custom :: "string \<Rightarrow> (nat \<times> string \<times> string) option" where
  "match_custom p =
     (if p = [] \<or> hd p \<noteq> CHR ''<'' then None
      else let q = tl p; q = (if q \<noteq> [] \<and> hd q = CHR ''a'' then tl q else q) in
      if q = [] \<or> hd q \<noteq> CHR '':'' then None
      else let q = tl q; name = takeWhile word_char q; q = dropWhile word_char q in
      if name = [] \<or> q = [] \<or> hd q \<noteq> CHR '':'' then None
      else let q = tl q; ident = takeWhile isdigit q; q = dropWhile isdigit q in
      if ident = [] \<or> q = [] \<or> hd q \<noteq> CHR ''>'' then None
      else Some (length p - length (tl q), name, ident))"

lemma decode_utf8_len: "decode_utf8 s = Some (cp, n) \<Longrightarrow> 0 < n \<and> n \<le> length s"
  by (auto simp: decode_utf8_def Let_def Suc_le_eq split: list.splits if_splits option.splits)

text \<open>
  The loop of \<open>match_unicode\<close> that extends a sequence: the code points so far and the
  position reached.
\<close>

function extend_seq :: "u32 list \<Rightarrow> string \<Rightarrow> u32 list \<times> string" where
  "extend_seq cps q =
     (case decode_utf8 q of
        None \<Rightarrow> (cps, q)
      | Some (cp2, n2) \<Rightarrow>
          if is_skin_tone cp2 \<or> cp2 = kVS16 \<or> is_tag cp2 then extend_seq (cps @ [cp2]) (drop n2 q)
          else if cp2 = kZWJ then
            (case decode_utf8 (drop n2 q) of
               None \<Rightarrow> (cps, q)
             | Some (cp3, n3) \<Rightarrow>
                 if always_emoji cp3 \<or> vs16_gated cp3
                 then extend_seq (cps @ [kZWJ, cp3]) (drop (n2 + n3) q)
                 else (cps, q))
          else (cps, q))"
  by pat_completeness auto
termination
  by (relation "measure (\<lambda>(cps, q). length q)")
    (auto dest!: decode_utf8_len, (use decode_utf8_len in \<open>fastforce simp: decode_utf8_def\<close>)?)

declare extend_seq.simps [simp del]

definition match_unicode :: "string \<Rightarrow> (nat \<times> u32 list) option" where
  "match_unicode p =
     (case decode_utf8 p of
        None \<Rightarrow> None
      | Some (cp, n) \<Rightarrow>
          let q = drop n p in
          if (cp \<ge> 48 \<and> cp \<le> 57) \<or> cp = 35 \<or> cp = 42 then
            (let (r, d) = (case decode_utf8 q of
                  Some (cp2, n2) \<Rightarrow>
                    if cp2 = kVS16 then (drop n2 q, decode_utf8 (drop n2 q)) else (q, decode_utf8 q)
                | None \<Rightarrow> (q, decode_utf8 q)) in
             case d of
               None \<Rightarrow> None
             | Some (cp2, n2) \<Rightarrow>
                 if cp2 \<noteq> kKeycap then None
                 else Some (length p - length (drop n2 r), [cp, kVS16, cp2]))
          else if is_regional_indicator cp then
            (case decode_utf8 q of
               Some (cp2, n2) \<Rightarrow>
                 if is_regional_indicator cp2 then Some (length p - length (drop n2 q), [cp, cp2])
                 else Some (length p - length q, [cp])
             | None \<Rightarrow> Some (length p - length q, [cp]))
          else if always_emoji cp then
            (case extend_seq [cp] q of (cps, r) \<Rightarrow> Some (length p - length r, cps))
          else if vs16_gated cp then
            (case decode_utf8 q of
               None \<Rightarrow> None
             | Some (cp2, n2) \<Rightarrow>
                 if cp2 \<noteq> kVS16 then None
                 else (case extend_seq [cp, kVS16] (drop n2 q) of
                         (cps, r) \<Rightarrow> Some (length p - length r, cps)))
          else None)"

text \<open>\<^verbatim>\<open>snprintf("%x")\<close>\<close>

definition hex_digit :: "nat \<Rightarrow> char" where
  "hex_digit d = ''0123456789abcdef'' ! d"

fun hex_of :: "nat \<Rightarrow> string" where
  "hex_of n = (if n < 16 then [hex_digit n] else hex_of (n div 16) @ [hex_digit (n mod 16)])"

declare hex_of.simps [simp del]

definition twemoji_stem :: "u32 list \<Rightarrow> string" where
  "twemoji_stem cps =
     (let has_zwj = kZWJ \<in> set cps in
      foldl (\<lambda>stem cp.
          if cp = kVS16 \<and> \<not> has_zwj then stem
          else (if stem \<noteq> [] then stem @ ''-'' else stem) @ hex_of (unat cp))
        [] cps)"

record run =
  run_text :: string
  run_key :: string

definition mk_run :: "string \<Rightarrow> string \<Rightarrow> run" where
  "mk_run t k = \<lparr>run_text = t, run_key = k\<rparr>"

definition flush :: "string \<Rightarrow> run list" where
  "flush t = (if t \<noteq> [] then [mk_run t []] else [])"

definition text_len :: "string \<Rightarrow> nat" where
  "text_len p = (case decode_utf8 p of Some (cp, n) \<Rightarrow> n | None \<Rightarrow> 1)"

text \<open>What the loop of \<open>split_runs\<close> finds at the current position.\<close>

datatype found = Custom nat string string | Unicode nat "u32 list" | Plain nat

definition find_at :: "string \<Rightarrow> found" where
  "find_at p =
     (case (if hd p = CHR ''<'' then match_custom p else None) of
        Some (n, name, ident) \<Rightarrow> Custom n name ident
      | None \<Rightarrow>
          (case match_unicode p of
             Some (n, cps) \<Rightarrow> Unicode n cps
           | None \<Rightarrow> Plain (text_len p)))"

fun found_len :: "found \<Rightarrow> nat" where
  "found_len (Custom n name ident) = n"
| "found_len (Unicode n cps) = n"
| "found_len (Plain n) = n"

subsection \<open>Every match consumes bytes of the acc\<close>

lemma extend_length: "length (snd (extend_seq cps q)) \<le> length q"
proof (induction cps q rule: extend_seq.induct)
  case (1 cps q)
  show ?case
  proof (cases "decode_utf8 q")
    case None
    then show ?thesis by (simp add: extend_seq.simps)
  next
    case (Some d)
    obtain cp2 n2 where d: "d = (cp2, n2)" by (cases d)
    consider (mark) "is_skin_tone cp2 \<or> cp2 = kVS16 \<or> is_tag cp2"
      | (zwj) cp3 n3 where "\<not> (is_skin_tone cp2 \<or> cp2 = kVS16 \<or> is_tag cp2)" "cp2 = kZWJ"
          "decode_utf8 (drop n2 q) = Some (cp3, n3)" "always_emoji cp3 \<or> vs16_gated cp3"
      | (stop) "extend_seq cps q = (cps, q)"
      using Some d extend_seq.simps [of cps q] by (auto split: option.splits if_splits)
    then show ?thesis
    proof cases
      case mark
      then have "extend_seq cps q = extend_seq (cps @ [cp2]) (drop n2 q)"
        using Some d by (subst extend_seq.simps) simp
      then show ?thesis using "1.IH"(1) [OF Some d [symmetric] mark] by simp
    next
      case zwj
      then have "extend_seq cps q = extend_seq (cps @ [kZWJ, cp3]) (drop (n2 + n3) q)"
        using Some d by (subst extend_seq.simps) simp
      then show ?thesis
        using "1.IH"(2) [OF Some d [symmetric] zwj(1,2,3) refl zwj(4)] by simp
    qed simp
  qed
qed

lemma extend_length_eq: "extend_seq cps q = (cps', r) \<Longrightarrow> length r \<le> length q"
  using extend_length [of cps q] by simp

lemma match_unicode_len:
  assumes "match_unicode p = Some (n, cps)"
  shows "0 < n \<and> n \<le> length p"
proof -
  obtain cp k where d: "decode_utf8 p = Some (cp, k)"
    using assms by (auto simp: match_unicode_def split: option.splits)
  have k: "0 < k" "k \<le> length p" using decode_utf8_len [OF d] by auto
  show ?thesis
    using assms d k
    by (auto simp: match_unicode_def Let_def split: option.splits prod.splits if_splits
        dest!: decode_utf8_len extend_length_eq)
qed

text \<open>The markup \<open>match_custom\<close> accepts.\<close>

definition custom_markup :: "bool \<Rightarrow> string \<Rightarrow> string \<Rightarrow> string" where
  "custom_markup anim name ident =
     ''<'' @ (if anim then ''a'' else []) @ '':'' @ name @ '':'' @ ident @ ''>''"

definition wf_markup :: "string \<Rightarrow> string \<Rightarrow> bool" where
  "wf_markup name ident \<longleftrightarrow>
     name \<noteq> [] \<and> list_all word_char name \<and> ident \<noteq> [] \<and> list_all isdigit ident"

lemma match_custom_sound:
  assumes "match_custom p = Some (n, name, ident)"
  shows "wf_markup name ident \<and>
    (\<exists>anim. n = length (custom_markup anim name ident) \<and> p = custom_markup anim name ident @ drop n p)"
proof -
  define q1 where "q1 = tl p"
  define anim where "anim \<longleftrightarrow> q1 \<noteq> [] \<and> hd q1 = CHR ''a''"
  define q2 where "q2 = (if q1 \<noteq> [] \<and> hd q1 = CHR ''a'' then tl q1 else q1)"
  define q3 where "q3 = dropWhile word_char (tl q2)"
  define q4 where "q4 = dropWhile isdigit (tl q3)"
  note def = match_custom_def [of p, unfolded Let_def, folded q1_def, folded q2_def,
      folded q3_def, folded q4_def]
  have h: "p \<noteq> []" "hd p = CHR ''<''" "q2 \<noteq> []" "hd q2 = CHR '':''"
    "q3 \<noteq> []" "hd q3 = CHR '':''" "q4 \<noteq> []" "hd q4 = CHR ''>''"
    and nm: "name = takeWhile word_char (tl q2)" "name \<noteq> []"
    and idt: "ident = takeWhile isdigit (tl q3)" "ident \<noteq> []"
    and n: "n = length p - length (tl q4)"
    using assms def by (auto split: if_split_asm)
  have p1: "p = CHR ''<'' # q1" unfolding q1_def using h(1,2) by (metis list.collapse)
  have p2: "q1 = (if anim then ''a'' else []) @ q2"
    unfolding anim_def q2_def by (auto simp: neq_Nil_conv)
  have p3: "q2 = CHR '':'' # name @ q3"
    unfolding nm q3_def takeWhile_dropWhile_id using h(3,4) by (metis list.collapse)
  have p4: "q3 = CHR '':'' # ident @ q4"
    unfolding idt q4_def takeWhile_dropWhile_id using h(5,6) by (metis list.collapse)
  have p5: "q4 = CHR ''>'' # tl q4" using h(7,8) by (metis list.collapse)
  have p: "p = custom_markup anim name ident @ tl q4"
    unfolding custom_markup_def
    by (subst p1, subst p2, subst p3, subst p4, subst p5) simp
  then have "n = length (custom_markup anim name ident)"
    using n arg_cong [OF p, of length] by simp
  moreover from this p have "p = custom_markup anim name ident @ drop n p"
    by (metis append_eq_conv_conj)
  moreover have "wf_markup name ident"
    using nm(2) idt(2) unfolding wf_markup_def
    by (auto simp: nm(1) idt(1) list_all_iff dest: set_takeWhileD)
  ultimately show ?thesis by blast
qed

lemma match_custom_len:
  assumes "match_custom p = Some (n, name, ident)"
  shows "0 < n \<and> n \<le> length p"
  using match_custom_sound [OF assms]
  by (auto simp: custom_markup_def dest: arg_cong [where f = length])

lemma text_len_pos: "p \<noteq> [] \<Longrightarrow> 0 < text_len p \<and> text_len p \<le> length p"
  by (cases p) (auto simp: text_len_def Suc_le_eq split: option.splits dest: decode_utf8_len)

lemma found_len_pos: "p \<noteq> [] \<Longrightarrow> 0 < found_len (find_at p) \<and> found_len (find_at p) \<le> length p"
  using match_custom_len match_unicode_len text_len_pos
  by (auto simp: find_at_def split: option.splits if_splits)

subsection \<open>Splitting\<close>

text \<open>The loop of \<open>split_runs\<close>: the pending text and the position.\<close>

function split_loop :: "string \<Rightarrow> string \<Rightarrow> run list" where
  "split_loop acc p =
     (if p = [] then flush acc
      else let f = find_at p; r = drop (found_len f) p in
        case f of
          Custom n name ident \<Rightarrow>
            flush acc @ mk_run ('':'' @ name @ '':'') (''emoji.c.'' @ ident) # split_loop [] r
        | Unicode n cps \<Rightarrow>
            flush acc @ mk_run (take n p) (''emoji.u.'' @ twemoji_stem cps) # split_loop [] r
        | Plain n \<Rightarrow> split_loop (acc @ take n p) r)"
  by pat_completeness auto
termination
  by (relation "measure (\<lambda>(acc, p). length p)") (auto simp: found_len_pos)

declare split_loop.simps [simp del]

definition split_runs :: "string \<Rightarrow> run list" where
  "split_runs s = split_loop [] s"

definition url_for :: "string \<Rightarrow> string" where
  "url_for key =
     (if take 8 key = ''emoji.c.'' \<and> length key > 8
      then ''https://cdn.discordapp.com/emojis/'' @ drop 8 key @ ''.png?size=64''
      else if take 8 key = ''emoji.u.'' \<and> length key > 8
      then ''https://cdn.jsdelivr.net/gh/jdecked/twemoji@v17.0.3/assets/72x72/'' @ drop 8 key @ ''.png''
      else [])"

section \<open>Restoring markup\<close>

text \<open>
  The harvest loop: name to the whole markup, an association list whose first entry for a name
  is the one that counts, so the last occurrence in the text wins.
\<close>

function harvest :: "string \<Rightarrow> (string \<times> string) list \<Rightarrow> (string \<times> string) list" where
  "harvest p markup =
     (if p = [] then markup
      else case match_custom p of
        Some (n, name, ident) \<Rightarrow> harvest (drop n p) ((name, take n p) # markup)
      | None \<Rightarrow> harvest (tl p) markup)"
  by pat_completeness auto
termination
  by (relation "measure (\<lambda>(p, markup). length p)") (auto dest: match_custom_len)

declare harvest.simps [simp del]

text \<open>The rewriting loop, with what it emits at each position.\<close>

definition shortcode_at :: "(string \<rightharpoonup> string) \<Rightarrow> string \<Rightarrow> (string \<times> string) option" where
  "shortcode_at markup p =
     (if hd p = CHR '':'' then
        let name = takeWhile word_char (tl p); q = dropWhile word_char (tl p) in
        if q \<noteq> [] \<and> hd q = CHR '':'' \<and> name \<noteq> []
        then map_option (Pair name) (markup name) else None
      else None)"

function restore_loop :: "(string \<rightharpoonup> string) \<Rightarrow> string \<Rightarrow> string" where
  "restore_loop markup p =
     (if p = [] then []
      else case shortcode_at markup p of
        Some (name, m) \<Rightarrow> m @ restore_loop markup (drop (length name + 2) p)
      | None \<Rightarrow> hd p # restore_loop markup (tl p))"
  by pat_completeness auto
termination
  by (relation "measure (\<lambda>(markup, p). length p)") auto

declare restore_loop.simps [simp del]

definition restore_custom_markup :: "string \<Rightarrow> string \<Rightarrow> string" where
  "restore_custom_markup display raw =
     (let markup = harvest raw [] in
      if markup = [] then display else restore_loop (map_of markup) display)"

section \<open>Lemmas\<close>

lemma byte_of_eq_iff [simp]: "byte_of c = byte_of d \<longleftrightarrow> c = d"
  by (metis chr_of_byte_of)

lemma not_word_char_colon [simp]: "\<not> word_char CHR '':''"
  by (simp add: word_char_def isdigit_def byte_of_def)

lemma not_isdigit_close [simp]: "\<not> isdigit CHR ''>''"
  by (simp add: isdigit_def byte_of_def)

lemma takeWhile_stop:
  "list_all P xs \<Longrightarrow> \<not> P y \<Longrightarrow> takeWhile P (xs @ y # ys) = xs \<and> dropWhile P (xs @ y # ys) = y # ys"
  by (induction xs) auto

lemma match_custom_complete:
  assumes "wf_markup name ident"
  shows "match_custom (custom_markup anim name ident @ rest)
    = Some (length (custom_markup anim name ident), name, ident)"
proof -
  have n: "takeWhile word_char (name @ CHR '':'' # xs) = name"
    "dropWhile word_char (name @ CHR '':'' # xs) = CHR '':'' # xs" for xs
    using takeWhile_stop [of word_char name "CHR '':''" xs] assms by (auto simp: wf_markup_def)
  have i: "takeWhile isdigit (ident @ CHR ''>'' # xs) = ident"
    "dropWhile isdigit (ident @ CHR ''>'' # xs) = CHR ''>'' # xs" for xs
    using takeWhile_stop [of isdigit ident "CHR ''>''" xs] assms by (auto simp: wf_markup_def)
  show ?thesis
    using assms by (simp add: match_custom_def custom_markup_def wf_markup_def n i)
qed

text \<open>A markup token opens with a character that starts no unicode sequence.\<close>

lemma match_unicode_open: "match_unicode (CHR ''<'' # r) = None"
  by (simp add: match_unicode_def decode_utf8_def byte_of_def is_regional_indicator_def
      always_emoji_def vs16_gated_def)

lemma extend_prefix: "\<exists>rest. fst (extend_seq cps q) = cps @ rest"
proof (induction cps q rule: extend_seq.induct)
  case (1 cps q)
  show ?case
  proof (cases "fst (extend_seq cps q) = cps")
    case False
    then obtain cp2 n2 where d: "decode_utf8 q = Some (cp2, n2)"
      using extend_seq.simps [of cps q] by (auto split: option.splits)
    consider (mark) "is_skin_tone cp2 \<or> cp2 = kVS16 \<or> is_tag cp2"
      | (zwj) cp3 n3 where "\<not> (is_skin_tone cp2 \<or> cp2 = kVS16 \<or> is_tag cp2)" "cp2 = kZWJ"
          "decode_utf8 (drop n2 q) = Some (cp3, n3)" "always_emoji cp3 \<or> vs16_gated cp3"
      using d False extend_seq.simps [of cps q] by (auto split: option.splits if_splits)
    then show ?thesis
    proof cases
      case mark
      then have "extend_seq cps q = extend_seq (cps @ [cp2]) (drop n2 q)"
        using d by (subst extend_seq.simps) simp
      then show ?thesis using "1.IH"(1) [OF d refl mark] by auto
    next
      case zwj
      then have "extend_seq cps q = extend_seq (cps @ [kZWJ, cp3]) (drop (n2 + n3) q)"
        using d by (subst extend_seq.simps) simp
      then show ?thesis using "1.IH"(2) [OF d refl zwj(1,2,3) refl zwj(4)] by auto
    qed
  qed simp
qed

lemma extend_prefix_eq: "extend_seq cps q = (cps', r) \<Longrightarrow> \<exists>rest. cps' = cps @ rest"
  using extend_prefix [of cps q] by simp

lemma match_unicode_head:
  assumes "match_unicode p = Some (n, cps)"
  shows "\<exists>cp rest. cps = cp # rest \<and> cp \<noteq> kVS16"
proof -
  have "\<not> always_emoji kVS16" "\<not> vs16_gated kVS16" "\<not> is_regional_indicator kVS16"
    "\<not> kVS16 \<le> 57" "kVS16 \<noteq> 35" "kVS16 \<noteq> 42"
    by (simp_all add: kVS16_def always_emoji_def vs16_gated_def is_regional_indicator_def)
  then show ?thesis
    using assms
    by (auto simp: match_unicode_def Let_def split: option.splits prod.splits if_splits
        dest!: extend_prefix_eq)
qed

lemma hex_of_nonempty: "hex_of n \<noteq> []"
  by (subst hex_of.simps) simp

lemma foldl_stays_nonempty:
  "(\<And>s x. s \<noteq> [] \<Longrightarrow> f s x \<noteq> []) \<Longrightarrow> s \<noteq> [] \<Longrightarrow> foldl f s xs \<noteq> []"
  by (induction xs arbitrary: s) auto

lemma stem_nonempty: "cp \<noteq> kVS16 \<Longrightarrow> twemoji_stem (cp # rest) \<noteq> []"
  unfolding twemoji_stem_def Let_def
  by (simp, rule foldl_stays_nonempty) (auto simp: hex_of_nonempty)

text \<open>Which slice of the input a run stands for.\<close>

definition describes :: "run \<Rightarrow> string \<Rightarrow> bool" where
  "describes r sl \<longleftrightarrow>
     (if run_key r = [] then run_text r = sl \<and> sl \<noteq> []
      else case match_custom sl of
        Some (n, name, ident) \<Rightarrow>
          n = length sl \<and> run_text r = '':'' @ name @ '':'' \<and> run_key r = ''emoji.c.'' @ ident
      | None \<Rightarrow>
          run_text r = sl \<and> take 8 (run_key r) = ''emoji.u.'' \<and> length (run_key r) > 8)"

lemma describes_text: "t \<noteq> [] \<Longrightarrow> describes (mk_run t []) t"
  by (simp add: describes_def mk_run_def)

lemma describes_custom:
  assumes "match_custom p = Some (n, name, ident)"
  shows "describes (mk_run ('':'' @ name @ '':'') (''emoji.c.'' @ ident)) (take n p)"
proof -
  from match_custom_sound [OF assms] obtain anim where
    wf: "wf_markup name ident" and n: "n = length (custom_markup anim name ident)"
    and p: "p = custom_markup anim name ident @ drop n p" by blast
  have "take n p = custom_markup anim name ident" using n p by (metis append_eq_conv_conj)
  then show ?thesis
    using match_custom_complete [OF wf, of anim "[]"] by (simp add: describes_def mk_run_def)
qed

lemma describes_unicode:
  assumes "match_unicode p = Some (n, cps)"
  shows "describes (mk_run (take n p) (''emoji.u.'' @ twemoji_stem cps)) (take n p)"
proof -
  have "match_custom (take n p) = None"
  proof (rule ccontr)
    assume "match_custom (take n p) \<noteq> None"
    then have "take n p \<noteq> []" "hd (take n p) = CHR ''<''"
      by (auto simp: match_custom_def split: if_splits)
    then obtain r where "p = CHR ''<'' # r" by (cases p; cases n) auto
    with assms show False by (simp add: match_unicode_open)
  qed
  moreover have "twemoji_stem cps \<noteq> []"
    using match_unicode_head [OF assms] stem_nonempty by auto
  ultimately show ?thesis by (simp add: describes_def mk_run_def)
qed

lemma find_at_cases:
  obtains n name ident where "find_at p = Custom n name ident" "match_custom p = Some (n, name, ident)"
  | n cps where "find_at p = Unicode n cps" "match_unicode p = Some (n, cps)"
  | n where "find_at p = Plain n" "n = text_len p"
proof (cases "if hd p = CHR ''<'' then match_custom p else None")
  case (Some t)
  then show ?thesis
    using that(1) by (cases t) (auto simp: find_at_def split: if_split_asm)
next
  case none: None
  show ?thesis
    using that(2,3) none by (cases "match_unicode p") (auto simp: find_at_def)
qed

lemma cover_flush:
  "\<exists>sl. concat sl = acc \<and> list_all2 describes (flush acc) sl"
  by (cases "acc = []") (auto simp: flush_def intro!: exI [of _ "[acc]"] describes_text)

lemma cover_step:
  assumes "describes r (take n p)" and "concat sl = drop n p" and "list_all2 describes rs sl"
  shows "\<exists>sl. concat sl = acc @ p \<and> list_all2 describes (flush acc @ r # rs) sl"
proof -
  obtain tl where t: "concat tl = acc" "list_all2 describes (flush acc) tl"
    using cover_flush by blast
  show ?thesis
    using t assms by (intro exI [of _ "tl @ take n p # sl"]) (simp add: list_all2_appendI)
qed

lemma split_loop_cover:
  "\<exists>sl. concat sl = acc @ p \<and> list_all2 describes (split_loop acc p) sl"
proof (induction acc p rule: split_loop.induct)
  case (1 acc p)
  show ?case
  proof (cases "p = []")
    case True
    then show ?thesis using cover_flush by (simp add: split_loop.simps)
  next
    case False
    show ?thesis
    proof (cases p rule: find_at_cases)
      case (1 n name ident)
      with "1.IH"(1) [OF False refl refl 1(1)] obtain sl where
        "concat sl = drop n p" "list_all2 describes (split_loop [] (drop n p)) sl" by auto
      from cover_step [OF describes_custom [OF 1(2)] this] show ?thesis
        using False 1(1) by (simp add: split_loop.simps [of acc p])
    next
      case (2 n cps)
      with "1.IH"(2) [OF False refl refl 2(1)] obtain sl where
        "concat sl = drop n p" "list_all2 describes (split_loop [] (drop n p)) sl" by auto
      from cover_step [OF describes_unicode [OF 2(2)] this] show ?thesis
        using False 2(1) by (simp add: split_loop.simps [of acc p])
    next
      case (3 n)
      with "1.IH"(3) [OF False refl refl 3(1)] show ?thesis
        using False by (simp add: split_loop.simps [of acc p])
    qed
  qed
qed

text \<open>Text runs are maximal: a run of text is followed by an emoji.\<close>

definition apart :: "run \<Rightarrow> run \<Rightarrow> bool" where
  "apart r r' \<longleftrightarrow> run_key r \<noteq> [] \<or> run_key r' \<noteq> []"

lemma successively_flush:
  "run_key r \<noteq> [] \<Longrightarrow> successively apart rs \<Longrightarrow> successively apart (flush acc @ r # rs)"
  by (cases rs) (auto simp: flush_def apart_def)

lemma split_loop_apart: "successively apart (split_loop acc p)"
proof (induction acc p rule: split_loop.induct)
  case (1 acc p)
  show ?case
  proof (cases "p = []")
    case True
    then show ?thesis by (simp add: split_loop.simps flush_def)
  next
    case False
    show ?thesis
    proof (cases p rule: find_at_cases)
      case (1 n name ident)
      with "1.IH"(1) [OF False refl refl 1(1)] show ?thesis
        using False by (simp add: split_loop.simps [of acc p] mk_run_def successively_flush)
    next
      case (2 n cps)
      with "1.IH"(2) [OF False refl refl 2(1)] show ?thesis
        using False by (simp add: split_loop.simps [of acc p] mk_run_def successively_flush)
    next
      case (3 n)
      with "1.IH"(3) [OF False refl refl 3(1)] show ?thesis
        using False by (simp add: split_loop.simps [of acc p])
    qed
  qed
qed

lemma describes_url: "describes r sl \<Longrightarrow> url_for (run_key r) = [] \<longleftrightarrow> run_key r = []"
  using match_custom_sound [of sl]
  by (auto simp: describes_def url_for_def wf_markup_def split: option.splits if_splits)

subsection \<open>Restoring\<close>

text \<open>The pieces of the display text: a copied character, or a shortcode and its markup.\<close>

datatype seg = Copied char | Shortcode string string

fun shown :: "seg \<Rightarrow> string" where
  "shown (Copied c) = [c]"
| "shown (Shortcode name m) = '':'' @ name @ '':''"

fun restored :: "seg \<Rightarrow> string" where
  "restored (Copied c) = [c]"
| "restored (Shortcode name m) = m"

text \<open>The markup put in for a shortcode stands in the raw text and carries its name.\<close>

fun from_raw :: "string \<Rightarrow> seg \<Rightarrow> bool" where
  "from_raw raw (Copied c) \<longleftrightarrow> True"
| "from_raw raw (Shortcode name m) \<longleftrightarrow>
     sublist m raw \<and>
     (case match_custom m of Some (n, name', ident) \<Rightarrow> n = length m \<and> name' = name | None \<Rightarrow> False)"

lemma from_raw_match:
  assumes "match_custom p = Some (n, name, ident)" and "suffix p raw"
  shows "from_raw raw (Shortcode name (take n p))"
proof -
  from match_custom_sound [OF assms(1)] obtain anim where
    wf: "wf_markup name ident" and n: "n = length (custom_markup anim name ident)"
    and p: "p = custom_markup anim name ident @ drop n p" by blast
  have t: "take n p = custom_markup anim name ident" using n p by (metis append_eq_conv_conj)
  have "sublist (take n p) raw"
    using assms(2) by (meson prefix_imp_sublist sublist_order.order.trans suffix_imp_sublist take_is_prefix)
  then show ?thesis
    using t match_custom_complete [OF wf, of anim "[]"] by simp
qed

lemma harvest_from_raw:
  "suffix p raw \<Longrightarrow> \<forall>(name, m) \<in> set mk. from_raw raw (Shortcode name m) \<Longrightarrow>
     \<forall>(name, m) \<in> set (harvest p mk). from_raw raw (Shortcode name m)"
proof (induction p mk rule: harvest.induct)
  case (1 p mk)
  show ?case
  proof (cases "p = []")
    case True
    then show ?thesis using 1 by (simp add: harvest.simps)
  next
    case False
    show ?thesis
    proof (cases "match_custom p")
      case None
      moreover have "suffix (tl p) raw" using 1(3) by (meson suffix_order.trans suffix_tl)
      ultimately show ?thesis
        using 1(1) [OF False None] 1(4) False by (simp add: harvest.simps [of p])
    next
      case (Some t)
      obtain n name ident where t: "t = (n, name, ident)" by (cases t)
      have "suffix (drop n p) raw" using 1(3) by (meson suffix_drop suffix_order.trans)
      moreover have "from_raw raw (Shortcode name (take n p))"
        using Some t 1(3) by (simp only: from_raw_match)
      ultimately show ?thesis
        using 1(2) [OF False Some t [symmetric] refl] 1(4) False Some t
        by (simp add: harvest.simps [of p] del: from_raw.simps)
    qed
  qed
qed

lemma shortcode_at_split:
  assumes "shortcode_at mk p = Some (name, m)" and "p \<noteq> []"
  shows "p = shown (Shortcode name m) @ drop (length name + 2) p \<and> mk name = Some m"
proof -
  let ?q = "dropWhile word_char (tl p)"
  from assms have p: "p = CHR '':'' # tl p" and nm: "name = takeWhile word_char (tl p)"
    and q: "?q \<noteq> []" "hd ?q = CHR '':''" and m: "mk name = Some m"
    by (auto simp: shortcode_at_def Let_def simp del: dropWhile_eq_Nil_conv takeWhile_eq_Nil_iff
        split: if_splits) (metis list.collapse)
  have "tl p = name @ CHR '':'' # tl ?q"
    unfolding nm using q takeWhile_dropWhile_id [of word_char "tl p"] by (metis list.collapse)
  then have "p = '':'' @ name @ '':'' @ tl ?q" using p by simp
  then show ?thesis using m by (metis (no_types, lifting) append.assoc append_eq_conv_conj
    length_Cons length_append list.size(3) shown.simps(2) add_2_eq_Suc' add_Suc plus_1_eq_Suc One_nat_def add_Suc_right add.right_neutral)
qed

lemma restore_loop_segs:
  "\<exists>segs. concat (map shown segs) = p \<and> concat (map restored segs) = restore_loop mk p \<and>
     list_all (\<lambda>sg. case sg of Copied c \<Rightarrow> True | Shortcode name m \<Rightarrow> mk name = Some m) segs"
proof (induction mk p rule: restore_loop.induct)
  case (1 mk p)
  show ?case
  proof (cases "p = []")
    case True
    then show ?thesis by (intro exI [of _ "[]"]) (simp add: restore_loop.simps)
  next
    case False
    show ?thesis
    proof (cases "shortcode_at mk p")
      case None
      from "1.IH"(1) [OF False None] obtain segs where
        "concat (map shown segs) = tl p" "concat (map restored segs) = restore_loop mk (tl p)"
        "list_all (\<lambda>sg. case sg of Copied c \<Rightarrow> True | Shortcode name m \<Rightarrow> mk name = Some m) segs"
        by blast
      then show ?thesis
        using False None
        by (intro exI [of _ "Copied (hd p) # segs"]) (simp add: restore_loop.simps [of mk p])
    next
      case (Some t)
      obtain name m where t: "t = (name, m)" by (cases t)
      from "1.IH"(2) [OF False Some t [symmetric]] obtain segs where
        "concat (map shown segs) = drop (length name + 2) p"
        "concat (map restored segs) = restore_loop mk (drop (length name + 2) p)"
        "list_all (\<lambda>sg. case sg of Copied c \<Rightarrow> True | Shortcode name m \<Rightarrow> mk name = Some m) segs"
        by blast
      then show ?thesis
        using False Some t shortcode_at_split [OF Some [unfolded t] False]
        by (intro exI [of _ "Shortcode name m # segs"]) (simp add: restore_loop.simps [of mk p])
    qed
  qed
qed

section \<open>Properties\<close>

text \<open>
  Splitting loses nothing: the text is cut into consecutive slices, one per run, and each
  run is its slice verbatim (text, or a unicode emoji with a non-empty stem) or a custom-emoji
  token whose name and id it carries; two text runs are never adjacent.
\<close>

theorem split_runs_covers:
  "(\<exists>sl. concat sl = s \<and> list_all2 describes (split_runs s) sl) \<and>
     successively apart (split_runs s)"
  using split_loop_cover [of "[]" s] split_loop_apart [of "[]" s] by (simp add: split_runs_def)

text \<open>
  The contract between the overlay, which draws runs, and the host, which fetches images:
  for every run of a text, a download address exists exactly when the run is an emoji.
\<close>

theorem split_runs_fetchable:
  "list_all (\<lambda>r. url_for (run_key r) = [] \<longleftrightarrow> run_key r = []) (split_runs s)"
proof -
  obtain sl where "list_all2 describes (split_runs s) sl"
    using split_loop_cover [of "[]" s] by (auto simp: split_runs_def)
  then show ?thesis
    by (induction rule: list_all2_induct) (auto dest: describes_url)
qed

text \<open>
  Restoring the markup rewrites shortcodes and nothing else: the display text is a sequence
  of copied characters and \<^verbatim>\<open>:name:\<close> shortcodes, the result is the same sequence with each of
  those shortcodes replaced by a complete markup token of that name taken from the raw text.
\<close>

theorem restore_rewrites_shortcodes:
  "\<exists>segs. concat (map shown segs) = display \<and>
     concat (map restored segs) = restore_custom_markup display raw \<and>
     list_all (from_raw raw) segs"
proof (cases "harvest raw [] = []")
  case True
  then show ?thesis
    by (intro exI [of _ "map Copied display"])
      (simp add: restore_custom_markup_def comp_def concat_map_singleton list_all_iff)
next
  case False
  obtain segs where
    "concat (map shown segs) = display"
    "concat (map restored segs) = restore_loop (map_of (harvest raw [])) display"
    and a: "list_all (\<lambda>sg. case sg of Copied c \<Rightarrow> True
       | Shortcode name m \<Rightarrow> map_of (harvest raw []) name = Some m) segs"
    using restore_loop_segs [of display "map_of (harvest raw [])"] by blast
  moreover have "from_raw raw sg" if "sg \<in> set segs" for sg
  proof (cases sg)
    case (Shortcode name m)
    with a that have "map_of (harvest raw []) name = Some m" by (fastforce simp: list_all_iff)
    then have "(name, m) \<in> set (harvest raw [])" by (rule map_of_SomeD)
    then show ?thesis
      using harvest_from_raw [of raw raw "[]"] Shortcode by auto
  qed simp
  ultimately show ?thesis
    using False by (auto simp: restore_custom_markup_def list_all_iff)
qed

text \<open>
  End to end: a shortcode whose markup is in the raw message becomes the image run of that
  emoji, with the shortcode as its fallback text.
\<close>

theorem restored_shortcode_is_image:
  assumes "name \<noteq> []" "list_all word_char name" and "ident \<noteq> []" "list_all isdigit ident"
  shows "split_runs (restore_custom_markup ('':'' @ name @ '':'') (custom_markup anim name ident))
    = [mk_run ('':'' @ name @ '':'') (''emoji.c.'' @ ident)]"
proof -
  let ?m = "custom_markup anim name ident" and ?d = "'':'' @ name @ '':''"
  have wf: "wf_markup name ident" using assms by (simp add: wf_markup_def)
  have m: "match_custom ?m = Some (length ?m, name, ident)"
    using match_custom_complete [OF wf, of anim "[]"] by simp
  have m0: "?m \<noteq> []" "hd ?m = CHR ''<''" by (simp_all add: custom_markup_def)
  have h: "harvest ?m [] = [(name, ?m)]"
    using m m0 by (simp add: harvest.simps)
  have tw: "takeWhile word_char (name @ '':'') = name" "dropWhile word_char (name @ '':'') = '':''"
    using takeWhile_stop [of word_char name "CHR '':''" "[]"] assms by auto
  have "shortcode_at [name \<mapsto> ?m] ?d = Some (name, ?m)"
    using assms(1) tw by (simp add: shortcode_at_def)
  then have r: "restore_custom_markup ?d ?m = ?m"
    using h by (simp add: restore_custom_markup_def restore_loop.simps)
  have "find_at ?m = Custom (length ?m) name ident" using m m0 by (simp add: find_at_def)
  then show ?thesis
    using m0 r by (simp add: split_runs_def split_loop.simps flush_def)
qed

theorem restored_shortcode_is_image_witness:
  "split_runs (restore_custom_markup '':wave:'' ''<a:wave:42>'') = [mk_run '':wave:'' ''emoji.c.42'']"
  using restored_shortcode_is_image [of "''wave''" "''42''" True]
  by (simp add: custom_markup_def word_char_def isdigit_def byte_of_def)

end
