(* ===== verification/RpcMessages.thy ===== *)
theory RpcMessages
  imports State Emoji
begin

text \<open>
  The messages of the Discord RPC connection (\<^verbatim>\<open>src/host/discord/rpc_messages.hpp\<close>,
  \<^verbatim>\<open>rpc_messages.cpp\<close>): the commands the host builds, each with its nonce, and the
  defensive parsers that turn a dispatch frame or a reply into typed values.
\<close>

section \<open>Data\<close>

record voice_state =
  v_user_id :: string
  v_nick :: string
  v_avatar_hash :: string
  v_mute :: bool
  v_deaf :: bool
  v_self_mute :: bool
  v_self_deaf :: bool

datatype kind =
    VoiceCreate | VoiceUpdate | VoiceDelete | SpeakingStart | SpeakingStop
  | ChannelSelect | NotificationKind

record rpc_event =
  e_kind :: kind
  e_channel_id :: string
  e_voice :: voice_state
  e_user_id :: string
  e_notif :: notification

definition new_voice :: voice_state where
  "new_voice = \<lparr>v_user_id = [], v_nick = [], v_avatar_hash = [], v_mute = False,
     v_deaf = False, v_self_mute = False, v_self_deaf = False\<rparr>"

definition new_event :: "kind \<Rightarrow> rpc_event" where
  "new_event k = \<lparr>e_kind = k, e_channel_id = [], e_voice = new_voice, e_user_id = [],
     e_notif = new_notification\<rparr>"

section \<open>Builders\<close>

text \<open>
  The nonce generator: the random seed drawn once per process (an input), and the counter.
  A builder returns its command and the generator's next state.
\<close>

record nonce_gen =
  seed :: string
  counter :: u64

definition next_nonce :: "nonce_gen \<Rightarrow> string \<times> nonce_gen" where
  "next_nonce g = (seed g @ ''-'' @ dec_of (unat (counter g)), g\<lparr>counter := counter g + 1\<rparr>)"

definition build_authorize :: "string list \<Rightarrow> string \<Rightarrow> nonce_gen \<Rightarrow> json \<times> nonce_gen" where
  "build_authorize scopes client_id g =
     (case next_nonce g of (nonce, g') \<Rightarrow>
        (jobj [(''cmd'', JStr ''AUTHORIZE''),
               (''args'', jobj [(''client_id'', JStr client_id),
                                (''scopes'', JArr (map JStr scopes)),
                                (''prompt'', JStr ''none'')]),
               (''nonce'', JStr nonce)], g'))"

definition build_authenticate :: "string \<Rightarrow> nonce_gen \<Rightarrow> json \<times> nonce_gen" where
  "build_authenticate access_token g =
     (case next_nonce g of (nonce, g') \<Rightarrow>
        (jobj [(''cmd'', JStr ''AUTHENTICATE''),
               (''args'', jobj [(''access_token'', JStr access_token)]),
               (''nonce'', JStr nonce)], g'))"

definition build_subscribe :: "string \<Rightarrow> json \<Rightarrow> nonce_gen \<Rightarrow> json \<times> nonce_gen" where
  "build_subscribe evt args g =
     (case next_nonce g of (nonce, g') \<Rightarrow>
        (jobj [(''cmd'', JStr ''SUBSCRIBE''), (''evt'', JStr evt), (''args'', args),
               (''nonce'', JStr nonce)], g'))"

definition build_unsubscribe :: "string \<Rightarrow> json \<Rightarrow> nonce_gen \<Rightarrow> json \<times> nonce_gen" where
  "build_unsubscribe evt args g =
     (case next_nonce g of (nonce, g') \<Rightarrow>
        (jobj [(''cmd'', JStr ''UNSUBSCRIBE''), (''evt'', JStr evt), (''args'', args),
               (''nonce'', JStr nonce)], g'))"

definition build_get_selected_voice_channel :: "nonce_gen \<Rightarrow> json \<times> nonce_gen" where
  "build_get_selected_voice_channel g =
     (case next_nonce g of (nonce, g') \<Rightarrow>
        (jobj [(''cmd'', JStr ''GET_SELECTED_VOICE_CHANNEL''), (''args'', jobj []),
               (''nonce'', JStr nonce)], g'))"

section \<open>Parsers\<close>

definition str_or :: "json \<Rightarrow> string \<Rightarrow> string \<Rightarrow> string" where
  "str_or obj key dflt =
     (if \<not> is_object obj then dflt
      else case jfind obj key of Some (JStr s) \<Rightarrow> s | _ \<Rightarrow> dflt)"

definition bool_or :: "json \<Rightarrow> string \<Rightarrow> bool \<Rightarrow> bool" where
  "bool_or obj key dflt =
     (if \<not> is_object obj then dflt
      else case jfind obj key of Some (JBool b) \<Rightarrow> b | _ \<Rightarrow> dflt)"

definition is_bidi :: "byte \<Rightarrow> byte \<Rightarrow> bool" where
  "is_bidi b1 b2 \<longleftrightarrow>
     (b1 = 0x80 \<and> (b2 = 0x8E \<or> b2 = 0x8F \<or> (b2 \<ge> 0xAA \<and> b2 \<le> 0xAE))) \<or>
     (b1 = 0x81 \<and> (b2 \<ge> 0xA6 \<and> b2 \<le> 0xA9))"

fun strip_bidi_controls :: "string \<Rightarrow> string" where
  "strip_bidi_controls (c0 # c1 # c2 # s) =
     (if byte_of c0 = 0xE2 \<and> is_bidi (byte_of c1) (byte_of c2) then strip_bidi_controls s
      else c0 # strip_bidi_controls (c1 # c2 # s))"
| "strip_bidi_controls [c0, c1] = [c0, c1]"
| "strip_bidi_controls [c0] = [c0]"
| "strip_bidi_controls [] = []"

definition obj_or_empty :: "json \<Rightarrow> string \<Rightarrow> json" where
  "obj_or_empty obj key =
     (if \<not> is_object obj then jobj []
      else case jfind obj key of
        Some v \<Rightarrow> if is_object v then v else jobj []
      | None \<Rightarrow> jobj [])"

definition parse_voice :: "kind \<Rightarrow> json \<Rightarrow> rpc_event" where
  "parse_voice k data =
     (let user = obj_or_empty data ''user'';
          vs = obj_or_empty data ''voice_state'';
          nick = str_or data ''nick'' [];
          nick = (if nick = [] then str_or user ''username'' [] else nick)
      in (new_event k)\<lparr>e_voice :=
           \<lparr>v_user_id = str_or user ''id'' [],
            v_nick = nick,
            v_avatar_hash = str_or user ''avatar'' [],
            v_mute = bool_or vs ''mute'' False,
            v_deaf = bool_or vs ''deaf'' False,
            v_self_mute = bool_or vs ''self_mute'' False,
            v_self_deaf = bool_or vs ''self_deaf'' False\<rparr>\<rparr>)"

definition parse_speaking :: "kind \<Rightarrow> json \<Rightarrow> rpc_event" where
  "parse_speaking k data =
     (new_event k)\<lparr>e_channel_id := str_or data ''channel_id'' [],
                   e_user_id := str_or data ''user_id'' []\<rparr>"

definition parse_channel_select :: "json \<Rightarrow> rpc_event" where
  "parse_channel_select data =
     (new_event ChannelSelect)\<lparr>e_channel_id := str_or data ''channel_id'' []\<rparr>"

definition parse_notification :: "json \<Rightarrow> rpc_event" where
  "parse_notification data =
     (let message = obj_or_empty data ''message'';
          ident = str_or message ''id'' [];
          ident = (if ident = [] then str_or data ''channel_id'' [] else ident);
          author = obj_or_empty message ''author''
      in (new_event NotificationKind)\<lparr>
           e_notif := new_notification\<lparr>
             n_id := ident,
             n_title := strip_bidi_controls (str_or data ''title'' []),
             n_body := strip_bidi_controls
               (restore_custom_markup (str_or data ''body'' []) (str_or message ''content'' [])),
             n_icon_hash := str_or author ''avatar'' []\<rparr>,
           e_user_id := str_or author ''id'' []\<rparr>)"

record selected_channel =
  sc_in_channel :: bool
  sc_channel_id :: string
  sc_states :: "voice_state list"

definition parse_selected_voice_channel :: "json \<Rightarrow> selected_channel" where
  "parse_selected_voice_channel frame =
     (let out = \<lparr>sc_in_channel = False, sc_channel_id = [], sc_states = []\<rparr> in
      if \<not> is_object frame then out
      else
        let data = obj_or_empty frame ''data''; ident = str_or data ''id'' [] in
        if ident = [] then out
        else \<lparr>sc_in_channel = True, sc_channel_id = ident,
              sc_states = (case jfind data ''voice_states'' of
                  Some (JArr js) \<Rightarrow> map (\<lambda>vs. e_voice (parse_voice VoiceCreate vs)) js
                | _ \<Rightarrow> [])\<rparr>)"

definition parse_event :: "json \<Rightarrow> rpc_event option" where
  "parse_event frame =
     (if \<not> is_object frame then None
      else if str_or frame ''cmd'' [] \<noteq> ''DISPATCH'' then None
      else
        let evt = str_or frame ''evt'' []; data = obj_or_empty frame ''data'' in
        if evt = [] then None
        else if evt = ''VOICE_STATE_CREATE'' then Some (parse_voice VoiceCreate data)
        else if evt = ''VOICE_STATE_UPDATE'' then Some (parse_voice VoiceUpdate data)
        else if evt = ''VOICE_STATE_DELETE'' then Some (parse_voice VoiceDelete data)
        else if evt = ''SPEAKING_START'' then Some (parse_speaking SpeakingStart data)
        else if evt = ''SPEAKING_STOP'' then Some (parse_speaking SpeakingStop data)
        else if evt = ''VOICE_CHANNEL_SELECT'' then Some (parse_channel_select data)
        else if evt = ''NOTIFICATION_CREATE'' then Some (parse_notification data)
        else None)"

section \<open>Lemmas\<close>

lemma str_or_jobj [simp]:
  "str_or (jobj kvs) k d = (case map_of kvs k of Some (JStr s) \<Rightarrow> s | _ \<Rightarrow> d)"
  by (simp add: str_or_def)

lemma obj_or_empty_jobj [simp]:
  "obj_or_empty (jobj kvs) k =
     (case map_of kvs k of Some v \<Rightarrow> if is_object v then v else jobj [] | None \<Rightarrow> jobj [])"
  by (simp add: obj_or_empty_def)

lemma str_or_no_object: "\<not> is_object j \<Longrightarrow> str_or j k d = d"
  by (simp add: str_or_def)

text \<open>The frames Discord names as events.\<close>

definition event_names :: "string list" where
  "event_names = [''VOICE_STATE_CREATE'', ''VOICE_STATE_UPDATE'', ''VOICE_STATE_DELETE'',
     ''SPEAKING_START'', ''SPEAKING_STOP'', ''VOICE_CHANNEL_SELECT'', ''NOTIFICATION_CREATE'']"

fun kind_name :: "kind \<Rightarrow> string" where
  "kind_name VoiceCreate = ''VOICE_STATE_CREATE''"
| "kind_name VoiceUpdate = ''VOICE_STATE_UPDATE''"
| "kind_name VoiceDelete = ''VOICE_STATE_DELETE''"
| "kind_name SpeakingStart = ''SPEAKING_START''"
| "kind_name SpeakingStop = ''SPEAKING_STOP''"
| "kind_name ChannelSelect = ''VOICE_CHANNEL_SELECT''"
| "kind_name NotificationKind = ''NOTIFICATION_CREATE''"

text \<open>The UTF-8 encodings of the bidirectional controls.\<close>

definition bidi_controls :: "string list" where
  "bidi_controls = map str_of
     ([[0xE2, 0x80, 0x8E], [0xE2, 0x80, 0x8F],
       [0xE2, 0x80, 0xAA], [0xE2, 0x80, 0xAB], [0xE2, 0x80, 0xAC], [0xE2, 0x80, 0xAD], [0xE2, 0x80, 0xAE],
       [0xE2, 0x81, 0xA6], [0xE2, 0x81, 0xA7], [0xE2, 0x81, 0xA8], [0xE2, 0x81, 0xA9]])"

text \<open>One encoded code point: a string the decoder consumes as a whole.\<close>

definition utf8_char :: "string \<Rightarrow> bool" where
  "utf8_char c \<longleftrightarrow> (\<exists>cp. decode_utf8 c = Some (cp, length c))"

lemma bidi_controls_decode:
  "map decode_utf8 bidi_controls = map (\<lambda>cp. Some (cp, 3))
     [0x200E, 0x200F, 0x202A, 0x202B, 0x202C, 0x202D, 0x202E, 0x2066, 0x2067, 0x2068, 0x2069]"
  by code_simp

definition continuation :: "char \<Rightarrow> bool" where
  "continuation c \<longleftrightarrow> byte_of c AND 0xC0 = 0x80"

lemma continuation_not_E2: "continuation c \<Longrightarrow> byte_of c \<noteq> 0xE2"
  by (auto simp: continuation_def)

lemma decode_cont_bytes:
  "decode_cont k cp s = Some cp' \<Longrightarrow> list_all continuation (take k s)"
  by (induction k cp s rule: decode_cont.induct) (auto simp: continuation_def split: if_splits)

lemma utf8_char_bytes:
  assumes "utf8_char c"
  obtains c0 t where "c = c0 # t" "list_all continuation t" "byte_of c0 = 0xE2 \<Longrightarrow> length t = 2"
proof -
  from assms obtain cp where d: "decode_utf8 c = Some (cp, length c)" by (auto simp: utf8_char_def)
  then obtain c0 t where c: "c = c0 # t" by (cases c) (auto simp: decode_utf8_def)
  show thesis
  proof (cases "byte_of c0 < 0x80")
    case True
    then have "t = []" using d c by (auto simp: decode_utf8_def)
    moreover have "byte_of c0 \<noteq> 0xE2" using True by auto
    ultimately show thesis using that c by auto
  next
    case False
    from d c False have l: "byte_of c0 = 0xE2 \<longrightarrow> length t = 2"
      by (cases "byte_of c0 = 0xE2") (auto simp: decode_utf8_def split: if_splits)
    from d c False obtain cp0 where cont: "decode_cont (length t) cp0 t = Some cp"
      by (auto simp: decode_utf8_def Let_def split: if_splits option.splits)
    have "list_all continuation t" using decode_cont_bytes [OF cont] by simp
    with that c l show thesis by blast
  qed
qed

lemma strip_skip: "byte_of c \<noteq> 0xE2 \<Longrightarrow> strip_bidi_controls (c # s) = c # strip_bidi_controls s"
  by (cases s; cases "tl s") auto

lemma strip_continuation:
  "list_all continuation t \<Longrightarrow> strip_bidi_controls (t @ s) = t @ strip_bidi_controls s"
  by (induction t) (auto simp: strip_skip continuation_not_E2)

lemma byte_range_AA: "(b :: byte) \<ge> 0xAA \<and> b \<le> 0xAE \<longleftrightarrow> b \<in> {0xAA, 0xAB, 0xAC, 0xAD, 0xAE}"
  by (simp add: word_le_nat_alt word_unat_eq_iff) arith

lemma byte_range_A6: "(b :: byte) \<ge> 0xA6 \<and> b \<le> 0xA9 \<longleftrightarrow> b \<in> {0xA6, 0xA7, 0xA8, 0xA9}"
  by (simp add: word_le_nat_alt word_unat_eq_iff) arith

lemma chr_of_eq_iff: "c = chr_of b \<longleftrightarrow> byte_of c = b"
  by (metis byte_of_chr_of chr_of_byte_of)

lemma bidi_controls_bytes:
  "[c0, c1, c2] \<in> set bidi_controls \<longleftrightarrow> byte_of c0 = 0xE2 \<and> is_bidi (byte_of c1) (byte_of c2)"
  unfolding is_bidi_def byte_range_AA byte_range_A6
  by (auto simp: bidi_controls_def str_of_def chr_of_eq_iff)

lemma strip_bidi_char:
  assumes "utf8_char c"
  shows "strip_bidi_controls (c @ s) =
    (if c \<in> set bidi_controls then strip_bidi_controls s else c @ strip_bidi_controls s)"
proof -
  obtain c0 t where c: "c = c0 # t" "list_all continuation t" "byte_of c0 = 0xE2 \<Longrightarrow> length t = 2"
    using utf8_char_bytes [OF assms] by blast
  show ?thesis
  proof (cases "byte_of c0 = 0xE2")
    case True
    then obtain c1 c2 where t: "t = [c1, c2]" using c(3) by (auto simp: length_Suc_conv numeral_2_eq_2)
    have "strip_bidi_controls (t @ s) = t @ strip_bidi_controls s"
      by (rule strip_continuation [OF c(2)])
    then show ?thesis using True c(1) t bidi_controls_bytes [of c0 c1 c2] by simp
  next
    case False
    then have "c \<notin> set bidi_controls"
      using c(1) by (auto simp: bidi_controls_def str_of_def)
    then show ?thesis
      using False c strip_continuation [OF c(2)] by (simp add: strip_skip)
  qed
qed

section \<open>Properties\<close>

text \<open>
  On UTF-8 text the byte-level stripping is the removal of the eleven bidirectional control
  characters: every other code point, the zero-width joiner included, is kept as it is, in order.
\<close>

theorem strip_bidi_is_filter:
  assumes "list_all utf8_char cs"
  shows "strip_bidi_controls (concat cs) = concat (filter (\<lambda>c. c \<notin> set bidi_controls) cs)"
  using assms by (induction cs) (simp_all add: strip_bidi_char)

theorem strip_bidi_is_filter_witness:
  "strip_bidi_controls (concat [str_of [0xE2, 0x81, 0xA8], ''a'', str_of [0xE2, 0x80, 0x8D], str_of [0xE2, 0x81, 0xA9]])
     = ''a'' @ str_of [0xE2, 0x80, 0x8D]"
proof -
  let ?cs = "[str_of [0xE2, 0x81, 0xA8], ''a'', str_of [0xE2, 0x80, 0x8D], str_of [0xE2, 0x81, 0xA9]]"
  have "list_all (\<lambda>c. decode_utf8 c \<noteq> None \<and> snd (the (decode_utf8 c)) = length c) ?cs"
    by code_simp
  then have "list_all utf8_char ?cs" by (auto simp: utf8_char_def)
  from strip_bidi_is_filter [OF this]
  have "strip_bidi_controls (concat ?cs) = concat (filter (\<lambda>c. c \<notin> set bidi_controls) ?cs)" .
  also have "\<dots> = ''a'' @ str_of [0xE2, 0x80, 0x8D]" by code_simp
  finally show ?thesis .
qed

text \<open>
  \<open>parse_event\<close> yields an event exactly for an object whose command is DISPATCH and whose
  event name is one of the seven it knows, and the kind of the event is the one named; anything
  else, whatever its shape, is no event.
\<close>

theorem parse_event_kind:
  "(parse_event frame \<noteq> None) =
      (str_or frame ''cmd'' [] = ''DISPATCH'' \<and> str_or frame ''evt'' [] \<in> set event_names) \<and>
   (case parse_event frame of None \<Rightarrow> True | Some ev \<Rightarrow> kind_name (e_kind ev) = str_or frame ''evt'' [])"
  by (auto simp: parse_event_def event_names_def Let_def str_or_no_object parse_voice_def
      parse_speaking_def parse_channel_select_def parse_notification_def new_event_def)

text \<open>
  No two commands of a process share a nonce: from any state of the generator, the nonces
  of any two draws less than \<open>2 ^ 64\<close> apart differ.
\<close>

theorem nonces_distinct:
  assumes "i < j" and "j < 2 ^ 64"
  shows "fst (next_nonce (((snd \<circ> next_nonce) ^^ i) g)) \<noteq> fst (next_nonce (((snd \<circ> next_nonce) ^^ j) g))"
proof -
  have st: "((snd \<circ> next_nonce) ^^ n) g = g\<lparr>counter := counter g + word_of_nat n\<rparr>" for n
    by (induction n) (simp_all add: next_nonce_def add_ac)
  have "(word_of_nat i :: u64) \<noteq> word_of_nat j"
    using assms by (simp add: word_of_nat_eq_iff take_bit_nat_eq_self)
  then show ?thesis by (simp add: st next_nonce_def flip: word_unat_eq_iff)
qed

theorem nonces_distinct_witness:
  "fst (next_nonce \<lparr>seed = ''ab'', counter = 2 ^ 64 - 1\<rparr>)
     \<noteq> fst (next_nonce (snd (next_nonce \<lparr>seed = ''ab'', counter = 2 ^ 64 - 1\<rparr>)))"
  using nonces_distinct [of 0 1 "\<lparr>seed = ''ab'', counter = 2 ^ 64 - 1\<rparr>"] by simp

end
