(* ===== verification/OverlayState.thy ===== *)
theory OverlayState
  imports RpcMessages
begin

text \<open>
  The overlay state reducer (\<^verbatim>\<open>src/host/model/overlay_state.cpp\<close>): it folds RPC events
  into the snapshot. The injected clock is the time that comes with each input, and
  \<^verbatim>\<open>on_change\<close> is the list of snapshots a step sends out. The second half is the
  abstract roster the participants vector and its index implement together.
\<close>

section \<open>The component\<close>

record overlay_state =
  snap :: snapshot
  index :: "string \<rightharpoonup> nat"

definition kMaxNotifications :: nat where
  "kMaxNotifications = 20"

definition new_overlay_state :: overlay_state where
  "new_overlay_state = \<lparr>snap = new_snapshot, index = Map.empty\<rparr>"

definition commit :: "overlay_state \<Rightarrow> overlay_state \<times> snapshot list" where
  "commit s =
     (let s' = s\<lparr>snap := (snap s)\<lparr>s_revision := s_revision (snap s) + 1\<rparr>\<rparr> in (s', [snap s']))"

definition update_voice :: "voice_state \<Rightarrow> participant \<Rightarrow> participant" where
  "update_voice v p = p\<lparr>p_display_name := v_nick v, p_avatar_hash := v_avatar_hash v,
     p_mute := v_mute v, p_deaf := v_deaf v, p_self_mute := v_self_mute v, p_self_deaf := v_self_deaf v\<rparr>"

text \<open>The rebuild of the index after an erase: \<^verbatim>\<open>index_[ps[i].user_id] = i\<close> for every i.\<close>

fun rebuild_index :: "nat \<Rightarrow> participant list \<Rightarrow> (string \<rightharpoonup> nat) \<Rightarrow> (string \<rightharpoonup> nat)" where
  "rebuild_index i [] ix = ix"
| "rebuild_index i (p # ps) ix = rebuild_index (Suc i) ps (ix(p_user_id p \<mapsto> i))"

definition apply_event :: "overlay_state \<Rightarrow> rpc_event \<Rightarrow> int \<Rightarrow> overlay_state \<times> snapshot list" where
  "apply_event s ev now =
     (let sn = snap s; ps = s_participants sn in
      case e_kind ev of
        ChannelSelect \<Rightarrow>
          commit \<lparr>snap = sn\<lparr>s_in_voice := e_channel_id ev \<noteq> [], s_channel_name := e_channel_id ev,
                           s_participants := []\<rparr>,
                  index = Map.empty\<rparr>
      | VoiceDelete \<Rightarrow>
          (case index s (v_user_id (e_voice ev)) of
             None \<Rightarrow> (s, [])
           | Some i \<Rightarrow>
               let ps' = take i ps @ drop (i + 1) ps in
               commit \<lparr>snap = sn\<lparr>s_participants := ps'\<rparr>, index = rebuild_index 0 ps' Map.empty\<rparr>)
      | SpeakingStart \<Rightarrow>
          (case index s (e_user_id ev) of
             None \<Rightarrow> (s, [])
           | Some i \<Rightarrow> commit (s\<lparr>snap := sn\<lparr>s_participants := ps[i := (ps ! i)\<lparr>p_speaking := True\<rparr>]\<rparr>\<rparr>))
      | SpeakingStop \<Rightarrow>
          (case index s (e_user_id ev) of
             None \<Rightarrow> (s, [])
           | Some i \<Rightarrow> commit (s\<lparr>snap := sn\<lparr>s_participants := ps[i := (ps ! i)\<lparr>p_speaking := False\<rparr>]\<rparr>\<rparr>))
      | NotificationKind \<Rightarrow>
          (let n = (e_notif ev)\<lparr>n_created_ms := now\<rparr>; ns = n # s_notifications sn;
               ns' = (if length ns > kMaxNotifications then take kMaxNotifications ns else ns)
           in commit (s\<lparr>snap := sn\<lparr>s_notifications := ns'\<rparr>\<rparr>))
      | _ \<Rightarrow>
          (let v = e_voice ev in
           case index s (v_user_id v) of
             None \<Rightarrow>
               commit \<lparr>snap = sn\<lparr>s_participants :=
                         ps @ [update_voice v (new_participant\<lparr>p_user_id := v_user_id v\<rparr>)]\<rparr>,
                       index = (index s)(v_user_id v \<mapsto> length ps)\<rparr>
           | Some i \<Rightarrow>
               commit (s\<lparr>snap := sn\<lparr>s_participants := ps[i := update_voice v (ps ! i)]\<rparr>\<rparr>)))"

definition set_config :: "overlay_state \<Rightarrow> appearance \<Rightarrow> overlay_state \<times> snapshot list" where
  "set_config s cfg = commit (s\<lparr>snap := (snap s)\<lparr>s_config := cfg\<rparr>\<rparr>)"

text \<open>The two entry points as one step function.\<close>

datatype ov_input = Apply rpc_event int | Set_config appearance

fun ov_step :: "overlay_state \<Rightarrow> ov_input \<Rightarrow> overlay_state \<times> snapshot list" where
  "ov_step s (Apply ev now) = apply_event s ev now"
| "ov_step s (Set_config cfg) = set_config s cfg"

section \<open>The invariant\<close>

lemma update_voice_keeps [simp]:
  "p_user_id (update_voice v p) = p_user_id p" "p_speaking (update_voice v p) = p_speaking p"
  by (simp_all add: update_voice_def)

text \<open>The position of a user in the vector.\<close>

fun pos_of :: "participant list \<Rightarrow> string \<Rightarrow> nat option" where
  "pos_of [] k = None"
| "pos_of (p # ps) k = (if p_user_id p = k then Some 0 else map_option Suc (pos_of ps k))"

definition ids :: "participant list \<Rightarrow> string list" where
  "ids ps = map p_user_id ps"

definition ov_inv :: "overlay_state \<Rightarrow> bool" where
  "ov_inv s \<longleftrightarrow>
     distinct (ids (s_participants (snap s))) \<and>
     index s = pos_of (s_participants (snap s)) \<and>
     length (s_notifications (snap s)) \<le> kMaxNotifications \<and>
     s_in_voice (snap s) = (s_channel_name (snap s) \<noteq> [])"

lemma pos_of_append:
  "pos_of (ps @ qs) k =
     (case pos_of ps k of Some i \<Rightarrow> Some i | None \<Rightarrow> map_option (\<lambda>i. length ps + i) (pos_of qs k))"
  by (cases "pos_of qs k"; induction ps) (auto split: option.splits)

lemma pos_of_Some: "pos_of ps k = Some i \<Longrightarrow> i < length ps \<and> p_user_id (ps ! i) = k"
  by (induction ps arbitrary: i) (auto split: if_splits)

lemma pos_of_ids: "pos_of ps k = Some i \<Longrightarrow> k \<in> p_user_id ` set ps"
  using pos_of_Some [of ps k i] by auto

lemma pos_of_None: "pos_of ps k = None \<longleftrightarrow> k \<notin> set (ids ps)"
  by (induction ps) (auto simp: ids_def)

lemma pos_of_update:
  "p_user_id q = p_user_id (ps ! i) \<Longrightarrow> i < length ps \<Longrightarrow> pos_of (ps[i := q]) = pos_of ps"
  by (induction ps arbitrary: i) (auto simp: fun_eq_iff split: nat.splits)

lemma ids_update:
  "p_user_id q = p_user_id (ps ! i) \<Longrightarrow> i < length ps \<Longrightarrow> ids (ps[i := q]) = ids ps"
  by (simp add: ids_def map_update list_update_same_conv)

lemma ids_append [simp]: "ids (ps @ qs) = ids ps @ ids qs"
  by (simp add: ids_def)

lemma rebuild_index_pos:
  "distinct (ids ps) \<Longrightarrow>
     rebuild_index i ps ix k = (case pos_of ps k of Some j \<Rightarrow> Some (i + j) | None \<Rightarrow> ix k)"
  by (induction ps arbitrary: i ix)
    (auto simp: ids_def dest: pos_of_ids split: option.splits)

lemma rebuild_index_eq: "distinct (ids ps) \<Longrightarrow> rebuild_index 0 ps Map.empty = pos_of ps"
  by (rule ext) (simp add: rebuild_index_pos split: option.splits)

lemma distinct_erase: "distinct (ids ps) \<Longrightarrow> distinct (ids (take i ps @ drop (Suc i) ps))"
proof -
  assume d: "distinct (ids ps)"
  have "set (take i (ids ps)) \<inter> set (drop (Suc i) (ids ps)) = {}"
    using d by (rule set_take_disj_set_drop_if_distinct) simp
  moreover have "ids (take i ps @ drop (Suc i) ps) = take i (ids ps) @ drop (Suc i) (ids ps)"
    by (simp add: ids_def take_map drop_map)
  ultimately show ?thesis using d by simp
qed

lemma snap_commit [simp]:
  "snap (fst (commit s)) = (snap s)\<lparr>s_revision := s_revision (snap s) + 1\<rparr>"
  "index (fst (commit s)) = index s" "snd (commit s) = [snap (fst (commit s))]"
  by (simp_all add: commit_def Let_def)

lemma commit_inv [simp]: "ov_inv (fst (commit s)) = ov_inv s"
  by (simp add: ov_inv_def)

lemma apply_event_inv: "ov_inv s \<Longrightarrow> ov_inv (fst (apply_event s ev now))"
proof -
  assume inv: "ov_inv s"
  let ?ps = "s_participants (snap s)"
  have d: "distinct (ids ?ps)" and ix: "index s = pos_of ?ps"
    and n: "length (s_notifications (snap s)) \<le> kMaxNotifications"
      "s_in_voice (snap s) = (s_channel_name (snap s) \<noteq> [])"
    using inv by (auto simp: ov_inv_def)
  have upd: "ov_inv (s\<lparr>snap := (snap s)\<lparr>s_participants := ?ps[i := q]\<rparr>\<rparr>)"
    if "index s k = Some i" "p_user_id q = p_user_id (?ps ! i)" for k i q
    using that d ix n pos_of_Some [of ?ps k i] by (simp add: ov_inv_def ids_update pos_of_update)
  have ins: "ov_inv \<lparr>snap = (snap s)\<lparr>s_participants := ?ps @ [q]\<rparr>, index = (index s)(k \<mapsto> length ?ps)\<rparr>"
    if "index s k = None" "p_user_id q = k" for k q
    using that d ix n pos_of_None [of ?ps k]
    by (auto simp: ov_inv_def fun_eq_iff pos_of_append ids_def split: option.splits)
  have del: "ov_inv \<lparr>snap = (snap s)\<lparr>s_participants := take i ?ps @ drop (Suc i) ?ps\<rparr>,
      index = rebuild_index 0 (take i ?ps @ drop (Suc i) ?ps) Map.empty\<rparr>" for i
    using distinct_erase [OF d, of i] n by (simp only: ov_inv_def rebuild_index_eq) simp
  have clr: "ov_inv \<lparr>snap = (snap s)\<lparr>s_in_voice := c \<noteq> [], s_channel_name := c, s_participants := []\<rparr>,
      index = Map.empty\<rparr>" for c
    using n by (simp add: ov_inv_def ids_def fun_eq_iff)
  have ntf: "ov_inv (s\<lparr>snap := (snap s)\<lparr>s_notifications := ns\<rparr>\<rparr>)"
    if "length ns \<le> kMaxNotifications" for ns
    using that d ix n by (simp add: ov_inv_def)
  show ?thesis
    using inv
    by (cases "e_kind ev") (simp_all add: apply_event_def Let_def upd ins del clr ntf split: option.splits)
qed

interpretation ov: machine ov_step ov_inv "\<lambda>_. True"
proof
  show "ov_inv (fst (ov_step s e))" if "ov_inv s" for s e
    using that by (cases e) (auto simp: apply_event_inv set_config_def, simp add: ov_inv_def)
qed

lemma new_overlay_state_inv: "ov_inv new_overlay_state"
  by (auto simp: ov_inv_def new_overlay_state_def new_snapshot_def ids_def)

section \<open>What the reducer promises\<close>

text \<open>
  The abstract state: the members by user id, without positions or an index, the channel,
  and the newest notifications.
\<close>

record roster =
  r_channel :: string
  r_members :: "string \<rightharpoonup> participant"
  r_toasts :: "notification list"
  r_config :: appearance
  r_revision :: u64

definition members_of :: "participant list \<Rightarrow> string \<rightharpoonup> participant" where
  "members_of ps = map_of (map (\<lambda>p. (p_user_id p, p)) ps)"

definition roster_of :: "overlay_state \<Rightarrow> roster" where
  "roster_of s = \<lparr>r_channel = s_channel_name (snap s), r_members = members_of (s_participants (snap s)),
     r_toasts = s_notifications (snap s), r_config = s_config (snap s), r_revision = s_revision (snap s)\<rparr>"

definition bump :: "roster \<Rightarrow> roster" where
  "bump r = r\<lparr>r_revision := r_revision r + 1\<rparr>"

definition join_or_update :: "voice_state \<Rightarrow> roster \<Rightarrow> roster" where
  "join_or_update v r =
     (let k = v_user_id v;
          p = (case r_members r k of Some p \<Rightarrow> p | None \<Rightarrow> new_participant\<lparr>p_user_id := k\<rparr>)
      in bump (r\<lparr>r_members := (r_members r)(k \<mapsto> update_voice v p)\<rparr>))"

definition set_speaking :: "string \<Rightarrow> bool \<Rightarrow> roster \<Rightarrow> roster" where
  "set_speaking k b r =
     (case r_members r k of
        None \<Rightarrow> r
      | Some p \<Rightarrow> bump (r\<lparr>r_members := (r_members r)(k \<mapsto> p\<lparr>p_speaking := b\<rparr>)\<rparr>))"

definition roster_step :: "rpc_event \<Rightarrow> int \<Rightarrow> roster \<Rightarrow> roster" where
  "roster_step ev now r =
     (case e_kind ev of
        ChannelSelect \<Rightarrow> bump (r\<lparr>r_channel := e_channel_id ev, r_members := Map.empty\<rparr>)
      | VoiceCreate \<Rightarrow> join_or_update (e_voice ev) r
      | VoiceUpdate \<Rightarrow> join_or_update (e_voice ev) r
      | VoiceDelete \<Rightarrow>
          (let k = v_user_id (e_voice ev) in
           if r_members r k = None then r else bump (r\<lparr>r_members := (r_members r)(k := None)\<rparr>))
      | SpeakingStart \<Rightarrow> set_speaking (e_user_id ev) True r
      | SpeakingStop \<Rightarrow> set_speaking (e_user_id ev) False r
      | NotificationKind \<Rightarrow>
          bump (r\<lparr>r_toasts := take kMaxNotifications ((e_notif ev)\<lparr>n_created_ms := now\<rparr> # r_toasts r)\<rparr>))"

lemma members_of_pos: "members_of ps k = map_option ((!) ps) (pos_of ps k)"
  by (induction ps) (auto simp: members_of_def option.map_comp comp_def)

lemma members_of_iff:
  "distinct (ids ps) \<Longrightarrow> members_of ps k = Some p \<longleftrightarrow> p \<in> set ps \<and> p_user_id p = k"
  by (auto simp: members_of_def ids_def comp_def map_of_eq_Some_iff)

lemma members_eqI:
  "distinct (ids ps) \<Longrightarrow> (\<And>k p. f k = Some p \<longleftrightarrow> p \<in> set ps \<and> p_user_id p = k) \<Longrightarrow> members_of ps = f"
  by (intro ext option_eqI) (simp add: members_of_iff)

lemma members_update:
  assumes "pos_of ps k = Some i" and "p_user_id q = k"
  shows "members_of (ps[i := q]) = (members_of ps)(k \<mapsto> q)"
proof (rule ext)
  fix k'
  have i: "i < length ps" "p_user_id (ps ! i) = k" using pos_of_Some [OF assms(1)] by auto
  have j: "pos_of ps k' = Some j \<Longrightarrow> i = j \<longleftrightarrow> k' = k" for j
    by (metis assms(1) i(2) option.inject pos_of_Some)
  have pu: "pos_of (ps[i := q]) = pos_of ps" by (rule pos_of_update) (simp_all add: i assms(2))
  show "members_of (ps[i := q]) k' = ((members_of ps)(k \<mapsto> q)) k'"
  proof (cases "k' = k")
    case True
    then show ?thesis using assms(1) i(1) by (simp add: members_of_pos pu)
  next
    case False
    then show ?thesis using j by (cases "pos_of ps k'") (simp_all add: members_of_pos pu)
  qed
qed

lemma members_append:
  "members_of ps (p_user_id q) = None \<Longrightarrow> members_of (ps @ [q]) = (members_of ps)(p_user_id q \<mapsto> q)"
  by (auto simp: members_of_def fun_eq_iff map_add_def split: option.splits)

lemma members_erase:
  assumes "distinct (ids ps)" and "pos_of ps k = Some i"
  shows "members_of (take i ps @ drop (Suc i) ps) = (members_of ps)(k := None)"
proof (rule members_eqI [OF distinct_erase [OF assms(1)]])
  fix k' p
  have i: "i < length ps" "p_user_id (ps ! i) = k" using pos_of_Some [OF assms(2)] by auto
  have ps: "ps = take i ps @ ps ! i # drop (Suc i) ps" using i(1) by (rule id_take_nth_drop)
  then have d: "distinct (ids (take i ps) @ p_user_id (ps ! i) # ids (drop (Suc i) ps))"
    using assms(1) by (metis ids_append ids_def list.simps(9))
  have "set ps = insert (ps ! i) (set (take i ps @ drop (Suc i) ps))"
    by (subst ps) (simp del: append_take_drop_id)
  moreover have "k \<notin> p_user_id ` set (take i ps @ drop (Suc i) ps)"
    using d i(2) by (simp add: ids_def image_Un)
  ultimately show "((members_of ps)(k := None)) k' = Some p \<longleftrightarrow>
      p \<in> set (take i ps @ drop (Suc i) ps) \<and> p_user_id p = k'"
    using i(2) by (auto simp: members_of_iff [OF assms(1)] simp del: set_append) (metis rev_image_eqI)
qed

lemmas members_simps = members_update members_append members_erase

lemma roster_of_commit: "roster_of (fst (commit s)) = bump (roster_of s)"
  by (simp add: roster_of_def bump_def)

lemma roster_step_refines:
  assumes "ov_inv s"
  shows "roster_of (fst (apply_event s ev now)) = roster_step ev now (roster_of s)"
proof -
  let ?ps = "s_participants (snap s)"
  have d: "distinct (ids ?ps)" and ix: "index s = pos_of ?ps"
    using assms by (auto simp: ov_inv_def)
  have none: "members_of ?ps k = None" if "index s k = None" for k using that by (simp add: ix members_of_pos)
  have some: "members_of ?ps k = Some (?ps ! i)" "p_user_id (?ps ! i) = k" if "index s k = Some i" for k i
    using that pos_of_Some [of ?ps k i] by (simp_all add: ix members_of_pos)
  have upd: "members_of (?ps[i := q]) = (members_of ?ps)(k \<mapsto> q)"
    if "index s k = Some i" "p_user_id q = p_user_id (?ps ! i)" for k i q
    using that some [OF that(1)] by (simp add: ix members_update)
  have ins: "members_of (?ps @ [update_voice v (new_participant\<lparr>p_user_id := k\<rparr>)])
      = (members_of ?ps)(k \<mapsto> update_voice v (new_participant\<lparr>p_user_id := k\<rparr>))"
    if "index s k = None" for k v
    using that none members_append [of ?ps "update_voice v (new_participant\<lparr>p_user_id := k\<rparr>)"] by simp
  have del: "members_of (take i ?ps @ drop (Suc i) ?ps) = (members_of ?ps)(k := None)"
    if "index s k = Some i" for k i
    using members_erase [OF d] that by (simp add: ix)
  have clr: "members_of [] = Map.empty" by (simp add: members_of_def)
  have ov: "index s k = None \<or> (\<exists>i. index s k = Some i)" for k by (cases "index s k") auto
  note defs = apply_event_def roster_step_def Let_def roster_of_commit
  show ?thesis
  proof (cases "e_kind ev")
    case VoiceCreate
    then show ?thesis
      using ov [of "v_user_id (e_voice ev)"]
      by (elim disjE exE) (simp_all add: defs join_or_update_def ins upd some none roster_of_def bump_def)
  next
    case VoiceUpdate
    then show ?thesis
      using ov [of "v_user_id (e_voice ev)"]
      by (elim disjE exE) (simp_all add: defs join_or_update_def ins upd some none roster_of_def bump_def)
  next
    case VoiceDelete
    then show ?thesis
      using ov [of "v_user_id (e_voice ev)"]
      by (elim disjE exE) (simp_all add: defs del some none roster_of_def bump_def)
  next
    case SpeakingStart
    then show ?thesis
      using ov [of "e_user_id ev"]
      by (elim disjE exE) (simp_all add: defs set_speaking_def upd some none roster_of_def bump_def)
  next
    case SpeakingStop
    then show ?thesis
      using ov [of "e_user_id ev"]
      by (elim disjE exE) (simp_all add: defs set_speaking_def upd some none roster_of_def bump_def)
  next
    case ChannelSelect
    then show ?thesis by (simp add: defs clr roster_of_def bump_def)
  next
    case NotificationKind
    then show ?thesis by (simp add: defs roster_of_def bump_def)
  qed
qed

text \<open>The events that change nothing: they name a user who is not in the roster.\<close>

definition is_noop :: "overlay_state \<Rightarrow> rpc_event \<Rightarrow> bool" where
  "is_noop s ev \<longleftrightarrow>
     (e_kind ev = VoiceDelete \<and> index s (v_user_id (e_voice ev)) = None) \<or>
     (e_kind ev \<in> {SpeakingStart, SpeakingStop} \<and> index s (e_user_id ev) = None)"

section \<open>Properties\<close>

text \<open>
  C2: From a fresh state, after any sequence of events and configuration changes, the index maps
  exactly the users of the roster to their positions, no user appears twice, at most 20
  notifications are held, and the panel is visible exactly in a named channel.
\<close>

theorem overlay_state_invariant:
  "ov_inv (fst (run_events ov_step new_overlay_state inputs))"
  by (rule ov.inv_run [OF new_overlay_state_inv]) (simp add: list_all_iff)

text \<open>
  C1: The reducer implements the abstract roster: on every event it does to the set of members,
  the channel, the notifications and the revision what the abstract step does to a map from
  user ids to members, however the members are laid out in the vector.
\<close>

theorem overlay_state_refines_roster:
  assumes "ov_inv s"
  shows "roster_of (fst (apply_event s ev now)) = roster_step ev now (roster_of s)"
  by (rule roster_step_refines [OF assms])

theorem overlay_state_refines_roster_witness:
  "r_members (roster_of (fst (apply_event new_overlay_state
      ((new_event VoiceCreate)\<lparr>e_voice := new_voice\<lparr>v_user_id := ''7'', v_mute := True\<rparr>\<rparr>) 5)))
    = [''7'' \<mapsto> new_participant\<lparr>p_user_id := ''7'', p_mute := True\<rparr>]"
  by (subst overlay_state_refines_roster [OF new_overlay_state_inv])
    (simp add: roster_step_def join_or_update_def bump_def roster_of_def members_of_def
      new_event_def new_voice_def new_overlay_state_def new_snapshot_def update_voice_def
      new_participant_def Let_def)

text \<open>
  One event, one notice: an event about an unknown user changes nothing and sends nothing;
  every other event bumps the revision by one (modulo \<open>2 ^ 64\<close>) and sends exactly one
  snapshot, the state after the step.
\<close>

theorem change_notified_once:
  "apply_event s ev now =
     (if is_noop s ev then (s, [])
      else (fst (apply_event s ev now), [snap (fst (apply_event s ev now))])) \<and>
   s_revision (snap (fst (apply_event s ev now))) =
     s_revision (snap s) + (if is_noop s ev then 0 else 1)"
proof -
  have "snd (apply_event s ev now) =
      (if is_noop s ev then [] else [snap (fst (apply_event s ev now))])"
    "is_noop s ev \<Longrightarrow> fst (apply_event s ev now) = s"
    "\<not> is_noop s ev \<Longrightarrow> s_revision (snap (fst (apply_event s ev now))) = s_revision (snap s) + 1"
    by (cases "e_kind ev"; simp add: apply_event_def is_noop_def Let_def split: option.splits)+
  then show ?thesis by (simp add: prod_eq_iff)
qed

text \<open>
  A voice update never touches who is speaking: the speaking flag of a member changes only
  by the speaking events, by leaving, or by a channel change.
\<close>

theorem speaking_survives_update:
  assumes "ov_inv s" and "e_kind ev \<in> {VoiceCreate, VoiceUpdate, NotificationKind}"
    and "members_of (s_participants (snap s)) k = Some p"
  shows "\<exists>q. members_of (s_participants (snap (fst (apply_event s ev now)))) k = Some q \<and>
    p_speaking q = p_speaking p"
proof -
  have "r_members (roster_of (fst (apply_event s ev now))) = r_members (roster_step ev now (roster_of s))"
    by (simp only: roster_step_refines [OF assms(1)])
  then show ?thesis
    using assms(2,3)
    by (auto simp: roster_of_def roster_step_def join_or_update_def bump_def Let_def split: option.splits)
qed

theorem speaking_survives_update_witness:
  "\<exists>q. members_of (s_participants (snap (fst (apply_event
      \<lparr>snap = new_snapshot\<lparr>s_in_voice := True, s_channel_name := ''c'',
         s_participants := [new_participant\<lparr>p_user_id := ''7'', p_speaking := True\<rparr>]\<rparr>, index = [''7'' \<mapsto> 0]\<rparr>
      ((new_event VoiceUpdate)\<lparr>e_voice := new_voice\<lparr>v_user_id := ''7''\<rparr>\<rparr>) 5)))) ''7'' = Some q \<and>
    p_speaking q = True"
  using speaking_survives_update [where k = "''7''" and p = "new_participant\<lparr>p_user_id := ''7'', p_speaking := True\<rparr>"
      and s = "\<lparr>snap = new_snapshot\<lparr>s_in_voice := True, s_channel_name := ''c'',
         s_participants := [new_participant\<lparr>p_user_id := ''7'', p_speaking := True\<rparr>]\<rparr>, index = [''7'' \<mapsto> 0]\<rparr>"]
  by (simp add: ov_inv_def ids_def fun_eq_iff members_of_def new_event_def new_snapshot_def)

end
