(* ===== verification/Codec.thy ===== *)
theory Codec
  imports Prelude
begin

text \<open>
  Length-prefixed framing in the abstract: what a receiver that buffers bytes and peels
  frames off the front needs of a frame decoder, whatever its header looks like. The two
  protocols of the program (the host-layer frames of \<^verbatim>\<open>src/ipc/protocol.cpp\<close> and the
  Discord RPC frames of \<^verbatim>\<open>src/host/discord/ipc_transport.cpp\<close>) are interpretations.
\<close>

datatype 'f decode_result = Need_more | Proto_error | Decoded 'f nat

text \<open>
  Peel frames until the decoder asks for more bytes or refuses: the frames, the bytes left,
  and whether the stream is still good.
\<close>

function drain_all :: "(bytes \<Rightarrow> 'f decode_result) \<Rightarrow> bytes \<Rightarrow> 'f list \<times> bytes \<times> bool" where
  "drain_all dec b =
     (case dec b of
        Need_more \<Rightarrow> ([], b, True)
      | Proto_error \<Rightarrow> ([], b, False)
      | Decoded f n \<Rightarrow>
          (if n = 0 \<or> length b < n then ([], b, True)
           else (case drain_all dec (drop n b) of (fs, r, good) \<Rightarrow> (f # fs, r, good))))"
  by pat_completeness auto
termination
  by (relation "measure (\<lambda>(dec, b). length b)") auto

declare drain_all.simps [simp del]

text \<open>Peel after every chunk that arrives, as a reader does between two reads.\<close>

fun drain_chunks :: "(bytes \<Rightarrow> 'f decode_result) \<Rightarrow> bytes \<Rightarrow> bytes list \<Rightarrow> 'f list \<times> bytes \<times> bool" where
  "drain_chunks dec b [] = ([], b, True)"
| "drain_chunks dec b (c # cs) =
     (case drain_all dec (b @ c) of
        (fs, r, good) \<Rightarrow>
          if good then (case drain_chunks dec r cs of (gs, r', good') \<Rightarrow> (fs @ gs, r', good'))
          else (fs, r, False))"

locale decoder =
  fixes dec :: "bytes \<Rightarrow> 'f decode_result"
  assumes dec_nil: "dec [] = Need_more"
    and dec_consumes: "dec b = Decoded f n \<Longrightarrow> 0 < n \<and> n \<le> length b"
    and dec_extend: "dec b = Decoded f n \<Longrightarrow> dec (b @ c) = Decoded f n"
begin

lemma drain_Need_more: "dec b = Need_more \<Longrightarrow> drain_all dec b = ([], b, True)"
  by (simp add: drain_all.simps)

lemma drain_Proto_error: "dec b = Proto_error \<Longrightarrow> drain_all dec b = ([], b, False)"
  by (simp add: drain_all.simps)

lemma drain_Decoded:
  "dec b = Decoded f n \<Longrightarrow>
     drain_all dec b = (case drain_all dec (drop n b) of (fs, r, good) \<Rightarrow> (f # fs, r, good))"
  by (subst drain_all.simps) (use dec_consumes [of b f n] in simp)

text \<open>What has been peeled stays peeled when more bytes arrive.\<close>

lemma drain_append:
  "drain_all dec b = (fs, r, True) \<Longrightarrow>
     drain_all dec (b @ c) = (case drain_all dec (r @ c) of (gs, r', good) \<Rightarrow> (fs @ gs, r', good))"
proof (induction "length b" arbitrary: b fs rule: less_induct)
  case less
  show ?case
  proof (cases "dec b")
    case Need_more
    with less.prems show ?thesis by (simp add: drain_Need_more split: prod.splits)
  next
    case Proto_error
    with less.prems show ?thesis by (simp add: drain_Proto_error)
  next
    case (Decoded f n)
    then have n: "0 < n" "n \<le> length b" using dec_consumes by auto
    from Decoded less.prems obtain fs' where
      rest: "drain_all dec (drop n b) = (fs', r, True)" and fs: "fs = f # fs'"
      by (auto simp: drain_Decoded split: prod.splits)
    have "length (drop n b) < length b" using n by simp
    from less.hyps [OF this rest]
    have "drain_all dec (drop n b @ c) =
        (case drain_all dec (r @ c) of (gs, r', good) \<Rightarrow> (fs' @ gs, r', good))" .
    with n show ?thesis
      by (simp add: drain_Decoded [OF dec_extend [OF Decoded]] fs split: prod.splits)
  qed
qed

text \<open>So the way a stream is cut into chunks does not show in what is peeled from it.\<close>

lemma drain_chunks_whole:
  assumes "drain_all dec b = ([], b, True)"
    and "drain_all dec (b @ concat cs) = (fs, r, True)"
    and "\<And>k. snd (snd (drain_all dec (b @ concat (take k cs))))"
  shows "drain_chunks dec b cs = (fs, r, True)"
  using assms
proof (induction cs arbitrary: b fs)
  case Nil
  then show ?case by simp
next
  case (Cons c cs)
  obtain gs s where d: "drain_all dec (b @ c) = (gs, s, True)"
    using Cons.prems(3) [of 1] by (cases "drain_all dec (b @ c)") auto
  have s: "drain_all dec s = ([], s, True)"
    using drain_append [OF d, of "[]"] d by (simp split: prod.splits)
  obtain hs t where e: "drain_all dec (s @ concat cs) = (hs, t, True)" and fs: "fs = gs @ hs" "t = r"
    using drain_append [OF d, of "concat cs"] Cons.prems(2) by (auto split: prod.splits)
  have k: "snd (snd (drain_all dec (s @ concat (take k cs))))" for k
    using Cons.prems(3) [of "Suc k"] drain_append [OF d, of "concat (take k cs)"]
    by (simp split: prod.splits)
  show ?case
    using Cons.IH [OF s e [unfolded fs(2)] k] d fs by simp
qed

end

text \<open>A decoder that inverts an encoder: round trip, and no verdict on a proper prefix.\<close>

locale frame_codec = decoder dec for dec :: "bytes \<Rightarrow> 'f decode_result" +
  fixes enc :: "'f \<Rightarrow> bytes"
    and valid :: "'f \<Rightarrow> bool"
  assumes dec_enc: "valid f \<Longrightarrow> dec (enc f) = Decoded f (length (enc f))"
    and dec_prefix: "valid f \<Longrightarrow> p @ q = enc f \<Longrightarrow> q \<noteq> [] \<Longrightarrow> dec p = Need_more"
begin

lemma drain_one: "valid f \<Longrightarrow> drain_all dec (enc f @ b) = (case drain_all dec b of (fs, r, good) \<Rightarrow> (f # fs, r, good))"
  using drain_Decoded [OF dec_extend [OF dec_enc], of f b] by simp

lemma drain_frames:
  "list_all valid fs \<Longrightarrow>
     drain_all dec (concat (map enc fs) @ b) = (case drain_all dec b of (gs, r, good) \<Rightarrow> (fs @ gs, r, good))"
  by (induction fs) (simp_all add: drain_one split: prod.splits)

lemma drain_stream: "list_all valid fs \<Longrightarrow> drain_all dec (concat (map enc fs)) = (fs, [], True)"
  using drain_frames [of fs "[]"] by (simp add: drain_Need_more dec_nil)

text \<open>
  Any prefix of a stream of valid frames peels to the frames it holds completely, and what is
  left over is a proper prefix of the next one.
\<close>

lemma drain_stream_prefix:
  "list_all valid fs \<Longrightarrow> p @ q = concat (map enc fs) \<Longrightarrow>
     \<exists>gs r. drain_all dec p = (gs, r, True) \<and>
       (r = [] \<or> (\<exists>f s. f \<in> set fs \<and> s \<noteq> [] \<and> r @ s = enc f))"
proof (induction fs arbitrary: p)
  case Nil
  then show ?case by (simp add: drain_Need_more dec_nil)
next
  case (Cons f fs)
  from Cons.prems have v: "valid f" "list_all valid fs" by auto
  from Cons.prems(2) have "p @ q = enc f @ concat (map enc fs)" by simp
  then obtain us where "p @ us = enc f \<and> q = us @ concat (map enc fs) \<or>
      p = enc f @ us \<and> us @ q = concat (map enc fs)"
    unfolding append_eq_append_conv2 by auto
  then consider us where "p = enc f @ us" "us @ q = concat (map enc fs)"
    | us where "us \<noteq> []" "p @ us = enc f"
    by (cases "us = []") auto
  then show ?case
  proof cases
    case (1 us)
    from Cons.IH [OF v(2) 1(2)] obtain gs r where
      g: "drain_all dec us = (gs, r, True)"
      and r: "r = [] \<or> (\<exists>f s. f \<in> set fs \<and> s \<noteq> [] \<and> r @ s = enc f)"
      by blast
    have "drain_all dec p = (f # gs, r, True)"
      using v(1) g 1(1) by (simp add: drain_one)
    then show ?thesis using r by auto
  next
    case (2 us)
    then have "drain_all dec p = ([], p, True)"
      using dec_prefix [OF v(1) 2(2,1)] by (simp add: drain_Need_more)
    then show ?thesis using 2 by auto
  qed
qed

theorem chunked_stream:
  assumes "list_all valid fs" and "concat cs = concat (map enc fs)"
  shows "drain_chunks dec [] cs = (fs, [], True)"
proof (rule drain_chunks_whole)
  show "drain_all dec [] = ([], [], True)" by (simp add: drain_Need_more dec_nil)
  show "drain_all dec ([] @ concat cs) = (fs, [], True)"
    using assms by (simp add: drain_stream)
  fix k
  have "concat (take k cs) @ concat (drop k cs) = concat (map enc fs)"
    using assms(2) by (metis append_take_drop_id concat_append)
  from drain_stream_prefix [OF assms(1) this]
  show "snd (snd (drain_all dec ([] @ concat (take k cs))))" by auto
qed

end

end
