(* ===== verification/Protocol.thy ===== *)
theory Protocol
  imports Codec
begin

text \<open>
  The wire format between host and overlay (\<^verbatim>\<open>src/ipc/protocol.hpp\<close> and
  \<^verbatim>\<open>protocol.cpp\<close>): a frame is a 32-bit little-endian length, a type byte and the
  payload. \<open>encode_frame\<close> and \<open>try_decode_frame\<close> with their guards, and the interpretation
  that makes them a \<open>frame_codec\<close>.
\<close>

section \<open>Definitions\<close>

definition kMaxFrameLen :: nat where
  "kMaxFrameLen = 16 * 1024 * 1024"

text \<open>
  \<^verbatim>\<open>enum class MsgType : uint8_t\<close>. The decoder casts any byte to the enum, so a byte
  without a name is a value of the type too.
\<close>

datatype msg_type =
    Hello | Snapshot | AvatarReady | Disabled | Ping | Pong
  | Unnamed byte

fun msg_code :: "msg_type \<Rightarrow> byte" where
  "msg_code Hello = 1"
| "msg_code Snapshot = 2"
| "msg_code AvatarReady = 3"
| "msg_code Disabled = 4"
| "msg_code Ping = 5"
| "msg_code Pong = 6"
| "msg_code (Unnamed b) = b"

definition msg_of :: "byte \<Rightarrow> msg_type" where
  "msg_of b =
     (if b = 1 then Hello else if b = 2 then Snapshot else if b = 3 then AvatarReady
      else if b = 4 then Disabled else if b = 5 then Ping else if b = 6 then Pong
      else Unnamed b)"

record decoded_frame =
  ftype :: msg_type
  payload :: string

text \<open>
  \<open>encode_frame\<close> appends to \<open>out\<close>; \<^term>\<open>None\<close> is the failed assertion on a payload over
  the cap (the build never defines \<^verbatim>\<open>NDEBUG\<close>).
\<close>

definition encode_frame :: "msg_type \<Rightarrow> string \<Rightarrow> bytes \<Rightarrow> bytes option" where
  "encode_frame ty pl out =
     (if 1 + length pl \<le> kMaxFrameLen then
        (let total = (word_of_nat (1 + length pl) :: u32) in
         Some (out
           @ [ucast (total AND 0xFF), ucast (drop_bit 8 total AND 0xFF),
              ucast (drop_bit 16 total AND 0xFF), ucast (drop_bit 24 total AND 0xFF)]
           @ [msg_code ty]
           @ bytes_of pl))
      else None)"

text \<open>
  The decoder's three answers: 0 with the error flag clear is \<open>Need_more\<close>, 0 with the
  flag set is \<open>Proto_error\<close>, otherwise the frame and the bytes consumed. \<open>total\<close> is a
  64-bit \<^verbatim>\<open>size_t\<close>; after the cap check the sum \<^verbatim>\<open>4 + total\<close> is far from its range.
\<close>

definition frame_total :: "bytes \<Rightarrow> u64" where
  "frame_total buf =
     ucast (buf ! 0) OR push_bit 8 (ucast (buf ! 1)) OR push_bit 16 (ucast (buf ! 2))
       OR push_bit 24 (ucast (buf ! 3))"

definition try_decode_frame :: "bytes \<Rightarrow> decoded_frame decode_result" where
  "try_decode_frame buf =
     (if length buf < 4 then Need_more
      else let total = unat (frame_total buf) in
        if total < 1 \<or> total > kMaxFrameLen then Proto_error
        else if length buf < 4 + total then Need_more
        else Decoded \<lparr>ftype = msg_of (buf ! 4), payload = str_of (take (total - 1) (drop 5 buf))\<rparr>
               (4 + total))"

text \<open>A frame the encoder accepts and the enum names unambiguously, and its bytes.\<close>

definition wf_frame :: "decoded_frame \<Rightarrow> bool" where
  "wf_frame f \<longleftrightarrow> msg_of (msg_code (ftype f)) = ftype f \<and> 1 + length (payload f) \<le> kMaxFrameLen"

definition frame_bytes :: "decoded_frame \<Rightarrow> bytes" where
  "frame_bytes f =
     le32_bytes (word_of_nat (1 + length (payload f))) @ [msg_code (ftype f)] @ bytes_of (payload f)"

section \<open>Lemmas\<close>

lemma kMaxFrameLen_eq: "kMaxFrameLen = 16777216"
  by (simp add: kMaxFrameLen_def)

lemma msg_code_msg_of [simp]: "msg_code (msg_of b) = b"
  by (simp add: msg_of_def)

lemma encode_frame_eq:
  "encode_frame ty pl out =
     (if 1 + length pl \<le> kMaxFrameLen
      then Some (out @ frame_bytes \<lparr>ftype = ty, payload = pl\<rparr>) else None)"
  by (simp add: encode_frame_def frame_bytes_def le32_bytes_def Let_def)

lemma length_frame_bytes [simp]: "length (frame_bytes f) = 5 + length (payload f)"
  by (simp add: frame_bytes_def)

lemma unat_frame_total:
  "unat (frame_total buf) = unat (le32_word (buf ! 0) (buf ! 1) (buf ! 2) (buf ! 3))"
  by (simp add: frame_total_def le64_word_le32 unat_ucast_32_64)

lemma unat_word_of_frame_len:
  "n \<le> kMaxFrameLen \<Longrightarrow> unat (word_of_nat n :: u32) = n"
  by (simp add: kMaxFrameLen_eq unat_of_nat take_bit_nat_eq_self)

lemma frame_bytes_total:
  assumes "1 + length (payload f) \<le> kMaxFrameLen"
    and "take 4 buf = take 4 (frame_bytes f)"
  shows "unat (frame_total buf) = 1 + length (payload f)"
proof -
  have "take 4 buf = le32_bytes (word_of_nat (1 + length (payload f)))"
    using assms(2) by (simp add: frame_bytes_def)
  from le32_word_nth [OF this] unat_word_of_frame_len [OF assms(1)] show ?thesis
    by (simp only: unat_frame_total)
qed

text \<open>The decoder accepts exactly the encodings of well-formed frames.\<close>

lemma try_decode_frame_bytes:
  assumes "wf_frame f"
  shows "try_decode_frame (frame_bytes f @ rest) = Decoded f (length (frame_bytes f))"
proof -
  let ?buf = "frame_bytes f @ rest"
  have len: "1 + length (payload f) \<le> kMaxFrameLen" and ty: "msg_of (msg_code (ftype f)) = ftype f"
    using assms by (auto simp: wf_frame_def)
  have total: "unat (frame_total ?buf) = 1 + length (payload f)"
    by (rule frame_bytes_total [OF len]) simp
  have "?buf ! 4 = msg_code (ftype f)"
    by (simp add: frame_bytes_def nth_append)
  moreover have "take (length (payload f)) (drop 5 ?buf) = bytes_of (payload f)"
    by (simp add: frame_bytes_def)
  ultimately show ?thesis
    using len total ty by (simp add: try_decode_frame_def)
qed

lemma try_decode_frame_sound:
  assumes "try_decode_frame buf = Decoded f n"
  shows "wf_frame f \<and> n = length (frame_bytes f) \<and> n \<le> length buf \<and> take n buf = frame_bytes f"
proof -
  let ?t = "unat (frame_total buf)"
  from assms have b: "4 \<le> length buf" "1 \<le> ?t" "?t \<le> kMaxFrameLen" "4 + ?t \<le> length buf" "n = 4 + ?t"
    and f: "f = \<lparr>ftype = msg_of (buf ! 4), payload = str_of (take (?t - 1) (drop 5 buf))\<rparr>"
    by (auto simp: try_decode_frame_def Let_def split: if_splits)
  have pl: "length (payload f) = ?t - 1" using b f by simp
  have le: "le32_bytes (word_of_nat ?t) = take 4 buf"
    using le32_bytes_nth [OF b(1)] by (simp add: unat_frame_total)
  have "n = 4 + (1 + (?t - 1))" using b by simp
  then have "take n buf = take 4 buf @ take 1 (drop 4 buf) @ take (?t - 1) (drop 5 buf)"
    by (simp only: take_add drop_drop) simp
  also have "take 1 (drop 4 buf) = [buf ! 4]"
    using b by (simp add: take_Suc hd_drop_conv_nth drop_eq_Nil)
  finally have "take n buf = frame_bytes f"
    using b f pl le by (simp add: frame_bytes_def)
  then show ?thesis
    using b f pl by (simp add: wf_frame_def)
qed

lemma try_decode_frame_iff:
  "try_decode_frame buf = Decoded f n \<longleftrightarrow>
     wf_frame f \<and> n = length (frame_bytes f) \<and> buf = frame_bytes f @ drop n buf"
proof
  assume "try_decode_frame buf = Decoded f n"
  from try_decode_frame_sound [OF this]
  show "wf_frame f \<and> n = length (frame_bytes f) \<and> buf = frame_bytes f @ drop n buf"
    by (metis append_take_drop_id)
next
  assume "wf_frame f \<and> n = length (frame_bytes f) \<and> buf = frame_bytes f @ drop n buf"
  then show "try_decode_frame buf = Decoded f n"
    using try_decode_frame_bytes by metis
qed

lemma try_decode_frame_prefix:
  assumes "wf_frame f" and pq: "p @ q = frame_bytes f" and "q \<noteq> []"
  shows "try_decode_frame p = Need_more"
proof (cases "length p < 4")
  case True
  then show ?thesis by (simp add: try_decode_frame_def)
next
  case False
  have len: "1 + length (payload f) \<le> kMaxFrameLen" using assms(1) by (simp add: wf_frame_def)
  have "take 4 p = take 4 (frame_bytes f)" using False by (simp flip: pq)
  then have total: "unat (frame_total p) = 1 + length (payload f)"
    by (rule frame_bytes_total [OF len])
  have "length p + length q = 5 + length (payload f)"
    using arg_cong [OF pq, of length] by simp
  moreover have "0 < length q" using assms(3) by simp
  ultimately have "length p < 4 + (1 + length (payload f))" by linarith
  then show ?thesis
    using False len total by (simp add: try_decode_frame_def)
qed

interpretation wire: frame_codec try_decode_frame frame_bytes wf_frame
proof unfold_locales
  show "try_decode_frame [] = Need_more" by (simp add: try_decode_frame_def)
  show "0 < n \<and> n \<le> length b" if "try_decode_frame b = Decoded f n" for b f n
    using try_decode_frame_sound [OF that] by auto
  show "try_decode_frame (b @ c) = Decoded f n" if "try_decode_frame b = Decoded f n" for b f n c
    using that unfolding try_decode_frame_iff by (metis append.assoc append_eq_conv_conj)
  show "try_decode_frame (frame_bytes f) = Decoded f (length (frame_bytes f))" if "wf_frame f" for f
    using try_decode_frame_bytes [OF that, of "[]"] by simp
  show "try_decode_frame p = Need_more" if "wf_frame f" "p @ q = frame_bytes f" "q \<noteq> []" for f p q
    using that by (rule try_decode_frame_prefix)
qed

end
