(* ===== verification/Framing.thy ===== *)
theory Framing
  imports Protocol
begin

text \<open>
  Frames over a file descriptor (\<^verbatim>\<open>src/ipc/framing.cpp\<close>): the writing loop of
  \<open>write_frame\<close> over the results of \<^verbatim>\<open>write(2)\<close>, and the \<open>FrameReader\<close> that
  buffers what \<^verbatim>\<open>read(2)\<close> returns, pops frames and kills the stream on a protocol error
  or an oversized backlog.
\<close>

section \<open>Definitions\<close>

text \<open>What a system call may answer. \<open>Wrote 0\<close> is a return of 0.\<close>

datatype errno = EINTR | EAGAIN | EWOULDBLOCK | Other_errno

datatype write_result = Wrote nat | Write_err errno

text \<open>
  The loop of \<open>write_frame\<close>, over the results the kernel gives: the bytes put on the wire
  and the returned boolean, \<^term>\<open>None\<close> while it still waits for the kernel.
\<close>

definition transient :: "errno \<Rightarrow> bool" where
  "transient e \<longleftrightarrow> e = EINTR \<or> e = EAGAIN \<or> e = EWOULDBLOCK"

fun write_loop :: "write_result list \<Rightarrow> bytes \<Rightarrow> bytes \<times> bool option" where
  "write_loop ws [] = ([], Some True)"
| "write_loop [] (b # bs) = ([], None)"
| "write_loop (w # ws) (b # bs) =
     (case w of
        Wrote n \<Rightarrow>
          (if 0 < n then
             (let m = min n (length (b # bs)); (sent, r) = write_loop ws (drop m (b # bs))
              in (take m (b # bs) @ sent, r))
           else ([], Some False))
      | Write_err e \<Rightarrow>
          (if transient e then write_loop ws (b # bs) else ([], Some False)))"

text \<open>\<^term>\<open>None\<close> is the encoder's failed assertion.\<close>

definition write_frame :: "write_result list \<Rightarrow> msg_type \<Rightarrow> string \<Rightarrow> (bytes \<times> bool option) option" where
  "write_frame ws ty pl = map_option (write_loop ws) (encode_frame ty pl [])"

record frame_reader =
  buf :: bytes
  failed :: bool

definition new_reader :: frame_reader where
  "new_reader = \<lparr>buf = [], failed = False\<rparr>"

text \<open>\<open>Read_bytes []\<close> is a return of 0: end of file.\<close>

datatype read_result = Read_bytes bytes | Read_err errno

definition feed :: "read_result \<Rightarrow> frame_reader \<Rightarrow> bool \<times> frame_reader" where
  "feed rr r =
     (if failed r then (False, r)
      else case rr of
        Read_bytes tmp \<Rightarrow>
          (if tmp \<noteq> [] then
             (let b = buf r @ tmp in
              if length b > kMaxFrameLen then (False, r\<lparr>buf := [], failed := True\<rparr>)
              else (True, r\<lparr>buf := b\<rparr>))
           else (False, r))
      | Read_err e \<Rightarrow> (if transient e then (True, r) else (False, r)))"

definition next_frame :: "frame_reader \<Rightarrow> decoded_frame option \<times> frame_reader" where
  "next_frame r =
     (if failed r then (None, r)
      else case try_decode_frame (buf r) of
        Proto_error \<Rightarrow> (None, r\<lparr>buf := [], failed := True\<rparr>)
      | Need_more \<Rightarrow> (None, r)
      | Decoded f n \<Rightarrow> (Some f, r\<lparr>buf := drop n (buf r)\<rparr>))"

lemma next_frame_shrinks:
  "next_frame r = (Some f, r') \<Longrightarrow> length (buf r') < length (buf r)"
  using wire.dec_consumes by (fastforce simp: next_frame_def split: if_splits decode_result.splits)

text \<open>
  \<^verbatim>\<open>while (reader.next(f))\<close>, and the caller's loop the header of \<^verbatim>\<open>framing.hpp\<close>
  prescribes: drain, give up on a dead reader, feed, give up on a failed read. The frames
  handed to the caller, the reader, and whether the loop is still alive when the reads of
  the list are used up.
\<close>

function reader_drain :: "frame_reader \<Rightarrow> decoded_frame list \<times> frame_reader" where
  "reader_drain r =
     (case next_frame r of
        (None, r') \<Rightarrow> ([], r')
      | (Some f, r') \<Rightarrow> (case reader_drain r' of (fs, r'') \<Rightarrow> (f # fs, r'')))"
  by pat_completeness auto
termination
  by (relation "measure (\<lambda>r. length (buf r))") (auto dest!: next_frame_shrinks [OF sym])

declare reader_drain.simps [simp del]

fun read_loop :: "read_result list \<Rightarrow> frame_reader \<Rightarrow> decoded_frame list \<times> frame_reader \<times> bool" where
  "read_loop [] r =
     (case reader_drain r of (fs, r1) \<Rightarrow> (fs, r1, \<not> failed r1))"
| "read_loop (x # xs) r =
     (case reader_drain r of
        (fs, r1) \<Rightarrow>
          if failed r1 then (fs, r1, False)
          else case feed x r1 of
            (ok, r2) \<Rightarrow>
              if ok then (case read_loop xs r2 of (gs, r3, alive) \<Rightarrow> (fs @ gs, r3, alive))
              else (fs, r2, False))"

section \<open>The writing loop\<close>

lemma write_loop_prefix:
  "write_loop ws f = (sent, r) \<Longrightarrow> \<exists>rest. sent @ rest = f \<and> (r = Some True \<longleftrightarrow> rest = [])"
proof (induction ws f arbitrary: sent r rule: write_loop.induct)
  case (3 w ws b bs)
  show ?case
  proof (cases w)
    case (Wrote n)
    show ?thesis
    proof (cases "0 < n")
      case True
      let ?m = "min n (length (b # bs))"
      obtain s r' where rec: "write_loop ws (drop ?m (b # bs)) = (s, r')" by fastforce
      with "3.IH"(1) [OF Wrote True refl] obtain rest where
        rest: "s @ rest = drop ?m (b # bs)" "r' = Some True \<longleftrightarrow> rest = []"
        by metis
      have "sent = take ?m (b # bs) @ s" "r = r'"
        using "3.prems" Wrote True rec by (auto simp: Let_def)
      then show ?thesis
        using rest by (metis append.assoc append_take_drop_id)
    qed (use "3.prems" Wrote in auto)
  next
    case (Write_err e)
    then show ?thesis using 3 by (auto split: if_splits)
  qed
qed auto

text \<open>Progress: a write result that moves the loop on, and one that ends it.\<close>

definition progress :: "write_result \<Rightarrow> bool" where
  "progress w \<longleftrightarrow> (\<exists>n. w = Wrote n \<and> 0 < n)"

definition retryable :: "write_result \<Rightarrow> bool" where
  "retryable w \<longleftrightarrow> progress w \<or> (\<exists>e. w = Write_err e \<and> transient e)"

lemma write_loop_completes:
  "list_all retryable ws \<Longrightarrow> length f \<le> length (filter progress ws) \<Longrightarrow>
     write_loop ws f = (f, Some True)"
proof (induction ws f rule: write_loop.induct)
  case (3 w ws b bs)
  show ?case
  proof (cases w)
    case (Wrote n)
    then have n: "0 < n" using "3.prems" by (auto simp: retryable_def progress_def)
    let ?m = "min n (length (b # bs))"
    have "progress w" using Wrote n by (simp add: progress_def)
    then have "length (drop ?m (b # bs)) \<le> length (filter progress ws)"
      using "3.prems"(2) n by (simp; linarith)
    with "3.IH"(1) [OF Wrote n refl] "3.prems"
    have "write_loop ws (drop ?m (b # bs)) = (drop ?m (b # bs), Some True)" by simp
    then show ?thesis using Wrote n by (simp add: Let_def)
  next
    case (Write_err e)
    then have "transient e" using "3.prems" by (auto simp: retryable_def progress_def)
    then show ?thesis using 3 Write_err by (simp add: progress_def)
  qed
qed auto

section \<open>The reader\<close>

text \<open>The \<^verbatim>\<open>next\<close> loop is the abstract peeling of the codec, plus the latch.\<close>

lemma reader_drain_dead [simp]: "failed r \<Longrightarrow> reader_drain r = ([], r)"
  by (simp add: reader_drain.simps next_frame_def)

lemma reader_drain_eq:
  "\<not> failed r \<Longrightarrow>
     reader_drain r =
       (case drain_all try_decode_frame (buf r) of
          (fs, rest, good) \<Rightarrow> (fs, if good then r\<lparr>buf := rest\<rparr> else r\<lparr>buf := [], failed := True\<rparr>))"
proof (induction r rule: reader_drain.induct)
  case (1 r)
  show ?case
  proof (cases "try_decode_frame (buf r)")
    case Need_more
    then show ?thesis
      using "1.prems" by (simp add: reader_drain.simps next_frame_def wire.drain_Need_more)
  next
    case Proto_error
    then show ?thesis
      using "1.prems" by (simp add: reader_drain.simps next_frame_def wire.drain_Proto_error)
  next
    case (Decoded f n)
    let ?r = "r\<lparr>buf := drop n (buf r)\<rparr>"
    have nf: "next_frame r = (Some f, ?r)"
      using Decoded "1.prems" by (simp add: next_frame_def)
    from "1.IH" [OF nf [symmetric] refl] "1.prems"
    have "reader_drain ?r =
       (case drain_all try_decode_frame (drop n (buf r)) of
          (fs, rest, good) \<Rightarrow>
            (fs, if good then r\<lparr>buf := rest\<rparr> else r\<lparr>buf := [], failed := True\<rparr>))"
      by (simp split: prod.splits)
    then show ?thesis
      using nf by (subst reader_drain.simps)
        (simp add: wire.drain_Decoded [OF Decoded] split: prod.splits)
  qed
qed

lemma read_loop_Cons_alive:
  assumes "\<not> failed r" and "drain_all try_decode_frame (buf r) = (fs, rest, True)"
    and "c \<noteq> []" and "length (rest @ c) \<le> kMaxFrameLen"
  shows "read_loop (Read_bytes c # xs) r =
     (case read_loop xs (r\<lparr>buf := rest @ c\<rparr>) of (gs, r', alive) \<Rightarrow> (fs @ gs, r', alive))"
  using assms by (simp add: reader_drain_eq feed_def Let_def)

lemma read_loop_chunks:
  assumes "\<not> failed r"
    and "drain_all try_decode_frame (buf r @ concat cs) = (fs, rest, True)"
    and "\<And>k. \<exists>gs q. drain_all try_decode_frame (buf r @ concat (take k cs)) = (gs, q, True)
           \<and> length q + 4096 \<le> kMaxFrameLen"
    and "list_all (\<lambda>c. c \<noteq> [] \<and> length c \<le> 4096) cs"
  shows "read_loop (map Read_bytes cs) r = (fs, r\<lparr>buf := rest\<rparr>, True)"
  using assms
proof (induction cs arbitrary: r fs)
  case Nil
  then show ?case by (simp add: reader_drain_eq)
next
  case (Cons c cs)
  obtain gs q where d: "drain_all try_decode_frame (buf r) = (gs, q, True)"
    and q: "length q + 4096 \<le> kMaxFrameLen"
    using Cons.prems(3) [of 0] by auto
  let ?r = "r\<lparr>buf := q @ c\<rparr>"
  have len: "length (q @ c) \<le> kMaxFrameLen" and c: "c \<noteq> []"
    using q Cons.prems(4) by auto
  obtain hs where e: "drain_all try_decode_frame (q @ c @ concat cs) = (hs, rest, True)"
    and fs: "fs = gs @ hs"
    using wire.drain_append [OF d, of "c @ concat cs"] Cons.prems(2) by (auto split: prod.splits)
  have k: "\<exists>gs q. drain_all try_decode_frame (buf ?r @ concat (take k cs)) = (gs, q, True)
      \<and> length q + 4096 \<le> kMaxFrameLen" for k
    using Cons.prems(3) [of "Suc k"] wire.drain_append [OF d, of "c @ concat (take k cs)"]
    by (auto split: prod.splits)
  have "read_loop (map Read_bytes cs) ?r = (hs, ?r\<lparr>buf := rest\<rparr>, True)"
    using Cons.prems(1,4) e by (intro Cons.IH k) simp_all
  then show ?case
    using read_loop_Cons_alive [OF Cons.prems(1) d c len] fs by simp
qed

section \<open>Streams\<close>

lemma reader_stream:
  assumes "list_all wf_frame fs" and "list_all (\<lambda>f. length (payload f) + 4100 \<le> kMaxFrameLen) fs"
    and "concat cs = concat (map frame_bytes fs)"
    and "list_all (\<lambda>c. c \<noteq> [] \<and> length c \<le> 4096) cs"
  shows "read_loop (map Read_bytes cs) new_reader = (fs, new_reader, True)"
proof -
  have d: "drain_all try_decode_frame (concat cs) = (fs, [], True)"
    using wire.drain_stream [OF assms(1)] assms(3) by simp
  have "\<exists>gs q. drain_all try_decode_frame (concat (take k cs)) = (gs, q, True)
      \<and> length q + 4096 \<le> kMaxFrameLen" for k
  proof -
    have "concat (take k cs) @ concat (drop k cs) = concat (map frame_bytes fs)"
      using assms(3) by (metis append_take_drop_id concat_append)
    from wire.drain_stream_prefix [OF assms(1) this] obtain gs q where
      g: "drain_all try_decode_frame (concat (take k cs)) = (gs, q, True)"
      and q: "q = [] \<or> (\<exists>f s. f \<in> set fs \<and> s \<noteq> [] \<and> q @ s = frame_bytes f)"
      by blast
    have "length q + 4096 \<le> kMaxFrameLen"
    proof (cases "q = []")
      case False
      with q obtain f s where f: "f \<in> set fs" "s \<noteq> []" "q @ s = frame_bytes f" by blast
      have "length (q @ s) = length (frame_bytes f)" by (simp only: f(3))
      then have "length q + length s = 5 + length (payload f)" "0 < length s"
        using f(2) by simp_all
      moreover have "length (payload f) + 4100 \<le> kMaxFrameLen"
        using assms(2) f(1) by (auto simp: list_all_iff)
      ultimately show ?thesis by linarith
    qed (simp add: kMaxFrameLen_eq)
    with g show ?thesis by blast
  qed
  with read_loop_chunks [of new_reader cs fs "[]"] d assms(4) show ?thesis
    by (simp add: new_reader_def)
qed

section \<open>Properties\<close>

text \<open>
  The decoder accepts a buffer exactly when it starts with the encoding of a well-formed
  frame: the frame it returns is that one, it consumes exactly its bytes, and what follows in
  the buffer has no influence.
\<close>

theorem decode_characterisation:
  "try_decode_frame b = Decoded f n \<longleftrightarrow>
     (\<exists>rest. b = frame_bytes f @ rest) \<and> wf_frame f \<and> n = length (frame_bytes f)"
  unfolding try_decode_frame_iff by (metis append_eq_conv_conj)

text \<open>
  C18: What \<open>encode_frame\<close> appends to a buffer, \<open>try_decode_frame\<close> reads back: the same type
  and payload, whatever bytes follow, consuming exactly the appended bytes.
\<close>

theorem frame_round_trip:
  assumes "encode_frame ty pl out = Some b" and "msg_of (msg_code ty) = ty"
  shows "\<exists>fr. b = out @ fr \<and>
    try_decode_frame (fr @ rest) = Decoded \<lparr>ftype = ty, payload = pl\<rparr> (length fr)"
  using assms try_decode_frame_bytes [of "\<lparr>ftype = ty, payload = pl\<rparr>" rest]
  by (auto simp: encode_frame_eq wf_frame_def split: if_splits)

theorem frame_round_trip_witness:
  "\<exists>fr b. b = [7] @ fr \<and>
     try_decode_frame (fr @ [1, 2]) = Decoded \<lparr>ftype = Ping, payload = ''hi''\<rparr> (length fr)"
proof -
  obtain b where b: "encode_frame Ping ''hi'' [7] = Some b"
    by (simp add: encode_frame_eq kMaxFrameLen_eq)
  show ?thesis
    using frame_round_trip [OF b, of "[1, 2]"] by (auto simp: msg_of_def)
qed

text \<open>
  C20: However the kernel cuts the stream into reads of at most 4096 bytes, the reader loop
  delivers exactly the frames that were sent, in order, with nothing left over and the stream
  alive, as long as every payload stays 4100 bytes under the cap.
\<close>

theorem reader_delivers_stream:
  assumes "list_all wf_frame fs" and "list_all (\<lambda>f. length (payload f) + 4100 \<le> kMaxFrameLen) fs"
    and "concat cs = concat (map frame_bytes fs)"
    and "list_all (\<lambda>c. c \<noteq> [] \<and> length c \<le> 4096) cs"
  shows "read_loop (map Read_bytes cs) new_reader = (fs, new_reader, True)"
  by (rule reader_stream [OF assms])

theorem reader_delivers_stream_witness:
  "read_loop (map Read_bytes
      (map (\<lambda>b. [b]) (frame_bytes \<lparr>ftype = Ping, payload = ''hi''\<rparr>))) new_reader
     = ([\<lparr>ftype = Ping, payload = ''hi''\<rparr>], new_reader, True)"
  by (rule reader_delivers_stream)
    (simp_all add: wf_frame_def msg_of_def kMaxFrameLen_eq list_all_iff concat_map_singleton)

text \<open>
  A frame the encoder and the protocol accept but whose encoding is longer than the cap
  (a total length of \<open>kMaxFrameLen - 3\<close> to \<open>kMaxFrameLen\<close>) is never received: however it is
  cut into reads, the reader declares the stream dead and delivers nothing.
\<close>

theorem reader_rejects_max_frame:
  assumes "wf_frame f" and "kMaxFrameLen < length (frame_bytes f)"
    and "concat cs = frame_bytes f" and "list_all (\<lambda>c. c \<noteq> []) cs"
  shows "read_loop (map Read_bytes cs) new_reader = ([], \<lparr>buf = [], failed = True\<rparr>, False)"
proof -
  have "p @ concat cs = frame_bytes f \<Longrightarrow> length p \<le> kMaxFrameLen \<Longrightarrow> list_all (\<lambda>c. c \<noteq> []) cs \<Longrightarrow>
    read_loop (map Read_bytes cs) \<lparr>buf = p, failed = False\<rparr> = ([], \<lparr>buf = [], failed = True\<rparr>, False)"
    for p
  proof (induction cs arbitrary: p)
    case Nil
    then show ?case using assms(2) by simp
  next
    case (Cons c cs)
    have "concat (c # cs) \<noteq> []" using Cons.prems(3) by auto
    from try_decode_frame_prefix [OF assms(1) Cons.prems(1) this]
    have d: "drain_all try_decode_frame p = ([], p, True)" by (rule wire.drain_Need_more)
    show ?case
    proof (cases "length (p @ c) \<le> kMaxFrameLen")
      case True
      then show ?thesis
        using Cons read_loop_Cons_alive [of "\<lparr>buf = p, failed = False\<rparr>" "[]" p c] d by simp
    next
      case False
      then show ?thesis
        using Cons.prems(3) d by (simp add: reader_drain_eq feed_def Let_def)
    qed
  qed
  from this [of "[]"] assms(3,4) show ?thesis by (simp add: new_reader_def)
qed

theorem reader_rejects_max_frame_witness:
  "read_loop [Read_bytes (frame_bytes \<lparr>ftype = Snapshot, payload = replicate (kMaxFrameLen - 1) CHR ''x''\<rparr>)]
     new_reader = ([], \<lparr>buf = [], failed = True\<rparr>, False)"
proof -
  let ?f = "\<lparr>ftype = Snapshot, payload = replicate (kMaxFrameLen - 1) CHR ''x''\<rparr>"
  have "wf_frame ?f" by (simp add: wf_frame_def msg_of_def kMaxFrameLen_eq)
  moreover have "kMaxFrameLen < length (frame_bytes ?f)" by (simp add: kMaxFrameLen_eq)
  ultimately have "read_loop (map Read_bytes [frame_bytes ?f]) new_reader
      = ([], \<lparr>buf = [], failed = True\<rparr>, False)"
    by (rule reader_rejects_max_frame) (simp_all add: frame_bytes_def)
  then show ?thesis by simp
qed

text \<open>
  \<open>write_frame\<close> never corrupts the stream: whatever the kernel answers, the bytes it put
  on the wire are a prefix of the frame, and it reports success exactly when that prefix is
  the whole frame.
\<close>

theorem write_frame_all_or_prefix:
  assumes "write_frame ws ty pl = Some (sent, r)"
  shows "\<exists>rest. sent @ rest = frame_bytes \<lparr>ftype = ty, payload = pl\<rparr> \<and> (r = Some True \<longleftrightarrow> rest = [])"
  using assms write_loop_prefix by (auto simp: write_frame_def encode_frame_eq split: if_splits)

theorem write_frame_all_or_prefix_witness:
  "\<exists>rest. take 3 (frame_bytes \<lparr>ftype = Pong, payload = []\<rparr>) @ rest
      = frame_bytes \<lparr>ftype = Pong, payload = []\<rparr> \<and> (Some False = Some True \<longleftrightarrow> rest = [])"
  by (rule write_frame_all_or_prefix [where ws = "[Wrote 2, Write_err EAGAIN, Wrote 1, Write_err Other_errno]"])
    (simp add: write_frame_def encode_frame_eq kMaxFrameLen_eq frame_bytes_def le32_bytes_def
      transient_def bytes_of_def)

text \<open>
  C32: The writing loop ends: if the kernel refuses nothing for good and accepts bytes as often
  as the frame is long (short writes and transient errors allowed), the whole frame is sent
  and \<^term>\<open>True\<close> returned.
\<close>

theorem write_frame_terminates:
  assumes "1 + length pl \<le> kMaxFrameLen" and "list_all retryable ws"
    and "5 + length pl \<le> length (filter progress ws)"
  shows "write_frame ws ty pl = Some (frame_bytes \<lparr>ftype = ty, payload = pl\<rparr>, Some True)"
  using assms by (simp add: write_frame_def encode_frame_eq write_loop_completes)

theorem write_frame_terminates_witness:
  "write_frame [Write_err EINTR, Wrote 1, Wrote 1, Write_err EAGAIN, Wrote 1, Wrote 1, Wrote 9]
     Ping [] = Some (frame_bytes \<lparr>ftype = Ping, payload = []\<rparr>, Some True)"
  by (rule write_frame_terminates)
    (simp_all add: kMaxFrameLen_eq retryable_def progress_def transient_def)

end
