(* ===== verification/Denylist.thy ===== *)
theory Denylist
  imports Prelude
begin

text \<open>
  The process-name denylist (\<^verbatim>\<open>src/host/config/denylist.cpp\<close>). The glob matcher is the
  C library's \<^verbatim>\<open>fnmatch\<close>, a parameter here; what the file adds is which name is matched:
  the lower-cased last path segment against the lower-cased pattern.
\<close>

definition lower_char :: "char \<Rightarrow> char" where
  "lower_char c = (if byte_of c \<ge> 65 \<and> byte_of c \<le> 90 then chr_of (byte_of c + 32) else c)"

definition to_lower :: "string \<Rightarrow> string" where
  "to_lower s = map lower_char s"

definition basename_of :: "string \<Rightarrow> string" where
  "basename_of path =
     (if CHR ''/'' \<in> set path then rev (takeWhile (\<lambda>c. c \<noteq> CHR ''/'') (rev path)) else path)"

text \<open>What a function taking \<^verbatim>\<open>const char*\<close> sees of a string.\<close>

definition c_str :: "string \<Rightarrow> string" where
  "c_str s = takeWhile (\<lambda>c. byte_of c \<noteq> 0) s"

definition blocks :: "(string \<Rightarrow> string \<Rightarrow> bool) \<Rightarrow> string list \<Rightarrow> string \<Rightarrow> bool" where
  "blocks fnmatch patterns exe_name =
     (let base = to_lower (basename_of exe_name) in
      list_ex (\<lambda>pat. fnmatch (c_str (to_lower pat)) (c_str base)) patterns)"

definition default_patterns :: "string list" where
  "default_patterns =
     [''Discord'', ''steam'', ''steamwebhelper'', ''gamescope'', ''obs'', ''obs-studio'', ''firefox'',
      ''chrome'', ''chromium'', ''code'', ''electron'', ''choir'', ''*launcher*'', ''faugus*'',
      ''protontricks*'']"

lemma lower_char_idem [simp]: "lower_char (lower_char c) = lower_char c"
proof (cases "byte_of c \<ge> 65 \<and> byte_of c \<le> 90")
  case True
  then have u: "65 \<le> unat (byte_of c)" "unat (byte_of c) \<le> 90" by (simp_all add: word_le_nat_alt)
  then have "unat (byte_of c + 32) = unat (byte_of c) + 32" by (simp add: unat_word_ariths)
  with u have "\<not> byte_of c + 32 \<le> 90" by (simp add: word_le_nat_alt)
  then show ?thesis using True by (simp add: lower_char_def)
next
  case False
  then have "lower_char c = c" by (auto simp: lower_char_def)
  then show ?thesis by simp
qed

lemma to_lower_idem [simp]: "to_lower (to_lower s) = to_lower s"
  by (simp add: to_lower_def comp_def)

lemma lower_char_slash [simp]: "lower_char c = CHR ''/'' \<longleftrightarrow> c = CHR ''/''"
proof (cases "byte_of c \<ge> 65 \<and> byte_of c \<le> 90")
  case True
  then have u: "65 \<le> unat (byte_of c)" "unat (byte_of c) \<le> 90" by (simp_all add: word_le_nat_alt)
  then have "unat (byte_of c + 32) = unat (byte_of c) + 32" by (simp add: unat_word_ariths)
  with u have "byte_of c + 32 \<noteq> byte_of CHR ''/''" "byte_of c \<noteq> byte_of CHR ''/''"
    by (auto simp: word_unat_eq_iff byte_of_def)
  then show ?thesis using True by (metis byte_of_chr_of lower_char_def)
next
  case False
  then have "lower_char c = c" by (auto simp: lower_char_def)
  then show ?thesis by simp
qed

lemma basename_of_alt: "basename_of path = rev (takeWhile (\<lambda>c. c \<noteq> CHR ''/'') (rev path))"
proof (cases "CHR ''/'' \<in> set path")
  case False
  then have "takeWhile (\<lambda>c. c \<noteq> CHR ''/'') (rev path) = rev path"
    by (intro takeWhile_eq_all_conv [THEN iffD2]) auto
  then have "rev (takeWhile (\<lambda>c. c \<noteq> CHR ''/'') (rev path)) = path" by (simp only: rev_rev_ident)
  then show ?thesis using False by (simp only: basename_of_def if_False)
qed (simp add: basename_of_def)

lemma basename_of_to_lower: "basename_of (to_lower path) = to_lower (basename_of path)"
  by (simp add: basename_of_alt to_lower_def rev_map takeWhile_map comp_def rev_map)

lemma basename_of_path: "CHR ''/'' \<notin> set e \<Longrightarrow> basename_of (dir @ ''/'' @ e) = e"
  by (simp add: basename_of_alt takeWhile_append)

text \<open>
  The verdict depends on the last path segment only and on no letter's case: whatever
  directory a name is in and however name and patterns are capitalised, the answer is that for
  the bare lower-case name and patterns. A directory component can never block a game.
\<close>

theorem blocks_basename_caseless:
  assumes "CHR ''/'' \<notin> set e"
  shows "blocks fnmatch ps (dir @ ''/'' @ e) = blocks fnmatch ps e \<and>
    blocks fnmatch ps e = blocks fnmatch (map to_lower ps) (to_lower e)"
proof -
  have "basename_of e = e" using assms by (simp add: basename_of_def)
  then show ?thesis
    using basename_of_path [OF assms] basename_of_to_lower [of e]
    by (simp add: blocks_def list_ex_iff Let_def)
qed

theorem blocks_basename_caseless_witness:
  "blocks (\<lambda>p s. p = s) [''Obs''] (''/opt/Steam'' @ ''/'' @ ''oBS'')"
  by (subst blocks_basename_caseless [THEN conjunct1]) code_simp+

end
