(* ===== verification/StateServer.thy ===== *)
theory StateServer
  imports OverlayState Framing Denylist "HOL-Library.AList"
begin

text \<open>
  The host's IPC server (\<^verbatim>\<open>src/host/server/state_server.cpp\<close>): its clients, the stored
  snapshot and avatars, and the handlers the event loop calls. A socket is a number; what a
  handler sends or aborts is its output. \<^term>\<open>None\<close> is the end of the process: an exception
  of the JSON printer or a failed assertion of the encoder, neither of which is caught.
\<close>

section \<open>Definitions\<close>

record client =
  c_rbuf :: bytes
  c_active :: bool
  c_inert :: bool

record avatar_entry =
  a_path :: string
  a_w :: u32
  a_h :: u32

text \<open>The hash tables are association lists; their order stands for the unspecified one.\<close>

record server =
  is_blocked :: "(string \<Rightarrow> bool) option"
  clients :: "(nat \<times> client) list"
  current :: snapshot
  avatars :: "(string \<times> avatar_entry) list"

datatype srv_output = Sent nat msg_type string | Aborted nat

definition new_client :: client where
  "new_client = \<lparr>c_rbuf = [], c_active = False, c_inert = False\<rparr>"

definition new_server :: "(string \<Rightarrow> bool) option \<Rightarrow> server" where
  "new_server blk = \<lparr>is_blocked = blk, clients = [], current = new_snapshot, avatars = []\<rparr>"

definition avatar_payload :: "json_lib \<Rightarrow> string \<Rightarrow> string \<Rightarrow> u32 \<Rightarrow> u32 \<Rightarrow> string option" where
  "avatar_payload lib hash path w h =
     lib_dump lib (jobj [(''hash'', JStr hash), (''path'', JStr path),
                         (''w'', JInt (uint w)), (''h'', JInt (uint h))])"

definition send_frame :: "nat \<Rightarrow> msg_type \<Rightarrow> string \<Rightarrow> srv_output list option" where
  "send_frame sock ty pl = map_option (\<lambda>_. [Sent sock ty pl]) (encode_frame ty pl [])"

text \<open>A sequence of sends, the first of which that fails ends it all.\<close>

fun send_all :: "srv_output list option list \<Rightarrow> srv_output list option" where
  "send_all [] = Some []"
| "send_all (None # xs) = None"
| "send_all (Some o1 # xs) = map_option (append o1) (send_all xs)"

definition send_dumped :: "nat \<Rightarrow> msg_type \<Rightarrow> string option \<Rightarrow> srv_output list option" where
  "send_dumped sock ty d = Option.bind d (send_frame sock ty)"

definition seed_client :: "json_lib \<Rightarrow> server \<Rightarrow> nat \<Rightarrow> srv_output list option" where
  "seed_client lib sv sock =
     send_all (send_dumped sock Snapshot (to_json_str lib (current sv)) #
       map (\<lambda>(hash, e). send_dumped sock AvatarReady (avatar_payload lib hash (a_path e) (a_w e) (a_h e)))
         (avatars sv))"

definition hello_exe :: "json \<Rightarrow> string" where
  "hello_exe j = (case jfind j ''exe'' of Some (JStr s) \<Rightarrow> s | _ \<Rightarrow> [])"

definition hello_argv :: "json \<Rightarrow> string list" where
  "hello_argv j =
     (case jfind j ''argv'' of
        Some (JArr els) \<Rightarrow> concat (map (\<lambda>el. case el of JStr a \<Rightarrow> [a] | _ \<Rightarrow> []) els)
      | _ \<Rightarrow> [])"

definition hello_blocked :: "json_lib \<Rightarrow> server \<Rightarrow> string \<Rightarrow> bool" where
  "hello_blocked lib sv pl =
     (let (exe, argv) = (case lib_parse lib pl of
            Some j \<Rightarrow> (hello_exe j, hello_argv j) | None \<Rightarrow> ([], [])) in
      case is_blocked sv of
        None \<Rightarrow> False
      | Some blk \<Rightarrow> blk exe \<or> list_ex blk argv)"

definition handle_hello ::
    "json_lib \<Rightarrow> server \<Rightarrow> nat \<Rightarrow> client \<Rightarrow> string \<Rightarrow> (client \<times> srv_output list) option" where
  "handle_hello lib sv sock c pl =
     (if c_active c \<or> c_inert c then Some (c, [])
      else if hello_blocked lib sv pl
      then map_option (Pair (c\<lparr>c_inert := True\<rparr>)) (send_frame sock Disabled [])
      else map_option (Pair (c\<lparr>c_active := True\<rparr>)) (seed_client lib sv sock))"

text \<open>The switch of \<open>drain_frames\<close>, and its loop.\<close>

definition handle_frame ::
    "json_lib \<Rightarrow> server \<Rightarrow> nat \<Rightarrow> client \<Rightarrow> decoded_frame \<Rightarrow> (client \<times> srv_output list) option" where
  "handle_frame lib sv sock c f =
     (case ftype f of
        Hello \<Rightarrow> handle_hello lib sv sock c (payload f)
      | Ping \<Rightarrow> map_option (Pair c) (send_frame sock Pong [])
      | _ \<Rightarrow> Some (c, []))"

lemma handle_frame_rbuf:
  "handle_frame lib sv sock c f = Some (c', out) \<Longrightarrow> c_rbuf c' = c_rbuf c"
  by (auto simp: handle_frame_def handle_hello_def split: msg_type.splits if_splits)

function drain_frames ::
    "json_lib \<Rightarrow> server \<Rightarrow> nat \<Rightarrow> client \<Rightarrow> (client \<times> srv_output list \<times> bool) option" where
  "drain_frames lib sv sock c =
     (case try_decode_frame (c_rbuf c) of
        Proto_error \<Rightarrow> Some (c, [], False)
      | Need_more \<Rightarrow> Some (c, [], \<not> length (c_rbuf c) > kMaxFrameLen)
      | Decoded f n \<Rightarrow>
          (case handle_frame lib sv sock (c\<lparr>c_rbuf := drop n (c_rbuf c)\<rparr>) f of
             None \<Rightarrow> None
           | Some (c', out) \<Rightarrow>
               map_option (\<lambda>(c'', out', ok). (c'', out @ out', ok)) (drain_frames lib sv sock c')))"
  by pat_completeness auto
termination
  by (relation "measure (\<lambda>(lib, sv, sock, c). length (c_rbuf c))")
    (auto dest!: handle_frame_rbuf wire.dec_consumes)

declare drain_frames.simps [simp del]

definition on_disconnected :: "server \<Rightarrow> nat \<Rightarrow> server" where
  "on_disconnected sv sock = sv\<lparr>clients := AList.delete sock (clients sv)\<rparr>"

definition on_ready_read :: "json_lib \<Rightarrow> server \<Rightarrow> nat \<Rightarrow> bytes \<Rightarrow> (server \<times> srv_output list) option" where
  "on_ready_read lib sv sock data =
     (case map_of (clients sv) sock of
        None \<Rightarrow> Some (sv, [])
      | Some c \<Rightarrow>
          (case drain_frames lib sv sock (c\<lparr>c_rbuf := c_rbuf c @ data\<rparr>) of
             None \<Rightarrow> None
           | Some (c', out, ok) \<Rightarrow>
               let sv' = sv\<lparr>clients := AList.update sock c' (clients sv)\<rparr> in
               if ok then Some (sv', out)
               else Some (on_disconnected sv' sock, out @ [Aborted sock])))"

definition on_new_connection :: "json_lib \<Rightarrow> server \<Rightarrow> nat \<Rightarrow> bytes \<Rightarrow> (server \<times> srv_output list) option" where
  "on_new_connection lib sv sock data =
     (let c = (case map_of (clients sv) sock of Some c \<Rightarrow> c | None \<Rightarrow> new_client);
          sv' = sv\<lparr>clients := AList.update sock c (clients sv)\<rparr>
      in if data \<noteq> [] then on_ready_read lib sv' sock data else Some (sv', []))"

definition set_snapshot :: "server \<Rightarrow> snapshot \<Rightarrow> server" where
  "set_snapshot sv s = sv\<lparr>current := s\<rparr>"

definition to_active :: "server \<Rightarrow> msg_type \<Rightarrow> string \<Rightarrow> srv_output list option" where
  "to_active sv ty pl =
     send_all (map (\<lambda>(sock, c). send_frame sock ty pl) (filter (c_active \<circ> snd) (clients sv)))"

definition broadcast :: "json_lib \<Rightarrow> server \<Rightarrow> snapshot \<Rightarrow> (server \<times> srv_output list) option" where
  "broadcast lib sv s =
     (let sv' = sv\<lparr>current := s\<rparr> in
      Option.bind (to_json_str lib s) (\<lambda>js. map_option (Pair sv') (to_active sv' Snapshot js)))"

definition broadcast_avatar ::
    "json_lib \<Rightarrow> server \<Rightarrow> string \<Rightarrow> string \<Rightarrow> u32 \<Rightarrow> u32 \<Rightarrow> (server \<times> srv_output list) option" where
  "broadcast_avatar lib sv hash path w h =
     (let sv' = sv\<lparr>avatars := AList.update hash \<lparr>a_path = path, a_w = w, a_h = h\<rparr> (avatars sv)\<rparr> in
      Option.bind (avatar_payload lib hash path w h)
        (\<lambda>pl. map_option (Pair sv') (to_active sv' AvatarReady pl)))"

text \<open>What the event loop and the host can make the server do.\<close>

datatype srv_event =
    Connection nat bytes | Ready_read nat bytes | Disconnected nat
  | Set_snapshot snapshot | Broadcast snapshot | Broadcast_avatar string string u32 u32

fun srv_step :: "json_lib \<Rightarrow> server \<Rightarrow> srv_event \<Rightarrow> (server \<times> srv_output list) option" where
  "srv_step lib sv (Connection sock data) = on_new_connection lib sv sock data"
| "srv_step lib sv (Ready_read sock data) = on_ready_read lib sv sock data"
| "srv_step lib sv (Disconnected sock) = Some (on_disconnected sv sock, [])"
| "srv_step lib sv (Set_snapshot s) = Some (set_snapshot sv s, [])"
| "srv_step lib sv (Broadcast s) = broadcast lib sv s"
| "srv_step lib sv (Broadcast_avatar hash path w h) = broadcast_avatar lib sv hash path w h"

section \<open>Lemmas\<close>

lemma send_frame_Some: "send_frame sock ty pl = Some out \<longleftrightarrow>
    1 + length pl \<le> kMaxFrameLen \<and> out = [Sent sock ty pl]"
  by (auto simp: send_frame_def encode_frame_eq)

lemma send_all_Some:
  "send_all xs = Some out \<longleftrightarrow> (\<exists>ys. xs = map Some ys \<and> out = concat ys)"
proof (induction xs arbitrary: out rule: send_all.induct)
  case (3 o1 xs)
  then show ?case by (auto simp: Cons_eq_map_conv)
qed (auto simp: Cons_eq_map_conv)

lemma send_all_all:
  "send_all xs = Some out \<Longrightarrow> (\<And>ys. Some ys \<in> set xs \<Longrightarrow> list_all P ys) \<Longrightarrow> list_all P out"
proof (induction xs arbitrary: out rule: send_all.induct)
  case (3 o1 xs)
  then obtain o2 where "send_all xs = Some o2" "out = o1 @ o2" by auto
  then show ?case using 3 by auto
qed auto

text \<open>Where a message goes, and whether it tells the client anything about the state.\<close>

fun dest :: "srv_output \<Rightarrow> nat" where
  "dest (Sent sock ty pl) = sock"
| "dest (Aborted sock) = sock"

fun state_frame :: "srv_output \<Rightarrow> bool" where
  "state_frame (Sent sock ty pl) \<longleftrightarrow> ty = Snapshot \<or> ty = AvatarReady"
| "state_frame (Aborted sock) \<longleftrightarrow> False"

lemma send_dumped_dest: "send_dumped sock ty d = Some out \<Longrightarrow> list_all (\<lambda>x. dest x = sock) out"
  by (auto simp: send_dumped_def bind_eq_Some_conv send_frame_Some)

lemma seed_dest:
  assumes "seed_client lib sv sock = Some out"
  shows "list_all (\<lambda>x. dest x = sock) out"
  by (rule send_all_all [OF assms [unfolded seed_client_def]])
    (auto simp: send_dumped_dest dest!: sym [of "Some _"])

text \<open>What handling one frame and draining a buffer do to a client and send to it.\<close>

definition only_pongs :: "nat \<Rightarrow> srv_output list \<Rightarrow> bool" where
  "only_pongs sock out \<longleftrightarrow> list_all (\<lambda>x. x = Sent sock Pong []) out"

definition client_step_ok :: "nat \<Rightarrow> client \<Rightarrow> client \<Rightarrow> srv_output list \<Rightarrow> bool" where
  "client_step_ok sock c c' out \<longleftrightarrow>
     (\<not> (c_active c \<and> c_inert c) \<longrightarrow> \<not> (c_active c' \<and> c_inert c')) \<and>
     (c_active c \<longrightarrow> c_active c') \<and>
     (c_inert c \<longrightarrow> c_inert c' \<and> c_active c' = c_active c \<and> only_pongs sock out) \<and>
     list_all (\<lambda>x. dest x = sock \<and> (state_frame x \<longrightarrow> c_active c')) out"

lemma client_step_ok_trans:
  "client_step_ok sock c c' out \<Longrightarrow> client_step_ok sock c' c'' out' \<Longrightarrow>
     client_step_ok sock c c'' (out @ out')"
  by (auto simp: client_step_ok_def only_pongs_def list_all_iff)

lemma client_step_ok_refl: "client_step_ok sock c c []"
  by (simp add: client_step_ok_def only_pongs_def)

lemma client_step_ok_rbuf: "client_step_ok sock (c\<lparr>c_rbuf := b\<rparr>) c' out = client_step_ok sock c c' out"
  by (simp add: client_step_ok_def)

lemma handle_frame_ok:
  assumes "handle_frame lib sv sock c f = Some (c', out)"
  shows "client_step_ok sock c c' out"
proof (cases "ftype f")
  case Hello
  then have h: "handle_hello lib sv sock c (payload f) = Some (c', out)"
    using assms by (simp add: handle_frame_def)
  show ?thesis
  proof (cases "c_active c \<or> c_inert c \<or> hello_blocked lib sv (payload f)")
    case True
    then show ?thesis
      using h by (auto simp: handle_hello_def send_frame_Some client_step_ok_def only_pongs_def
          split: if_splits)
  next
    case False
    then show ?thesis
      using h seed_dest [of lib sv sock out]
      by (auto simp: handle_hello_def client_step_ok_def list_all_iff)
  qed
qed (use assms in \<open>auto simp: handle_frame_def send_frame_Some client_step_ok_def only_pongs_def\<close>)

lemma drain_frames_ok:
  "drain_frames lib sv sock c = Some (c', out, ok) \<Longrightarrow>
     client_step_ok sock c c' out \<and>
     (ok \<longrightarrow> try_decode_frame (c_rbuf c') = Need_more \<and> length (c_rbuf c') \<le> kMaxFrameLen)"
proof (induction lib sv sock c arbitrary: c' out ok rule: drain_frames.induct)
  case (1 lib sv sock c)
  show ?case
  proof (cases "try_decode_frame (c_rbuf c)")
    case (Decoded f n)
    let ?c = "c\<lparr>c_rbuf := drop n (c_rbuf c)\<rparr>"
    from "1.prems" Decoded obtain c1 o1 o2 where
      h: "handle_frame lib sv sock ?c f = Some (c1, o1)"
      and d: "drain_frames lib sv sock c1 = Some (c', o2, ok)" and out: "out = o1 @ o2"
      by (subst (asm) drain_frames.simps) (auto split: option.splits)
    from "1.IH" [OF Decoded h refl d] handle_frame_ok [OF h]
    show ?thesis using client_step_ok_trans out by (auto simp: client_step_ok_rbuf)
  qed (use "1.prems" in \<open>auto simp: drain_frames.simps [of lib sv sock c] client_step_ok_refl\<close>)
qed

section \<open>Invariants of the server\<close>

definition wf_client :: "client \<Rightarrow> bool" where
  "wf_client c \<longleftrightarrow> \<not> (c_active c \<and> c_inert c) \<and> try_decode_frame (c_rbuf c) = Need_more \<and>
     length (c_rbuf c) \<le> kMaxFrameLen"

definition srv_inv :: "server \<Rightarrow> bool" where
  "srv_inv sv \<longleftrightarrow> distinct (map fst (clients sv)) \<and> distinct (map fst (avatars sv)) \<and>
     list_all (wf_client \<circ> snd) (clients sv)"

lemma wf_new_client: "wf_client new_client"
  by (simp add: wf_client_def new_client_def try_decode_frame_def)

lemma list_all_update:
  "list_all (P \<circ> snd) xs \<Longrightarrow> P v \<Longrightarrow> list_all (P \<circ> snd) (AList.update k v xs)"
  by (induction xs) auto

lemma list_all_delete: "list_all P xs \<Longrightarrow> list_all P (AList.delete k xs)"
  by (auto simp: AList.delete_eq list_all_iff)

lemma wf_client_of: "srv_inv sv \<Longrightarrow> map_of (clients sv) sock = Some c \<Longrightarrow> wf_client c"
  by (auto simp: srv_inv_def list_all_iff dest: map_of_SomeD)

text \<open>Only the clients change when one reads or leaves.\<close>

lemma on_ready_read_cases:
  assumes "on_ready_read lib sv sock data = Some (sv', out)"
  obtains "map_of (clients sv) sock = None" "sv' = sv" "out = []"
  | c c' o1 where "map_of (clients sv) sock = Some c"
      "drain_frames lib sv sock (c\<lparr>c_rbuf := c_rbuf c @ data\<rparr>) = Some (c', o1, True)"
      "sv' = sv\<lparr>clients := AList.update sock c' (clients sv)\<rparr>" "out = o1"
  | c c' o1 where "map_of (clients sv) sock = Some c"
      "drain_frames lib sv sock (c\<lparr>c_rbuf := c_rbuf c @ data\<rparr>) = Some (c', o1, False)"
      "sv' = sv\<lparr>clients := AList.delete sock (AList.update sock c' (clients sv))\<rparr>" "out = o1 @ [Aborted sock]"
  using assms by (auto simp: on_ready_read_def on_disconnected_def Let_def split: option.splits if_splits)

lemma on_ready_read_inv:
  assumes "srv_inv sv" and "on_ready_read lib sv sock data = Some (sv', out)"
  shows "srv_inv sv'"
  using assms(2)
proof (cases rule: on_ready_read_cases)
  case 1
  then show ?thesis using assms(1) by simp
next
  case (2 c c' o1)
  from wf_client_of [OF assms(1) 2(1)] drain_frames_ok [OF 2(2)] have "wf_client c'"
    by (simp add: wf_client_def client_step_ok_def)
  then show ?thesis
    using assms(1) 2(3) by (simp add: srv_inv_def list_all_update distinct_update)
next
  case (3 c c' o1)
  then show ?thesis
    using assms(1) by (simp add: srv_inv_def list_all_delete distinct_update distinct_delete delete_update_same)
qed

lemma on_new_connection_inv:
  assumes "srv_inv sv" and "on_new_connection lib sv sock data = Some (sv', out)"
  shows "srv_inv sv'"
proof -
  let ?c = "case map_of (clients sv) sock of Some c \<Rightarrow> c | None \<Rightarrow> new_client"
  have "wf_client ?c"
    using wf_client_of [OF assms(1), of sock] wf_new_client by (auto split: option.splits)
  then have "srv_inv (sv\<lparr>clients := AList.update sock ?c (clients sv)\<rparr>)"
    using assms(1) by (simp add: srv_inv_def list_all_update distinct_update)
  then show ?thesis
    using assms(2) on_ready_read_inv by (auto simp: on_new_connection_def Let_def split: if_splits)
qed

lemma srv_step_inv:
  assumes "srv_inv sv" and "srv_step lib sv e = Some (sv', out)"
  shows "srv_inv sv'"
proof (cases e)
  case (Connection sock data)
  then show ?thesis using assms on_new_connection_inv [OF assms(1)] by simp
next
  case (Ready_read sock data)
  then show ?thesis using assms on_ready_read_inv [OF assms(1)] by simp
next
  case (Disconnected sock)
  then show ?thesis
    using assms by (auto simp: on_disconnected_def srv_inv_def list_all_delete distinct_delete)
next
  case (Broadcast_avatar hash path w h)
  then show ?thesis
    using assms by (auto simp: broadcast_avatar_def bind_eq_Some_conv srv_inv_def distinct_update Let_def)
qed (use assms in \<open>auto simp: set_snapshot_def broadcast_def bind_eq_Some_conv srv_inv_def Let_def\<close>)

interpretation srv: partial_machine "srv_step lib" srv_inv "\<lambda>_. True" "\<lambda>_. True" for lib
  by unfold_locales (auto simp: list_all_iff dest: srv_step_inv)

lemma new_server_inv: "srv_inv (new_server blk)"
  by (simp add: srv_inv_def new_server_def)

section \<open>The draining loop, frame by frame\<close>

text \<open>Handle a list of frames in order.\<close>

fun handle_all ::
    "json_lib \<Rightarrow> server \<Rightarrow> nat \<Rightarrow> client \<Rightarrow> decoded_frame list \<Rightarrow> (client \<times> srv_output list) option" where
  "handle_all lib sv sock c [] = Some (c, [])"
| "handle_all lib sv sock c (f # fs) =
     (case handle_frame lib sv sock c f of
        None \<Rightarrow> None
      | Some (c', out) \<Rightarrow> map_option (\<lambda>(c'', out'). (c'', out @ out')) (handle_all lib sv sock c' fs))"

lemma handle_frame_rbuf_indep:
  "handle_frame lib sv sock (c\<lparr>c_rbuf := b\<rparr>) f =
     map_option (\<lambda>(c', out). (c'\<lparr>c_rbuf := b\<rparr>, out)) (handle_frame lib sv sock c f)"
  by (cases "ftype f"; cases c)
    (auto simp: handle_frame_def handle_hello_def option.map_comp comp_def)

lemma handle_all_rbuf_indep:
  "handle_all lib sv sock (c\<lparr>c_rbuf := b\<rparr>) fs =
     map_option (\<lambda>(c', out). (c'\<lparr>c_rbuf := b\<rparr>, out)) (handle_all lib sv sock c fs)"
proof (induction fs arbitrary: c)
  case (Cons f fs)
  show ?case
  proof (cases "handle_frame lib sv sock c f")
    case (Some p)
    then show ?thesis
      by (cases p) (simp add: handle_frame_rbuf_indep Cons option.map_comp comp_def case_prod_unfold)
  qed (simp add: handle_frame_rbuf_indep)
qed simp

lemma drain_frames_eq:
  "drain_frames lib sv sock c =
     (case drain_all try_decode_frame (c_rbuf c) of
        (fs, rest, good) \<Rightarrow>
          map_option (\<lambda>(c', out). (c'\<lparr>c_rbuf := rest\<rparr>, out, good \<and> length rest \<le> kMaxFrameLen))
            (handle_all lib sv sock c fs))"
proof (induction lib sv sock c rule: drain_frames.induct)
  case (1 lib sv sock c)
  show ?case
  proof (cases "try_decode_frame (c_rbuf c)")
    case Need_more
    then show ?thesis by (simp add: drain_frames.simps [of lib sv sock c] wire.drain_Need_more not_less)
  next
    case Proto_error
    then show ?thesis by (simp add: drain_frames.simps [of lib sv sock c] wire.drain_Proto_error)
  next
    case (Decoded f n)
    let ?b = "drop n (c_rbuf c)"
    show ?thesis
    proof (cases "handle_frame lib sv sock c f")
      case None
      then show ?thesis
        using Decoded
        by (simp add: drain_frames.simps [of lib sv sock c] wire.drain_Decoded handle_frame_rbuf_indep
            split: prod.splits)
    next
      case (Some p)
      obtain c1 o1 where p: "p = (c1, o1)" by (cases p)
      have h: "handle_frame lib sv sock (c\<lparr>c_rbuf := ?b\<rparr>) f = Some (c1\<lparr>c_rbuf := ?b\<rparr>, o1)"
        using Some p by (simp add: handle_frame_rbuf_indep)
      show ?thesis
        using "1.IH" [OF Decoded h refl] Decoded h Some p
        by (simp add: drain_frames.simps [of lib sv sock c] wire.drain_Decoded handle_all_rbuf_indep
            option.map_comp comp_def case_prod_unfold split: prod.splits)
    qed
  qed
qed

section \<open>A client that was disabled\<close>

definition silent_inv :: "nat \<Rightarrow> server \<Rightarrow> bool" where
  "silent_inv sock sv \<longleftrightarrow>
     distinct (map fst (clients sv)) \<and>
     (case map_of (clients sv) sock of None \<Rightarrow> True | Some c \<Rightarrow> c_inert c \<and> \<not> c_active c)"

fun not_connecting :: "nat \<Rightarrow> srv_event \<Rightarrow> bool" where
  "not_connecting sock (Connection s data) \<longleftrightarrow> s \<noteq> sock"
| "not_connecting sock _ \<longleftrightarrow> True"

definition silent_out :: "nat \<Rightarrow> srv_output \<Rightarrow> bool" where
  "silent_out sock x \<longleftrightarrow> (dest x = sock \<longrightarrow> x = Sent sock Pong [] \<or> x = Aborted sock)"

lemma silent_ready_read:
  assumes "silent_inv sock sv" and "on_ready_read lib sv s data = Some (sv', out)"
  shows "silent_inv sock sv' \<and> list_all (silent_out sock) out"
  using assms(2)
proof (cases rule: on_ready_read_cases)
  case 1
  then show ?thesis using assms(1) by simp
next
  case (2 c c' o1)
  from drain_frames_ok [OF 2(2)] have ok: "client_step_ok s c c' o1"
    by (simp add: client_step_ok_rbuf)
  show ?thesis
    using assms(1) 2 ok
    by (cases "s = sock") (auto simp: silent_inv_def distinct_update update_conv' client_step_ok_def
        list_all_iff silent_out_def only_pongs_def)
next
  case (3 c c' o1)
  from drain_frames_ok [OF 3(2)] have ok: "client_step_ok s c c' o1"
    by (simp add: client_step_ok_rbuf)
  show ?thesis
    using assms(1) 3 ok
    by (cases "s = sock") (auto simp: silent_inv_def distinct_update distinct_delete delete_conv'
        update_conv' client_step_ok_def list_all_iff silent_out_def only_pongs_def)
qed

lemma to_active_eq:
  "to_active sv ty pl = Some out \<Longrightarrow>
     out = map (\<lambda>(sock, c). Sent sock ty pl) (filter (c_active \<circ> snd) (clients sv))"
proof -
  have "send_all (map (\<lambda>(sock, c). send_frame sock ty pl) xs) = Some out \<Longrightarrow>
      out = map (\<lambda>(sock, c). Sent sock ty pl) xs" for xs out
  proof (cases "encode_frame ty pl []")
    case None
    then show "send_all (map (\<lambda>(sock, c). send_frame sock ty pl) xs) = Some out \<Longrightarrow>
        out = map (\<lambda>(sock, c). Sent sock ty pl) xs" for xs out
      by (cases xs) (auto simp: send_frame_def)
  next
    case (Some b)
    then show "send_all (map (\<lambda>(sock, c). send_frame sock ty pl) xs) = Some out \<Longrightarrow>
        out = map (\<lambda>(sock, c). Sent sock ty pl) xs" for xs out
      by (induction xs arbitrary: out) (auto simp: send_frame_def)
  qed
  then show "to_active sv ty pl = Some out \<Longrightarrow>
      out = map (\<lambda>(sock, c). Sent sock ty pl) (filter (c_active \<circ> snd) (clients sv))"
    by (simp add: to_active_def)
qed

lemma silent_to_active:
  assumes "silent_inv sock sv" and "to_active sv ty pl = Some out"
  shows "list_all (silent_out sock) out"
proof -
  have "(sock, c) \<in> set (clients sv) \<Longrightarrow> \<not> c_active c" for c
    using assms(1) map_of_is_SomeI [of "clients sv" sock c] by (auto simp: silent_inv_def)
  then show ?thesis
    using to_active_eq [OF assms(2)] by (auto simp: list_all_iff silent_out_def)
qed

lemma silent_step:
  assumes "silent_inv sock sv" and "not_connecting sock e" and "srv_step lib sv e = Some (sv', out)"
  shows "silent_inv sock sv' \<and> list_all (silent_out sock) out"
proof (cases e)
  case (Connection s data)
  let ?c = "case map_of (clients sv) s of Some c \<Rightarrow> c | None \<Rightarrow> new_client"
  have "silent_inv sock (sv\<lparr>clients := AList.update s ?c (clients sv)\<rparr>)"
    using assms(1,2) Connection by (simp add: silent_inv_def distinct_update update_conv')
  then show ?thesis
    using assms(3) Connection silent_ready_read
    by (auto simp: on_new_connection_def Let_def split: if_splits)
next
  case (Ready_read s data)
  then show ?thesis using assms silent_ready_read by auto
next
  case (Broadcast s)
  then show ?thesis
    using assms silent_to_active [of sock "sv\<lparr>current := s\<rparr>"]
    by (auto simp: broadcast_def bind_eq_Some_conv silent_inv_def Let_def)
next
  case (Broadcast_avatar hash path w h)
  let ?sv = "sv\<lparr>avatars := AList.update hash \<lparr>a_path = path, a_w = w, a_h = h\<rparr> (avatars sv)\<rparr>"
  show ?thesis
    using assms silent_to_active [of sock ?sv] Broadcast_avatar
    by (auto simp: broadcast_avatar_def bind_eq_Some_conv silent_inv_def Let_def)
qed (use assms in \<open>auto simp: on_disconnected_def set_snapshot_def silent_inv_def distinct_delete
      delete_conv' split: option.splits if_splits\<close>)

interpretation silent: partial_machine "srv_step lib" "silent_inv sock" "not_connecting sock"
    "silent_out sock" for lib sock
  by unfold_locales (rule silent_step)

section \<open>What a run leaves behind\<close>

text \<open>The last snapshot stored or broadcast, and the last avatar announced for each hash.\<close>

fun after_snapshot :: "snapshot \<Rightarrow> srv_event \<Rightarrow> snapshot" where
  "after_snapshot s (Set_snapshot s') = s'"
| "after_snapshot s (Broadcast s') = s'"
| "after_snapshot s _ = s"

fun after_avatars :: "(string \<rightharpoonup> avatar_entry) \<Rightarrow> srv_event \<Rightarrow> (string \<rightharpoonup> avatar_entry)" where
  "after_avatars m (Broadcast_avatar hash path w h) = m(hash \<mapsto> \<lparr>a_path = path, a_w = w, a_h = h\<rparr>)"
| "after_avatars m _ = m"

lemma on_ready_read_store:
  "on_ready_read lib sv sock data = Some (sv', out) \<Longrightarrow>
     current sv' = current sv \<and> avatars sv' = avatars sv \<and> is_blocked sv' = is_blocked sv"
  by (auto elim!: on_ready_read_cases)

lemma srv_step_store:
  assumes "srv_step lib sv e = Some (sv', out)"
  shows "current sv' = after_snapshot (current sv) e \<and>
    map_of (avatars sv') = after_avatars (map_of (avatars sv)) e \<and> is_blocked sv' = is_blocked sv"
proof (cases e)
  case (Connection sock data)
  then show ?thesis
    using assms by (auto simp: on_new_connection_def Let_def split: if_splits dest!: on_ready_read_store)
next
  case (Ready_read sock data)
  then show ?thesis using assms by (auto dest!: on_ready_read_store)
qed (use assms in \<open>auto simp: on_disconnected_def set_snapshot_def broadcast_def broadcast_avatar_def
      bind_eq_Some_conv update_conv' Let_def\<close>)

lemma run_store:
  "run_opt (srv_step lib) sv es = Some (sv', out) \<Longrightarrow>
     current sv' = foldl after_snapshot (current sv) es \<and>
     map_of (avatars sv') = foldl after_avatars (map_of (avatars sv)) es \<and>
     is_blocked sv' = is_blocked sv"
proof (induction es arbitrary: sv out)
  case (Cons e es)
  then obtain s1 o1 o2 where "srv_step lib sv e = Some (s1, o1)"
    "run_opt (srv_step lib) s1 es = Some (sv', o2)" by (auto split: option.splits)
  with Cons.IH [of s1 o2] srv_step_store show ?case by fastforce
qed simp

lemma send_all_dumped:
  "send_all (send_dumped sock ty d # xs) = Some out \<Longrightarrow>
     \<exists>pl o2. d = Some pl \<and> send_all xs = Some o2 \<and> out = Sent sock ty pl # o2"
  by (cases d; cases "encode_frame ty (the d) []") (auto simp: send_dumped_def send_frame_def)

lemma send_all_single:
  "send_all (map (\<lambda>x. send_dumped sock ty (d x)) xs) = Some out \<Longrightarrow>
     \<exists>ps. map d xs = map Some ps \<and> out = map (Sent sock ty) ps"
proof (induction xs arbitrary: out)
  case (Cons x xs)
  then obtain pl o2 where "d x = Some pl"
    "send_all (map (\<lambda>x. send_dumped sock ty (d x)) xs) = Some o2" "out = Sent sock ty pl # o2"
    by (auto dest!: send_all_dumped)
  with Cons.IH show ?case by (fastforce intro: exI [of _ "pl # _"])
qed simp

lemma seed_client_eq:
  assumes "seed_client lib sv sock = Some out"
  shows "\<exists>js ps. to_json_str lib (current sv) = Some js \<and>
    map (\<lambda>(hash, e). avatar_payload lib hash (a_path e) (a_w e) (a_h e)) (avatars sv) = map Some ps \<and>
    out = Sent sock Snapshot js # map (Sent sock AvatarReady) ps"
proof -
  let ?d = "\<lambda>(hash, e). avatar_payload lib hash (a_path e) (a_w e) (a_h e)"
  from assms obtain js o2 where js: "to_json_str lib (current sv) = Some js"
    and out: "out = Sent sock Snapshot js # o2"
    and o2: "send_all (map (\<lambda>x. send_dumped sock AvatarReady (?d x)) (avatars sv)) = Some o2"
    unfolding seed_client_def by (auto simp: case_prod_unfold dest!: send_all_dumped)
  from send_all_single [OF o2] js out show ?thesis by auto
qed

text \<open>A first Hello, alone in the buffer.\<close>

lemma hello_drain:
  assumes "c_rbuf c = frame_bytes \<lparr>ftype = Hello, payload = pl\<rparr>" and "1 + length pl \<le> kMaxFrameLen"
  shows "drain_frames lib sv sock c =
    map_option (\<lambda>(c', out). (c'\<lparr>c_rbuf := []\<rparr>, out, True)) (handle_hello lib sv sock c pl)"
proof -
  have "wf_frame \<lparr>ftype = Hello, payload = pl\<rparr>" using assms(2) by (simp add: wf_frame_def msg_of_def)
  then have "drain_all try_decode_frame (c_rbuf c) = ([\<lparr>ftype = Hello, payload = pl\<rparr>], [], True)"
    using wire.drain_stream [of "[\<lparr>ftype = Hello, payload = pl\<rparr>]"] assms(1) by simp
  then show ?thesis
    by (cases "handle_hello lib sv sock c pl")
      (simp_all add: drain_frames_eq handle_frame_def case_prod_unfold)
qed

lemma connect_hello:
  assumes "map_of (clients sv) sock = None" and "1 + length pl \<le> kMaxFrameLen"
  shows "on_new_connection lib sv sock (frame_bytes \<lparr>ftype = Hello, payload = pl\<rparr>) =
    map_option (\<lambda>(c', out). (sv\<lparr>clients := AList.update sock (c'\<lparr>c_rbuf := []\<rparr>) (clients sv)\<rparr>, out))
      (handle_hello lib sv sock new_client pl)"
proof -
  let ?b = "frame_bytes \<lparr>ftype = Hello, payload = pl\<rparr>"
  let ?sv = "sv\<lparr>clients := AList.update sock new_client (clients sv)\<rparr>"
  have sv: "handle_hello lib ?sv sock c pl = handle_hello lib sv sock c pl" for c
    by (simp add: handle_hello_def hello_blocked_def seed_client_def)
  have c: "handle_hello lib sv sock (new_client\<lparr>c_rbuf := ?b\<rparr>) pl =
      map_option (\<lambda>(c', out). (c'\<lparr>c_rbuf := ?b\<rparr>, out)) (handle_hello lib sv sock new_client pl)"
    using handle_frame_rbuf_indep [where c = new_client and b = ?b and f = "\<lparr>ftype = Hello, payload = pl\<rparr>"]
    by (simp add: handle_frame_def)
  have nb: "?b \<noteq> []" by (simp add: frame_bytes_def)
  have rb: "new_client\<lparr>c_rbuf := c_rbuf new_client @ ?b\<rparr> = new_client\<lparr>c_rbuf := ?b\<rparr>"
    by (simp add: new_client_def)
  have d: "drain_frames lib ?sv sock (new_client\<lparr>c_rbuf := ?b\<rparr>) =
      map_option (\<lambda>(c', out). (c'\<lparr>c_rbuf := []\<rparr>, out, True)) (handle_hello lib sv sock new_client pl)"
    by (subst hello_drain [OF _ assms(2)])
      (simp_all add: sv c option.map_comp comp_def case_prod_unfold)
  show ?thesis
    using assms(1) nb d
    by (cases "handle_hello lib sv sock new_client pl")
      (auto simp: on_new_connection_def on_ready_read_def update_conv' rb)
qed

section \<open>Properties\<close>

text \<open>
  C5: After any run of the server, no client is both active and inert, each client's buffer
  holds at most one incomplete frame within the cap, and no socket and no avatar is listed
  twice.
\<close>

theorem server_invariant:
  assumes "run_opt (srv_step lib) (new_server blk) es = Some (sv, out)"
  shows "srv_inv sv"
  using srv.run_ok [OF new_server_inv _ assms] by (simp add: list_all_iff)

theorem server_invariant_witness:
  "srv_inv (on_disconnected (set_snapshot (new_server None) new_snapshot) 3)"
  by (rule server_invariant [where es = "[Set_snapshot new_snapshot, Disconnected 3]"
        and out = "[]" and blk = None and lib = "one_doc JNull []"]) simp

text \<open>
  How a client's bytes are cut into reads does not matter: draining a buffer handles
  exactly the frames the codec finds in it, in order, keeps the rest, and the connection
  survives exactly when no malformed header was met and the rest is within the cap.
\<close>

theorem drain_handles_frames:
  "drain_frames lib sv sock c =
     (case drain_all try_decode_frame (c_rbuf c) of
        (fs, rest, good) \<Rightarrow>
          map_option (\<lambda>(c', out). (c'\<lparr>c_rbuf := rest\<rparr>, out, good \<and> length rest \<le> kMaxFrameLen))
            (handle_all lib sv sock c fs))"
  by (rule drain_frames_eq)

text \<open>
  The first Hello decides: a fresh connection whose command name or any argument is on the
  denylist gets one Disabled frame and is kept inert, any other is marked active; nothing is
  decided twice.
\<close>

theorem hello_classifies:
  assumes "handle_hello lib sv sock c pl = Some (c', out)"
  shows "if c_active c \<or> c_inert c then c' = c \<and> out = []
    else if hello_blocked lib sv pl then c' = c\<lparr>c_inert := True\<rparr> \<and> out = [Sent sock Disabled []]
    else c' = c\<lparr>c_active := True\<rparr> \<and> seed_client lib sv sock = Some out"
  using assms by (auto simp: handle_hello_def send_frame_Some)

theorem hello_classifies_witness:
  "(new_client\<lparr>c_inert := True\<rparr>) = new_client\<lparr>c_inert := True\<rparr> \<and>
     [Sent 3 Disabled []] = [Sent 3 Disabled []]"
proof -
  let ?lib = "one_doc (jobj [(''exe'', JStr ''steam'')]) ''x''"
  let ?sv = "new_server (Some (\<lambda>e. e = ''steam''))"
  have b: "hello_blocked ?lib ?sv ''x''"
    by (simp add: hello_blocked_def one_doc_def hello_exe_def new_server_def)
  then have "handle_hello ?lib ?sv 3 new_client ''x'' = Some (new_client\<lparr>c_inert := True\<rparr>, [Sent 3 Disabled []])"
    by (simp add: handle_hello_def new_client_def send_frame_def encode_frame_eq kMaxFrameLen_eq)
  from hello_classifies [OF this] b show ?thesis by (simp add: new_client_def)
qed

text \<open>
  C3: A denylisted client is kept in the dark: once it is inert, and until its connection ends,
  nothing the server does, no broadcast, avatar or further message of its own, sends it anything
  but the answer to a ping.
\<close>

theorem denylisted_client_gets_no_state:
  assumes "srv_inv sv" and "map_of (clients sv) sock = Some c" and "c_inert c"
    and "list_all (not_connecting sock) es"
    and "run_opt (srv_step lib) sv es = Some (sv', out)"
  shows "list_all (\<lambda>x. dest x = sock \<longrightarrow> x = Sent sock Pong [] \<or> x = Aborted sock) out"
proof -
  have "silent_inv sock sv"
    using assms(1-3) wf_client_of [OF assms(1,2)] by (simp add: silent_inv_def srv_inv_def wf_client_def)
  from silent.run_ok [OF this assms(4,5)] show ?thesis by (auto simp: list_all_iff silent_out_def)
qed

theorem denylisted_client_gets_no_state_witness:
  "list_all (\<lambda>x. dest x = 3 \<longrightarrow> x = Sent 3 Pong [] \<or> x = Aborted 3) [Sent 4 Snapshot ''s'']"
proof (rule denylisted_client_gets_no_state)
  let ?sv = "(new_server None)\<lparr>clients := [(3, new_client\<lparr>c_inert := True\<rparr>), (4, new_client\<lparr>c_active := True\<rparr>)]\<rparr>"
  show "srv_inv ?sv"
    using wf_new_client by (simp add: srv_inv_def new_server_def wf_client_def new_client_def)
  show "map_of (clients ?sv) 3 = Some (new_client\<lparr>c_inert := True\<rparr>)" "c_inert (new_client\<lparr>c_inert := True\<rparr>)"
    by (simp_all add: new_client_def)
  show "list_all (not_connecting 3) [Broadcast new_snapshot]" by simp
  show "run_opt (srv_step (one_doc (snapshot_to_json new_snapshot) ''s'')) ?sv [Broadcast new_snapshot]
      = Some (?sv\<lparr>current := new_snapshot\<rparr>, [Sent 4 Snapshot ''s''])"
    by (simp add: broadcast_def to_json_str_def one_doc_def to_active_def new_client_def
        send_frame_def encode_frame_eq kMaxFrameLen_eq Let_def)
qed



text \<open>
  A late joiner catches up: whatever happened before, an allowed client that connects gets
  first the last snapshot stored or broadcast and then exactly one announcement per avatar ever
  announced, with the latest path and size of each.
\<close>

theorem late_joiner_is_seeded:
  assumes "run_opt (srv_step lib) (new_server blk) es = Some (sv, out0)"
    and "map_of (clients sv) sock = None" and "\<not> hello_blocked lib sv pl"
    and "1 + length pl \<le> kMaxFrameLen"
    and "on_new_connection lib sv sock (frame_bytes \<lparr>ftype = Hello, payload = pl\<rparr>) = Some (sv', out)"
  shows "\<exists>js ps. to_json_str lib (foldl after_snapshot new_snapshot es) = Some js \<and>
    out = Sent sock Snapshot js # map (Sent sock AvatarReady) ps \<and>
    set (map Some ps) = {avatar_payload lib hash (a_path e) (a_w e) (a_h e) | hash e.
      foldl after_avatars Map.empty es hash = Some e}"
proof -
  have st: "current sv = foldl after_snapshot new_snapshot es"
    "map_of (avatars sv) = foldl after_avatars Map.empty es"
    using run_store [OF assms(1)] by (simp_all add: new_server_def)
  have "srv_inv sv" using srv.run_ok [OF new_server_inv _ assms(1)] by (simp add: list_all_iff)
  then have d: "distinct (map fst (avatars sv))" by (simp add: srv_inv_def)
  from assms(5) obtain c' where "handle_hello lib sv sock new_client pl = Some (c', out)"
    by (auto simp: connect_hello [OF assms(2,4)])
  then have "seed_client lib sv sock = Some out"
    using assms(3) by (auto simp: handle_hello_def new_client_def)
  from seed_client_eq [OF this] obtain js ps where
    js: "to_json_str lib (current sv) = Some js"
    and ps: "map (\<lambda>(hash, e). avatar_payload lib hash (a_path e) (a_w e) (a_h e)) (avatars sv) = map Some ps"
    and out: "out = Sent sock Snapshot js # map (Sent sock AvatarReady) ps" by blast
  have "(hash, e) \<in> set (avatars sv) \<longleftrightarrow> foldl after_avatars Map.empty es hash = Some e" for hash e
    using d st(2) by (metis map_of_eq_Some_iff)
  then have "set (map Some ps) = {avatar_payload lib hash (a_path e) (a_w e) (a_h e) | hash e.
      foldl after_avatars Map.empty es hash = Some e}"
    unfolding ps [symmetric] by (auto simp: image_iff)
  with js out st(1) show ?thesis by auto
qed

theorem late_joiner_is_seeded_witness:
  "\<exists>js ps. to_json_str (one_doc (snapshot_to_json (new_snapshot\<lparr>s_revision := 4\<rparr>)) ''s'')
      (foldl after_snapshot new_snapshot [Set_snapshot (new_snapshot\<lparr>s_revision := 4\<rparr>)]) = Some js \<and>
    [Sent 3 Snapshot ''s''] = Sent 3 Snapshot js # map (Sent 3 AvatarReady) ps \<and>
    set (map Some ps) = {avatar_payload (one_doc (snapshot_to_json (new_snapshot\<lparr>s_revision := 4\<rparr>)) ''s'')
        hash (a_path e) (a_w e) (a_h e) | hash e.
      foldl after_avatars Map.empty [Set_snapshot (new_snapshot\<lparr>s_revision := 4\<rparr>)] hash = Some e}"
proof (rule late_joiner_is_seeded [where sock = 3 and pl = "''{}''"])
  let ?s = "new_snapshot\<lparr>s_revision := 4\<rparr>"
  let ?lib = "one_doc (snapshot_to_json ?s) ''s''"
  let ?sv = "(new_server None)\<lparr>current := ?s\<rparr>"
  show "run_opt (srv_step ?lib) (new_server None) [Set_snapshot ?s] = Some (?sv, [])"
    by (simp add: set_snapshot_def)
  show n: "map_of (clients ?sv) 3 = None" "\<not> hello_blocked ?lib ?sv ''{}''"
    by (simp_all add: new_server_def hello_blocked_def Let_def)
  show len: "1 + length ''{}'' \<le> kMaxFrameLen" by (simp add: kMaxFrameLen_eq)
  have "seed_client ?lib ?sv 3 = Some [Sent 3 Snapshot ''s'']"
    by (simp add: seed_client_def send_dumped_def to_json_str_def one_doc_def new_server_def
        send_frame_def encode_frame_eq kMaxFrameLen_eq)
  then have "handle_hello ?lib ?sv 3 new_client ''{}'' =
      Some (new_client\<lparr>c_active := True\<rparr>, [Sent 3 Snapshot ''s''])"
    using n(2) by (simp add: handle_hello_def new_client_def)
  then show "on_new_connection ?lib ?sv 3 (frame_bytes \<lparr>ftype = Hello, payload = ''{}''\<rparr>) =
      Some (?sv\<lparr>clients := AList.update 3 (new_client\<lparr>c_active := True, c_rbuf := []\<rparr>) (clients ?sv)\<rparr>,
        [Sent 3 Snapshot ''s''])"
    by (simp only: connect_hello [OF n(1) len]) simp
qed

end
