(* ===== verification/OAuth.thy ===== *)
theory OAuth
  imports RpcMessages
begin

text \<open>
  The token exchange (\<^verbatim>\<open>src/host/discord/oauth.cpp\<close>). The HTTP client is a parameter: a
  function from address and body to a response. \<^term>\<open>None\<close> is the exception of the printer
  that builds the request; everything after the request is total.
\<close>

record http_response =
  h_status :: int
  h_body :: string

record token_result =
  tok_ok :: bool
  tok_access :: string
  tok_refresh :: string
  tok_error :: string

definition kStreamkitTokenUrl :: string where
  "kStreamkitTokenUrl = ''https://streamkit.discord.com/overlay/token''"

definition snippet :: "string \<Rightarrow> string" where
  "snippet body = (if length body \<le> 200 then body else take 200 body @ ''...'')"

definition dec_of_int :: "int \<Rightarrow> string" where
  "dec_of_int n = (if n < 0 then ''-'' @ dec_of (nat (- n)) else dec_of (nat n))"

definition failed_token :: "string \<Rightarrow> token_result" where
  "failed_token e = \<lparr>tok_ok = False, tok_access = [], tok_refresh = [], tok_error = e\<rparr>"

definition token_of_response :: "json_lib \<Rightarrow> http_response \<Rightarrow> token_result" where
  "token_of_response lib resp =
     (let where_at = dec_of_int (h_status resp) @ ''): '' @ snippet (h_body resp) in
      if h_status resp \<noteq> 200
      then failed_token (''token exchange failed: HTTP '' @ dec_of_int (h_status resp)
             @ '' body='' @ snippet (h_body resp))
      else case lib_parse lib (h_body resp) of
        None \<Rightarrow> failed_token (''token exchange returned unparseable JSON (HTTP '' @ where_at)
      | Some parsed \<Rightarrow>
          if \<not> is_object parsed
          then failed_token (''token exchange returned unparseable JSON (HTTP '' @ where_at)
          else
            let access = str_or parsed ''access_token'' [] in
            if access = []
            then failed_token (''token exchange response missing access_token (HTTP '' @ where_at)
            else \<lparr>tok_ok = True, tok_access = access,
                  tok_refresh = str_or parsed ''refresh_token'' [], tok_error = []\<rparr>)"

definition exchange_code ::
    "json_lib \<Rightarrow> (string \<Rightarrow> string \<Rightarrow> http_response) \<Rightarrow> string \<Rightarrow> token_result option" where
  "exchange_code lib post_json code =
     (case lib_dump lib (jobj [(''code'', JStr code)]) of
        None \<Rightarrow> None
      | Some json_body \<Rightarrow> Some (token_of_response lib (post_json kStreamkitTokenUrl json_body)))"

lemma token_ok_iff:
  "tok_ok (token_of_response lib resp) \<longleftrightarrow>
     h_status resp = 200 \<and>
     (\<exists>j. lib_parse lib (h_body resp) = Some j \<and> str_or j ''access_token'' [] \<noteq> [])"
  by (auto simp: token_of_response_def failed_token_def Let_def str_or_no_object split: option.splits)

text \<open>
  The exchange succeeds exactly on a 200 whose body is an object with a non-empty access
  token, and that token is the one returned; every failure carries an error and no token.
\<close>

theorem exchange_code_outcome:
  "case exchange_code lib post code of
     None \<Rightarrow> lib_dump lib (jobj [(''code'', JStr code)]) = None
   | Some tok \<Rightarrow> \<exists>body. lib_dump lib (jobj [(''code'', JStr code)]) = Some body \<and>
       (let resp = post kStreamkitTokenUrl body in
        if tok_ok tok
        then h_status resp = 200 \<and> tok_access tok \<noteq> [] \<and>
          (\<exists>j. lib_parse lib (h_body resp) = Some j \<and> tok_access tok = str_or j ''access_token'' [])
        else tok_access tok = [] \<and> tok_error tok \<noteq> [])"
  by (auto simp: exchange_code_def token_of_response_def failed_token_def Let_def split: option.splits)

end
