(* ===== verification/Paths.thy ===== *)
theory Paths
  imports Prelude
begin

text \<open>
  Where things are (\<^verbatim>\<open>src/ipc/paths.cpp\<close>): directories from the environment, and the
  abstract-namespace socket address both ends build. The environment is a map, the user id a
  number.
\<close>

type_synonym environment = "string \<rightharpoonup> string"

definition env_or :: "environment \<Rightarrow> string \<Rightarrow> string \<Rightarrow> string" where
  "env_or env name fallback =
     (case env name of Some v \<Rightarrow> if v \<noteq> [] then v else fallback | None \<Rightarrow> fallback)"

definition runtime_dir :: "environment \<Rightarrow> string" where
  "runtime_dir env = env_or env ''XDG_RUNTIME_DIR'' ''/tmp''"

definition abstract_socket_name :: "environment \<Rightarrow> u32 \<Rightarrow> string" where
  "abstract_socket_name env uid = env_or env ''CHOIR_SOCKET'' (''choir-overlay-'' @ dec_of (unat uid))"

text \<open>
  The bytes written to \<^verbatim>\<open>sun_path\<close> (108 of them on Linux) and the length passed to the
  kernel; \<^term>\<open>None\<close> is the returned 0.
\<close>

definition sun_path_size :: nat where
  "sun_path_size = 108"

definition sun_path_offset :: nat where
  "sun_path_offset = 2"

definition make_abstract_addr :: "string \<Rightarrow> (bytes \<times> nat) option" where
  "make_abstract_addr name =
     (if length name + 1 > sun_path_size then None
      else Some (0 # bytes_of name, sun_path_offset + 1 + length name))"

definition runtime_socket_path :: "environment \<Rightarrow> string" where
  "runtime_socket_path env = runtime_dir env @ ''/choir.sock''"

definition cache_home :: "environment \<Rightarrow> string" where
  "cache_home env = env_or env ''XDG_CACHE_HOME'' (env_or env ''HOME'' [] @ ''/.cache'')"

definition avatar_cache_dir :: "environment \<Rightarrow> string" where
  "avatar_cache_dir env = cache_home env @ ''/choir/avatars''"

definition config_home :: "environment \<Rightarrow> string" where
  "config_home env = env_or env ''XDG_CONFIG_HOME'' (env_or env ''HOME'' [] @ ''/.config'')"

definition config_path :: "environment \<Rightarrow> string" where
  "config_path env = config_home env @ ''/choir/config.json''"

definition autostart_path :: "environment \<Rightarrow> string" where
  "autostart_path env = config_home env @ ''/autostart/choir.desktop''"

definition data_home :: "environment \<Rightarrow> string" where
  "data_home env = env_or env ''XDG_DATA_HOME'' (env_or env ''HOME'' [] @ ''/.local/share'')"

definition vulkan_manifest_path :: "environment \<Rightarrow> string" where
  "vulkan_manifest_path env = data_home env @ ''/vulkan/implicit_layer.d/choir_overlay.x86_64.json''"

lemma env_or_nonempty: "fallback \<noteq> [] \<Longrightarrow> env_or env name fallback \<noteq> []"
  by (simp add: env_or_def split: option.splits)

lemma length_dec_of: "n < 10 ^ Suc k \<Longrightarrow> length (dec_of n) \<le> Suc k"
proof (induction n arbitrary: k rule: dec_of.induct)
  case (1 n)
  show ?case
  proof (cases "n < 10")
    case True
    then show ?thesis by (simp add: dec_of.simps)
  next
    case False
    then obtain j where j: "k = Suc j" using "1.prems" by (cases k) auto
    then have "n div 10 < 10 ^ Suc j" using "1.prems" by (simp add: less_mult_imp_div_less mult.commute)
    from "1.IH" [OF False this] show ?thesis
      using False j by (subst dec_of.simps) simp
  qed
qed

lemma socket_name_fits: "length (abstract_socket_name Map.empty uid) + 1 \<le> sun_path_size"
proof -
  have "unat uid < 10 ^ Suc 9" using unsigned_less [of uid, where 'a = nat] by simp
  from length_dec_of [OF this] show ?thesis
    by (simp add: abstract_socket_name_def env_or_def sun_path_size_def)
qed

lemma bytes_of_inj [simp]: "bytes_of s = bytes_of t \<longleftrightarrow> s = t"
  by (metis str_of_bytes_of)

text \<open>
  Host and overlay of a user meet, and only they: without an override the name of every
  user fits into a socket address, and the addresses of two users differ.
\<close>

theorem socket_addresses:
  "make_abstract_addr (abstract_socket_name Map.empty uid) \<noteq> None \<and>
   (make_abstract_addr (abstract_socket_name Map.empty uid)
      = make_abstract_addr (abstract_socket_name Map.empty uid')) = (uid = uid')"
proof -
  have "make_abstract_addr (abstract_socket_name Map.empty u) =
      Some (0 # bytes_of (abstract_socket_name Map.empty u),
        sun_path_offset + 1 + length (abstract_socket_name Map.empty u))" for u
    using socket_name_fits [of u] by (simp add: make_abstract_addr_def)
  moreover have "(abstract_socket_name Map.empty uid = abstract_socket_name Map.empty uid') = (uid = uid')"
    by (simp add: abstract_socket_name_def env_or_def word_unat_eq_iff)
  ultimately show ?thesis by auto
qed

end
