(* ===== verification/IpcTransport.thy ===== *)
theory IpcTransport
  imports Json Codec Paths
begin

text \<open>
  The connection to Discord's RPC socket (\<^verbatim>\<open>src/host/discord/ipc_transport.cpp\<close>): frames
  of an 8-byte header (opcode and length, little-endian signed 32-bit) and a payload, written
  whole or not at all, read without blocking. The answers of the kernel are inputs. Operations
  that can lose the connection say whether \<open>OnClosed\<close> was called.
\<close>

section \<open>Definitions\<close>

definition kOpPing :: int where "kOpPing = 3"
definition kOpPong :: int where "kOpPong = 4"
definition kHeaderLen :: nat where "kHeaderLen = 8"
definition kMaxPayloadLen :: int where "kMaxPayloadLen = 16 * 1024 * 1024"
definition kMaxRecvBuffer :: int where "kMaxRecvBuffer = 16 * 1024 * 1024"
definition kReadChunk :: int where "kReadChunk = 4096"

definition read_le32 :: "bytes \<Rightarrow> int" where
  "read_le32 p = sint (le32_word (p ! 0) (p ! 1) (p ! 2) (p ! 3))"

definition append_le32 :: "bytes \<Rightarrow> int \<Rightarrow> bytes" where
  "append_le32 out v = out @ le32_bytes (word_of_int v)"

text \<open>
  One answer to the writing loop: bytes taken, an interruption, a full buffer and what waiting
  for POLLOUT then gives, or a hard error (a return of 0 included). When the script of a call
  ends, the kernel takes the rest.
\<close>

datatype poll_answer = Writable | Poll_interrupted | Gave_up

datatype send_answer = Took nat | Interrupted | Full poll_answer | Broken

fun send_loop :: "send_answer list \<Rightarrow> bytes \<Rightarrow> bytes \<times> bool" where
  "send_loop as [] = ([], True)"
| "send_loop [] (b # bs) = (b # bs, True)"
| "send_loop (a # as) (b # bs) =
     (case a of
        Took n \<Rightarrow>
          (if 0 < n then
             (let m = min n (length (b # bs)); (sent, ok) = send_loop as (drop m (b # bs))
              in (take m (b # bs) @ sent, ok))
           else ([], False))
      | Interrupted \<Rightarrow> send_loop as (b # bs)
      | Full p \<Rightarrow> (if p = Gave_up then ([], False) else send_loop as (b # bs))
      | Broken \<Rightarrow> ([], False))"

text \<open>
  The connection: whether there is a descriptor, the bytes received and not yet peeled, the
  bytes written on this connection, and the scripts of the sends to come.
\<close>

record transport =
  t_open :: bool
  t_rbuf :: bytes
  t_wire :: bytes
  t_sends :: "send_answer list list"

definition no_transport :: transport where
  "no_transport = \<lparr>t_open = False, t_rbuf = [], t_wire = [], t_sends = []\<rparr>"

text \<open>Both ways of closing; the first reports whether \<open>OnClosed\<close> fires.\<close>

definition handle_closed :: "transport \<Rightarrow> transport \<times> bool" where
  "handle_closed t = (if \<not> t_open t then (t, False) else (t\<lparr>t_open := False, t_rbuf := []\<rparr>, True))"

definition t_close :: "transport \<Rightarrow> transport" where
  "t_close t = (if \<not> t_open t then t else t\<lparr>t_open := False, t_rbuf := []\<rparr>)"

definition raw_frame :: "int \<Rightarrow> string \<Rightarrow> bytes" where
  "raw_frame op s = append_le32 (append_le32 [] op) (int (length s)) @ bytes_of s"

text \<open>\<open>send_raw\<close>: the returned boolean, the transport, and whether \<open>OnClosed\<close> fired.\<close>

definition send_raw :: "int \<Rightarrow> string \<Rightarrow> transport \<Rightarrow> bool \<times> transport \<times> bool" where
  "send_raw op s t =
     (if \<not> t_open t then (False, t, False)
      else
        let (script, later) = (case t_sends t of [] \<Rightarrow> ([], []) | x # xs \<Rightarrow> (x, xs));
            (sent, ok) = send_loop script (raw_frame op s);
            t1 = t\<lparr>t_wire := t_wire t @ sent, t_sends := later\<rparr>
        in if ok then (True, t1, False)
           else (case handle_closed t1 of (t2, fired) \<Rightarrow> (False, t2, fired)))"

text \<open>The attempts of \<open>connect\<close> on the ten socket paths, in order.\<close>

datatype attempt = No_socket | Refused | No_nonblock | Accepted

fun try_paths :: "string \<Rightarrow> nat \<Rightarrow> attempt list \<Rightarrow> bool" where
  "try_paths base i [] = False"
| "try_paths base i (a # as) =
     (if i > 9 then False
      else if length (base @ dec_of i) \<ge> 108 then try_paths base (Suc i) as
      else if a = Accepted then True
      else try_paths base (Suc i) as)"

definition t_connect :: "environment \<Rightarrow> attempt list \<Rightarrow> transport \<Rightarrow> bool \<times> transport" where
  "t_connect env as t =
     (if t_open t then (True, t)
      else if try_paths (runtime_dir env @ ''/discord-ipc-'') 0 as
      then (True, t\<lparr>t_open := True, t_rbuf := [], t_wire := []\<rparr>)
      else (False, t))"

text \<open>What \<open>peel_one\<close> finds at the front of the buffer.\<close>

definition peel :: "bytes \<Rightarrow> (int \<times> string) decode_result" where
  "peel b =
     (if length b < kHeaderLen then Need_more
      else
        let hdr_op = read_le32 b; len = read_le32 (drop 4 b) in
        if len < 0 \<or> len > kMaxPayloadLen then Proto_error
        else
          let total = kHeaderLen + nat len in
          if length b < total then Need_more
          else Decoded (hdr_op, str_of (take (nat len) (drop kHeaderLen b))) total)"

definition peel_one :: "transport \<Rightarrow> (int \<times> string) option \<times> transport \<times> bool" where
  "peel_one t =
     (case peel (t_rbuf t) of
        Need_more \<Rightarrow> (None, t, False)
      | Proto_error \<Rightarrow> (case handle_closed t of (t', fired) \<Rightarrow> (None, t', fired))
      | Decoded m n \<Rightarrow> (Some m, t\<lparr>t_rbuf := drop n (t_rbuf t)\<rparr>, False))"

text \<open>
  The reading loop of \<open>poll\<close>: it goes on after a full chunk of 4096 bytes and after EINTR.
  The third component tells whether the message loop is reached.
\<close>

datatype recv = Got bytes | Recv_EINTR | Recv_EAGAIN | Recv_error

fun read_all :: "recv list \<Rightarrow> transport \<Rightarrow> transport \<times> bool \<times> bool" where
  "read_all [] t = (t, False, True)"
| "read_all (r # rs) t =
     (case r of
        Got tmp \<Rightarrow>
          (if tmp \<noteq> [] then
             (let t1 = t\<lparr>t_rbuf := t_rbuf t @ tmp\<rparr> in
              if int (length (t_rbuf t1)) > kMaxRecvBuffer
              then (case handle_closed t1 of (t2, fired) \<Rightarrow> (t2, fired, False))
              else if int (length tmp) < kReadChunk then (t1, False, True)
              else read_all rs t1)
           else (case handle_closed t of (t2, fired) \<Rightarrow> (t2, fired, False)))
      | Recv_EINTR \<Rightarrow> read_all rs t
      | Recv_EAGAIN \<Rightarrow> (t, False, True)
      | Recv_error \<Rightarrow> (case handle_closed t of (t2, fired) \<Rightarrow> (t2, fired, False)))"

section \<open>The codec\<close>

definition wf_raw :: "int \<times> string \<Rightarrow> bool" where
  "wf_raw m \<longleftrightarrow> in_int32 (fst m) \<and> int (length (snd m)) \<le> kMaxPayloadLen"

definition raw_bytes :: "int \<times> string \<Rightarrow> bytes" where
  "raw_bytes m = raw_frame (fst m) (snd m)"

lemma raw_bytes_eq:
  "raw_bytes m = le32_bytes (word_of_int (fst m)) @ le32_bytes (word_of_int (int (length (snd m)))) @ bytes_of (snd m)"
  by (simp add: raw_bytes_def raw_frame_def append_le32_def)

lemma length_raw_bytes [simp]: "length (raw_bytes m) = 8 + length (snd m)"
  by (simp add: raw_bytes_eq)

lemma sint_word_of_int32: "in_int32 n \<Longrightarrow> sint (word_of_int n :: u32) = n"
  using get_int32_JInt [of n] by (simp add: get_int32_def)

lemma read_le32_prefix:
  assumes "take 4 b = le32_bytes (word_of_int v)" and "in_int32 v"
  shows "read_le32 b = v"
  using le32_word_nth [OF assms(1)] assms(2) by (simp add: read_le32_def sint_word_of_int32)

lemma raw_header:
  assumes "wf_raw m" and "take 8 b = take 8 (raw_bytes m)" and "8 \<le> length b"
  shows "read_le32 b = fst m" and "read_le32 (drop 4 b) = int (length (snd m))"
proof -
  let ?op = "le32_bytes (word_of_int (fst m))" and ?len = "le32_bytes (word_of_int (int (length (snd m))))"
  have "take 8 (raw_bytes m) = ?op @ ?len" by (simp add: raw_bytes_eq)
  then have h: "take 8 b = ?op @ ?len" using assms(2) by simp
  have "take 4 b = take 4 (take 8 b)" "take 4 (drop 4 b) = drop 4 (take 8 b)"
    by (simp_all add: take_drop)
  then have b: "take 4 b = ?op" "take 4 (drop 4 b) = ?len" by (simp_all only: h) simp_all
  have "in_int32 (int (length (snd m)))"
    using assms(1) by (simp add: wf_raw_def in_int32_def kMaxPayloadLen_def)
  with b assms(1) show "read_le32 b = fst m" "read_le32 (drop 4 b) = int (length (snd m))"
    by (auto simp: wf_raw_def intro: read_le32_prefix)
qed

lemma peel_raw:
  assumes "wf_raw m"
  shows "peel (raw_bytes m @ rest) = Decoded m (length (raw_bytes m))"
proof -
  let ?b = "raw_bytes m @ rest"
  have h: "read_le32 ?b = fst m" "read_le32 (drop 4 ?b) = int (length (snd m))"
    by (rule raw_header [OF assms]; simp)+
  have "take (length (snd m)) (drop 8 ?b) = bytes_of (snd m)" by (simp add: raw_bytes_eq)
  then show ?thesis
    using h assms by (simp add: peel_def kHeaderLen_def wf_raw_def)
qed

lemma peel_Decoded:
  assumes "peel b = Decoded m n"
  shows "0 < n \<and> n \<le> length b"
  using assms by (auto simp: peel_def kHeaderLen_def Let_def split: if_splits)

lemma read_le32_cong:
  assumes "take 4 b = take 4 c"
  shows "read_le32 b = read_le32 c"
proof -
  have "b ! i = c ! i" if "i < 4" for i using that assms by (metis nth_take)
  then show ?thesis by (simp add: read_le32_def)
qed

lemma peel_extend:
  assumes "peel b = Decoded m n"
  shows "peel (b @ c) = Decoded m n"
proof -
  have n: "8 \<le> length b" "n \<le> length b"
    using assms by (auto simp: peel_def kHeaderLen_def Let_def split: if_splits)
  have h: "read_le32 (b @ c) = read_le32 b" "read_le32 (drop 4 (b @ c)) = read_le32 (drop 4 b)"
    using n by (auto intro!: read_le32_cong)
  show ?thesis
    using assms n h by (auto simp: peel_def kHeaderLen_def Let_def split: if_splits)
qed

lemma peel_prefix:
  assumes "wf_raw m" and "p @ q = raw_bytes m" and "q \<noteq> []"
  shows "peel p = Need_more"
proof (cases "length p < 8")
  case False
  then have "take 8 p = take 8 (raw_bytes m)" by (simp flip: assms(2))
  from raw_header [OF assms(1) this] False
  have h: "read_le32 p = fst m" "read_le32 (drop 4 p) = int (length (snd m))" by simp_all
  have "length (p @ q) = 8 + length (snd m)" by (simp only: assms(2)) simp
  then have "length p < 8 + length (snd m)" using assms(3) by (cases q) auto
  then show ?thesis
    using h False assms(1) by (simp add: peel_def kHeaderLen_def wf_raw_def)
qed (simp add: peel_def kHeaderLen_def)

interpretation discord: frame_codec peel raw_bytes wf_raw
proof unfold_locales
  show "peel [] = Need_more" by (simp add: peel_def kHeaderLen_def)
  show "peel (raw_bytes f) = Decoded f (length (raw_bytes f))" if "wf_raw f" for f
    using peel_raw [OF that, of "[]"] by simp
qed (use peel_Decoded peel_extend peel_prefix in blast)+

section \<open>Properties\<close>

lemma send_loop_prefix:
  "send_loop as bs = (sent, ok) \<Longrightarrow> \<exists>rest. bs = sent @ rest \<and> (ok \<longrightarrow> rest = [])"
proof (induction as bs arbitrary: sent ok rule: send_loop.induct)
  case (3 a as b bs)
  show ?case
  proof (cases a)
    case (Took n)
    show ?thesis
    proof (cases "0 < n")
      case True
      let ?m = "min n (length (b # bs))"
      obtain sent' where r: "send_loop as (drop ?m (b # bs)) = (sent', ok)" and s: "sent = take ?m (b # bs) @ sent'"
        using "3.prems" Took True by (simp add: Let_def split: prod.splits)
      from "3.IH" (1) [OF Took True refl r] obtain rest where
        "drop ?m (b # bs) = sent' @ rest" "ok \<longrightarrow> rest = []" by blast
      then show ?thesis using s by (metis append.assoc append_take_drop_id)
    qed (use Took "3.prems" in simp)
  qed (use 3 in \<open>auto split: if_splits\<close>)
qed auto

text \<open>
  C26: \<open>send_raw\<close> on an open connection is all or nothing for the caller: what reaches the wire
  is a prefix of the frame; it is the whole frame and the connection stays open when the call
  returns true, and otherwise the connection is closed, its receive buffer dropped, and
  \<open>OnClosed\<close> is called.
\<close>

theorem send_raw_whole_or_closed:
  assumes "t_open t" and "send_raw op s t = (ok, t', fired)"
  shows "\<exists>sent rest. raw_frame op s = sent @ rest \<and> t_wire t' = t_wire t @ sent \<and>
      (if ok then rest = [] \<and> t_open t' \<and> t_rbuf t' = t_rbuf t \<and> \<not> fired
       else \<not> t_open t' \<and> t_rbuf t' = [] \<and> fired)"
proof -
  obtain script later where sc: "(case t_sends t of [] \<Rightarrow> ([], []) | x # xs \<Rightarrow> (x, xs)) = (script, later)"
    by fastforce
  obtain sent ok' where l: "send_loop script (raw_frame op s) = (sent, ok')" by fastforce
  from send_loop_prefix [OF l] obtain rest where "raw_frame op s = sent @ rest" "ok' \<longrightarrow> rest = []" by blast
  then show ?thesis
    using assms sc l
    by (intro exI [of _ sent] exI [of _ rest]) (auto simp: send_raw_def handle_closed_def Let_def split: if_splits)
qed

theorem send_raw_whole_or_closed_witness:
  "t_open \<lparr>t_open = True, t_rbuf = [1], t_wire = [], t_sends = [[Took 3, Interrupted, Full Writable, Took 2, Broken]]\<rparr> \<and>
   (let r = send_raw 1 ''hi'' \<lparr>t_open = True, t_rbuf = [1], t_wire = [],
        t_sends = [[Took 3, Interrupted, Full Writable, Took 2, Broken]]\<rparr> in
    \<not> fst r \<and> length (t_wire (fst (snd r))) = 5 \<and>
    (\<exists>sent rest. raw_frame 1 ''hi'' = sent @ rest \<and> t_wire (fst (snd r)) = [] @ sent \<and>
      (if fst r then rest = [] \<and> t_open (fst (snd r)) \<and> t_rbuf (fst (snd r)) = [1] \<and> \<not> snd (snd r)
       else \<not> t_open (fst (snd r)) \<and> t_rbuf (fst (snd r)) = [] \<and> snd (snd r))))"
proof -
  let ?t = "\<lparr>t_open = True, t_rbuf = [1], t_wire = [], t_sends = [[Took 3, Interrupted, Full Writable, Took 2, Broken]]\<rparr>"
  obtain ok t' fired where r: "send_raw 1 ''hi'' ?t = (ok, t', fired)" by (cases "send_raw 1 ''hi'' ?t") auto
  have "\<not> ok \<and> length (t_wire t') = 5"
    using r by (auto simp: send_raw_def raw_frame_def append_le32_def le32_bytes_def handle_closed_def bytes_of_def)
  then show ?thesis using send_raw_whole_or_closed [OF _ r] r by (simp add: Let_def)
qed

text \<open>
  Discord's framing is lossless: a stream of well-formed messages, cut into reads in any
  way, peels to exactly those messages and leaves nothing behind.
\<close>

theorem discord_stream_round_trip:
  assumes "list_all wf_raw ms" and "concat cs = concat (map raw_bytes ms)"
  shows "drain_chunks peel [] cs = (ms, [], True)"
  by (rule discord.chunked_stream [OF assms])

theorem discord_stream_round_trip_witness:
  "drain_chunks peel [] [take 5 (raw_bytes (1, ''{}'')), drop 5 (raw_bytes (1, ''{}'')) @ raw_bytes (3, ''x'')]
     = ([(1, ''{}''), (3, ''x'')], [], True)"
  by (rule discord_stream_round_trip) (auto simp: wf_raw_def in_int32_def kMaxPayloadLen_def)

text \<open>
  The backlog limit is checked before anything is peeled: a legal message of more than
  \<open>kMaxRecvBuffer - 8\<close> bytes is never delivered, however it arrives.
\<close>

lemma read_all_limit:
  "t_open t \<Longrightarrow> read_all rs t = (t', fired, True) \<Longrightarrow> int (length (t_rbuf t)) \<le> kMaxRecvBuffer \<Longrightarrow>
     int (length (t_rbuf t')) \<le> kMaxRecvBuffer"
proof (induction rs arbitrary: t)
  case (Cons r rs)
  show ?case
    using Cons.prems Cons.IH [of t] Cons.IH [of "t\<lparr>t_rbuf := t_rbuf t @ (case r of Got x \<Rightarrow> x | _ \<Rightarrow> [])\<rparr>"]
    by (cases r) (auto simp: Let_def handle_closed_def split: if_splits)
qed simp

lemma longest_message_never_arrives:
  assumes "t_open t" and "int (length (t_rbuf t)) \<le> kMaxRecvBuffer" and "read_all rs t = (t', fired, True)"
    and "kMaxRecvBuffer < int (8 + length (snd m))"
  shows "peel (t_rbuf t') \<noteq> Decoded m (8 + length (snd m))"
  using read_all_limit [OF assms(1,3,2)] peel_Decoded [of "t_rbuf t'" m "8 + length (snd m)"] assms(4) by auto

end
