(* ===== verification/RpcClient.thy ===== *)
theory RpcClient
  imports OAuth IpcTransport
begin

text \<open>
  The connection state machine to Discord (\<^verbatim>\<open>src/host/discord/rpc_client.cpp\<close>): connect,
  handshake, authorise, subscribe, follow the voice channel, reconnect after a drop. A method
  is a statement on the client's state. What the kernel, the HTTP endpoint and the clock answer
  is read from the state's scripts; what the client tells its handlers and sends is appended
  to its output.
\<close>

section \<open>State\<close>

datatype conn = Disconnected | Connecting | Authorizing | Ready | InChannel

record rpc_config =
  g_client_id :: string
  g_scopes :: "string list"
  g_reconnect_delay_ms :: int

datatype rpc_output =
    Event rpc_event | State_changed conn | Connected | Command int json | Ponged string

record rpc =
  k_cfg :: rpc_config
  k_tr :: transport
  k_state :: conn
  k_subscribed :: string
  k_stopped :: bool
  k_pending :: bool
  k_at :: int
  k_in_poll :: bool
  k_nonce :: nonce_gen
  k_env :: environment
  k_attempts :: "attempt list list"
  k_http :: "http_response list"
  k_now :: int
  k_out :: "rpc_output list"

definition kOpHandshake :: int where "kOpHandshake = 0"
definition kOpFrame :: int where "kOpFrame = 1"

definition kChannelEvents :: "string list" where
  "kChannelEvents =
     [''VOICE_STATE_CREATE'', ''VOICE_STATE_UPDATE'', ''VOICE_STATE_DELETE'',
      ''SPEAKING_START'', ''SPEAKING_STOP'']"

definition emit :: "rpc_output \<Rightarrow> rpc \<Rightarrow> rpc" where
  "emit x s = s\<lparr>k_out := k_out s @ [x]\<rparr>"

definition next_of :: "'a \<Rightarrow> 'a list \<Rightarrow> 'a \<times> 'a list" where
  "next_of d xs = (case xs of [] \<Rightarrow> (d, []) | x # xs' \<Rightarrow> (x, xs'))"

section \<open>Methods\<close>

definition set_state :: "conn \<Rightarrow> rpc \<Rightarrow> rpc" where
  "set_state c s = (if k_state s = c then s else emit (State_changed c) (s\<lparr>k_state := c\<rparr>))"

definition clear_channel_state :: "rpc \<Rightarrow> rpc" where
  "clear_channel_state s = s\<lparr>k_subscribed := []\<rparr>"

definition schedule_reconnect :: "rpc \<Rightarrow> rpc" where
  "schedule_reconnect s =
     (if k_stopped s then s
      else s\<lparr>k_pending := True, k_at := k_now s + g_reconnect_delay_ms (k_cfg s)\<rparr>)"

definition on_closed :: "rpc \<Rightarrow> rpc" where
  "on_closed s =
     (let s1 = set_state Disconnected (clear_channel_state s) in
      if \<not> k_stopped s1 then schedule_reconnect s1 else s1)"

text \<open>
  \<open>send_raw\<close> of the client's transport: its \<open>OnClosed\<close> handler is \<open>on_closed\<close>. A frame
  that went out whole is recorded as \<open>x\<close>.
\<close>

definition send_bytes :: "rpc_output \<Rightarrow> int \<Rightarrow> string \<Rightarrow> rpc \<Rightarrow> rpc" where
  "send_bytes x op bs s =
     (case send_raw op bs (k_tr s) of (ok, t', fired) \<Rightarrow>
        let s1 = s\<lparr>k_tr := t'\<rparr>; s2 = (if ok then emit x s1 else s1)
        in if fired then on_closed s2 else s2)"

definition send :: "json_lib \<Rightarrow> int \<Rightarrow> json \<Rightarrow> rpc stmt" where
  "send lib op j s =
     (case lib_dump lib j of None \<Rightarrow> None | Some bs \<Rightarrow> Some (send_bytes (Command op j) op bs s))"

definition send_built :: "json_lib \<Rightarrow> (nonce_gen \<Rightarrow> json \<times> nonce_gen) \<Rightarrow> rpc stmt" where
  "send_built lib build s =
     (case build (k_nonce s) of (j, g') \<Rightarrow> send lib kOpFrame j (s\<lparr>k_nonce := g'\<rparr>))"

definition try_connect :: "json_lib \<Rightarrow> rpc stmt" where
  "try_connect lib s =
     (let s0 = clear_channel_state (s\<lparr>k_pending := False\<rparr>);
          (as, later) = next_of [] (k_attempts s0);
          (ok, t') = t_connect (k_env s0) as (k_tr s0);
          s1 = s0\<lparr>k_tr := t', k_attempts := later\<rparr>
      in if \<not> ok then Some (schedule_reconnect s1)
         else
           let s2 = (if t_open (k_tr s0) then s1 else emit Connected s1);
               s3 = set_state Connecting s2
           in send lib kOpHandshake
                (jobj [(''v'', JInt 1), (''client_id'', JStr (g_client_id (k_cfg s3)))]) s3)"

definition start :: "json_lib \<Rightarrow> rpc stmt" where
  "start lib s = try_connect lib (s\<lparr>k_stopped := False, k_pending := False\<rparr>)"

definition stop :: "rpc \<Rightarrow> rpc" where
  "stop s =
     (let s1 = clear_channel_state (s\<lparr>k_stopped := True, k_pending := False\<rparr>)
      in set_state Disconnected (s1\<lparr>k_tr := t_close (k_tr s1)\<rparr>))"

definition channel_args :: "string \<Rightarrow> json" where
  "channel_args channel_id = jobj [(''channel_id'', JStr channel_id)]"

definition subscribe_channel :: "json_lib \<Rightarrow> string \<Rightarrow> rpc stmt" where
  "subscribe_channel lib channel_id =
     each (\<lambda>evt. send_built lib (build_subscribe evt (channel_args channel_id))) kChannelEvents"

definition unsubscribe_channel :: "json_lib \<Rightarrow> string \<Rightarrow> rpc stmt" where
  "unsubscribe_channel lib channel_id =
     each (\<lambda>evt. send_built lib (build_unsubscribe evt (channel_args channel_id))) kChannelEvents"

definition handle_channel_select :: "json_lib \<Rightarrow> string \<Rightarrow> rpc stmt" where
  "handle_channel_select lib channel_id s =
     (if channel_id = [] then
        seq (\<lambda>s. if k_subscribed s \<noteq> []
                 then seq (unsubscribe_channel lib (k_subscribed s)) (upd clear_channel_state) s
                 else skip s)
            (upd (set_state Ready)) s
      else if channel_id = k_subscribed s then Some (set_state InChannel s)
      else
        seq (\<lambda>s. if k_subscribed s \<noteq> [] then unsubscribe_channel lib (k_subscribed s) s else skip s)
          (seq (subscribe_channel lib channel_id)
            (upd (\<lambda>s. set_state InChannel (s\<lparr>k_subscribed := channel_id\<rparr>)))) s)"

text \<open>\<^verbatim>\<open>transport_.close(); schedule_reconnect(); set_state(Disconnected)\<close>\<close>

definition drop_and_retry :: "rpc \<Rightarrow> rpc" where
  "drop_and_retry s =
     set_state Disconnected (schedule_reconnect (s\<lparr>k_tr := t_close (k_tr s)\<rparr>))"

definition handle_authorize_response :: "json_lib \<Rightarrow> json \<Rightarrow> rpc stmt" where
  "handle_authorize_response lib frame s =
     (if k_state s \<noteq> Authorizing then Some s
      else
        let data = (case jfind frame ''data'' of Some d \<Rightarrow> d | None \<Rightarrow> jobj []);
            code = str_or data ''code'' [] in
        if code = [] then Some (drop_and_retry s)
        else
          let (resp, later) = next_of \<lparr>h_status = 0, h_body = []\<rparr> (k_http s) in
          case exchange_code lib (\<lambda>_ _. resp) code of
            None \<Rightarrow> None
          | Some tok \<Rightarrow>
              let s1 = s\<lparr>k_http := later\<rparr> in
              if \<not> tok_ok tok then Some (drop_and_retry s1)
              else send_built lib (build_authenticate (tok_access tok)) s1)"

definition handle_authenticate_response :: "json_lib \<Rightarrow> json \<Rightarrow> rpc stmt" where
  "handle_authenticate_response lib frame s =
     (if k_state s \<noteq> Authorizing then Some s
      else if str_or frame ''evt'' [] = ''ERROR'' then Some (drop_and_retry s)
      else
        seq (upd (set_state Ready))
          (seq (send_built lib (build_subscribe ''VOICE_CHANNEL_SELECT'' (jobj [])))
            (seq (send_built lib (build_subscribe ''NOTIFICATION_CREATE'' (jobj [])))
              (send_built lib build_get_selected_voice_channel))) s)"

definition handle_selected_voice_channel :: "json_lib \<Rightarrow> json \<Rightarrow> rpc stmt" where
  "handle_selected_voice_channel lib frame s =
     (if k_state s \<noteq> Ready \<and> k_state s \<noteq> InChannel then Some s
      else
        let sel = parse_selected_voice_channel frame in
        if \<not> sc_in_channel sel then Some s
        else if sc_channel_id sel = k_subscribed s then Some s
        else
          seq (upd (emit (Event ((new_event ChannelSelect)\<lparr>e_channel_id := sc_channel_id sel\<rparr>))))
            (seq (handle_channel_select lib (sc_channel_id sel))
              (each (\<lambda>v. upd (emit (Event ((new_event VoiceCreate)\<lparr>e_voice := v\<rparr>)))) (sc_states sel))) s)"

definition on_message :: "json_lib \<Rightarrow> int \<Rightarrow> json \<Rightarrow> rpc stmt" where
  "on_message lib op j s =
     (if op \<noteq> kOpFrame then Some s
      else if \<not> is_object j then Some s
      else
        let cmd = str_or j ''cmd'' [] in
        if cmd = ''AUTHORIZE'' then handle_authorize_response lib j s
        else if cmd = ''AUTHENTICATE'' then handle_authenticate_response lib j s
        else if cmd = ''GET_SELECTED_VOICE_CHANNEL'' then handle_selected_voice_channel lib j s
        else if cmd = ''DISPATCH'' then
          (if str_or j ''evt'' [] = ''READY'' then
             seq (upd (set_state Authorizing))
               (\<lambda>s. send_built lib (build_authorize (g_scopes (k_cfg s)) (g_client_id (k_cfg s))) s) s
           else case parse_event j of
             None \<Rightarrow> Some s
           | Some ev \<Rightarrow>
               seq (upd (emit (Event ev)))
                 (\<lambda>s. if e_kind ev = ChannelSelect then handle_channel_select lib (e_channel_id ev) s
                      else skip s) s)
        else Some s)"

text \<open>One peeled message: PING is answered by the transport, unparseable payloads are dropped.\<close>

definition handle_raw :: "json_lib \<Rightarrow> int \<Rightarrow> string \<Rightarrow> rpc stmt" where
  "handle_raw lib op bs s =
     (if op = kOpPing then Some (send_bytes (Ponged bs) kOpPong bs s)
      else case lib_parse lib bs of
        None \<Rightarrow> Some s
      | Some j \<Rightarrow> on_message lib op j s)"

section \<open>What every method keeps\<close>

text \<open>
  The contract of a property of the client that goes through the message handlers: it survives
  each elementary statement they are made of. What follows from it is proved once.
\<close>

definition plain_command :: "(nonce_gen \<Rightarrow> json \<times> nonce_gen) \<Rightarrow> bool" where
  "plain_command build \<longleftrightarrow>
     (\<forall>g. str_or (obj_or_empty (fst (build g)) ''args'') ''channel_id'' [] = [])"

lemma plain_commands [simp]:
  "plain_command (build_authorize scopes cid)" "plain_command (build_authenticate tok)"
  "plain_command (build_subscribe evt (jobj []))" "plain_command build_get_selected_voice_channel"
  by (simp_all add: plain_command_def build_authorize_def build_authenticate_def build_subscribe_def
      build_get_selected_voice_channel_def next_nonce_def)

lemma authorize_cases:
  assumes "handle_authorize_response lib frame s = Some s'"
  obtains "s' = s" | "s' = drop_and_retry s" | h where "s' = drop_and_retry (s\<lparr>k_http := h\<rparr>)"
    | tok h where "send_built lib (build_authenticate tok) (s\<lparr>k_http := h\<rparr>) = Some s'"
proof -
  define code where "code = str_or (case jfind frame ''data'' of Some d \<Rightarrow> d | None \<Rightarrow> jobj []) ''code'' []"
  obtain resp later where n: "next_of \<lparr>h_status = 0, h_body = []\<rparr> (k_http s) = (resp, later)" by fastforce
  have "s' = s \<or> s' = drop_and_retry s \<or>
      (\<exists>tok. exchange_code lib (\<lambda>_ _. resp) code = Some tok \<and>
        (if tok_ok tok then send_built lib (build_authenticate (tok_access tok)) (s\<lparr>k_http := later\<rparr>) = Some s'
         else s' = drop_and_retry (s\<lparr>k_http := later\<rparr>)))"
    using assms unfolding handle_authorize_response_def Let_def code_def [symmetric] n prod.case
    by (cases "exchange_code lib (\<lambda>_ _. resp) code") (simp_all split: if_split_asm)
  then show thesis using that by (auto split: if_split_asm)
qed

locale message_kept =
  fixes lib :: json_lib
    and P :: "rpc \<Rightarrow> bool"
  assumes P_event: "P s \<Longrightarrow> P (emit (Event ev) s)"
    and P_state: "P s \<Longrightarrow> c \<noteq> Disconnected \<Longrightarrow> P (set_state c s)"
    and P_http: "P s \<Longrightarrow> P (s\<lparr>k_http := h\<rparr>)"
    and P_drop: "P s \<Longrightarrow> P (drop_and_retry s)"
    and P_plain: "plain_command build \<Longrightarrow> preserves P (send_built lib build)"
    and P_ponged: "P s \<Longrightarrow> P (send_bytes (Ponged bs) op bs s)"
    and P_channel_select: "preserves P (handle_channel_select lib ch)"
begin

lemma P_authorize: "preserves P (handle_authorize_response lib frame)"
proof (rule preservesI)
  fix s s'
  assume P: "P s" and h: "handle_authorize_response lib frame s = Some s'"
  from h consider "s' = s" | "s' = drop_and_retry s" | h where "s' = drop_and_retry (s\<lparr>k_http := h\<rparr>)"
    | tok h where "send_built lib (build_authenticate tok) (s\<lparr>k_http := h\<rparr>) = Some s'"
    by (rule authorize_cases)
  then show "P s'"
    by cases (use P in \<open>simp_all add: P_drop P_http preservesD [OF P_plain [OF plain_commands(2)] P_http]\<close>)
qed

lemma P_authenticate: "preserves P (handle_authenticate_response lib frame)"
proof (rule preservesI)
  fix s s'
  have r: "preserves P (upd (set_state Ready))" by (intro preserves_upd P_state; simp)
  have "preserves P (seq (upd (set_state Ready))
          (seq (send_built lib (build_subscribe ''VOICE_CHANNEL_SELECT'' (jobj [])))
            (seq (send_built lib (build_subscribe ''NOTIFICATION_CREATE'' (jobj [])))
              (send_built lib build_get_selected_voice_channel))))"
    by (intro preserves_seq r P_plain plain_commands)
  note m = preservesD [OF this]
  assume "P s" "handle_authenticate_response lib frame s = Some s'"
  then show "P s'"
    by (auto simp: handle_authenticate_response_def P_drop split: if_splits elim: m)
qed

lemma P_selected: "preserves P (handle_selected_voice_channel lib frame)"
proof (rule preservesI)
  fix s s'
  have e: "preserves P (upd (emit (Event ev)))" for ev by (intro preserves_upd P_event)
  have "preserves P (each (\<lambda>v. upd (emit (Event (f v)))) vs)" for f :: "voice_state \<Rightarrow> rpc_event" and vs
    by (intro preserves_each e)
  note m = preserves_seq [OF e preserves_seq [OF P_channel_select this]]
  assume "P s" "handle_selected_voice_channel lib frame s = Some s'"
  then show "P s'"
    using preservesD [OF m] by (auto simp: handle_selected_voice_channel_def Let_def split: if_splits)
qed

lemma P_on_message: "preserves P (on_message lib op j)"
proof (rule preservesI)
  fix s s'
  have e: "preserves P (upd (emit (Event ev)))" for ev by (intro preserves_upd P_event)
  have a: "preserves P (upd (set_state Authorizing))" by (intro preserves_upd P_state; simp)
  have b: "preserves P (\<lambda>s. send_built lib (build_authorize (g_scopes (k_cfg s)) (g_client_id (k_cfg s))) s)"
    by (rule preservesI) (auto elim: preservesD [OF P_plain, rotated])
  have c: "preserves P (\<lambda>s. if e_kind ev = ChannelSelect then handle_channel_select lib (e_channel_id ev) s
      else skip s)" for ev
    by (intro preserves_if P_channel_select preserves_skip)
  note ms = preservesD [OF P_authorize] preservesD [OF P_authenticate] preservesD [OF P_selected]
    preservesD [OF preserves_seq [OF a b]] preservesD [OF preserves_seq [OF e c]]
  assume "P s" "on_message lib op j s = Some s'"
  then show "P s'"
    by (auto simp: on_message_def Let_def split: if_splits option.splits elim: ms)
qed

lemma P_handle_raw: "preserves P (handle_raw lib op bs)"
  by (rule preservesI)
    (auto simp: handle_raw_def P_ponged split: if_splits option.splits elim: preservesD [OF P_on_message])

end

text \<open>The same for a property that survives any command and any change of the channel.\<close>

locale kept =
  fixes lib :: json_lib
    and P :: "rpc \<Rightarrow> bool"
  assumes K_event: "P s \<Longrightarrow> P (emit (Event ev) s)"
    and K_state: "P s \<Longrightarrow> c \<noteq> Disconnected \<Longrightarrow> P (set_state c s)"
    and K_subscribed: "P s \<Longrightarrow> P (s\<lparr>k_subscribed := ch\<rparr>)"
    and K_http: "P s \<Longrightarrow> P (s\<lparr>k_http := h\<rparr>)"
    and K_drop: "P s \<Longrightarrow> P (drop_and_retry s)"
    and P_built: "preserves P (send_built lib build)"
    and K_ponged: "P s \<Longrightarrow> P (send_bytes (Ponged bs) op bs s)"
begin

lemma P_clear: "P s \<Longrightarrow> P (clear_channel_state s)"
  by (simp add: clear_channel_state_def K_subscribed)

lemma P_subscribe: "preserves P (subscribe_channel lib ch)"
  unfolding subscribe_channel_def by (intro preserves_each P_built)

lemma P_unsubscribe: "preserves P (unsubscribe_channel lib ch)"
  unfolding unsubscribe_channel_def by (intro preserves_each P_built)

lemma P_kept_channel_select: "preserves P (handle_channel_select lib ch)"
proof (rule preservesI)
  fix s s'
  assume P: "P s" and h: "handle_channel_select lib ch s = Some s'"
  have u1: "preserves P (\<lambda>s. if k_subscribed s \<noteq> []
      then seq (unsubscribe_channel lib (k_subscribed s)) (upd clear_channel_state) s else skip s)"
    by (rule preservesI)
      (auto simp: skip_def P_clear split: if_splits
        elim!: preservesD [OF preserves_seq [OF P_unsubscribe preserves_upd], rotated -1])
  have u2: "preserves P (\<lambda>s. if k_subscribed s \<noteq> [] then unsubscribe_channel lib (k_subscribed s) s else skip s)"
    by (rule preservesI)
      (auto simp: skip_def split: if_splits elim!: preservesD [OF P_unsubscribe, rotated -1])
  have r: "preserves P (upd (set_state Ready))"
    "preserves P (upd (\<lambda>s. set_state InChannel (s\<lparr>k_subscribed := ch\<rparr>)))"
    by (intro preserves_upd K_state K_subscribed; simp)+
  show "P s'"
  proof (cases "ch = []")
    case True
    with h show ?thesis
      using preservesD [OF preserves_seq [OF u1 r(1)] P] by (simp add: handle_channel_select_def)
  next
    case False
    show ?thesis
    proof (cases "ch = k_subscribed s")
      case True
      with h False K_state [OF P, of InChannel] show ?thesis by (simp add: handle_channel_select_def)
    next
      case ne: False
      with h False show ?thesis
        using preservesD [OF preserves_seq [OF u2 preserves_seq [OF P_subscribe r(2)]] P]
        by (simp add: handle_channel_select_def)
    qed
  qed
qed

end

sublocale kept \<subseteq> message_kept
  by unfold_locales (simp_all add: K_event K_state K_http K_drop P_built K_ponged P_kept_channel_select)

text \<open>A method never lets the receive buffer grow: that makes the message loop end.\<close>

definition rbuf_le :: "nat \<Rightarrow> rpc \<Rightarrow> bool" where
  "rbuf_le n s \<longleftrightarrow> length (t_rbuf (k_tr s)) \<le> n"

lemma send_raw_rbuf:
  "send_raw op bs t = (ok, t', fired) \<Longrightarrow> length (t_rbuf t') \<le> length (t_rbuf t)"
  by (auto simp: send_raw_def handle_closed_def Let_def split: if_splits prod.splits)

lemma keeps_transport [simp]:
  "k_tr (emit x s) = k_tr s" "k_tr (set_state c s) = k_tr s" "k_tr (clear_channel_state s) = k_tr s"
  "k_tr (schedule_reconnect s) = k_tr s" "k_tr (on_closed s) = k_tr s"
  by (simp_all add: emit_def set_state_def clear_channel_state_def schedule_reconnect_def on_closed_def Let_def)

lemma rbuf_send_bytes: "rbuf_le n s \<Longrightarrow> rbuf_le n (send_bytes x op bs s)"
  by (auto simp: send_bytes_def rbuf_le_def Let_def split: prod.splits dest: send_raw_rbuf)

lemma rbuf_send_built: "preserves (rbuf_le n) (send_built lib build)"
  by (rule preservesI)
    (auto simp: send_built_def send_def rbuf_send_bytes rbuf_le_def [of n "s\<lparr>k_nonce := g\<rparr>" for s g]
      rbuf_le_def [symmetric] split: prod.splits option.splits)

interpretation rbuf: kept lib "rbuf_le n" for lib n
  by unfold_locales
    (auto simp: rbuf_send_built rbuf_send_bytes, auto simp: rbuf_le_def drop_and_retry_def t_close_def)

section \<open>The pump\<close>

function pump :: "json_lib \<Rightarrow> rpc stmt" where
  "pump lib s =
     (if \<not> t_open (k_tr s) then Some s
      else case peel_one (k_tr s) of
        (m, t', fired) \<Rightarrow>
          (case m of
             None \<Rightarrow>
               (let s1 = s\<lparr>k_tr := t'\<rparr> in Some (if fired then on_closed s1 else s1))
           | Some (op, bs) \<Rightarrow>
               (case handle_raw lib op bs (s\<lparr>k_tr := t'\<rparr>) of
                  None \<Rightarrow> None
                | Some s' \<Rightarrow> pump lib s')))"
  by pat_completeness auto

lemma peel_one_shrinks:
  "peel_one t = (Some m, t', fired) \<Longrightarrow> length (t_rbuf t') < length (t_rbuf t)"
  using peel_Decoded by (fastforce simp: peel_one_def split: decode_result.splits prod.splits)

lemma pump_shrinks:
  assumes "peel_one (k_tr s) = (Some (op, bs), t', fired)"
    and "handle_raw lib op bs (s\<lparr>k_tr := t'\<rparr>) = Some s'"
  shows "length (t_rbuf (k_tr s')) < length (t_rbuf (k_tr s))"
proof -
  have "rbuf_le (length (t_rbuf t')) (s\<lparr>k_tr := t'\<rparr>)" by (simp add: rbuf_le_def)
  from preservesD [OF rbuf.P_handle_raw this assms(2)] peel_one_shrinks [OF assms(1)]
  show ?thesis by (simp add: rbuf_le_def)
qed

termination pump
  by (relation "measure (\<lambda>(lib, s). length (t_rbuf (k_tr s)))") (auto dest: pump_shrinks [OF sym])

declare pump.simps [simp del]

text \<open>\<open>IpcTransport::poll\<close> with the client's handlers, and \<open>RpcClient::poll\<close>.\<close>

definition transport_poll :: "json_lib \<Rightarrow> recv list \<Rightarrow> rpc stmt" where
  "transport_poll lib rs s =
     (if \<not> t_open (k_tr s) then Some s
      else case read_all rs (k_tr s) of
        (t', fired, messages) \<Rightarrow>
          let s1 = s\<lparr>k_tr := t'\<rparr>; s2 = (if fired then on_closed s1 else s1)
          in if messages then pump lib s2 else Some s2)"

definition poll :: "json_lib \<Rightarrow> int \<Rightarrow> recv list \<Rightarrow> rpc stmt" where
  "poll lib now rs s =
     (if k_in_poll s then Some s
      else
        seq (upd (\<lambda>s. s\<lparr>k_in_poll := True, k_now := now\<rparr>))
          (seq (\<lambda>s. if k_pending s \<and> \<not> k_stopped s \<and> now \<ge> k_at s then try_connect lib s else Some s)
            (seq (transport_poll lib rs) (upd (\<lambda>s. s\<lparr>k_in_poll := False\<rparr>)))) s)"

text \<open>
  What the host calls: the tray's reconnect action (a stop and a start), \<open>stop\<close>, and the
  timer's poll. On launch it calls \<open>start\<close> once.
\<close>

datatype rpc_call = Reconnect int | Stop_client | Poll int "recv list"

fun rpc_step :: "json_lib \<Rightarrow> rpc_call \<Rightarrow> rpc stmt" where
  "rpc_step lib (Reconnect now) s = start lib ((stop s)\<lparr>k_now := now\<rparr>)"
| "rpc_step lib Stop_client s = Some (stop s)"
| "rpc_step lib (Poll now rs) s = poll lib now rs s"

section \<open>Invariants of the calls\<close>

text \<open>What the transport can do to a property by itself, and what a call adds.\<close>

locale call_kept = message_kept +
  assumes P_rbuf: "P s \<Longrightarrow> P (s\<lparr>k_tr := (k_tr s)\<lparr>t_rbuf := b\<rparr>\<rparr>)"
    and P_closed: "P s \<Longrightarrow> t_open (k_tr s) \<Longrightarrow>
      P (on_closed (s\<lparr>k_tr := (k_tr s)\<lparr>t_open := False, t_rbuf := []\<rparr>\<rparr>))"
    and P_poll_flag: "P s \<Longrightarrow> P (s\<lparr>k_in_poll := f\<rparr>)"
    and P_clock: "P s \<Longrightarrow> P (s\<lparr>k_now := n\<rparr>)"
    and P_stop: "P s \<Longrightarrow> P (stop s)"
    and P_retry: "P s \<Longrightarrow> k_pending s \<Longrightarrow> \<not> k_stopped s \<Longrightarrow> try_connect lib s = Some s' \<Longrightarrow> P s'"
    and P_start: "P s \<Longrightarrow> \<not> t_open (k_tr s) \<Longrightarrow> start lib s = Some s' \<Longrightarrow> P s'"
begin

lemma P_peel:
  assumes "P s" and "t_open (k_tr s)" and "peel_one (k_tr s) = (m, t', fired)"
  shows "P (if fired then on_closed (s\<lparr>k_tr := t'\<rparr>) else s\<lparr>k_tr := t'\<rparr>)"
  using assms P_rbuf [OF assms(1)] P_closed [OF assms(1,2)]
  by (auto simp: peel_one_def handle_closed_def split: decode_result.splits)

lemma P_pump: "P s \<Longrightarrow> pump lib s = Some s' \<Longrightarrow> P s'"
proof (induction "length (t_rbuf (k_tr s))" arbitrary: s rule: less_induct)
  case less
  obtain m t' fired where p: "peel_one (k_tr s) = (m, t', fired)" by (cases "peel_one (k_tr s)") auto
  show ?case
  proof (cases "t_open (k_tr s)")
    case False
    then show ?thesis using less.prems by (simp add: pump.simps)
  next
    case True
    note P1 = P_peel [OF less.prems(1) True p]
    show ?thesis
    proof (cases m)
      case None
      then show ?thesis
        using less.prems(2) True p P1 by (auto simp: pump.simps [of lib s] Let_def split: if_splits)
    next
      case (Some mb)
      obtain op bs where mb: "mb = (op, bs)" by (cases mb)
      have nf: "\<not> fired" using p Some by (auto simp: peel_one_def split: decode_result.splits prod.splits)
      from less.prems(2) True p Some mb obtain s1 where
        h: "handle_raw lib op bs (s\<lparr>k_tr := t'\<rparr>) = Some s1" and r: "pump lib s1 = Some s'"
        by (subst (asm) pump.simps) (auto split: option.splits)
      have "P s1" using P1 nf preservesD [OF P_handle_raw _ h] by simp
      with less.hyps [OF _ _ r] pump_shrinks [OF _ h] p Some mb show ?thesis by blast
    qed
  qed
qed

lemma read_all_cases:
  assumes "read_all rs t = (t', fired, messages)" and "t_open t"
  shows "(if fired then t' = t\<lparr>t_open := False, t_rbuf := []\<rparr> \<and> \<not> messages
          else \<exists>b. t' = t\<lparr>t_rbuf := b\<rparr>)"
proof -
  have "read_all rs (t\<lparr>t_rbuf := b\<rparr>) = (t', fired, messages) \<Longrightarrow>
      (if fired then t' = t\<lparr>t_open := False, t_rbuf := []\<rparr> \<and> \<not> messages else \<exists>b. t' = t\<lparr>t_rbuf := b\<rparr>)" for b
  proof (induction rs arbitrary: b)
    case (Cons r rs)
    then show ?case
      using assms(2) by (cases r) (auto simp: Let_def handle_closed_def split: if_splits)
  qed auto
  from this [of "t_rbuf t"] assms(1) show ?thesis by simp
qed

lemma P_transport_poll: "preserves P (transport_poll lib rs)"
proof (rule preservesI)
  fix s s'
  assume P: "P s" and h: "transport_poll lib rs s = Some s'"
  show "P s'"
  proof (cases "t_open (k_tr s)")
    case False
    then show ?thesis using P h by (simp add: transport_poll_def)
  next
    case True
    obtain t' fired messages where r: "read_all rs (k_tr s) = (t', fired, messages)"
      by (cases "read_all rs (k_tr s)") auto
    from read_all_cases [OF r True] P_rbuf [OF P] P_closed [OF P True]
    have "P (if fired then on_closed (s\<lparr>k_tr := t'\<rparr>) else s\<lparr>k_tr := t'\<rparr>)" by (auto split: if_splits)
    then show ?thesis
      using h True r P_pump by (auto simp: transport_poll_def Let_def split: if_splits)
  qed
qed

lemma P_poll: "preserves P (poll lib now rs)"
proof (rule preservesI)
  fix s s'
  assume P: "P s" and h: "poll lib now rs s = Some s'"
  have flag: "P (s\<lparr>k_in_poll := True, k_now := now\<rparr>)"
    using P_clock [OF P_poll_flag [OF P, of True], of now] by simp
  have retry: "preserves P (\<lambda>s. if k_pending s \<and> \<not> k_stopped s \<and> now \<ge> k_at s then try_connect lib s else Some s)"
    by (rule preservesI) (auto split: if_splits intro: P_retry)
  have off: "preserves P (upd (\<lambda>s. s\<lparr>k_in_poll := False\<rparr>))" by (intro preserves_upd P_poll_flag)
  show "P s'"
    using h P preservesD [OF preserves_seq [OF retry preserves_seq [OF P_transport_poll off]] flag]
    by (auto simp: poll_def seq_def [of "upd _"] upd_def [of "\<lambda>s. s\<lparr>k_in_poll := True, k_now := now\<rparr>"]
        split: if_splits)
qed

lemma stop_closed: "\<not> t_open (k_tr (stop s))"
  by (auto simp: stop_def Let_def set_state_def emit_def t_close_def clear_channel_state_def)

lemma P_step: "preserves P (rpc_step lib call)"
proof (cases call)
  case (Reconnect now)
  have "P s'" if "P s" "start lib ((stop s)\<lparr>k_now := now\<rparr>) = Some s'" for s s'
    using P_start [OF P_clock [OF P_stop [OF that(1)]] _ that(2)] stop_closed [of s] by simp
  then show ?thesis using Reconnect by (auto intro!: preservesI)
next
  case Stop_client
  then show ?thesis using P_stop by (auto intro!: preservesI)
next
  case (Poll now rs)
  then show ?thesis by (auto intro!: preservesI elim: preservesD [OF P_poll])
qed

lemma P_calls: "P s \<Longrightarrow> each (rpc_step lib) calls s = Some s' \<Longrightarrow> P s'"
  by (rule preservesD [OF preserves_each [OF P_step]])

end

section \<open>The invariant of the connection\<close>

text \<open>The subscriptions of the current connection, from the commands that went out on it.\<close>

fun subs_step :: "(string \<times> string) set \<Rightarrow> rpc_output \<Rightarrow> (string \<times> string) set" where
  "subs_step S Connected = {}"
| "subs_step S (Command op j) =
     (let ch = str_or (obj_or_empty j ''args'') ''channel_id'' []; evt = str_or j ''evt'' [] in
      if ch = [] then S
      else if str_or j ''cmd'' [] = ''SUBSCRIBE'' then insert (evt, ch) S
      else if str_or j ''cmd'' [] = ''UNSUBSCRIBE'' then S - {(evt, ch)}
      else S)"
| "subs_step S _ = S"

definition subs :: "rpc \<Rightarrow> (string \<times> string) set" where
  "subs s = foldl subs_step {} (k_out s)"

definition channel_subs :: "string \<Rightarrow> (string \<times> string) set" where
  "channel_subs ch = (if ch = [] then {} else set kChannelEvents \<times> {ch})"

text \<open>
  A retry is only pending while there is no connection; without a connection a retry is pending
  unless the client was stopped; a live connection is never reported as disconnected.
\<close>

definition link_inv :: "rpc \<Rightarrow> bool" where
  "link_inv s \<longleftrightarrow>
     (k_pending s \<longrightarrow> \<not> t_open (k_tr s)) \<and>
     (t_open (k_tr s) \<or> k_stopped s \<or> k_pending s) \<and>
     (k_stopped s \<longrightarrow> \<not> t_open (k_tr s) \<and> \<not> k_pending s) \<and>
     (t_open (k_tr s) \<longrightarrow> k_state s \<noteq> Disconnected)"

definition live :: "(string \<times> string) set \<Rightarrow> rpc \<Rightarrow> bool" where
  "live S s \<longleftrightarrow> link_inv s \<and> (t_open (k_tr s) \<longrightarrow> subs s = S)"

definition rpc_inv :: "rpc \<Rightarrow> bool" where
  "rpc_inv s \<longleftrightarrow> live (channel_subs (k_subscribed s)) s"

lemma subs_emit: "subs (emit x s) = subs_step (subs s) x"
  by (simp add: subs_def emit_def)

lemma send_bytes_cases:
  obtains "\<not> t_open (k_tr s)" "send_bytes x op bs s = s"
  | t' where "t_open (k_tr s)" "t_open t'" "send_bytes x op bs s = emit x (s\<lparr>k_tr := t'\<rparr>)"
  | t' where "t_open (k_tr s)" "\<not> t_open t'" "send_bytes x op bs s = on_closed (s\<lparr>k_tr := t'\<rparr>)"
proof (cases "t_open (k_tr s)")
  case False
  then show thesis using that(1) by (simp add: send_bytes_def send_raw_def)
next
  case True
  obtain ok t' fired where r: "send_raw op bs (k_tr s) = (ok, t', fired)" by (cases "send_raw op bs (k_tr s)") auto
  then have "t_open t' = ok" "fired = (\<not> ok)"
    using True by (auto simp: send_raw_def handle_closed_def Let_def split: if_splits prod.splits)
  then show thesis using that(2,3) True r by (cases ok) (auto simp: send_bytes_def)
qed

lemma state_simps [simp]:
  "k_pending (emit x s) = k_pending s" "k_stopped (emit x s) = k_stopped s" "k_state (emit x s) = k_state s"
  "k_subscribed (emit x s) = k_subscribed s"
  "k_pending (set_state c s) = k_pending s" "k_stopped (set_state c s) = k_stopped s"
  "k_state (set_state c s) = c" "k_subscribed (set_state c s) = k_subscribed s"
  "k_state (clear_channel_state s) = k_state s" "k_pending (clear_channel_state s) = k_pending s"
  "k_stopped (clear_channel_state s) = k_stopped s" "k_subscribed (clear_channel_state s) = []"
  "k_pending (schedule_reconnect s) = (\<not> k_stopped s \<or> k_pending s)"
  "k_stopped (schedule_reconnect s) = k_stopped s" "k_state (schedule_reconnect s) = k_state s"
  "k_subscribed (schedule_reconnect s) = k_subscribed s"
  "k_state (on_closed s) = Disconnected" "k_stopped (on_closed s) = k_stopped s"
  "k_pending (on_closed s) = (\<not> k_stopped s \<or> k_pending s)" "k_subscribed (on_closed s) = []"
  by (simp_all add: emit_def set_state_def clear_channel_state_def schedule_reconnect_def on_closed_def Let_def)

lemma subs_set_state [simp]: "subs (set_state c s) = subs s"
proof -
  have "subs (s\<lparr>k_state := c\<rparr>) = subs s" by (simp add: subs_def)
  then show ?thesis by (simp add: set_state_def subs_emit)
qed

lemma subs_upds [simp]:
  "subs (s\<lparr>k_tr := t\<rparr>) = subs s" "subs (s\<lparr>k_subscribed := c\<rparr>) = subs s" "subs (s\<lparr>k_http := h\<rparr>) = subs s"
  "subs (s\<lparr>k_in_poll := f\<rparr>) = subs s" "subs (s\<lparr>k_now := n\<rparr>) = subs s" "subs (s\<lparr>k_nonce := g\<rparr>) = subs s"
  "subs (clear_channel_state s) = subs s" "subs (emit (Event ev) s) = subs s"
  by (simp_all add: subs_def clear_channel_state_def emit_def)

lemma drop_and_retry_simps [simp]:
  "t_open (k_tr (drop_and_retry s)) = False" "k_stopped (drop_and_retry s) = k_stopped s"
  "k_pending (drop_and_retry s) = (\<not> k_stopped s \<or> k_pending s)"
  by (auto simp: drop_and_retry_def t_close_def)

lemma live_send_bytes:
  assumes "live S s"
  shows "live (subs_step S x) (send_bytes x op bs s)"
proof (cases rule: send_bytes_cases [of s x op bs])
  case 1
  then show ?thesis using assms by (auto simp: live_def)
qed (use assms in \<open>auto simp: live_def link_inv_def subs_emit\<close>)

lemma live_send_built:
  assumes "live S s" and "send_built lib build s = Some s'"
  shows "live (subs_step S (Command kOpFrame (fst (build (k_nonce s))))) s'"
proof -
  have "live S (s\<lparr>k_nonce := g\<rparr>)" for g using assms(1) by (simp add: live_def link_inv_def)
  then show ?thesis
    using assms(2)
    by (auto simp: send_built_def send_def live_send_bytes simp del: subs_step.simps
        split: prod.splits option.splits)
qed

lemma live_plain: "plain_command build \<Longrightarrow> preserves (live S) (send_built lib build)"
  by (rule preservesI) (use live_send_built in \<open>fastforce simp: plain_command_def\<close>)

lemma live_subscribe:
  "live S s \<Longrightarrow> ch \<noteq> [] \<Longrightarrow>
     each (\<lambda>evt. send_built lib (build_subscribe evt (channel_args ch))) evts s = Some s' \<Longrightarrow>
     live (S \<union> set evts \<times> {ch}) s'"
proof (induction evts arbitrary: S s)
  case (Cons e evts)
  then obtain s1 where s1: "send_built lib (build_subscribe e (channel_args ch)) s = Some s1"
    and r: "each (\<lambda>evt. send_built lib (build_subscribe evt (channel_args ch))) evts s1 = Some s'"
    by (auto split: option.splits)
  from live_send_built [OF Cons.prems(1) s1] Cons.prems(2) have "live (insert (e, ch) S) s1"
    by (simp add: build_subscribe_def next_nonce_def channel_args_def)
  from Cons.IH [OF this Cons.prems(2) r] show ?case by simp
qed simp

lemma live_unsubscribe:
  "live S s \<Longrightarrow> ch \<noteq> [] \<Longrightarrow>
     each (\<lambda>evt. send_built lib (build_unsubscribe evt (channel_args ch))) evts s = Some s' \<Longrightarrow>
     live (S - set evts \<times> {ch}) s'"
proof (induction evts arbitrary: S s)
  case (Cons e evts)
  then obtain s1 where s1: "send_built lib (build_unsubscribe e (channel_args ch)) s = Some s1"
    and r: "each (\<lambda>evt. send_built lib (build_unsubscribe evt (channel_args ch))) evts s1 = Some s'"
    by (auto split: option.splits)
  from live_send_built [OF Cons.prems(1) s1] Cons.prems(2) have "live (S - {(e, ch)}) s1"
    by (simp add: build_unsubscribe_def next_nonce_def channel_args_def)
  from Cons.IH [OF this Cons.prems(2) r] show ?case 
    by (rule back_subst [where P = "\<lambda>S. live S s'"]) auto
qed simp

lemma live_set_state: "live S s \<Longrightarrow> c \<noteq> Disconnected \<Longrightarrow> live S (set_state c s)"
  by (simp add: live_def link_inv_def)

lemma live_sub: "live S (s\<lparr>k_subscribed := ch\<rparr>) = live S s"
  by (simp add: live_def link_inv_def)

lemma rpc_inv_channel_select: "preserves rpc_inv (handle_channel_select lib ch)"
proof (rule preservesI)
  fix s s'
  assume inv: "rpc_inv s" and h: "handle_channel_select lib ch s = Some s'"
  let ?d = "k_subscribed s"
  have un: "live {} s1" if "?d \<noteq> []" "unsubscribe_channel lib ?d s = Some s1" for s1
  proof -
    have "live (channel_subs ?d - set kChannelEvents \<times> {?d}) s1"
      using inv that by (intro live_unsubscribe [of _ s]) (simp_all add: rpc_inv_def unsubscribe_channel_def)
    then show ?thesis using that(1) by (simp add: channel_subs_def)
  qed
  have none: "live {} s" if "?d = []" using inv that by (simp add: rpc_inv_def channel_subs_def)
  show "rpc_inv s'"
  proof (cases "ch = []")
    case True
    obtain s1 where s1: "live {} s1" "k_subscribed s1 = []" "s' = set_state Ready s1"
    proof (cases "?d = []")
      case True
      then show thesis
        using that [of s] h none \<open>ch = []\<close> by (simp add: handle_channel_select_def seq_def skip_def upd_def)
    next
      case False
      with h \<open>ch = []\<close> obtain s0 where "unsubscribe_channel lib ?d s = Some s0"
        "s' = set_state Ready (clear_channel_state s0)"
        by (auto simp: handle_channel_select_def seq_def upd_def split: option.splits)
      with False un show thesis
        using that [of "clear_channel_state s0"] by (simp add: clear_channel_state_def live_sub)
    qed
    then show ?thesis by (simp add: rpc_inv_def channel_subs_def live_set_state)
  next
    case ch: False
    show ?thesis
    proof (cases "ch = ?d")
      case True
      with h ch have "s' = set_state InChannel s" by (simp add: handle_channel_select_def)
      then show ?thesis using inv by (simp add: rpc_inv_def live_set_state)
    next
      case False
      with h ch un none obtain s1 s2 where s1: "live {} s1" and
        s2: "subscribe_channel lib ch s1 = Some s2" and s': "s' = set_state InChannel (s2\<lparr>k_subscribed := ch\<rparr>)"
        by (cases "?d = []")
          (auto simp: handle_channel_select_def seq_def skip_def upd_def split: option.splits)
      have "live ({} \<union> set kChannelEvents \<times> {ch}) s2"
        using s1 ch s2 by (intro live_subscribe [of _ s1]) (simp_all add: subscribe_channel_def)
      then show ?thesis
        using ch s' by (simp add: rpc_inv_def channel_subs_def live_set_state live_sub)
    qed
  qed
qed

lemma send_bytes_subscribed:
  "t_open (k_tr (send_bytes x op bs s)) \<Longrightarrow> k_subscribed (send_bytes x op bs s) = k_subscribed s"
  by (cases rule: send_bytes_cases [of s x op bs]) auto

lemma live_closed: "\<not> t_open (k_tr s) \<Longrightarrow> live S s = link_inv s"
  by (simp add: live_def)

lemma rpc_inv_send_bytes:
  assumes "rpc_inv s" and "\<And>S. subs_step S x = S"
  shows "rpc_inv (send_bytes x op bs s)"
proof -
  let ?s = "send_bytes x op bs s"
  have "live (subs_step (channel_subs (k_subscribed s)) x) ?s"
    using assms(1) unfolding rpc_inv_def by (rule live_send_bytes)
  then have l: "live (channel_subs (k_subscribed s)) ?s" by (simp only: assms(2))
  show ?thesis
  proof (cases "t_open (k_tr ?s)")
    case True
    from send_bytes_subscribed [OF True] l show ?thesis by (simp only: rpc_inv_def)
  next
    case False
    with l show ?thesis by (simp only: rpc_inv_def live_closed not_False_eq_True)
  qed
qed

lemma rpc_inv_plain: "plain_command build \<Longrightarrow> preserves rpc_inv (send_built lib build)"
proof (rule preservesI)
  fix s s'
  assume p: "plain_command build" and inv: "rpc_inv s" and h: "send_built lib build s = Some s'"
  obtain j g where b: "build (k_nonce s) = (j, g)" by fastforce
  have "rpc_inv (s\<lparr>k_nonce := g\<rparr>)" using inv by (simp add: rpc_inv_def live_def link_inv_def)
  moreover have "subs_step S (Command kOpFrame j) = S" for S
  proof -
    have "str_or (obj_or_empty (fst (build (k_nonce s))) ''args'') ''channel_id'' [] = []"
      using p unfolding plain_command_def by (rule spec)
    then have "str_or (obj_or_empty j ''args'') ''channel_id'' [] = []" by (simp only: b fst_conv)
    then show ?thesis by (simp only: subs_step.simps Let_def simp_thms if_True)
  qed
  ultimately have r: "rpc_inv (send_bytes (Command kOpFrame j) kOpFrame bs (s\<lparr>k_nonce := g\<rparr>))" for bs
    by (rule rpc_inv_send_bytes)
  from h b obtain bs where "s' = send_bytes (Command kOpFrame j) kOpFrame bs (s\<lparr>k_nonce := g\<rparr>)"
    by (auto simp: send_built_def send_def simp del: subs_step.simps split: option.splits)
  with r show "rpc_inv s'" by simp
qed

lemma rpc_inv_closed:
  "link_inv s \<Longrightarrow> \<not> t_open (k_tr s) \<Longrightarrow> rpc_inv s"
  by (simp add: rpc_inv_def live_closed)

lemma rpc_inv_connect:
  assumes "\<not> t_open (k_tr s)" and "\<not> k_stopped s" and "try_connect lib s = Some s'"
  shows "rpc_inv s'"
proof -
  let ?s0 = "clear_channel_state (s\<lparr>k_pending := False\<rparr>)"
  obtain as later where n: "next_of [] (k_attempts ?s0) = (as, later)" by fastforce
  obtain ok t' where c: "t_connect (k_env ?s0) as (k_tr ?s0) = (ok, t')" by fastforce
  have o: "t_open t' = ok" using c assms(1) by (auto simp: t_connect_def split: if_splits)
  let ?s1 = "?s0\<lparr>k_tr := t', k_attempts := later\<rparr>"
  show ?thesis
  proof (cases ok)
    case False
    then have "s' = schedule_reconnect ?s1"
      using assms(3) n c by (simp add: try_connect_def Let_def)
    then show ?thesis
      using False o assms(2) by (intro rpc_inv_closed) (simp_all add: link_inv_def)
  next
    case True
    let ?s3 = "set_state Connecting (emit Connected ?s1)"
    have "live {} ?s3"
      using True o assms(2) by (simp add: live_def link_inv_def subs_emit)
    then have "rpc_inv ?s3" by (simp add: rpc_inv_def channel_subs_def)
    moreover have "subs_step S (Command kOpHandshake
        (jobj [(''v'', JInt 1), (''client_id'', JStr c)])) = S" for S c by simp
    ultimately have r: "rpc_inv (send_bytes (Command kOpHandshake
        (jobj [(''v'', JInt 1), (''client_id'', JStr c)])) op bs ?s3)" for c op bs
      by (rule rpc_inv_send_bytes)
    have "t_open (k_tr ?s0) = False" using assms(1) by simp
    with assms(3) True n c obtain cid bs where "s' = send_bytes (Command kOpHandshake
        (jobj [(''v'', JInt 1), (''client_id'', JStr cid)])) kOpHandshake bs ?s3"
      by (auto simp: try_connect_def Let_def send_def simp del: subs_step.simps split: option.splits)
    with r show ?thesis by simp
  qed
qed

interpretation link: call_kept lib rpc_inv for lib
proof unfold_locales
  show "rpc_inv (emit (Event ev) s)" if "rpc_inv s" for s ev
    using that by (simp add: rpc_inv_def live_def link_inv_def)
  show "rpc_inv (set_state c s)" if "rpc_inv s" "c \<noteq> Disconnected" for s c
    using that by (simp add: rpc_inv_def live_set_state)
  show "rpc_inv (s\<lparr>k_http := h\<rparr>)" if "rpc_inv s" for s h
    using that by (simp add: rpc_inv_def live_def link_inv_def)
  show "rpc_inv (drop_and_retry s)" if "rpc_inv s" for s
    using that by (intro rpc_inv_closed) (auto simp: rpc_inv_def live_def link_inv_def)
  show "rpc_inv (send_bytes (Ponged bs) op bs s)" if "rpc_inv s" for s bs op
    using that by (intro rpc_inv_send_bytes) simp_all
  show "rpc_inv (s\<lparr>k_tr := (k_tr s)\<lparr>t_rbuf := b\<rparr>\<rparr>)" if "rpc_inv s" for s b
    using that by (simp add: rpc_inv_def live_def link_inv_def)
  show "rpc_inv (on_closed (s\<lparr>k_tr := (k_tr s)\<lparr>t_open := False, t_rbuf := []\<rparr>\<rparr>))"
    if "rpc_inv s" "t_open (k_tr s)" for s
    using that by (intro rpc_inv_closed) (auto simp: rpc_inv_def live_def link_inv_def)
  show "rpc_inv (s\<lparr>k_in_poll := f\<rparr>)" if "rpc_inv s" for s f
    using that by (simp add: rpc_inv_def live_def link_inv_def)
  show "rpc_inv (s\<lparr>k_now := n\<rparr>)" if "rpc_inv s" for s n
    using that by (simp add: rpc_inv_def live_def link_inv_def)
  show "rpc_inv (stop s)" if "rpc_inv s" for s
    by (rule rpc_inv_closed) (auto simp: stop_def link_inv_def Let_def t_close_def)
  show "rpc_inv s'" if "rpc_inv s" "k_pending s" "\<not> k_stopped s" "try_connect lib s = Some s'" for s s'
    using that by (intro rpc_inv_connect [OF _ that(3,4)]) (auto simp: rpc_inv_def live_def link_inv_def)
  show "rpc_inv s'" if "rpc_inv s" "\<not> t_open (k_tr s)" "start lib s = Some s'" for s s'
    using that by (intro rpc_inv_connect [of "s\<lparr>k_stopped := False, k_pending := False\<rparr>"]) (simp_all add: start_def)
qed (simp_all add: rpc_inv_plain rpc_inv_channel_select)

end
