(* ===== verification/RpcSession.thy ===== *)
theory RpcSession
  imports RpcClient
begin

text \<open>
  What the connection state machine of \<^verbatim>\<open>RpcClient\<close> promises over whole sessions: it is
  never stuck, what it sends is a well-formed conversation, messages are handled in order, a
  login goes through, a due retry connects, a stopped client is silent.
\<close>

section \<open>The conversation on the wire\<close>

text \<open>
  Read over the output: whether the current connection has had its handshake, and whether
  nothing was ever sent before one.
\<close>

fun greeted_step :: "bool \<times> bool \<Rightarrow> rpc_output \<Rightarrow> bool \<times> bool" where
  "greeted_step (g, good) Connected = (False, good)"
| "greeted_step (g, good) (Command op j) = (if op = kOpHandshake then (True, good \<and> \<not> g) else (g, good \<and> g))"
| "greeted_step (g, good) (Ponged bs) = (g, good \<and> g)"
| "greeted_step b _ = b"

definition greeted :: "rpc \<Rightarrow> bool \<times> bool" where
  "greeted s = foldl greeted_step (False, True) (k_out s)"

definition polite :: "rpc \<Rightarrow> bool" where
  "polite s \<longleftrightarrow>
     snd (greeted s) \<and> (t_open (k_tr s) \<longrightarrow> fst (greeted s)) \<and> (k_pending s \<longrightarrow> \<not> t_open (k_tr s))"

lemma greeted_emit: "greeted (emit x s) = greeted_step (greeted s) x"
  by (simp add: greeted_def emit_def)

lemma greeted_silent [simp]: "greeted (emit (Event ev) s) = greeted s" "greeted (emit (State_changed c) s) = greeted s"
  by (cases "greeted s"; simp add: greeted_emit)+

lemma greeted_upds [simp]:
  "greeted (s\<lparr>k_tr := t\<rparr>) = greeted s" "greeted (s\<lparr>k_subscribed := ch\<rparr>) = greeted s"
  "greeted (s\<lparr>k_http := h\<rparr>) = greeted s" "greeted (s\<lparr>k_in_poll := f\<rparr>) = greeted s"
  "greeted (s\<lparr>k_now := n\<rparr>) = greeted s" "greeted (s\<lparr>k_nonce := g\<rparr>) = greeted s"
  "greeted (s\<lparr>k_pending := p\<rparr>) = greeted s" "greeted (s\<lparr>k_at := n\<rparr>) = greeted s"
  "greeted (s\<lparr>k_stopped := p\<rparr>) = greeted s" "greeted (s\<lparr>k_attempts := as\<rparr>) = greeted s"
  "greeted (s\<lparr>k_state := c\<rparr>) = greeted s"
  by (simp_all add: greeted_def)

lemma greeted_keeps [simp]:
  "greeted (set_state c s) = greeted s" "greeted (clear_channel_state s) = greeted s"
  "greeted (schedule_reconnect s) = greeted s" "greeted (on_closed s) = greeted s"
  by (simp_all add: set_state_def clear_channel_state_def schedule_reconnect_def on_closed_def Let_def)

lemma polite_closed: "\<not> t_open (k_tr s) \<Longrightarrow> polite s = snd (greeted s)"
  by (simp add: polite_def)

lemma polite_send_bytes:
  assumes "polite s" and "\<And>good. greeted_step (True, good) x = (True, good)"
  shows "polite (send_bytes x op bs s)"
  using assms(1)
  by (cases rule: send_bytes_cases [of s x op bs]; cases "greeted s")
    (auto simp: polite_def greeted_emit assms(2))

lemma polite_send_built: "preserves polite (send_built lib build)"
proof (rule preservesI)
  fix s s'
  assume p: "polite s" and h: "send_built lib build s = Some s'"
  obtain j g bs where s': "s' = send_bytes (Command kOpFrame j) kOpFrame bs (s\<lparr>k_nonce := g\<rparr>)"
    using h by (auto simp: send_built_def send_def split: prod.splits option.splits)
  have "polite (s\<lparr>k_nonce := g\<rparr>)" using p by (simp add: polite_def)
  then show "polite s'"
    unfolding s' by (rule polite_send_bytes) (simp add: kOpFrame_def kOpHandshake_def)
qed

interpretation courtesy: kept lib polite for lib
proof unfold_locales
  show "polite (send_bytes (Ponged bs) op bs s)" if "polite s" for s bs op
    using that by (rule polite_send_bytes) simp
qed (auto simp: polite_send_built, auto simp: polite_def drop_and_retry_def t_close_def)

lemma polite_connect:
  assumes "polite s" and "\<not> t_open (k_tr s)" and "try_connect lib s = Some s'"
  shows "polite s'"
proof -
  let ?s0 = "clear_channel_state (s\<lparr>k_pending := False\<rparr>)"
  obtain as later where n: "next_of [] (k_attempts ?s0) = (as, later)" by fastforce
  obtain ok t' where c: "t_connect (k_env ?s0) as (k_tr ?s0) = (ok, t')" by fastforce
  have o: "t_open t' = ok" using c assms(2) by (auto simp: t_connect_def split: if_splits)
  let ?s1 = "?s0\<lparr>k_tr := t', k_attempts := later\<rparr>"
  have g: "snd (greeted s)" using assms(1,2) by (simp add: polite_def)
  show ?thesis
  proof (cases ok)
    case False
    then have "s' = schedule_reconnect ?s1"
      using assms(3) n c by (simp add: try_connect_def Let_def)
    then show ?thesis using False o g by (simp add: polite_def)
  next
    case True
    let ?s3 = "set_state Connecting (emit Connected ?s1)"
    have g3: "greeted ?s3 = (False, True)"
      using g by (cases "greeted s") (simp add: greeted_emit)
    have closed0: "t_open (k_tr ?s0) = False" using assms(2) by simp
    with assms(3) True n c obtain j bs where s': "s' = send_bytes (Command kOpHandshake j) kOpHandshake bs ?s3"
      by (auto simp: try_connect_def Let_def send_def split: option.splits)
    show ?thesis
      unfolding s'
      by (cases rule: send_bytes_cases [of ?s3 "Command kOpHandshake j" kOpHandshake bs])
        (use True o g3 in \<open>auto simp: polite_def greeted_emit\<close>)
  qed
qed

interpretation manners: call_kept lib polite for lib
proof unfold_locales
  show "polite (s\<lparr>k_tr := (k_tr s)\<lparr>t_rbuf := b\<rparr>\<rparr>)" if "polite s" for s b
    using that by (simp add: polite_def)
  show "polite (on_closed (s\<lparr>k_tr := (k_tr s)\<lparr>t_open := False, t_rbuf := []\<rparr>\<rparr>))"
    if "polite s" "t_open (k_tr s)" for s
    using that by (simp add: polite_def)
  show "polite (s\<lparr>k_in_poll := f\<rparr>)" if "polite s" for s f using that by (simp add: polite_def)
  show "polite (s\<lparr>k_now := n\<rparr>)" if "polite s" for s n using that by (simp add: polite_def)
  show "polite (stop s)" if "polite s" for s
    using that by (auto simp: stop_def Let_def t_close_def polite_def)
  show "polite s'" if "polite s" "k_pending s" "\<not> k_stopped s" "try_connect lib s = Some s'" for s s'
  proof (rule polite_connect [OF that(1) _ that(4)])
    show "\<not> t_open (k_tr s)" using that(1,2) by (simp add: polite_def)
  qed
  show "polite s'" if "polite s" "\<not> t_open (k_tr s)" "start lib s = Some s'" for s s'
  proof (rule polite_connect)
    show "try_connect lib (s\<lparr>k_stopped := False, k_pending := False\<rparr>) = Some s'"
      using that(3) by (simp add: start_def)
  qed (use that in \<open>simp_all add: polite_def\<close>)
qed

section \<open>Properties\<close>

text \<open>
  The client as its constructor leaves it.
\<close>

definition fresh :: "rpc \<Rightarrow> bool" where
  "fresh s \<longleftrightarrow> \<not> t_open (k_tr s) \<and> \<not> k_pending s \<and> k_out s = [] \<and> k_subscribed s = [] \<and> k_state s = Disconnected"

lemma start_rpc_inv:
  assumes "fresh s" and "start lib s = Some s1"
  shows "rpc_inv s1"
  using assms
  by (intro rpc_inv_connect [of "s\<lparr>k_stopped := False, k_pending := False\<rparr>" lib s1])
    (simp_all add: start_def fresh_def)

lemma start_polite:
  assumes "fresh s" and "start lib s = Some s1"
  shows "polite s1"
proof (rule polite_connect)
  show "try_connect lib (s\<lparr>k_stopped := False, k_pending := False\<rparr>) = Some s1"
    using assms(2) by (simp add: start_def)
qed (use assms(1) in \<open>simp_all add: polite_def fresh_def greeted_def\<close>)

text \<open>
  C17: Once started the client is never stuck. After any calls of the host (poll with any
  kernel answers, reconnect, stop): without a connection a retry is pending unless the client
  was stopped, a retry is only pending without a connection, a stopped client has neither, and
  a live connection is not reported as disconnected.
\<close>

theorem client_never_stuck:
  assumes "fresh s" and "start lib s = Some s1" and "each (rpc_step lib) calls s1 = Some s'"
  shows "(t_open (k_tr s') \<or> k_stopped s' \<or> k_pending s') \<and>
    \<not> (k_pending s' \<and> t_open (k_tr s')) \<and> \<not> (k_stopped s' \<and> (t_open (k_tr s') \<or> k_pending s')) \<and>
    \<not> (t_open (k_tr s') \<and> k_state s' = Disconnected)"
proof -
  have "rpc_inv s'" by (rule link.P_calls [OF start_rpc_inv [OF assms(1,2)] assms(3)])
  then show ?thesis by (auto simp: rpc_inv_def live_def link_inv_def)
qed

text \<open>
  C19: The subscriptions held at Discord, as the commands sent on the live connection add up to,
  are exactly the five channel events of the channel the client believes it is in (none when
  it is in none), whatever channels were joined, left or switched and whatever was lost before.
\<close>

theorem subscriptions_match_channel:
  assumes "fresh s" and "start lib s = Some s1" and "each (rpc_step lib) calls s1 = Some s'"
    and "t_open (k_tr s')"
  shows "subs s' = channel_subs (k_subscribed s')"
  using link.P_calls [OF start_rpc_inv [OF assms(1,2)] assms(3)] assms(4) by (simp add: rpc_inv_def live_def)

text \<open>
  C21: On every connection the handshake is the first thing sent and is sent once: no command
  and no PONG precedes it.
\<close>

theorem handshake_comes_first:
  assumes "fresh s" and "start lib s = Some s1" and "each (rpc_step lib) calls s1 = Some s'"
  shows "snd (greeted s')"
  using manners.P_calls [OF start_polite [OF assms(1,2)] assms(3)] by (simp add: polite_def)

section \<open>A kernel that takes everything\<close>

definition prints :: "json_lib \<Rightarrow> bool" where
  "prints lib \<longleftrightarrow> (\<forall>j. lib_dump lib j \<noteq> None)"

definition smooth :: "rpc \<Rightarrow> bool" where
  "smooth s \<longleftrightarrow> t_open (k_tr s) \<and> t_sends (k_tr s) = []"

lemma send_loop_takes_all [simp]: "send_loop [] bs = (bs, True)"
  by (cases bs) simp_all

lemma smooth_send_bytes:
  assumes "smooth s"
  obtains t' where "send_bytes x op bs s = emit x (s\<lparr>k_tr := t'\<rparr>)" "t_open t'" "t_sends t' = []"
  using assms by (auto simp: smooth_def send_bytes_def send_raw_def)

lemma smooth_send_built:
  assumes "smooth s" and "prints lib"
  obtains t' where
    "send_built lib build s =
       Some (emit (Command kOpFrame (fst (build (k_nonce s)))) (s\<lparr>k_nonce := snd (build (k_nonce s)), k_tr := t'\<rparr>))"
    "t_open t'" "t_sends t' = []"
proof -
  obtain j g where b: "build (k_nonce s) = (j, g)" by fastforce
  obtain bs where d: "lib_dump lib j = Some bs" using assms(2) by (auto simp: prints_def)
  have "smooth (s\<lparr>k_nonce := g\<rparr>)" using assms(1) by (simp add: smooth_def)
  then obtain t' where "send_bytes (Command kOpFrame j) kOpFrame bs (s\<lparr>k_nonce := g\<rparr>) =
      emit (Command kOpFrame j) (s\<lparr>k_nonce := g, k_tr := t'\<rparr>)" "t_open t'" "t_sends t' = []"
    by (rule smooth_send_bytes)
  then show thesis using that b d by (simp add: send_built_def send_def)
qed

text \<open>The commands of an output, by name and event.\<close>

fun command_of :: "rpc_output \<Rightarrow> (string \<times> string) list" where
  "command_of (Command op j) = [(str_or j ''cmd'' [], str_or j ''evt'' [])]"
| "command_of _ = []"

definition commands :: "rpc \<Rightarrow> (string \<times> string) list" where
  "commands s = concat (map command_of (k_out s))"

lemma commands_emit: "commands (emit x s) = commands s @ command_of x"
  by (simp add: commands_def emit_def)

lemma commands_upds [simp]:
  "commands (s\<lparr>k_tr := t\<rparr>) = commands s" "commands (s\<lparr>k_nonce := g\<rparr>) = commands s"
  "commands (s\<lparr>k_http := h\<rparr>) = commands s" "commands (set_state c s) = commands s"
  by (simp_all add: commands_def set_state_def emit_def)

lemma smooth_keeps [simp]:
  "smooth (set_state c s) = smooth s" "smooth (emit x s) = smooth s" "smooth (s\<lparr>k_http := h\<rparr>) = smooth s"
  by (simp_all add: smooth_def)

text \<open>What a sent command changes, in a form that chains.\<close>

lemma smooth_command:
  assumes "smooth s" and "prints lib"
  obtains s' where "send_built lib build s = Some s'" "smooth s'" "k_state s' = k_state s"
    "commands s' = commands s @ command_of (Command kOpFrame (fst (build (k_nonce s))))"
    "k_http s' = k_http s" "k_cfg s' = k_cfg s" "k_subscribed s' = k_subscribed s"
proof (rule smooth_send_built [OF assms, of build])
  fix t'
  let ?x = "Command kOpFrame (fst (build (k_nonce s)))"
  let ?s = "s\<lparr>k_nonce := snd (build (k_nonce s)), k_tr := t'\<rparr>"
  assume h: "send_built lib build s = Some (emit ?x ?s)" "t_open t'" "t_sends t' = []"
  show thesis
  proof (rule that [OF h(1)])
    show "smooth (emit ?x ?s)" using h by (simp add: smooth_def)
    show "k_http (emit ?x ?s) = k_http s" "k_cfg (emit ?x ?s) = k_cfg s"
      "k_subscribed (emit ?x ?s) = k_subscribed s" by (simp_all add: emit_def)
    have "commands ?s = commands s" by (simp add: commands_def)
    then show "commands (emit ?x ?s) = commands s @ command_of ?x" by (simp only: commands_emit)
  qed simp
qed

lemma command_of_built [simp]:
  "command_of (Command op (fst (build_authorize scopes cid g))) = [(''AUTHORIZE'', [])]"
  "command_of (Command op (fst (build_authenticate tok g))) = [(''AUTHENTICATE'', [])]"
  "command_of (Command op (fst (build_subscribe evt args g))) = [(''SUBSCRIBE'', evt)]"
  "command_of (Command op (fst (build_unsubscribe evt args g))) = [(''UNSUBSCRIBE'', evt)]"
  "command_of (Command op (fst (build_get_selected_voice_channel g))) = [(''GET_SELECTED_VOICE_CHANNEL'', [])]"
  by (simp_all add: build_authorize_def build_authenticate_def build_subscribe_def
      build_unsubscribe_def build_get_selected_voice_channel_def next_nonce_def str_or_def)

declare command_of.simps(1) [simp del]

lemma k_http_keeps [simp]: "k_http (set_state c s) = k_http s" "k_cfg (set_state c s) = k_cfg s"
  by (simp_all add: set_state_def emit_def)

lemma ready_step:
  assumes "smooth s" "prints lib" "is_object r" "str_or r ''cmd'' [] = ''DISPATCH''" "str_or r ''evt'' [] = ''READY''"
  obtains s' where "on_message lib kOpFrame r s = Some s'" "smooth s'" "k_state s' = Authorizing"
    "commands s' = commands s @ [(''AUTHORIZE'', [])]" "k_http s' = k_http s"
proof -
  let ?s = "set_state Authorizing s"
  have "smooth ?s" using assms(1) by simp
  from smooth_command [OF this assms(2), of "build_authorize (g_scopes (k_cfg s)) (g_client_id (k_cfg s))"]
  show thesis using that assms(3-) by (auto simp: on_message_def seq_def upd_def)
qed

lemma authorize_step:
  assumes "smooth s" "prints lib" "k_state s = Authorizing" "is_object a" "str_or a ''cmd'' [] = ''AUTHORIZE''"
    and code: "str_or (obj_or_empty a ''data'') ''code'' [] \<noteq> []"
    and http: "k_http s = resp # later" "tok_ok (token_of_response lib resp)"
  obtains s' where "on_message lib kOpFrame a s = Some s'" "smooth s'" "k_state s' = Authorizing"
    "commands s' = commands s @ [(''AUTHENTICATE'', [])]"
proof -
  let ?s = "s\<lparr>k_http := later\<rparr>"
  have "smooth ?s" using assms(1) by simp
  from smooth_command [OF this assms(2), of "build_authenticate (tok_access (token_of_response lib resp))"]
  obtain s' where s': "send_built lib (build_authenticate (tok_access (token_of_response lib resp))) ?s = Some s'"
    "smooth s'" "k_state s' = Authorizing" "commands s' = commands s @ [(''AUTHENTICATE'', [])]"
    using assms(3) by auto
  have c: "str_or (case jfind a ''data'' of Some d \<Rightarrow> d | None \<Rightarrow> jobj []) ''code'' [] =
      str_or (obj_or_empty a ''data'') ''code'' []"
    using assms(4) by (cases a) (auto simp: obj_or_empty_def str_or_def split: option.splits json.splits)
  have "exchange_code lib post code = Some (token_of_response lib (post kStreamkitTokenUrl (the (lib_dump lib (jobj [(''code'', JStr code)])))))" for post code
    using assms(2) by (auto simp: exchange_code_def prints_def split: option.splits)
  then have "on_message lib kOpFrame a s = Some s'"
    using assms(3-5) code http s'(1) c
    by (simp add: on_message_def handle_authorize_response_def Let_def next_of_def)
  then show thesis using that s' by blast
qed

lemma authenticate_step:
  assumes "smooth s" "prints lib" "k_state s = Authorizing" "is_object a" "str_or a ''cmd'' [] = ''AUTHENTICATE''"
    and "str_or a ''evt'' [] \<noteq> ''ERROR''"
  obtains s' where "on_message lib kOpFrame a s = Some s'" "smooth s'" "k_state s' = Ready"
    "commands s' = commands s @ [(''SUBSCRIBE'', ''VOICE_CHANNEL_SELECT''), (''SUBSCRIBE'', ''NOTIFICATION_CREATE''),
       (''GET_SELECTED_VOICE_CHANNEL'', [])]"
proof -
  have "smooth (set_state Ready s)" using assms(1) by simp
  from smooth_command [OF this assms(2), of "build_subscribe ''VOICE_CHANNEL_SELECT'' (jobj [])"]
  obtain s1 where 1: "send_built lib (build_subscribe ''VOICE_CHANNEL_SELECT'' (jobj [])) (set_state Ready s) = Some s1"
    "smooth s1" "k_state s1 = Ready" "commands s1 = commands s @ [(''SUBSCRIBE'', ''VOICE_CHANNEL_SELECT'')]"
    by auto
  from smooth_command [OF 1(2) assms(2), of "build_subscribe ''NOTIFICATION_CREATE'' (jobj [])"]
  obtain s2 where 2: "send_built lib (build_subscribe ''NOTIFICATION_CREATE'' (jobj [])) s1 = Some s2"
    "smooth s2" "k_state s2 = Ready" "commands s2 = commands s1 @ [(''SUBSCRIBE'', ''NOTIFICATION_CREATE'')]"
    using 1(3) by auto
  from smooth_command [OF 2(2) assms(2), of build_get_selected_voice_channel]
  obtain s3 where 3: "send_built lib build_get_selected_voice_channel s2 = Some s3"
    "smooth s3" "k_state s3 = Ready" "commands s3 = commands s2 @ [(''GET_SELECTED_VOICE_CHANNEL'', [])]"
    using 2(3) by auto
  have "on_message lib kOpFrame a s = Some s3"
    using assms(3-) 1(1) 2(1) 3(1)
    by (simp add: on_message_def handle_authenticate_response_def seq_def upd_def)
  with that 1 2 3 show thesis by simp
qed

text \<open>
  C23: A login goes through: on an open connection whose sends the kernel takes, Discord's READY,
  an AUTHORIZE reply with a code that exchanges for a token, and an AUTHENTICATE reply without
  error take the client to Ready, with exactly the commands of the protocol sent in order.
\<close>

theorem login_reaches_ready:
  assumes "smooth s" "prints lib" "list_all is_object [r, a, b]"
    and "str_or r ''cmd'' [] = ''DISPATCH''" "str_or r ''evt'' [] = ''READY''"
    and "str_or a ''cmd'' [] = ''AUTHORIZE''" "str_or (obj_or_empty a ''data'') ''code'' [] \<noteq> []"
    and "k_http s = resp # later" "tok_ok (token_of_response lib resp)"
    and "str_or b ''cmd'' [] = ''AUTHENTICATE''" "str_or b ''evt'' [] \<noteq> ''ERROR''"
  shows "\<exists>s'. each (on_message lib kOpFrame) [r, a, b] s = Some s' \<and> smooth s' \<and> k_state s' = Ready \<and>
    commands s' = commands s @ [(''AUTHORIZE'', []), (''AUTHENTICATE'', []),
      (''SUBSCRIBE'', ''VOICE_CHANNEL_SELECT''), (''SUBSCRIBE'', ''NOTIFICATION_CREATE''),
      (''GET_SELECTED_VOICE_CHANNEL'', [])]"
proof -
  have o: "is_object r" "is_object a" "is_object b" using assms(3) by simp_all
  obtain s1 where 1: "on_message lib kOpFrame r s = Some s1" "smooth s1" "k_state s1 = Authorizing"
    "commands s1 = commands s @ [(''AUTHORIZE'', [])]" "k_http s1 = k_http s"
    by (rule ready_step [OF assms(1,2) o(1) assms(4,5)])
  obtain s2 where 2: "on_message lib kOpFrame a s1 = Some s2" "smooth s2" "k_state s2 = Authorizing"
    "commands s2 = commands s1 @ [(''AUTHENTICATE'', [])]"
    by (rule authorize_step [OF 1(2) assms(2) 1(3) o(2) assms(6,7) _ assms(9)]) (simp_all add: 1(5) assms(8))
  obtain s3 where 3: "on_message lib kOpFrame b s2 = Some s3" "smooth s3" "k_state s3 = Ready"
    "commands s3 = commands s2 @ [(''SUBSCRIBE'', ''VOICE_CHANNEL_SELECT''), (''SUBSCRIBE'', ''NOTIFICATION_CREATE''),
       (''GET_SELECTED_VOICE_CHANNEL'', [])]"
    by (rule authenticate_step [OF 2(2) assms(2) 2(3) o(3) assms(10,11)])
  then show ?thesis using 1 2 by simp
qed

lemma smooth_each:
  assumes "smooth s" "prints lib" "\<And>e g. command_of (Command kOpFrame (fst (build e g))) = [(c, e)]"
  obtains s' where "each (\<lambda>e. send_built lib (build e)) es s = Some s'" "smooth s'" "k_state s' = k_state s"
    "k_subscribed s' = k_subscribed s" "commands s' = commands s @ map (Pair c) es"
  using assms(1)
proof (induction es arbitrary: s thesis)
  case Nil
  then show ?case by simp
next
  case (Cons e es)
  obtain s1 where 1: "send_built lib (build e) s = Some s1" "smooth s1" "k_state s1 = k_state s"
    "commands s1 = commands s @ [(c, e)]" "k_subscribed s1 = k_subscribed s"
    using smooth_command [OF Cons.prems(2) assms(2), of "build e"] assms(3) by metis
  obtain s2 where 2: "each (\<lambda>e. send_built lib (build e)) es s1 = Some s2" "smooth s2" "k_state s2 = k_state s1"
    "k_subscribed s2 = k_subscribed s1" "commands s2 = commands s1 @ map (Pair c) es"
    using Cons.IH [OF _ 1(2)] by blast
  show ?case by (rule Cons.prems(1) [of s2]) (use 1 2 in simp_all)
qed

lemma smooth_channel_switch:
  assumes "smooth s" "prints lib" "ch \<noteq> []" "ch \<noteq> k_subscribed s"
  obtains s' where "handle_channel_select lib ch s = Some s'" "smooth s'" "k_state s' = InChannel"
    "k_subscribed s' = ch"
    "commands s' = commands s @
       (if k_subscribed s = [] then [] else map (Pair ''UNSUBSCRIBE'') kChannelEvents) @
       map (Pair ''SUBSCRIBE'') kChannelEvents"
proof -
  obtain s1 where 1: "unsubscribe_channel lib (k_subscribed s) s = Some s1" "smooth s1"
    "commands s1 = commands s @ map (Pair ''UNSUBSCRIBE'') kChannelEvents"
    using smooth_each [OF assms(1,2), of "\<lambda>e. build_unsubscribe e (channel_args (k_subscribed s))" "''UNSUBSCRIBE''" kChannelEvents]
    by (auto simp: unsubscribe_channel_def)
  define s2 where "s2 = (if k_subscribed s = [] then s else s1)"
  have "smooth s2" using 1 assms(1) by (simp add: s2_def)
  from smooth_each [OF this assms(2), of "\<lambda>e. build_subscribe e (channel_args ch)" "''SUBSCRIBE''" kChannelEvents]
  obtain s3 where 3: "subscribe_channel lib ch s2 = Some s3" "smooth s3"
    "commands s3 = commands s2 @ map (Pair ''SUBSCRIBE'') kChannelEvents"
    by (auto simp: subscribe_channel_def)
  show thesis
  proof (rule that)
    show "handle_channel_select lib ch s = Some (set_state InChannel (s3\<lparr>k_subscribed := ch\<rparr>))"
      using assms(3,4) 1(1) 3(1) by (auto simp: handle_channel_select_def seq_def skip_def upd_def s2_def)
    have "commands (s3\<lparr>k_subscribed := ch\<rparr>) = commands s3" by (simp add: commands_def)
    then show "commands (set_state InChannel (s3\<lparr>k_subscribed := ch\<rparr>)) = commands s @
       (if k_subscribed s = [] then [] else map (Pair ''UNSUBSCRIBE'') kChannelEvents) @
       map (Pair ''SUBSCRIBE'') kChannelEvents"
      using 1(3) 3(3) by (simp add: s2_def)
  qed (use 3(2) in \<open>simp_all add: smooth_def\<close>)
qed

text \<open>
  Changing channel on a working connection sends the five UNSUBSCRIBEs of the old channel
  (if there was one), then the five SUBSCRIBEs of the new one, and ends InChannel in it.
\<close>

theorem channel_switch_sends:
  assumes "smooth s" "prints lib" "ch \<noteq> []" "ch \<noteq> k_subscribed s"
  shows "\<exists>s'. handle_channel_select lib ch s = Some s' \<and> k_state s' = InChannel \<and> k_subscribed s' = ch \<and>
    commands s' = commands s @
      (if k_subscribed s = [] then [] else map (Pair ''UNSUBSCRIBE'') kChannelEvents) @
      map (Pair ''SUBSCRIBE'') kChannelEvents"
  by (rule smooth_channel_switch [OF assms]) blast

section \<open>Reconnecting and stopping\<close>

lemma smooth_connect:
  assumes "\<not> t_open (k_tr s)" "t_sends (k_tr s) = []" "prints lib" "k_state s \<noteq> Connecting"
    and "k_attempts s = as # later" "try_paths (runtime_dir (k_env s) @ ''/discord-ipc-'') 0 as"
  obtains s' where "try_connect lib s = Some s'" "smooth s'" "t_rbuf (k_tr s') = []" "k_state s' = Connecting" "\<not> k_pending s'"
    "k_out s' = k_out s @ [Connected, State_changed Connecting,
       Command kOpHandshake (jobj [(''v'', JInt 1), (''client_id'', JStr (g_client_id (k_cfg s)))])]"
proof -
  let ?s0 = "clear_channel_state (s\<lparr>k_pending := False\<rparr>)"
  let ?t = "(k_tr s)\<lparr>t_open := True, t_rbuf := [], t_wire := []\<rparr>"
  let ?s3 = "set_state Connecting (emit Connected (?s0\<lparr>k_tr := ?t, k_attempts := later\<rparr>))"
  let ?j = "jobj [(''v'', JInt 1), (''client_id'', JStr (g_client_id (k_cfg s)))]"
  obtain bs where d: "lib_dump lib ?j = Some bs" using assms(3) by (auto simp: prints_def)
  have "k_attempts ?s0 = as # later" "k_env ?s0 = k_env s" "k_tr ?s0 = k_tr s"
    using assms(5) by (simp_all add: clear_channel_state_def)
  moreover have "t_connect (k_env s) as (k_tr s) = (True, ?t)"
    using assms(1,6) by (simp add: t_connect_def)
  moreover have "g_client_id (k_cfg ?s3) = g_client_id (k_cfg s)"
    by (simp add: set_state_def emit_def clear_channel_state_def)
  ultimately have c: "try_connect lib s = Some (send_bytes (Command kOpHandshake ?j) kOpHandshake bs ?s3)"
    using d assms(1) by (simp add: try_connect_def next_of_def send_def)
  have out: "k_out ?s3 = k_out s @ [Connected, State_changed Connecting]"
    using assms(4) by (simp add: set_state_def emit_def clear_channel_state_def)
  have "send_bytes (Command kOpHandshake ?j) kOpHandshake bs ?s3 =
      emit (Command kOpHandshake ?j) (?s3\<lparr>k_tr := ?t\<lparr>t_wire := raw_frame kOpHandshake bs, t_sends := []\<rparr>\<rparr>)"
    using assms(2) by (simp add: send_bytes_def send_raw_def)
  with c that show thesis
    by (simp add: smooth_def emit_def [of "Command _ _"] out)
qed

lemma pump_empty: "t_rbuf (k_tr s) = [] \<Longrightarrow> pump lib s = Some s"
  by (simp add: pump.simps [of lib s] peel_one_def peel_def kHeaderLen_def)

text \<open>
  C24: When a retry is due, the client is not stopped and Discord accepts on one of the sockets,
  the next poll connects: the connection is up, the handshake with the client id is sent, the
  retry is cleared and the state is Connecting.
\<close>

theorem due_retry_connects:
  assumes "k_pending s" "\<not> k_stopped s" "\<not> k_in_poll s" "k_at s \<le> now" "k_state s \<noteq> Connecting"
    and "\<not> t_open (k_tr s)" "t_sends (k_tr s) = []" "prints lib"
    and "k_attempts s = as # later" "try_paths (runtime_dir (k_env s) @ ''/discord-ipc-'') 0 as"
  shows "\<exists>s'. poll lib now [] s = Some s' \<and> t_open (k_tr s') \<and> k_state s' = Connecting \<and>
    \<not> k_pending s' \<and> \<not> k_in_poll s' \<and>
    k_out s' = k_out s @ [Connected, State_changed Connecting,
       Command kOpHandshake (jobj [(''v'', JInt 1), (''client_id'', JStr (g_client_id (k_cfg s)))])]"
proof -
  let ?s = "s\<lparr>k_in_poll := True, k_now := now\<rparr>"
  obtain s1 where s1: "try_connect lib ?s = Some s1" "smooth s1" "t_rbuf (k_tr s1) = []" "k_state s1 = Connecting"
    "\<not> k_pending s1"
    "k_out s1 = k_out ?s @ [Connected, State_changed Connecting,
       Command kOpHandshake (jobj [(''v'', JInt 1), (''client_id'', JStr (g_client_id (k_cfg ?s)))])]"
    by (rule smooth_connect [of ?s lib as later]) (use assms in simp_all)
  have "transport_poll lib [] s1 = Some s1"
    using s1(2,3) by (simp add: transport_poll_def smooth_def pump_empty)
  then show ?thesis
    using assms(1-4) s1 by (simp add: poll_def seq_def upd_def smooth_def)
qed

lemma idle_poll:
  assumes "\<not> t_open (k_tr s)" "\<not> k_pending s"
  shows "\<exists>b n. poll lib now rs s = Some (s\<lparr>k_in_poll := b, k_now := n\<rparr>)"
proof (cases "k_in_poll s")
  case True
  then have "poll lib now rs s = Some (s\<lparr>k_in_poll := k_in_poll s, k_now := k_now s\<rparr>)" by (simp add: poll_def)
  then show ?thesis by blast
next
  case False
  then have "poll lib now rs s = Some (s\<lparr>k_in_poll := False, k_now := now\<rparr>)"
    using assms by (simp add: poll_def seq_def upd_def transport_poll_def)
  then show ?thesis by blast
qed

lemma stop_idle:
  "\<not> t_open (k_tr (stop s))" "\<not> k_pending (stop s)" "k_state (stop s) = Disconnected" "k_subscribed (stop s) = []"
  "k_stopped (stop s)"
  by (auto simp: stop_def Let_def t_close_def)

text \<open>
  After \<open>stop\<close> the client does nothing, however often it is polled: no connection, no retry,
  nothing sent, no event, state Disconnected; and polling it never fails.
\<close>

theorem stopped_client_is_silent:
  "\<exists>s'. each (\<lambda>(now, rs). rpc_step lib (Poll now rs)) ps (stop s) = Some s' \<and>
     k_out s' = k_out (stop s) \<and> \<not> t_open (k_tr s') \<and> \<not> k_pending s' \<and> k_state s' = Disconnected"
proof -
  have "\<not> t_open (k_tr s0) \<Longrightarrow> \<not> k_pending s0 \<Longrightarrow>
      \<exists>b n. each (\<lambda>(now, rs). rpc_step lib (Poll now rs)) ps s0 = Some (s0\<lparr>k_in_poll := b, k_now := n\<rparr>)" for s0
  proof (induction ps arbitrary: s0)
    case Nil
    have "each (\<lambda>(now, rs). rpc_step lib (Poll now rs)) [] s0 = Some (s0\<lparr>k_in_poll := k_in_poll s0, k_now := k_now s0\<rparr>)"
      by simp
    then show ?case by blast
  next
    case (Cons p ps)
    obtain now rs where p: "p = (now, rs)" by fastforce
    obtain b n where 1: "poll lib now rs s0 = Some (s0\<lparr>k_in_poll := b, k_now := n\<rparr>)"
      using idle_poll [OF Cons.prems] by blast
    from Cons.IH [of "s0\<lparr>k_in_poll := b, k_now := n\<rparr>"] Cons.prems 1 p show ?case by simp
  qed
  from this [OF stop_idle(1,2)] stop_idle(3) [of s] stop_idle(1,2) [of s] show ?thesis by fastforce
qed

section \<open>A send that fails half-way through a channel switch\<close>

lemma closed_send_built:
  assumes "\<not> t_open (k_tr s)" "prints lib"
  obtains g where "send_built lib build s = Some (s\<lparr>k_nonce := g\<rparr>)"
proof -
  obtain j g where b: "build (k_nonce s) = (j, g)" by fastforce
  obtain bs where "lib_dump lib j = Some bs" using assms(2) by (auto simp: prints_def)
  with b have "send_built lib build s = Some (s\<lparr>k_nonce := g\<rparr>)"
    using assms(1) by (simp add: send_built_def send_def send_bytes_def send_raw_def)
  then show thesis by (rule that)
qed

lemma closed_sends:
  "\<not> t_open (k_tr s) \<Longrightarrow> prints lib \<Longrightarrow>
     \<exists>g. each (\<lambda>e. send_built lib (build e)) es s = Some (s\<lparr>k_nonce := g\<rparr>)"
proof (induction es arbitrary: s)
  case Nil
  have "each (\<lambda>e. send_built lib (build e)) [] s = Some (s\<lparr>k_nonce := k_nonce s\<rparr>)" by simp
  then show ?case by blast
next
  case (Cons e es)
  obtain g where g: "send_built lib (build e) s = Some (s\<lparr>k_nonce := g\<rparr>)"
    by (rule closed_send_built [OF Cons.prems])
  from Cons.IH [of "s\<lparr>k_nonce := g\<rparr>"] Cons.prems g show ?case by simp
qed

text \<open>
  A connection that breaks on the first SUBSCRIBE of a newly joined channel is not noticed by
  the channel handler: \<open>on_closed\<close> reports Disconnected, and then the handler claims the channel
  and reports InChannel, over a closed transport with a retry pending.
\<close>

theorem lost_subscribe_reports_in_channel:
  assumes "t_open (k_tr s)" "t_sends (k_tr s) = [Broken] # later" "prints lib" "\<not> k_stopped s"
    and "k_subscribed s = []" "ch \<noteq> []"
  shows "\<exists>s'. handle_channel_select lib ch s = Some s' \<and> \<not> t_open (k_tr s') \<and> k_pending s' \<and>
    k_state s' = InChannel \<and> k_subscribed s' = ch"
proof -
  let ?build = "\<lambda>e. build_subscribe e (channel_args ch)"
  obtain e es where es: "kChannelEvents = e # es" by (simp add: kChannelEvents_def)
  obtain j g where b: "?build e (k_nonce s) = (j, g)" by fastforce
  obtain bs where d: "lib_dump lib j = Some bs" using assms(3) by (auto simp: prints_def)
  have loop: "send_loop [Broken] (raw_frame kOpFrame bs) = ([], False)"
    by (cases "raw_frame kOpFrame bs") (simp_all add: raw_frame_def append_le32_def le32_bytes_def)
  define s1 where "s1 = on_closed (s\<lparr>k_nonce := g, k_tr := (k_tr s)\<lparr>t_sends := later, t_open := False, t_rbuf := []\<rparr>\<rparr>)"
  have 1: "send_built lib (?build e) s = Some s1"
    using assms(1,2) b d loop
    by (simp add: send_built_def send_def send_bytes_def send_raw_def handle_closed_def s1_def)
  have s1: "\<not> t_open (k_tr s1)" "k_pending s1" using assms(4) by (simp_all add: s1_def)
  obtain g' where "each (\<lambda>e. send_built lib (?build e)) es s1 = Some (s1\<lparr>k_nonce := g'\<rparr>)"
    using closed_sends [OF s1(1) assms(3), of ?build es] by blast
  with 1 have "subscribe_channel lib ch s = Some (s1\<lparr>k_nonce := g'\<rparr>)"
    by (simp add: subscribe_channel_def es)
  then have "handle_channel_select lib ch s =
      Some (set_state InChannel (s1\<lparr>k_nonce := g', k_subscribed := ch\<rparr>))"
    using assms(5,6) by (simp add: handle_channel_select_def seq_def skip_def upd_def)
  then show ?thesis using s1 by simp
qed

section \<open>The order of messages\<close>

definition buffers :: "bytes \<Rightarrow> rpc \<Rightarrow> bool" where
  "buffers b s \<longleftrightarrow> (t_open (k_tr s) \<longrightarrow> t_rbuf (k_tr s) = b)"

lemma buffers_send_bytes: "buffers b s \<Longrightarrow> buffers b (send_bytes x op bs s)"
  by (auto simp: buffers_def send_bytes_def send_raw_def handle_closed_def Let_def split: prod.splits if_splits)

interpretation intact: kept lib "buffers b" for lib b
proof unfold_locales
  show "preserves (buffers b) (send_built lib build)" for build
    by (rule preservesI)
      (auto simp: send_built_def send_def buffers_send_bytes buffers_def [of b "s\<lparr>k_nonce := g\<rparr>" for s g]
        buffers_def [symmetric] split: prod.splits option.splits)
qed (auto simp: buffers_send_bytes, auto simp: buffers_def drop_and_retry_def t_close_def)

definition take_message :: "json_lib \<Rightarrow> int \<times> string \<Rightarrow> rpc stmt" where
  "take_message lib m s =
     (if t_open (k_tr s)
      then handle_raw lib (fst m) (snd m) (s\<lparr>k_tr := (k_tr s)\<lparr>t_rbuf := drop (8 + length (snd m)) (t_rbuf (k_tr s))\<rparr>\<rparr>)
      else Some s)"

lemma take_messages_closed: "\<not> t_open (k_tr s) \<Longrightarrow> each (take_message lib) ms s = Some s"
  by (induction ms) (simp_all add: take_message_def)

lemma pump_in_order:
  assumes "list_all wf_raw ms" and "peel p = Need_more"
    and "t_open (k_tr s)" and "t_rbuf (k_tr s) = concat (map raw_bytes ms) @ p"
  shows "pump lib s = each (take_message lib) ms s"
  using assms(1,3,4)
proof (induction ms arbitrary: s)
  case Nil
  then show ?case by (simp add: pump.simps [of lib s] peel_one_def assms(2))
next
  case (Cons m ms)
  obtain op bs where m: "m = (op, bs)" by (cases m)
  let ?rest = "concat (map raw_bytes ms) @ p"
  let ?s = "s\<lparr>k_tr := (k_tr s)\<lparr>t_rbuf := ?rest\<rparr>\<rparr>"
  have peel: "peel (t_rbuf (k_tr s)) = Decoded m (length (raw_bytes m))"
    using peel_raw [of m ?rest] Cons.prems by simp
  have step: "pump lib s = (case handle_raw lib op bs ?s of None \<Rightarrow> None | Some s' \<Rightarrow> pump lib s')"
    using Cons.prems peel m by (subst pump.simps) (simp add: peel_one_def)
  have take: "take_message lib m s = handle_raw lib op bs ?s"
    using Cons.prems m by (simp add: take_message_def)
  show ?case
  proof (cases "handle_raw lib op bs ?s")
    case None
    then show ?thesis using step take by simp
  next
    case (Some s1)
    have "buffers ?rest ?s" by (simp add: buffers_def)
    from preservesD [OF intact.P_handle_raw this Some] have b: "buffers ?rest s1" .
    have "pump lib s1 = each (take_message lib) ms s1"
    proof (cases "t_open (k_tr s1)")
      case True
      then show ?thesis using Cons.IH [of s1] Cons.prems b by (simp add: buffers_def)
    next
      case False
      then show ?thesis by (simp add: take_messages_closed pump.simps [of lib s1])
    qed
    then show ?thesis using step take Some by simp
  qed
qed

text \<open>
  The pump hands the messages of the receive buffer to the handlers one by one, in the order
  they were sent, each exactly once, stopping when a handler loses the connection; an
  incomplete message at the end stays in the buffer.
\<close>

theorem pump_dispatches_in_order:
  assumes "list_all wf_raw ms" and "peel p = Need_more"
    and "t_open (k_tr s)" and "t_rbuf (k_tr s) = concat (map raw_bytes ms) @ p"
  shows "pump lib s = each (take_message lib) ms s"
  by (rule pump_in_order [OF assms])

section \<open>A concrete session\<close>

text \<open>
  A library with a few documents, and a session over it: connect, READY, AUTHORIZE and
  AUTHENTICATE replies, a channel joined, a message cut in two.
\<close>

definition demo_lib :: json_lib where
  "demo_lib = \<lparr>lib_parse = map_of
      [(''r'', jobj [(''cmd'', JStr ''DISPATCH''), (''evt'', JStr ''READY'')]),
       (''a'', jobj [(''cmd'', JStr ''AUTHORIZE''), (''data'', jobj [(''code'', JStr ''c'')])]),
       (''b'', jobj [(''cmd'', JStr ''AUTHENTICATE'')]),
       (''v'', jobj [(''cmd'', JStr ''DISPATCH''), (''evt'', JStr ''VOICE_CHANNEL_SELECT''),
                     (''data'', jobj [(''channel_id'', JStr ''42'')])]),
       (''t'', jobj [(''access_token'', JStr ''tok'')])],
     lib_dump = (\<lambda>j. Some ''{}'')\<rparr>"

definition demo_rpc :: rpc where
  "demo_rpc = \<lparr>k_cfg = \<lparr>g_client_id = ''id'', g_scopes = [''rpc''], g_reconnect_delay_ms = 3000\<rparr>,
     k_tr = no_transport, k_state = Disconnected, k_subscribed = [], k_stopped = False, k_pending = False,
     k_at = 0, k_in_poll = False, k_nonce = \<lparr>seed = ''n'', counter = 0\<rparr>, k_env = Map.empty,
     k_attempts = [[Refused, Accepted]], k_http = [\<lparr>h_status = 200, h_body = ''t''\<rparr>], k_now = 0, k_out = []\<rparr>"

definition demo_voice :: json where
  "demo_voice = jobj [(''cmd'', JStr ''DISPATCH''), (''evt'', JStr ''VOICE_CHANNEL_SELECT''),
                      (''data'', jobj [(''channel_id'', JStr ''42'')])]"

lemma prints_demo [simp]: "prints demo_lib"
  by (simp add: prints_def demo_lib_def)

lemma fresh_demo [simp]: "fresh demo_rpc"
  by (simp add: fresh_def demo_rpc_def no_transport_def)

lemma demo_connects:
  obtains s1 where "start demo_lib demo_rpc = Some s1" "smooth s1" "t_rbuf (k_tr s1) = []"
    "k_state s1 = Connecting" "\<not> k_pending s1" "k_subscribed s1 = []" "\<not> k_in_poll s1"
proof -
  have "(case start demo_lib demo_rpc of None \<Rightarrow> False
    | Some s1 \<Rightarrow> t_open (k_tr s1) \<and> t_sends (k_tr s1) = [] \<and> t_rbuf (k_tr s1) = [] \<and>
        k_state s1 = Connecting \<and> \<not> k_pending s1 \<and> k_subscribed s1 = [] \<and> \<not> k_in_poll s1)"
    by code_simp
  then show thesis using that by (auto simp: smooth_def split: option.splits)
qed

lemma demo_voice_event:
  "parse_event demo_voice = Some ((new_event ChannelSelect)\<lparr>e_channel_id := ''42''\<rparr>)"
  by (simp add: demo_voice_def parse_event_def parse_channel_select_def str_or_def obj_or_empty_def)

lemma demo_raw: "wf_raw (1, ''v'')"
  by (simp add: wf_raw_def in_int32_def kMaxPayloadLen_def)

lemma demo_joins:
  obtains s1 s' where "start demo_lib demo_rpc = Some s1"
    "each (rpc_step demo_lib) [Poll 40 [Got (raw_bytes (1, ''v''))]] s1 = Some s'"
    "t_open (k_tr s')" "k_state s' = InChannel" "k_subscribed s' = ''42''"
proof -
  obtain s1 where s1: "start demo_lib demo_rpc = Some s1" "smooth s1" "t_rbuf (k_tr s1) = []"
    "k_state s1 = Connecting" "\<not> k_pending s1" "k_subscribed s1 = []" "\<not> k_in_poll s1"
    by (rule demo_connects)
  let ?b = "raw_bytes (1, ''v'')"
  let ?p = "s1\<lparr>k_in_poll := True, k_now := 40\<rparr>"
  let ?r = "?p\<lparr>k_tr := (k_tr s1)\<lparr>t_rbuf := ?b\<rparr>\<rparr>"
  let ?e = "emit (Event ((new_event ChannelSelect)\<lparr>e_channel_id := ''42''\<rparr>)) (?p\<lparr>k_tr := (k_tr s1)\<lparr>t_rbuf := []\<rparr>\<rparr>)"
  have read: "read_all [Got ?b] (k_tr s1) = ((k_tr s1)\<lparr>t_rbuf := ?b\<rparr>, False, True)"
  proof -
    have l: "length ?b = 9" by simp
    then have "?b \<noteq> []" by (metis list.size(3) zero_neq_numeral)
    moreover have "int (length ?b) \<le> kMaxRecvBuffer" "int (length ?b) < kReadChunk"
      by (simp_all only: l) (simp_all add: kMaxRecvBuffer_def kReadChunk_def)
    moreover note s1(3)
    ultimately show ?thesis by (simp add: Let_def del: length_raw_bytes)
  qed
  have e: "smooth ?e" "''42'' \<noteq> k_subscribed ?e" using s1(2,6) by (simp_all add: smooth_def)
  obtain s' where s': "handle_channel_select demo_lib ''42'' ?e = Some s'" "smooth s'"
    "k_state s' = InChannel" "k_subscribed s' = ''42''"
    by (rule smooth_channel_switch [OF e(1) prints_demo _ e(2)]) simp
  have "handle_raw demo_lib 1 ''v'' (?p\<lparr>k_tr := (k_tr s1)\<lparr>t_rbuf := []\<rparr>\<rparr>) = Some s'"
  proof -
    have "lib_parse demo_lib ''v'' = Some demo_voice" by (simp add: demo_lib_def demo_voice_def)
    moreover have "is_object demo_voice" "str_or demo_voice ''cmd'' [] = ''DISPATCH''"
      "str_or demo_voice ''evt'' [] = ''VOICE_CHANNEL_SELECT''"
      by (simp_all add: demo_voice_def str_or_def)
    ultimately show ?thesis
      using s'(1) by (simp add: handle_raw_def kOpPing_def kOpFrame_def on_message_def demo_voice_event
          seq_def upd_def new_event_def)
  qed
  then have "pump demo_lib ?r = Some s'"
    using pump_in_order [of "[(1, ''v'')]" "[]" ?r demo_lib] s1(2) demo_raw
    by (simp add: peel_def kHeaderLen_def smooth_def take_message_def)
  then have "poll demo_lib 40 [Got ?b] s1 = Some (s'\<lparr>k_in_poll := False\<rparr>)"
    using s1 read by (simp add: poll_def seq_def upd_def transport_poll_def smooth_def Let_def)
  then show thesis using that [OF s1(1)] s' by (simp add: smooth_def)
qed

theorem client_never_stuck_witness:
  "\<exists>s1 s'. start demo_lib demo_rpc = Some s1 \<and>
     each (rpc_step demo_lib) [Poll 40 [Got (raw_bytes (1, ''v''))]] s1 = Some s' \<and>
     (t_open (k_tr s') \<or> k_stopped s' \<or> k_pending s') \<and> \<not> k_pending s'"
  by (rule demo_joins) (use client_never_stuck [OF fresh_demo] in blast)

theorem subscriptions_match_channel_witness:
  "\<exists>s1 s'. start demo_lib demo_rpc = Some s1 \<and>
     each (rpc_step demo_lib) [Poll 40 [Got (raw_bytes (1, ''v''))]] s1 = Some s' \<and>
     subs s' = set kChannelEvents \<times> {''42''}"
  by (rule demo_joins) (use subscriptions_match_channel [OF fresh_demo] in \<open>fastforce simp: channel_subs_def\<close>)

theorem handshake_comes_first_witness:
  "\<exists>s1 s'. start demo_lib demo_rpc = Some s1 \<and>
     each (rpc_step demo_lib) [Poll 40 [Got (raw_bytes (1, ''v''))]] s1 = Some s' \<and>
     t_open (k_tr s') \<and> snd (greeted s')"
  by (rule demo_joins) (use handshake_comes_first [OF fresh_demo] in blast)

text \<open>An open client, for the properties of a single step.\<close>

definition demo_open :: rpc where
  "demo_open = demo_rpc\<lparr>k_tr := no_transport\<lparr>t_open := True\<rparr>, k_state := Connecting\<rparr>"

lemma smooth_demo [simp]: "smooth demo_open"
  by (simp add: demo_open_def smooth_def no_transport_def)

theorem login_reaches_ready_witness:
  "\<exists>s'. each (on_message demo_lib kOpFrame)
      (map (\<lambda>d. the (lib_parse demo_lib d)) [''r'', ''a'', ''b'']) demo_open = Some s' \<and> k_state s' = Ready"
proof -
  have r: "tok_ok (token_of_response demo_lib \<lparr>h_status = 200, h_body = ''t''\<rparr>)"
    by (simp add: token_ok_iff demo_lib_def str_or_def)
  let ?d = "\<lambda>d. the (lib_parse demo_lib d)"
  have d: "is_object (?d ''r'')" "is_object (?d ''a'')" "is_object (?d ''b'')"
    "str_or (?d ''r'') ''cmd'' [] = ''DISPATCH''" "str_or (?d ''r'') ''evt'' [] = ''READY''"
    "str_or (?d ''a'') ''cmd'' [] = ''AUTHORIZE''"
    "str_or (obj_or_empty (?d ''a'') ''data'') ''code'' [] \<noteq> []"
    "str_or (?d ''b'') ''cmd'' [] = ''AUTHENTICATE''" "str_or (?d ''b'') ''evt'' [] \<noteq> ''ERROR''"
    by (simp_all add: demo_lib_def str_or_def obj_or_empty_def)
  have h: "k_http demo_open = \<lparr>h_status = 200, h_body = ''t''\<rparr> # []" by (simp add: demo_open_def demo_rpc_def)
  show ?thesis
    using login_reaches_ready [OF smooth_demo prints_demo _ d(4-7) h r d(8,9)] d(1-3) by auto
qed

theorem channel_switch_sends_witness:
  "\<exists>s'. handle_channel_select demo_lib ''42'' (demo_open\<lparr>k_subscribed := ''7''\<rparr>) = Some s' \<and> k_state s' = InChannel \<and>
     commands s' = map (Pair ''UNSUBSCRIBE'') kChannelEvents @ map (Pair ''SUBSCRIBE'') kChannelEvents"
  using channel_switch_sends [of "demo_open\<lparr>k_subscribed := ''7''\<rparr>" demo_lib "''42''"]
  by (auto simp: smooth_def demo_open_def no_transport_def commands_def demo_rpc_def)

theorem due_retry_connects_witness:
  "\<exists>s'. poll demo_lib 50 [] (demo_rpc\<lparr>k_pending := True, k_at := 40\<rparr>) = Some s' \<and> t_open (k_tr s') \<and>
     k_state s' = Connecting \<and> \<not> k_pending s'"
proof -
  have "try_paths (runtime_dir Map.empty @ ''/discord-ipc-'') 0 [Refused, Accepted]" by code_simp
  then show ?thesis
    using due_retry_connects [of "demo_rpc\<lparr>k_pending := True, k_at := 40\<rparr>" 50 demo_lib "[Refused, Accepted]" "[]"]
    by (auto simp: demo_rpc_def no_transport_def prints_demo)
qed

theorem lost_subscribe_reports_in_channel_witness:
  "\<exists>s'. handle_channel_select demo_lib ''42''
      (demo_open\<lparr>k_tr := no_transport\<lparr>t_open := True, t_sends := [[Broken]]\<rparr>\<rparr>) = Some s' \<and>
     \<not> t_open (k_tr s') \<and> k_state s' = InChannel"
  using lost_subscribe_reports_in_channel [of "demo_open\<lparr>k_tr := no_transport\<lparr>t_open := True, t_sends := [[Broken]]\<rparr>\<rparr>" "[]" demo_lib "''42''"]
  by (auto simp: demo_open_def demo_rpc_def)

theorem pump_dispatches_in_order_witness:
  "pump demo_lib (demo_open\<lparr>k_tr := no_transport\<lparr>t_open := True, t_rbuf := raw_bytes (3, ''x'') @ raw_bytes (1, ''r'') @ [1]\<rparr>\<rparr>)
     = each (take_message demo_lib) [(3, ''x''), (1, ''r'')]
        (demo_open\<lparr>k_tr := no_transport\<lparr>t_open := True, t_rbuf := raw_bytes (3, ''x'') @ raw_bytes (1, ''r'') @ [1]\<rparr>\<rparr>)"
  by (rule pump_dispatches_in_order [where p = "[1]"])
    (simp_all add: wf_raw_def in_int32_def kMaxPayloadLen_def peel_def kHeaderLen_def)

end
