(* ===== verification/Vulkan.thy ===== *)
theory Vulkan
  imports Prelude "HOL-Library.Multiset"
begin

text \<open>
  The Vulkan device (and the ImGui library) as the layer sees them: objects that are created and
  destroyed, fences and semaphores with their state, command buffers that may be in flight, and
  calls that may fail. What the driver answers to a fallible call is read from a script (success
  once it is exhausted). \<open>vk_ok\<close> records whether every call so far was a legal one: nothing
  destroyed twice or while the GPU uses it, no wait that cannot end, no semaphore waited on
  without a signal to come, no command buffer recorded while in flight.
\<close>

datatype vk_kind =
    K_render_pass | K_command_pool | K_view | K_framebuffer | K_fence | K_semaphore
  | K_image | K_memory | K_buffer | K_sampler | K_descriptor_pool | K_descriptor
  | K_pipeline | K_shader | K_context | K_backend

type_synonym obj = "vk_kind \<times> nat"

datatype fence_state = Signaled | Unsignaled | Pending nat

datatype vk_call =
    Submit nat "nat list" nat "nat list" nat
  | Present nat "nat list"
  | Create_swapchain "32 word"
  | Destroy_swapchain nat

text \<open>\<open>Submit queue waits command signals fence\<close>; \<open>Present queue waits\<close>.\<close>

record vk =
  vk_next :: nat
  vk_live :: "obj list"
  vk_fence :: "nat \<Rightarrow> fence_state"
  vk_signaled :: "nat list"
  vk_pool_cmds :: "nat \<Rightarrow> nat list"
  vk_answers :: "bool list"
  vk_lost :: bool
  vk_ok :: bool
  vk_log :: "vk_call list"

definition ask :: "vk \<Rightarrow> bool \<times> vk" where
  "ask v = (case vk_answers v of [] \<Rightarrow> (True, v) | b # bs \<Rightarrow> (b, v\<lparr>vk_answers := bs\<rparr>))"

definition legal :: "bool \<Rightarrow> vk \<Rightarrow> vk" where
  "legal b v = v\<lparr>vk_ok := vk_ok v \<and> b\<rparr>"

text \<open>Creating: the handle, 0 (\<^verbatim>\<open>VK_NULL_HANDLE\<close>) when the call fails.\<close>

definition fresh :: "vk_kind \<Rightarrow> vk \<Rightarrow> nat \<times> vk" where
  "fresh k v = (Suc (vk_next v), v\<lparr>vk_next := Suc (vk_next v), vk_live := (k, Suc (vk_next v)) # vk_live v\<rparr>)"

definition create :: "vk_kind \<Rightarrow> vk \<Rightarrow> nat \<times> vk" where
  "create k v = (case ask v of (ok, v1) \<Rightarrow> if ok then fresh k v1 else (0, v1))"

text \<open>Nothing is in flight on a lost device.\<close>

definition pending :: "vk \<Rightarrow> nat \<Rightarrow> bool" where
  "pending v f \<longleftrightarrow> \<not> vk_lost v \<and> (case vk_fence v f of Pending _ \<Rightarrow> True | _ \<Rightarrow> False)"

definition busy :: "vk \<Rightarrow> nat \<Rightarrow> bool" where
  "busy v c \<longleftrightarrow> \<not> vk_lost v \<and> list_ex (\<lambda>(k, h). k = K_fence \<and> vk_fence v h = Pending c) (vk_live v)"

definition destroy :: "vk_kind \<Rightarrow> nat \<Rightarrow> vk \<Rightarrow> vk" where
  "destroy k h v =
     legal ((k, h) \<in> set (vk_live v) \<and> (k = K_fence \<longrightarrow> \<not> pending v h) \<and>
        (k = K_command_pool \<longrightarrow> list_all (\<lambda>c. \<not> busy v c) (vk_pool_cmds v h)))
       (v\<lparr>vk_live := remove1 (k, h) (vk_live v)\<rparr>)"

text \<open>\<^verbatim>\<open>if (h && d.Destroy...) d.Destroy...(h)\<close>\<close>

definition destroy_if :: "bool \<Rightarrow> vk_kind \<Rightarrow> nat \<Rightarrow> vk \<Rightarrow> vk" where
  "destroy_if have k h v = (if h \<noteq> 0 \<and> have then destroy k h v else v)"

definition create_fence :: "fence_state \<Rightarrow> vk \<Rightarrow> nat \<times> vk" where
  "create_fence st v = (case create K_fence v of (h, v1) \<Rightarrow>
     (h, if h = 0 then v1 else v1\<lparr>vk_fence := (vk_fence v1)(h := st)\<rparr>))"

definition create_pool :: "vk \<Rightarrow> nat \<times> vk" where
  "create_pool v = (case create K_command_pool v of (h, v1) \<Rightarrow>
     (h, if h = 0 then v1 else v1\<lparr>vk_pool_cmds := (vk_pool_cmds v1)(h := [])\<rparr>))"

definition create_semaphore :: "vk \<Rightarrow> nat \<times> vk" where
  "create_semaphore v = (case create K_semaphore v of (h, v1) \<Rightarrow>
     (h, if h = 0 then v1 else v1\<lparr>vk_signaled := removeAll h (vk_signaled v1)\<rparr>))"

text \<open>Command buffers of a pool: one call for \<open>n\<close> of them, \<^term>\<open>None\<close> when it fails.\<close>

definition allocate_commands :: "nat \<Rightarrow> nat \<Rightarrow> vk \<Rightarrow> nat list option \<times> vk" where
  "allocate_commands pool n v =
     (case ask v of (ok, v1) \<Rightarrow>
        if ok then
          let cmds = map (\<lambda>i. Suc (vk_next v1) + i) [0..<n]
          in (Some cmds, v1\<lparr>vk_next := vk_next v1 + n, vk_pool_cmds := (vk_pool_cmds v1)(pool := cmds)\<rparr>)
        else (None, v1))"

text \<open>
  Waiting with no timeout ends only if the fence is signaled or work that signals it is in
  flight. It fails only when the device is lost.
\<close>

definition wait_fence :: "nat \<Rightarrow> vk \<Rightarrow> bool \<times> vk" where
  "wait_fence f v =
     (case ask (legal (vk_fence v f \<noteq> Unsignaled \<or> vk_lost v) v) of (ok, v1) \<Rightarrow>
        (ok, if ok then v1\<lparr>vk_fence := (vk_fence v1)(f := Signaled)\<rparr> else v1\<lparr>vk_lost := True\<rparr>))"

definition reset_fence :: "nat \<Rightarrow> vk \<Rightarrow> bool \<times> vk" where
  "reset_fence f v =
     (case ask (legal (\<not> pending v f) v) of (ok, v1) \<Rightarrow>
        (ok, if ok then v1\<lparr>vk_fence := (vk_fence v1)(f := Unsignaled)\<rparr> else v1))"

definition begin_command :: "nat \<Rightarrow> vk \<Rightarrow> bool \<times> vk" where
  "begin_command c v = ask (legal (\<not> busy v c) v)"

text \<open>
  A submit waits for (and unsignals) its semaphores, runs its command buffer, signals its
  semaphore and its fence. A wait needs a signal that has been or will be given.
\<close>

definition all_signaled :: "nat list \<Rightarrow> vk \<Rightarrow> bool" where
  "all_signaled ws v \<longleftrightarrow> distinct ws \<and> list_all (\<lambda>w. w \<in> set (vk_signaled v)) ws"

definition consume :: "nat list \<Rightarrow> vk \<Rightarrow> vk" where
  "consume ws v = v\<lparr>vk_signaled := filter (\<lambda>x. x \<notin> set ws) (vk_signaled v)\<rparr>"

definition submit :: "nat \<Rightarrow> nat list \<Rightarrow> nat \<Rightarrow> nat list \<Rightarrow> nat \<Rightarrow> vk \<Rightarrow> bool \<times> vk" where
  "submit q ws c sigs f v =
     (case ask (legal (all_signaled ws v \<and> \<not> busy v c \<and> vk_fence v f = Unsignaled \<and>
                       list_all (\<lambda>x. x \<notin> set (vk_signaled v) \<or> x \<in> set ws) sigs) v) of (ok, v1) \<Rightarrow>
        (ok, if ok then
               let v2 = consume ws v1 in
               v2\<lparr>vk_signaled := sigs @ vk_signaled v2, vk_fence := (vk_fence v2)(f := Pending c),
                  vk_log := vk_log v2 @ [Submit q ws c sigs f]\<rparr>
             else v1))"

definition present :: "nat \<Rightarrow> nat list \<Rightarrow> vk \<Rightarrow> bool \<times> vk" where
  "present q ws v =
     (case ask (legal (all_signaled ws v) v) of (ok, v1) \<Rightarrow>
        (ok, (consume ws v1)\<lparr>vk_log := vk_log v1 @ [Present q ws]\<rparr>))"

section \<open>Accounting\<close>

text \<open>The objects behind non-null handles.\<close>

definition held :: "obj list \<Rightarrow> obj multiset" where
  "held xs = mset (filter (\<lambda>(k, h). h \<noteq> 0) xs)"

definition live :: "vk \<Rightarrow> obj multiset" where
  "live v = mset (vk_live v)"

text \<open>
  \<open>accounts B xs v\<close>: no illegal call was made, handles and command buffers in use were handed
  out before (\<open>vk_wf\<close>), and what is alive is \<open>B\<close> and what the handles \<open>xs\<close> hold. Creating adds a
  handle, destroying takes one away.
\<close>

definition vk_wf :: "vk \<Rightarrow> bool" where
  "vk_wf v \<longleftrightarrow> (\<forall>(k, h) \<in> set (vk_live v). h \<le> vk_next v) \<and> (\<forall>f c. vk_fence v f = Pending c \<longrightarrow> c \<le> vk_next v)"

definition accounts :: "obj multiset \<Rightarrow> obj list \<Rightarrow> vk \<Rightarrow> bool" where
  "accounts B xs v \<longleftrightarrow> vk_ok v \<and> vk_wf v \<and> live v = B + held xs"

lemma held_simps [simp]:
  "held [] = {#}" "held ((k, 0) # xs) = held xs" "held ((k, Suc h) # xs) = add_mset (k, Suc h) (held xs)"
  "held (xs @ ys) = held xs + held ys"
  by (simp_all add: held_def)

lemma held_Cons: "held ((k, h) # xs) = (if h = 0 then held xs else add_mset (k, h) (held xs))"
  by (simp add: held_def)

lemma live_upds [simp]:
  "live (legal b v) = live v" "live (v\<lparr>vk_answers := a\<rparr>) = live v" "live (v\<lparr>vk_fence := f\<rparr>) = live v"
  "live (v\<lparr>vk_signaled := s\<rparr>) = live v" "live (v\<lparr>vk_log := l\<rparr>) = live v" "live (v\<lparr>vk_ok := b\<rparr>) = live v"
  "live (v\<lparr>vk_next := n\<rparr>) = live v" "live (v\<lparr>vk_pool_cmds := c\<rparr>) = live v" "live (consume ws v) = live v" "live (v\<lparr>vk_lost := b\<rparr>) = live v"
  by (simp_all add: live_def legal_def consume_def)

lemma ask_keeps:
  "ask v = (b, v1) \<Longrightarrow>
     live v1 = live v \<and> vk_ok v1 = vk_ok v \<and> vk_fence v1 = vk_fence v \<and> vk_live v1 = vk_live v \<and>
     vk_next v1 = vk_next v \<and> vk_signaled v1 = vk_signaled v \<and> vk_pool_cmds v1 = vk_pool_cmds v \<and> vk_log v1 = vk_log v \<and> vk_lost v1 = vk_lost v \<and> vk_wf v1 = vk_wf v"
  by (auto simp: ask_def vk_wf_def split: list.splits)

lemma accounts_ask: "ask v = (b, v1) \<Longrightarrow> accounts B xs v1 = accounts B xs v"
  by (drule ask_keeps) (simp add: accounts_def)

lemma accounts_perm: "mset xs = mset ys \<Longrightarrow> accounts B xs v = accounts B ys v"
  by (simp add: accounts_def held_def mset_filter)

lemma accounts_null [simp]:
  "accounts B ((k, 0) # xs) v = accounts B xs v"
  by (simp add: accounts_def)

lemma accounts_null_second [simp]:
  "accounts B (x # (k, 0) # xs) v = accounts B (x # xs) v"
  by (cases x) (simp add: accounts_def held_Cons)

lemma accounts_create:
  assumes "accounts B xs v" and "create k v = (h, v1)"
  shows "accounts B ((k, h) # xs) v1"
proof -
  obtain ok v2 where a: "ask v = (ok, v2)" by fastforce
  from ask_keeps [OF a] show ?thesis
    using assms a
    by (auto simp: create_def fresh_def accounts_def live_def vk_wf_def le_Suc_eq split: if_splits)
qed

lemma create_keeps:
  "create k v = (h, v1) \<Longrightarrow> vk_fence v1 = vk_fence v \<and> vk_pool_cmds v1 = vk_pool_cmds v \<and> vk_log v1 = vk_log v \<and>
     vk_signaled v1 = vk_signaled v \<and> vk_lost v1 = vk_lost v \<and> vk_next v \<le> vk_next v1 \<and>
     (h \<noteq> 0 \<longrightarrow> vk_next v < h \<and> h \<le> vk_next v1)"
  by (auto simp: create_def fresh_def split: prod.splits if_splits dest: ask_keeps)

lemma held_member: "(k, h) \<in> set xs \<Longrightarrow> h \<noteq> 0 \<Longrightarrow> (k, h) \<in># held xs"
  by (simp add: held_def)

lemma held_remove1: "(k, h) \<in> set xs \<Longrightarrow> held (remove1 (k, h) xs) = (if h = 0 then held xs else held xs - {#(k, h)#})"
  by (simp add: held_def mset_filter)

lemma accounts_destroy_gen:
  assumes "accounts B xs v" and "(k, h) \<in> set xs"
    and "k = K_fence \<Longrightarrow> h \<noteq> 0 \<Longrightarrow> \<not> pending v h"
    and "k = K_command_pool \<Longrightarrow> h \<noteq> 0 \<Longrightarrow> list_all (\<lambda>c. \<not> busy v c) (vk_pool_cmds v h)"
  shows "accounts B (remove1 (k, h) xs) (destroy_if True k h v)"
proof (cases "h = 0")
  case True
  then show ?thesis using assms(1,2) by (simp add: destroy_if_def accounts_def held_remove1)
next
  case False
  have m: "(k, h) \<in># held xs" using held_member [OF assms(2) False] .
  then have "(k, h) \<in># live v" using assms(1) by (auto simp: accounts_def)
  then have "(k, h) \<in> set (vk_live v)" by (simp add: live_def)
  moreover have "live (v\<lparr>vk_live := remove1 (k, h) (vk_live v)\<rparr>) = live v - {#(k, h)#}" by (simp add: live_def)
  moreover have "B + held xs - {#(k, h)#} = B + (held xs - {#(k, h)#})" using m by simp
  ultimately show ?thesis
    using assms False
    by (simp add: destroy_if_def destroy_def accounts_def held_remove1)
      (auto simp: legal_def vk_wf_def dest: notin_set_remove1)
qed

lemma accounts_destroy:
  "accounts B ((k, h) # xs) v \<Longrightarrow> k \<noteq> K_fence \<Longrightarrow> k \<noteq> K_command_pool \<Longrightarrow> accounts B xs (destroy_if True k h v)"
  using accounts_destroy_gen [of B "(k, h) # xs" v k h] by simp

lemma destroy_keeps [simp]:
  "vk_fence (destroy_if b k h v) = vk_fence v" "vk_pool_cmds (destroy_if b k h v) = vk_pool_cmds v"
  "vk_log (destroy_if b k h v) = vk_log v" "vk_signaled (destroy_if b k h v) = vk_signaled v"
  "vk_lost (destroy_if b k h v) = vk_lost v" "vk_next (destroy_if b k h v) = vk_next v"
  by (simp_all add: destroy_if_def destroy_def legal_def)

lemma destroy_if_live: "set (vk_live (destroy_if b k h v)) \<subseteq> set (vk_live v)"
  by (auto simp: destroy_if_def destroy_def legal_def dest: notin_set_remove1 set_remove1_subset [THEN subsetD])

lemma accounts_live:
  "accounts B xs v \<Longrightarrow> (k, h) \<in> set xs \<Longrightarrow> h \<noteq> 0 \<Longrightarrow> (k, h) \<in> set (vk_live v) \<and> h \<le> vk_next v"
proof -
  assume a: "accounts B xs v" "(k, h) \<in> set xs" "h \<noteq> 0"
  then have "(k, h) \<in># live v" using held_member by (fastforce simp: accounts_def)
  then have "(k, h) \<in> set (vk_live v)" by (simp add: live_def)
  with a(1) show ?thesis by (auto simp: accounts_def vk_wf_def)
qed

lemma accounts_swap: "accounts B (x # y # xs) v \<Longrightarrow> accounts B (y # x # xs) v"
  by (simp add: accounts_perm [of "x # y # xs" "y # x # xs"] add_mset_commute)

lemma destroy_as_if: "h \<noteq> 0 \<Longrightarrow> destroy k h v = destroy_if True k h v"
  by (simp add: destroy_if_def)

lemma accounts_destroy_null:
  "accounts B ((k, h) # xs) v \<Longrightarrow> h \<noteq> 0 \<Longrightarrow> k \<noteq> K_fence \<Longrightarrow> k \<noteq> K_command_pool \<Longrightarrow> accounts B xs (destroy k h v)"
  using accounts_destroy [of B k h xs v] by (simp add: destroy_if_def)

text \<open>Commands nobody has submitted are not busy.\<close>

lemma fresh_not_busy: "vk_wf v \<Longrightarrow> vk_next v < c \<Longrightarrow> \<not> busy v c"
  by (fastforce simp: busy_def vk_wf_def list_ex_iff)

section \<open>Accounting for the other calls\<close>

lemma legal_True [simp]: "legal True v = v"
  by (simp add: legal_def)

lemma accounts_upds:
  "accounts B xs (v\<lparr>vk_signaled := g\<rparr>) = accounts B xs v" "accounts B xs (v\<lparr>vk_log := l\<rparr>) = accounts B xs v"
  "accounts B xs (v\<lparr>vk_lost := b\<rparr>) = accounts B xs v" "accounts B xs (v\<lparr>vk_pool_cmds := p\<rparr>) = accounts B xs v"
  "accounts B xs (v\<lparr>vk_answers := a\<rparr>) = accounts B xs v" "accounts B xs (consume ws v) = accounts B xs v"
  by (simp_all add: accounts_def live_def vk_wf_def consume_def)

lemma accounts_fence_upd:
  "accounts B xs v \<Longrightarrow> (\<And>c. st = Pending c \<Longrightarrow> c \<le> vk_next v) \<Longrightarrow>
     accounts B xs (v\<lparr>vk_fence := (vk_fence v)(f := st)\<rparr>)"
  by (auto simp: accounts_def live_def vk_wf_def)

definition idle :: "vk \<Rightarrow> nat \<Rightarrow> bool" where
  "idle v c \<longleftrightarrow> vk_lost v \<or> (\<forall>f. vk_fence v f \<noteq> Pending c)"

lemma idle_not_busy: "idle v c \<Longrightarrow> \<not> busy v c"
  by (auto simp: idle_def busy_def list_ex_iff)

lemma fresh_idle: "vk_wf v \<Longrightarrow> vk_next v < c \<Longrightarrow> idle v c"
  by (fastforce simp: idle_def vk_wf_def)

lemma accounts_pool:
  assumes "accounts B xs v" and "create_pool v = (h, v1)"
  shows "accounts B ((K_command_pool, h) # xs) v1" "vk_fence v1 = vk_fence v" "vk_lost v1 = vk_lost v"
    "vk_signaled v1 = vk_signaled v" "vk_next v \<le> vk_next v1" "h \<noteq> 0 \<Longrightarrow> vk_pool_cmds v1 h = []" "vk_log v1 = vk_log v"
    "h' \<le> vk_next v \<Longrightarrow> vk_pool_cmds v1 h' = vk_pool_cmds v h'"
proof -
  obtain v2 where c: "create K_command_pool v = (h, v2)" and v1: "v1 = (if h = 0 then v2 else v2\<lparr>vk_pool_cmds := (vk_pool_cmds v2)(h := [])\<rparr>)"
    using assms(2) by (auto simp: create_pool_def split: prod.splits)
  from accounts_create [OF assms(1) c] create_keeps [OF c] v1
  show "accounts B ((K_command_pool, h) # xs) v1" "vk_fence v1 = vk_fence v" "vk_lost v1 = vk_lost v"
    "vk_signaled v1 = vk_signaled v" "vk_next v \<le> vk_next v1" "h \<noteq> 0 \<Longrightarrow> vk_pool_cmds v1 h = []" "vk_log v1 = vk_log v"
    "h' \<le> vk_next v \<Longrightarrow> vk_pool_cmds v1 h' = vk_pool_cmds v h'"
    by (auto simp: accounts_upds)
qed

lemma vk_wf_grow: "vk_wf v \<Longrightarrow> vk_next v \<le> n \<Longrightarrow> vk_wf (v\<lparr>vk_next := n, vk_pool_cmds := p\<rparr>)"
  unfolding vk_wf_def by (auto dest: le_trans bspec)

lemma accounts_commands:
  assumes "accounts B xs v" and "allocate_commands pool n v = (cs, v')"
  shows "accounts B xs v'" "vk_fence v' = vk_fence v" "vk_lost v' = vk_lost v" "vk_signaled v' = vk_signaled v"
    "vk_next v \<le> vk_next v'" "vk_log v' = vk_log v"
    "cs = None \<Longrightarrow> vk_pool_cmds v' = vk_pool_cmds v"
    "cs = Some c \<Longrightarrow> length c = n \<and> vk_pool_cmds v' = (vk_pool_cmds v)(pool := c) \<and> distinct c \<and>
      list_all (\<lambda>x. vk_next v < x \<and> x \<le> vk_next v') c"
proof -
  obtain ok v1 where a: "ask v = (ok, v1)" by fastforce
  note k = ask_keeps [OF a]
  show "accounts B xs v'" "vk_fence v' = vk_fence v" "vk_lost v' = vk_lost v" "vk_signaled v' = vk_signaled v"
    "vk_next v \<le> vk_next v'" "vk_log v' = vk_log v" "cs = None \<Longrightarrow> vk_pool_cmds v' = vk_pool_cmds v"
    using k assms a
    by (auto simp: allocate_commands_def Let_def accounts_def live_def split: if_splits intro: vk_wf_grow)
  show "cs = Some c \<Longrightarrow> length c = n \<and> vk_pool_cmds v' = (vk_pool_cmds v)(pool := c) \<and> distinct c \<and>
      list_all (\<lambda>x. vk_next v < x \<and> x \<le> vk_next v') c"
    using k assms(2) a by (auto simp: allocate_commands_def Let_def list_all_iff distinct_map split: if_splits)
qed

lemma accounts_new_fence:
  assumes "accounts B xs v" and "create_fence st v = (h, v1)" and "\<And>c. st \<noteq> Pending c"
  shows "accounts B ((K_fence, h) # xs) v1" "vk_fence v1 = (if h = 0 then vk_fence v else (vk_fence v)(h := st))"
    "vk_lost v1 = vk_lost v" "vk_signaled v1 = vk_signaled v" "vk_next v \<le> vk_next v1" "vk_pool_cmds v1 = vk_pool_cmds v"
    "h \<noteq> 0 \<Longrightarrow> vk_next v < h" "vk_log v1 = vk_log v"
proof -
  obtain v2 where c: "create K_fence v = (h, v2)" and v1: "v1 = (if h = 0 then v2 else v2\<lparr>vk_fence := (vk_fence v2)(h := st)\<rparr>)"
    using assms(2) by (auto simp: create_fence_def split: prod.splits)
  note k = create_keeps [OF c]
  have "accounts B ((K_fence, h) # xs) (v2\<lparr>vk_fence := (vk_fence v2)(h := st)\<rparr>)"
    by (rule accounts_fence_upd [OF accounts_create [OF assms(1) c]]) (use assms(3) in blast)
  with accounts_create [OF assms(1) c] k v1
  show "accounts B ((K_fence, h) # xs) v1" "vk_fence v1 = (if h = 0 then vk_fence v else (vk_fence v)(h := st))"
    "vk_lost v1 = vk_lost v" "vk_signaled v1 = vk_signaled v" "vk_next v \<le> vk_next v1" "vk_pool_cmds v1 = vk_pool_cmds v"
    "h \<noteq> 0 \<Longrightarrow> vk_next v < h" "vk_log v1 = vk_log v"
    by auto
qed

lemma accounts_begin:
  "accounts B xs v \<Longrightarrow> idle v c \<Longrightarrow> begin_command c v = (ok, v1) \<Longrightarrow>
     accounts B xs v1 \<and> vk_fence v1 = vk_fence v \<and> vk_lost v1 = vk_lost v \<and> vk_signaled v1 = vk_signaled v \<and>
     vk_next v1 = vk_next v \<and> vk_pool_cmds v1 = vk_pool_cmds v \<and> vk_log v1 = vk_log v"
  using accounts_ask [of v ok v1] ask_keeps [of v ok v1] by (simp add: begin_command_def idle_not_busy)

lemma accounts_submit:
  assumes "accounts B xs v" and "submit q ws c sigs f v = (ok, v1)"
    and "all_signaled ws v" "idle v c" "vk_fence v f = Unsignaled"
      "list_all (\<lambda>x. x \<notin> set (vk_signaled v) \<or> x \<in> set ws) sigs" "c \<le> vk_next v"
  shows "accounts B xs v1" "vk_fence v1 = (if ok then (vk_fence v)(f := Pending c) else vk_fence v)"
    "vk_lost v1 = vk_lost v" "vk_next v1 = vk_next v" "vk_pool_cmds v1 = vk_pool_cmds v"
    "vk_signaled v1 = (if ok then sigs @ filter (\<lambda>x. x \<notin> set ws) (vk_signaled v) else vk_signaled v)"
    "vk_log v1 = vk_log v @ (if ok then [Submit q ws c sigs f] else [])"
proof -
  obtain ok' v2 where a: "ask v = (ok', v2)" by fastforce
  note k = ask_keeps [OF a]
  have "legal (all_signaled ws v \<and> \<not> busy v c \<and> vk_fence v f = Unsignaled \<and>
      list_all (\<lambda>x. x \<notin> set (vk_signaled v) \<or> x \<in> set ws) sigs) v = v"
    using assms(3-6) idle_not_busy by simp
  with assms(2) a have e: "ok' = ok" "v1 = (if ok then (consume ws v2)\<lparr>vk_signaled := sigs @ vk_signaled (consume ws v2),
      vk_fence := (vk_fence (consume ws v2))(f := Pending c), vk_log := vk_log (consume ws v2) @ [Submit q ws c sigs f]\<rparr> else v2)"
    by (auto simp: submit_def Let_def simp del: legal_True)
  have "accounts B xs v2" using assms(1) accounts_ask [OF a] by simp
  then have "accounts B xs (v2\<lparr>vk_fence := (vk_fence v2)(f := Pending c)\<rparr>)"
    by (rule accounts_fence_upd) (use assms(7) k in auto)
  then show "accounts B xs v1" using e(2) \<open>accounts B xs v2\<close>
    by (auto simp: accounts_def live_def vk_wf_def consume_def)
  show "vk_fence v1 = (if ok then (vk_fence v)(f := Pending c) else vk_fence v)"
    "vk_lost v1 = vk_lost v" "vk_next v1 = vk_next v" "vk_pool_cmds v1 = vk_pool_cmds v"
    "vk_signaled v1 = (if ok then sigs @ filter (\<lambda>x. x \<notin> set ws) (vk_signaled v) else vk_signaled v)"
    "vk_log v1 = vk_log v @ (if ok then [Submit q ws c sigs f] else [])"
    using e(2) k by (auto simp: consume_def)
qed

lemma accounts_wait:
  assumes "accounts B xs v" and "wait_fence f v = (ok, v1)" and "vk_fence v f \<noteq> Unsignaled \<or> vk_lost v"
  shows "accounts B xs v1" "vk_fence v1 = (if ok then (vk_fence v)(f := Signaled) else vk_fence v)"
    "vk_lost v1 = (vk_lost v \<or> \<not> ok)" "vk_next v1 = vk_next v" "vk_pool_cmds v1 = vk_pool_cmds v"
    "vk_signaled v1 = vk_signaled v" "vk_log v1 = vk_log v"
proof -
  obtain ok' v2 where a: "ask v = (ok', v2)" by fastforce
  note k = ask_keeps [OF a]
  have "legal (vk_fence v f \<noteq> Unsignaled \<or> vk_lost v) v = v" using assms(3) by simp
  with assms(2) a have e: "ok' = ok" "v1 = (if ok then v2\<lparr>vk_fence := (vk_fence v2)(f := Signaled)\<rparr> else v2\<lparr>vk_lost := True\<rparr>)"
    by (auto simp: wait_fence_def simp del: legal_True)
  have "accounts B xs v2" using assms(1) accounts_ask [OF a] by simp
  then show "accounts B xs v1" using e(2) accounts_fence_upd [of B xs v2 Signaled f] by (simp add: accounts_upds)
  show "vk_fence v1 = (if ok then (vk_fence v)(f := Signaled) else vk_fence v)"
    "vk_lost v1 = (vk_lost v \<or> \<not> ok)" "vk_next v1 = vk_next v" "vk_pool_cmds v1 = vk_pool_cmds v"
    "vk_signaled v1 = vk_signaled v" "vk_log v1 = vk_log v"
    using e(2) k by auto
qed

lemma accounts_reset:
  assumes "accounts B xs v" and "reset_fence f v = (ok, v1)" and "\<not> pending v f"
  shows "accounts B xs v1" "vk_fence v1 = (if ok then (vk_fence v)(f := Unsignaled) else vk_fence v)"
    "vk_lost v1 = vk_lost v" "vk_next v1 = vk_next v" "vk_pool_cmds v1 = vk_pool_cmds v"
    "vk_signaled v1 = vk_signaled v" "vk_log v1 = vk_log v"
proof -
  obtain ok' v2 where a: "ask v = (ok', v2)" by fastforce
  note k = ask_keeps [OF a]
  have "legal (\<not> pending v f) v = v" using assms(3) by simp
  with assms(2) a have e: "ok' = ok" "v1 = (if ok then v2\<lparr>vk_fence := (vk_fence v2)(f := Unsignaled)\<rparr> else v2)"
    by (auto simp: reset_fence_def simp del: legal_True)
  have "accounts B xs v2" using assms(1) accounts_ask [OF a] by simp
  then show "accounts B xs v1" using e(2) accounts_fence_upd [of B xs v2 Unsignaled f] by simp
  show "vk_fence v1 = (if ok then (vk_fence v)(f := Unsignaled) else vk_fence v)"
    "vk_lost v1 = vk_lost v" "vk_next v1 = vk_next v" "vk_pool_cmds v1 = vk_pool_cmds v"
    "vk_signaled v1 = vk_signaled v" "vk_log v1 = vk_log v"
    using e(2) k by auto
qed

lemma accounts_destroy_fence:
  "accounts B ((K_fence, h) # xs) v \<Longrightarrow> \<not> pending v h \<Longrightarrow> accounts B xs (destroy_if True K_fence h v)"
  using accounts_destroy_gen [of B "(K_fence, h) # xs" v K_fence h] by simp

lemma accounts_destroy_pool:
  "accounts B ((K_command_pool, h) # xs) v \<Longrightarrow> (h \<noteq> 0 \<Longrightarrow> list_all (idle v) (vk_pool_cmds v h)) \<Longrightarrow>
     accounts B xs (destroy_if True K_command_pool h v)"
  using accounts_destroy_gen [of B "(K_command_pool, h) # xs" v K_command_pool h]
  by (auto simp: list_all_iff idle_not_busy)

end
