(* ===== verification/Dispatch.thy ===== *)
theory Dispatch
  imports Vulkan Paths
begin

text \<open>
  The layer's bookkeeping (\<^verbatim>\<open>src/layer/dispatch.cpp\<close>, \<^verbatim>\<open>src/layer/layer_entry.cpp\<close>,
  \<^verbatim>\<open>src/overlay/gating.cpp\<close>): the loader's link chain, the dispatch tables, the queue families of a
  device, the failure latch, and which entry points are intercepted. The next layer is a
  parameter: which functions it resolves, what its create calls answer, which queues it has.
\<close>

section \<open>Gating\<close>

definition overlay_disabled :: "environment \<Rightarrow> bool" where
  "overlay_disabled env = (case env ''DISABLE_CHOIR_OVERLAY'' of Some v \<Rightarrow> v = ''1'' | None \<Rightarrow> False)"

section \<open>The loader's chain\<close>

text \<open>
  An entry of a \<^verbatim>\<open>pNext\<close> chain: its structure type, its function field, and the layers below
  (\<^verbatim>\<open>u.pLayerInfo\<close>, nearest first; empty for a null pointer). A layer is given by the names its
  resolver knows.
\<close>

type_synonym resolver = "string \<Rightarrow> bool"

record chain_entry =
  ch_type :: nat
  ch_function :: nat
  ch_layers :: "resolver list"

definition LOADER_INSTANCE :: nat where "LOADER_INSTANCE = 47"
definition LOADER_DEVICE :: nat where "LOADER_DEVICE = 48"
definition LINK_INFO :: nat where "LINK_INFO = 0"

fun find_link :: "nat \<Rightarrow> chain_entry list \<Rightarrow> nat option" where
  "find_link ty [] = None"
| "find_link ty (p # ps) =
     (if ch_type p = ty \<and> ch_function p = LINK_INFO then Some 0 else map_option Suc (find_link ty ps))"

definition advance_link :: "nat \<Rightarrow> chain_entry list \<Rightarrow> chain_entry list" where
  "advance_link i ps = ps[i := (ps ! i)\<lparr>ch_layers := tl (ch_layers (ps ! i))\<rparr>]"

section \<open>Dispatch tables\<close>

definition instance_names :: "string list" where
  "instance_names =
     [''DestroyInstance'', ''EnumeratePhysicalDevices'', ''GetPhysicalDeviceMemoryProperties'',
      ''GetPhysicalDeviceQueueFamilyProperties'', ''GetPhysicalDeviceSurfaceCapabilitiesKHR'',
      ''GetPhysicalDeviceSurfaceFormatsKHR'']"

definition device_names :: "string list" where
  "device_names =
     [''DestroyDevice'', ''GetDeviceQueue'', ''QueueSubmit'', ''QueuePresentKHR'', ''CreateSwapchainKHR'',
      ''DestroySwapchainKHR'', ''GetSwapchainImagesKHR'', ''AcquireNextImageKHR'', ''DeviceWaitIdle'',
      ''CreateCommandPool'', ''DestroyCommandPool'', ''AllocateCommandBuffers'', ''FreeCommandBuffers'',
      ''BeginCommandBuffer'', ''EndCommandBuffer'', ''ResetCommandBuffer'', ''CreateSemaphore'',
      ''DestroySemaphore'', ''CreateFence'', ''DestroyFence'', ''WaitForFences'', ''ResetFences'',
      ''CreateImageView'', ''DestroyImageView'', ''CreateRenderPass'', ''DestroyRenderPass'',
      ''CreateFramebuffer'', ''DestroyFramebuffer'', ''CmdBeginRenderPass'', ''CmdEndRenderPass'',
      ''CmdClearAttachments'', ''CreateDescriptorPool'', ''DestroyDescriptorPool'', ''CreateImage'',
      ''DestroyImage'', ''GetImageMemoryRequirements'', ''BindImageMemory'', ''CreateBuffer'',
      ''DestroyBuffer'', ''GetBufferMemoryRequirements'', ''BindBufferMemory'', ''AllocateMemory'',
      ''FreeMemory'', ''MapMemory'', ''UnmapMemory'', ''FlushMappedMemoryRanges'', ''CreateSampler'',
      ''DestroySampler'', ''CmdCopyBufferToImage'', ''CmdPipelineBarrier'', ''QueueWaitIdle'']"

text \<open>A table: the names whose pointer is not null (the resolver it came from included).\<close>

definition load_instance_dispatch :: "resolver \<Rightarrow> string list" where
  "load_instance_dispatch gipa = ''GetInstanceProcAddr'' # filter (\<lambda>n. gipa (''vk'' @ n)) instance_names"

definition load_device_dispatch :: "resolver \<Rightarrow> string list" where
  "load_device_dispatch gdpa = ''GetDeviceProcAddr'' # filter (\<lambda>n. gdpa (''vk'' @ n)) device_names"

section \<open>Instances and devices\<close>

record instance_data =
  i_disp :: "string list"
  i_overlay_disabled :: bool
  i_instance :: nat
  i_api_version :: u32

record device_data =
  dd_disp :: "string list"
  dd_overlay_disabled :: bool
  dd_overlay_failed :: bool
  dd_device :: nat
  dd_graphics_queue_family :: u32
  dd_has_graphics_queue_family :: bool
  dd_instance :: nat
  dd_physical_device :: nat
  dd_graphics_queue :: nat
  dd_api_version :: u32
  dd_instance_gipa :: bool
  dd_get_phys_mem_props :: bool
  dd_queue_families :: "(nat \<times> u32) list"

definition API_1_0 :: u32 where "API_1_0 = 0x400000"

definition new_device_data :: device_data where
  "new_device_data = \<lparr>dd_disp = [], dd_overlay_disabled = False, dd_overlay_failed = False,
     dd_device = 0, dd_graphics_queue_family = 0, dd_has_graphics_queue_family = False,
     dd_instance = 0, dd_physical_device = 0, dd_graphics_queue = 0, dd_api_version = API_1_0,
     dd_instance_gipa = False, dd_get_phys_mem_props = False, dd_queue_families = []\<rparr>"

definition has :: "device_data \<Rightarrow> string \<Rightarrow> bool" where
  "has dd n \<longleftrightarrow> n \<in> set (dd_disp dd)"

text \<open>
  The two maps, keyed by loader key (one per instance; a physical device shares its instance's
  key), and the lines logged by the latch.
\<close>

record layer =
  l_instances :: "nat \<rightharpoonup> instance_data"
  l_devices :: "nat \<rightharpoonup> device_data"
  l_logged :: "(nat \<times> string) list"

datatype vk_result = Success | Initialization_failed | Driver_error

text \<open>\<open>CreateInstance\<close>: what the next layer's create answers is \<open>created\<close>, the handle or an error.\<close>

definition create_instance ::
    "environment \<Rightarrow> chain_entry list \<Rightarrow> u32 option \<Rightarrow> nat option \<Rightarrow> nat \<Rightarrow> layer \<Rightarrow>
       vk_result \<times> chain_entry list \<times> layer" where
  "create_instance env chain app_version created key l =
     (case find_link LOADER_INSTANCE chain of
        None \<Rightarrow> (Initialization_failed, chain, l)
      | Some i \<Rightarrow>
          (case ch_layers (chain ! i) of
             [] \<Rightarrow> (Initialization_failed, chain, l)
           | next_gipa # _ \<Rightarrow>
               if \<not> next_gipa ''vkCreateInstance'' then (Initialization_failed, chain, l)
               else
                 let chain' = advance_link i chain in
                 (case created of
                    None \<Rightarrow> (Driver_error, chain', l)
                  | Some inst \<Rightarrow>
                      let idata = \<lparr>i_disp = load_instance_dispatch next_gipa,
                                  i_overlay_disabled = overlay_disabled env, i_instance = inst,
                                  i_api_version = (case app_version of Some n \<Rightarrow> if n \<noteq> 0 then n else API_1_0
                                                                     | None \<Rightarrow> API_1_0)\<rparr>
                      in (Success, chain', l\<lparr>l_instances := (l_instances l)(key \<mapsto> idata)\<rparr>))))"

definition destroy_instance :: "nat \<Rightarrow> layer \<Rightarrow> bool \<times> layer" where
  "destroy_instance key l =
     (case l_instances l key of
        None \<Rightarrow> (False, l)
      | Some d \<Rightarrow> (''DestroyInstance'' \<in> set (i_disp d), l\<lparr>l_instances := (l_instances l)(key := None)\<rparr>))"

text \<open>The queue-create infos of a device: family, flags, number of queues.\<close>

record queue_create =
  q_family :: u32
  q_flags :: nat
  q_count :: nat

definition GRAPHICS_BIT :: u32 where "GRAPHICS_BIT = 1"

text \<open>The first requested family that supports graphics.\<close>

fun pick_family :: "u32 list \<Rightarrow> queue_create list \<Rightarrow> u32 option" where
  "pick_family qfs [] = None"
| "pick_family qfs (q # qs) =
     (if unat (q_family q) < length qfs \<and> (qfs ! unat (q_family q)) AND GRAPHICS_BIT \<noteq> 0 then Some (q_family q)
      else pick_family qfs qs)"

text \<open>Every queue of the unflagged infos that the driver hands out.\<close>

definition capture_queues :: "(u32 \<Rightarrow> nat \<Rightarrow> nat) \<Rightarrow> queue_create list \<Rightarrow> (nat \<times> u32) list" where
  "capture_queues get_queue qs =
     concat (map (\<lambda>q. if q_flags q \<noteq> 0 then []
                      else filter (\<lambda>(h, f). h \<noteq> 0) (map (\<lambda>i. (get_queue (q_family q) i, q_family q)) [0..<q_count q])) qs)"

text \<open>\<open>base\<close> is the map's entry for the key, a fresh one unless a device left it behind.\<close>

definition describe_device ::
    "environment \<Rightarrow> resolver \<Rightarrow> device_data \<Rightarrow> nat \<Rightarrow> nat \<Rightarrow> instance_data option \<Rightarrow> u32 list \<Rightarrow>
       (u32 \<Rightarrow> nat \<Rightarrow> nat) \<Rightarrow> queue_create list \<Rightarrow> device_data" where
  "describe_device env gdpa base dev phys inst qfs get_queue qs =
     (let d0 = base\<lparr>dd_overlay_disabled := overlay_disabled env, dd_device := dev,
                 dd_disp := load_device_dispatch gdpa, dd_physical_device := phys\<rparr>;
          d1 = (case inst of
                  None \<Rightarrow> d0
                | Some idata \<Rightarrow>
                    let d = d0\<lparr>dd_instance := i_instance idata, dd_api_version := i_api_version idata,
                               dd_instance_gipa := ''GetInstanceProcAddr'' \<in> set (i_disp idata),
                               dd_get_phys_mem_props := ''GetPhysicalDeviceMemoryProperties'' \<in> set (i_disp idata)\<rparr>
                    in if ''GetPhysicalDeviceQueueFamilyProperties'' \<in> set (i_disp idata)
                       then (case pick_family qfs qs of
                               Some fam \<Rightarrow> d\<lparr>dd_graphics_queue_family := fam, dd_has_graphics_queue_family := True\<rparr>
                             | None \<Rightarrow> d)
                       else d);
          d2 = (if dd_has_graphics_queue_family d1 \<and> has d1 ''GetDeviceQueue''
                then d1\<lparr>dd_graphics_queue := get_queue (dd_graphics_queue_family d1) 0\<rparr> else d1)
      in if has d2 ''GetDeviceQueue'' then d2\<lparr>dd_queue_families := dd_queue_families d2 @ capture_queues get_queue qs\<rparr> else d2)"

definition create_device ::
    "environment \<Rightarrow> chain_entry list \<Rightarrow> nat option \<Rightarrow> resolver \<Rightarrow> nat \<Rightarrow> nat \<Rightarrow> nat \<Rightarrow> u32 list \<Rightarrow>
       (u32 \<Rightarrow> nat \<Rightarrow> nat) \<Rightarrow> queue_create list \<Rightarrow> layer \<Rightarrow> vk_result \<times> chain_entry list \<times> layer" where
  "create_device env chain created gdpa key phys phys_key qfs get_queue qs l =
     (case find_link LOADER_DEVICE chain of
        None \<Rightarrow> (Initialization_failed, chain, l)
      | Some i \<Rightarrow>
          (case ch_layers (chain ! i) of
             [] \<Rightarrow> (Initialization_failed, chain, l)
           | next_gipa # _ \<Rightarrow>
               if \<not> next_gipa ''vkCreateDevice'' then (Initialization_failed, chain, l)
               else
                 let chain' = advance_link i chain in
                 (case created of
                    None \<Rightarrow> (Driver_error, chain', l)
                  | Some dev \<Rightarrow>
                      (Success, chain',
                       l\<lparr>l_devices := (l_devices l)(key \<mapsto>
                          describe_device env gdpa (case l_devices l key of Some d \<Rightarrow> d | None \<Rightarrow> new_device_data)
                            dev phys (l_instances l phys_key) qfs get_queue qs)\<rparr>))))"

definition destroy_device :: "nat \<Rightarrow> layer \<Rightarrow> bool \<times> layer" where
  "destroy_device key l =
     (case l_devices l key of
        None \<Rightarrow> (False, l)
      | Some d \<Rightarrow> (has d ''DestroyDevice'', l\<lparr>l_devices := (l_devices l)(key := None)\<rparr>))"

section \<open>Queue families and the latch\<close>

definition UINT32_MAX :: u32 where "UINT32_MAX = 0xFFFFFFFF"

definition queue_family_for :: "device_data option \<Rightarrow> nat \<Rightarrow> u32" where
  "queue_family_for dd queue =
     (case dd of None \<Rightarrow> UINT32_MAX
      | Some d \<Rightarrow> (case map_of (dd_queue_families d) queue of Some family \<Rightarrow> family | None \<Rightarrow> UINT32_MAX))"

definition mark_overlay_failed :: "nat \<Rightarrow> string \<Rightarrow> layer \<Rightarrow> layer" where
  "mark_overlay_failed key reason l =
     (case l_devices l key of
        None \<Rightarrow> l
      | Some d \<Rightarrow>
          let l1 = l\<lparr>l_devices := (l_devices l)(key \<mapsto> d\<lparr>dd_overlay_failed := True\<rparr>)\<rparr>
          in if dd_overlay_failed d then l1 else l1\<lparr>l_logged := l_logged l1 @ [(key, reason)]\<rparr>)"

section \<open>Interception\<close>

datatype proc = Hook string | Next_layer string

definition device_hooks :: "string list" where
  "device_hooks = [''CreateSwapchainKHR'', ''DestroySwapchainKHR'', ''QueuePresentKHR'']"

text \<open>Both resolvers of the layer; \<open>handle\<close> is the loader key, \<^term>\<open>None\<close> for a null handle.\<close>

definition choir_GetInstanceProcAddr :: "(nat \<Rightarrow> resolver) \<Rightarrow> layer \<Rightarrow> nat option \<Rightarrow> string \<Rightarrow> proc option" where
  "choir_GetInstanceProcAddr next l handle name =
     (if name = ''vkGetInstanceProcAddr'' then Some (Hook ''GetInstanceProcAddr'')
      else if name = ''vkCreateInstance'' then Some (Hook ''CreateInstance'')
      else if name = ''vkDestroyInstance'' then Some (Hook ''DestroyInstance'')
      else if name = ''vkCreateDevice'' then Some (Hook ''CreateDevice'')
      else if name = ''vkDestroyDevice'' then Some (Hook ''DestroyDevice'')
      else if name = ''vkCreateSwapchainKHR'' then Some (Hook ''CreateSwapchainKHR'')
      else if name = ''vkDestroySwapchainKHR'' then Some (Hook ''DestroySwapchainKHR'')
      else if name = ''vkQueuePresentKHR'' then Some (Hook ''QueuePresentKHR'')
      else if name = ''vkGetDeviceProcAddr'' then Some (Hook ''GetDeviceProcAddr'')
      else case handle of
        None \<Rightarrow> None
      | Some key \<Rightarrow>
          (case l_instances l key of
             None \<Rightarrow> None
           | Some d \<Rightarrow>
               if ''GetInstanceProcAddr'' \<in> set (i_disp d) \<and> next key name then Some (Next_layer name) else None))"

definition choir_GetDeviceProcAddr :: "(nat \<Rightarrow> resolver) \<Rightarrow> layer \<Rightarrow> nat option \<Rightarrow> string \<Rightarrow> proc option" where
  "choir_GetDeviceProcAddr next l handle name =
     (if name = ''vkGetDeviceProcAddr'' then Some (Hook ''GetDeviceProcAddr'')
      else if name = ''vkDestroyDevice'' then Some (Hook ''DestroyDevice'')
      else if name = ''vkCreateSwapchainKHR'' then Some (Hook ''CreateSwapchainKHR'')
      else if name = ''vkDestroySwapchainKHR'' then Some (Hook ''DestroySwapchainKHR'')
      else if name = ''vkQueuePresentKHR'' then Some (Hook ''QueuePresentKHR'')
      else case handle of
        None \<Rightarrow> None
      | Some key \<Rightarrow>
          (case l_devices l key of
             None \<Rightarrow> None
           | Some d \<Rightarrow> if has d ''GetDeviceProcAddr'' \<and> next key name then Some (Next_layer name) else None))"

definition CURRENT_INTERFACE_VERSION :: nat where "CURRENT_INTERFACE_VERSION = 2"

text \<open>The negotiated version, \<^term>\<open>None\<close> when the structure is not the one negotiated.\<close>

definition negotiate :: "(bool \<times> nat) option \<Rightarrow> nat option" where
  "negotiate v =
     (case v of
        None \<Rightarrow> None
      | Some (right_type, version) \<Rightarrow>
          if \<not> right_type then None
          else Some (if version > CURRENT_INTERFACE_VERSION then CURRENT_INTERFACE_VERSION else version))"

section \<open>Properties\<close>

lemma pick_family_spec:
  "pick_family qfs qs = Some fam \<Longrightarrow>
     \<exists>i < length qs. q_family (qs ! i) = fam \<and> unat fam < length qfs \<and> (qfs ! unat fam) AND GRAPHICS_BIT \<noteq> 0 \<and>
       (\<forall>j < i. unat (q_family (qs ! j)) < length qfs \<longrightarrow> (qfs ! unat (q_family (qs ! j))) AND GRAPHICS_BIT = 0)"
proof (induction qs)
  case (Cons q qs)
  show ?case
  proof (cases "unat (q_family q) < length qfs \<and> (qfs ! unat (q_family q)) AND GRAPHICS_BIT \<noteq> 0")
    case True
    then show ?thesis using Cons.prems by (intro exI [of _ 0]) simp
  next
    case False
    then obtain i where "i < length qs" "q_family (qs ! i) = fam" "unat fam < length qfs"
      "(qfs ! unat fam) AND GRAPHICS_BIT \<noteq> 0"
      "\<forall>j < i. unat (q_family (qs ! j)) < length qfs \<longrightarrow> (qfs ! unat (q_family (qs ! j))) AND GRAPHICS_BIT = 0"
      using Cons by auto
    then show ?thesis using False by (intro exI [of _ "Suc i"]) (auto simp: less_Suc_eq_0_disj)
  qed
qed simp

lemma capture_queues_spec:
  "(h, f) \<in> set (capture_queues get_queue qs) \<Longrightarrow>
     h \<noteq> 0 \<and> (\<exists>q \<in> set qs. q_flags q = 0 \<and> q_family q = f \<and> (\<exists>i < q_count q. h = get_queue (q_family q) i))"
  by (induction qs) (auto simp: capture_queues_def split: if_splits)

lemma has_upds [simp]:
  "has (d\<lparr>dd_overlay_disabled := b\<rparr>) n = has d n" "has (d\<lparr>dd_device := h\<rparr>) n = has d n"
  "has (d\<lparr>dd_physical_device := h\<rparr>) n = has d n" "has (d\<lparr>dd_instance := h\<rparr>) n = has d n"
  "has (d\<lparr>dd_api_version := v\<rparr>) n = has d n" "has (d\<lparr>dd_instance_gipa := b\<rparr>) n = has d n"
  "has (d\<lparr>dd_get_phys_mem_props := b\<rparr>) n = has d n" "has (d\<lparr>dd_graphics_queue_family := f\<rparr>) n = has d n"
  "has (d\<lparr>dd_has_graphics_queue_family := b\<rparr>) n = has d n" "has (d\<lparr>dd_graphics_queue := h\<rparr>) n = has d n"
  "has (d\<lparr>dd_queue_families := q\<rparr>) n = has d n" "has (d\<lparr>dd_overlay_failed := b\<rparr>) n = has d n"
  by (simp_all add: has_def)

lemma has_loaded [simp]:
  "has (d\<lparr>dd_disp := load_device_dispatch gdpa\<rparr>) ''GetDeviceQueue'' \<longleftrightarrow> gdpa ''vkGetDeviceQueue''"
  by (simp add: has_def load_device_dispatch_def device_names_def)

lemma described_families:
  "dd_queue_families (describe_device env gdpa new_device_data dev phys inst qfs get_queue qs) =
     (if gdpa ''vkGetDeviceQueue'' then capture_queues get_queue qs else [])"
proof -
  have "dd_queue_families new_device_data = []" by (simp add: new_device_data_def)
  then show ?thesis
    by (cases inst; cases "pick_family qfs qs"; simp add: describe_device_def Let_def)
qed

lemma described_graphics:
  "dd_has_graphics_queue_family (describe_device env gdpa new_device_data dev phys inst qfs get_queue qs) \<Longrightarrow>
     pick_family qfs qs = Some (dd_graphics_queue_family (describe_device env gdpa new_device_data dev phys inst qfs get_queue qs))"
proof -
  have "\<not> dd_has_graphics_queue_family new_device_data" by (simp add: new_device_data_def)
  moreover assume "dd_has_graphics_queue_family (describe_device env gdpa new_device_data dev phys inst qfs get_queue qs)"
  ultimately show ?thesis
    by (cases inst; cases "pick_family qfs qs"; simp add: describe_device_def Let_def split: if_splits)
qed

lemma queue_family_known:
  "queue_family_for (Some d) queue \<noteq> UINT32_MAX \<Longrightarrow> (queue, queue_family_for (Some d) queue) \<in> set (dd_queue_families d)"
  by (auto simp: queue_family_for_def split: option.splits dest: map_of_SomeD)

text \<open>
  A device is described by what the application asked for. After its creation the family the
  overlay records for is the first requested one that supports graphics, and a queue counts as being
  of a family only if the application created it there, without flags, and the driver handed it out.
\<close>

theorem device_queues_are_the_applications:
  assumes "create_device env chain (Some dev) gdpa key phys phys_key qfs get_queue qs l = (Success, chain', l')"
    and "l_devices l key = None" and "l_devices l' key = Some d"
  shows "(dd_has_graphics_queue_family d \<longrightarrow>
       (\<exists>i < length qs. q_family (qs ! i) = dd_graphics_queue_family d \<and>
          (qfs ! unat (dd_graphics_queue_family d)) AND GRAPHICS_BIT \<noteq> 0 \<and>
          (\<forall>j < i. unat (q_family (qs ! j)) < length qfs \<longrightarrow> (qfs ! unat (q_family (qs ! j))) AND GRAPHICS_BIT = 0))) \<and>
     (queue_family_for (Some d) queue \<noteq> UINT32_MAX \<longrightarrow> queue \<noteq> 0 \<and>
       (\<exists>q \<in> set qs. q_flags q = 0 \<and> q_family q = queue_family_for (Some d) queue \<and>
          (\<exists>i < q_count q. queue = get_queue (q_family q) i)))"
proof -
  have d: "d = describe_device env gdpa new_device_data dev phys (l_instances l phys_key) qfs get_queue qs"
    using assms by (auto simp: create_device_def Let_def split: option.splits list.splits if_splits)
  have "dd_has_graphics_queue_family d \<Longrightarrow> pick_family qfs qs = Some (dd_graphics_queue_family d)"
    unfolding d by (rule described_graphics)
  moreover have "(queue, queue_family_for (Some d) queue) \<in> set (capture_queues get_queue qs)"
    if "queue_family_for (Some d) queue \<noteq> UINT32_MAX"
    using queue_family_known [OF that] unfolding d described_families by (auto split: if_splits)
  ultimately show ?thesis using pick_family_spec capture_queues_spec by blast
qed

definition one_layer_chain :: "chain_entry list" where
  "one_layer_chain = [\<lparr>ch_type = 48, ch_function = 1, ch_layers = []\<rparr>, \<lparr>ch_type = 48, ch_function = 0, ch_layers = [\<lambda>_. True]\<rparr>]"

definition empty_layer :: layer where
  "empty_layer = \<lparr>l_instances = [3 \<mapsto> \<lparr>i_disp = load_instance_dispatch (\<lambda>_. True), i_overlay_disabled = False,
     i_instance = 1, i_api_version = API_1_0\<rparr>], l_devices = Map.empty, l_logged = []\<rparr>"

text \<open>A device with a compute-only family 0 and a graphics family 1, one queue asked of each.\<close>

theorem device_queues_are_the_applications_witness:
  "\<exists>chain' l' d. create_device Map.empty one_layer_chain (Some 9) (\<lambda>_. True) 4 5 3 [2, 3] (\<lambda>f i. 100 + 10 * unat f + i)
       [\<lparr>q_family = 0, q_flags = 0, q_count = 1\<rparr>, \<lparr>q_family = 1, q_flags = 0, q_count = 1\<rparr>] empty_layer = (Success, chain', l') \<and>
     l_devices l' 4 = Some d \<and> dd_has_graphics_queue_family d \<and> dd_graphics_queue_family d = 1 \<and>
     queue_family_for (Some d) 100 = 0 \<and> (\<exists>i < 2. [0, 1 :: u32] ! i = dd_graphics_queue_family d)"
proof -
  let ?qs = "[\<lparr>q_family = 0, q_flags = 0, q_count = 1\<rparr>, \<lparr>q_family = 1, q_flags = 0, q_count = 1\<rparr>]"
  let ?gq = "\<lambda>f i. 100 + 10 * unat (f :: u32) + i"
  obtain r chain' l' where 1: "create_device Map.empty one_layer_chain (Some 9) (\<lambda>_. True) 4 5 3 [2, 3] ?gq ?qs empty_layer = (r, chain', l')"
    by (metis prod.exhaust)
  have r: "r = Success"
    using 1 by (simp add: create_device_def one_layer_chain_def LOADER_DEVICE_def LINK_INFO_def)
  obtain d where d: "l_devices l' 4 = Some d"
    using 1 by (auto simp: create_device_def one_layer_chain_def LOADER_DEVICE_def LINK_INFO_def empty_layer_def)
  have e: "d = describe_device Map.empty (\<lambda>_. True) new_device_data 9 5 (l_instances empty_layer 3) [2, 3] ?gq ?qs"
    using 1 d by (auto simp: create_device_def one_layer_chain_def LOADER_DEVICE_def LINK_INFO_def empty_layer_def)
  have f: "dd_has_graphics_queue_family d" "dd_graphics_queue_family d = 1" "queue_family_for (Some d) 100 = 0"
    unfolding e by code_simp+
  have n: "l_devices empty_layer 4 = None" by (simp add: empty_layer_def)
  have "\<exists>i < 2. [0, 1 :: u32] ! i = dd_graphics_queue_family d"
    using device_queues_are_the_applications [OF 1 [unfolded r] n d, of 100] f(1,2)
    by (auto simp: less_Suc_eq numeral_2_eq_2)
  then show ?thesis using 1 r d f by blast
qed

definition latch_all :: "nat \<Rightarrow> string list \<Rightarrow> layer \<Rightarrow> layer" where
  "latch_all key reasons l = fold (mark_overlay_failed key) reasons l"

lemma latched_stays:
  "l_devices l key = Some d \<Longrightarrow> dd_overlay_failed d \<Longrightarrow> latch_all key rs l = l"
proof (induction rs arbitrary: l)
  case (Cons r rs)
  have "mark_overlay_failed key r l = l"
    using Cons.prems by (cases l; cases d) (auto simp: mark_overlay_failed_def Let_def fun_upd_idem)
  then show ?case using Cons by (simp add: latch_all_def)
qed (simp add: latch_all_def)

text \<open>
  The failure latch reports once. However often and for whatever reasons drawing on a device
  fails, one line is logged for it, the first reason's, and the device stays latched.
\<close>

theorem latch_logs_once:
  assumes "l_devices l key = Some d" and "\<not> dd_overlay_failed d"
  shows "l_logged (latch_all key (reason # rs) l) = l_logged l @ [(key, reason)] \<and>
     l_devices (latch_all key (reason # rs) l) key = Some (d\<lparr>dd_overlay_failed := True\<rparr>)"
proof -
  let ?l = "mark_overlay_failed key reason l"
  have m: "l_devices ?l key = Some (d\<lparr>dd_overlay_failed := True\<rparr>)" "l_logged ?l = l_logged l @ [(key, reason)]"
    using assms by (simp_all add: mark_overlay_failed_def Let_def)
  have "latch_all key (reason # rs) l = latch_all key rs ?l" by (simp add: latch_all_def)
  with latched_stays [OF m(1)] m show ?thesis by simp
qed

theorem latch_logs_once_witness:
  "\<exists>l. l_devices l 4 = Some new_device_data \<and> l_logged (latch_all 4 [''a'', ''b'', ''a''] l) = [(4, ''a'')]"
proof -
  let ?l = "empty_layer\<lparr>l_devices := [4 \<mapsto> new_device_data]\<rparr>"
  have "l_devices ?l 4 = Some new_device_data" "\<not> dd_overlay_failed new_device_data" by (simp_all add: new_device_data_def)
  from latch_logs_once [OF this, of "''a''" "[''b'', ''a'']"] this(1) show ?thesis
    by (intro exI [of _ ?l]) (simp add: empty_layer_def)
qed

end
