(* ===== verification/SwapchainColor.thy ===== *)
theory SwapchainColor
  imports Complex_Main Paths
begin

text \<open>
  Which transfer function the overlay's colors need in a swapchain and what it does to a color
  (\<^verbatim>\<open>src/layer/swapchain_color.hpp\<close>, \<^verbatim>\<open>src/layer/swapchain_usage.hpp\<close>, \<open>hdr_nits\<close> of
  \<^verbatim>\<open>src/layer/swapchain.cpp\<close>). Colors are real numbers: rounding of \<^verbatim>\<open>float\<close> is not modelled.
\<close>

section \<open>Formats and color spaces\<close>

datatype format =
    R8G8B8A8_SRGB | B8G8R8A8_SRGB | A8B8G8R8_SRGB_PACK32 | R8G8B8_SRGB | B8G8R8_SRGB
  | R16G16B16A16_SFLOAT | R16G16B16_SFLOAT
  | A2B10G10R10_UNORM_PACK32 | A2R10G10B10_UNORM_PACK32
  | Other_format nat

datatype color_space =
    SRGB_NONLINEAR | EXTENDED_SRGB_LINEAR | EXTENDED_SRGB_NONLINEAR | HDR10_ST2084 | HDR10_HLG
  | BT2020_LINEAR | DOLBYVISION | PASS_THROUGH | Other_space nat

datatype transfer_function = TF_None | TF_Srgb | TF_ScRgb | TF_Pq | TF_Hlg

fun is_srgb_format :: "format \<Rightarrow> bool" where
  "is_srgb_format R8G8B8A8_SRGB = True" | "is_srgb_format B8G8R8A8_SRGB = True"
| "is_srgb_format A8B8G8R8_SRGB_PACK32 = True" | "is_srgb_format R8G8B8_SRGB = True"
| "is_srgb_format B8G8R8_SRGB = True" | "is_srgb_format _ = False"

fun is_hdr_float_format :: "format \<Rightarrow> bool" where
  "is_hdr_float_format R16G16B16A16_SFLOAT = True" | "is_hdr_float_format R16G16B16_SFLOAT = True"
| "is_hdr_float_format _ = False"

fun is_hdr10_unorm_format :: "format \<Rightarrow> bool" where
  "is_hdr10_unorm_format A2B10G10R10_UNORM_PACK32 = True" | "is_hdr10_unorm_format A2R10G10B10_UNORM_PACK32 = True"
| "is_hdr10_unorm_format _ = False"

definition set_nonempty :: "environment \<Rightarrow> string \<Rightarrow> bool" where
  "set_nonempty env name = (case env name of Some v \<Rightarrow> v \<noteq> [] | None \<Rightarrow> False)"

definition running_under_gamescope :: "environment \<Rightarrow> bool" where
  "running_under_gamescope env = set_nonempty env ''GAMESCOPE_WAYLAND_DISPLAY''"

definition dxvk_hdr_enabled :: "environment \<Rightarrow> bool" where
  "dxvk_hdr_enabled env =
     (set_nonempty env ''DXVK_HDR'' \<and> env ''DXVK_HDR'' \<noteq> Some ''0'' \<and> env ''DXVK_HDR'' \<noteq> Some ''false'')"

definition transfer_function_for :: "format \<Rightarrow> color_space \<Rightarrow> bool \<Rightarrow> bool \<Rightarrow> transfer_function" where
  "transfer_function_for fmt cs under_gamescope dxvk_hdr =
     (let fallback = (if is_srgb_format fmt then TF_Srgb else TF_None) in
      case cs of
        HDR10_ST2084 \<Rightarrow> TF_Pq
      | HDR10_HLG \<Rightarrow> TF_Hlg
      | EXTENDED_SRGB_LINEAR \<Rightarrow> TF_ScRgb
      | PASS_THROUGH \<Rightarrow> if is_hdr_float_format fmt then TF_ScRgb else TF_None
      | SRGB_NONLINEAR \<Rightarrow>
          if under_gamescope \<and> is_hdr_float_format fmt then TF_ScRgb
          else if under_gamescope \<and> dxvk_hdr \<and> is_hdr10_unorm_format fmt then TF_Pq
          else fallback
      | _ \<Rightarrow> fallback)"

definition transfer_for_swapchain :: "environment \<Rightarrow> format \<Rightarrow> color_space \<Rightarrow> transfer_function" where
  "transfer_for_swapchain env fmt cs =
     transfer_function_for fmt cs (running_under_gamescope env) (dxvk_hdr_enabled env)"

fun transfer_name :: "transfer_function \<Rightarrow> string" where
  "transfer_name TF_Srgb = ''srgb''" | "transfer_name TF_ScRgb = ''scrgb''"
| "transfer_name TF_Pq = ''pq''" | "transfer_name TF_Hlg = ''hlg''" | "transfer_name TF_None = ''none''"

text \<open>The white level: \<open>strtof\<close> of a non-empty environment value is the argument \<open>parse\<close>.\<close>

definition hdr_nits :: "(string \<Rightarrow> rat) \<Rightarrow> environment \<Rightarrow> rat \<Rightarrow> rat" where
  "hdr_nits parse env cfg_nits =
     (let dflt = (if 80 \<le> cfg_nits \<and> cfg_nits \<le> 1000 then cfg_nits else 200) in
      case env ''CHOIR_HDR_NITS'' of
        Some e \<Rightarrow> if e \<noteq> [] \<and> 80 \<le> parse e \<and> parse e \<le> 1000 then parse e else dflt
      | None \<Rightarrow> dflt)"

section \<open>Image usage\<close>

definition COLOR_ATTACHMENT_BIT :: "32 word" where "COLOR_ATTACHMENT_BIT = 0x10"

definition overlay_swapchain_usage :: "32 word \<Rightarrow> 32 word" where
  "overlay_swapchain_usage app_usage = app_usage OR COLOR_ATTACHMENT_BIT"

lemma overlay_usage_has_bit: "overlay_swapchain_usage u AND COLOR_ATTACHMENT_BIT \<noteq> 0"
proof -
  have "bit (overlay_swapchain_usage u AND COLOR_ATTACHMENT_BIT) 4"
    by (simp add: overlay_swapchain_usage_def COLOR_ATTACHMENT_BIT_def bit_simps)
  then show ?thesis by auto
qed

section \<open>Color math\<close>

definition srgb_to_linear :: "real \<Rightarrow> real" where
  "srgb_to_linear x = (if x \<le> 0.04045 then x / 12.92 else ((x + 0.055) / 1.055) powr 2.4)"

definition bt709_to_bt2020 :: "real \<times> real \<times> real \<Rightarrow> real \<times> real \<times> real" where
  "bt709_to_bt2020 = (\<lambda>(x, y, z).
     (0.627392 * x + 0.329030 * y + 0.0432691 * z,
      0.069123 * x + 0.919523 * y + 0.0113204 * z,
      0.016423 * x + 0.088042 * y + 0.8956166 * z))"

definition linear_to_pq :: "real \<Rightarrow> real \<Rightarrow> real" where
  "linear_to_pq x target =
     (let p = (x * (target / 10000)) powr 0.1593017578125
      in ((0.8359375 + 18.8515625 * p) / (1 + 18.6875 * p)) powr 78.84375)"

definition linear_to_hlg :: "real \<Rightarrow> real" where
  "linear_to_hlg x =
     (if x \<le> 1 / 12 then sqrt (3 * x) else 0.17883277 * ln (12 * x - 0.28466892) + 0.55991073)"

definition apply_transfer :: "transfer_function \<Rightarrow> real \<Rightarrow> real \<times> real \<times> real \<Rightarrow> real \<times> real \<times> real" where
  "apply_transfer tf nits rgb =
     (if tf = TF_None then rgb
      else
        let each3 = (\<lambda>f (r, g, b). (f r, f g, f b));
            lin = each3 srgb_to_linear rgb in
        if tf = TF_Srgb then lin
        else if tf = TF_ScRgb then each3 (\<lambda>c. c * (nits / 80)) lin
        else if tf = TF_Pq then each3 (\<lambda>c. linear_to_pq c nits) (bt709_to_bt2020 lin)
        else each3 linear_to_hlg (bt709_to_bt2020 lin))"

section \<open>Properties\<close>

text \<open>
  The transfer function is the documented one: the HDR10 and scRGB color spaces decide by
  themselves; PASS_THROUGH by a float format; for every other space the colors are converted
  exactly when the format re-encodes them (an sRGB format), except that under gamescope, which
  hides the true space behind SRGB_NONLINEAR, float formats mean scRGB and, with HDR enabled,
  10-bit formats mean PQ.
\<close>

theorem transfer_function_table:
  "transfer_function_for fmt cs gs hdr =
     (if cs = HDR10_ST2084 \<or> cs = SRGB_NONLINEAR \<and> gs \<and> hdr \<and> is_hdr10_unorm_format fmt then TF_Pq
      else if cs = HDR10_HLG then TF_Hlg
      else if cs = EXTENDED_SRGB_LINEAR \<or> is_hdr_float_format fmt \<and> (cs = PASS_THROUGH \<or> cs = SRGB_NONLINEAR \<and> gs)
      then TF_ScRgb
      else if is_srgb_format fmt \<and> cs \<noteq> PASS_THROUGH then TF_Srgb
      else TF_None)"
  by (cases cs; cases fmt; cases gs; cases hdr) (simp_all add: transfer_function_for_def)

text \<open>
  The paper-white level is always between 80 and 1000 nits, whatever the configuration or
  the environment says.
\<close>

theorem hdr_nits_in_range: "80 \<le> hdr_nits parse env cfg \<and> hdr_nits parse env cfg \<le> 1000"
  by (simp add: hdr_nits_def Let_def split: option.splits)

lemma srgb_to_linear_unit:
  assumes "0 \<le> x" "x \<le> 1"
  shows "0 \<le> srgb_to_linear x \<and> srgb_to_linear x \<le> 1"
  using assms by (auto simp: srgb_to_linear_def intro!: powr_le1)

lemma bt2020_bounds:
  assumes "0 \<le> x" "x \<le> 1" "0 \<le> y" "y \<le> 1" "0 \<le> z" "z \<le> 1"
    and "bt709_to_bt2020 (x, y, z) = (r, g, b)"
  shows "0 \<le> r \<and> r \<le> 1.0001 \<and> 0 \<le> g \<and> g \<le> 1.0001 \<and> 0 \<le> b \<and> b \<le> 1.0001"
  using assms by (auto simp: bt709_to_bt2020_def)

lemma linear_to_pq_unit:
  assumes "0 \<le> x" "x \<le> 1.0001" "0 \<le> target" "target \<le> 1000"
  shows "0 \<le> linear_to_pq x target \<and> linear_to_pq x target \<le> 1"
proof -
  define p where "p = (x * (target / 10000)) powr (0.1593017578125::real)"
  have "x * (target / 10000) \<le> 1.0001 * (1000 / 10000)"
    using assms by (intro mult_mono) auto
  then have "x * (target / 10000) \<le> 1" by (rule order_trans) simp
  moreover have "0 \<le> x * (target / 10000)" using assms by simp
  ultimately have p: "0 \<le> p" "p \<le> 1" by (auto simp: p_def intro!: powr_le1)
  define q where "q = (0.8359375 + 18.8515625 * p) / (1 + 18.6875 * p)"
  have q: "0 \<le> q" "q \<le> 1" using p by (simp_all add: q_def field_simps)
  have "linear_to_pq x target = q powr 78.84375"
    by (simp add: linear_to_pq_def Let_def p_def q_def)
  moreover have "q powr 78.84375 \<le> 1" by (rule powr_le1) (use q in simp_all)
  ultimately show ?thesis by simp
qed

text \<open>
  A color of the overlay stays displayable: for components in [0, 1] and an allowed white
  level, the PQ encoding stays in [0, 1], scRGB stays in [0, 12.5] and the linear conversion in
  [0, 1].
\<close>

theorem apply_transfer_bounds:
  assumes "0 \<le> r" "r \<le> 1" "0 \<le> g" "g \<le> 1" "0 \<le> b" "b \<le> 1" "80 \<le> nits" "nits \<le> 1000" "tf \<noteq> TF_Hlg"
  shows "case apply_transfer tf nits (r, g, b) of (r', g', b') \<Rightarrow>
    let top = (if tf = TF_ScRgb then 12.5 else 1) in
    0 \<le> r' \<and> r' \<le> top \<and> 0 \<le> g' \<and> g' \<le> top \<and> 0 \<le> b' \<and> b' \<le> top"
proof -
  note u = srgb_to_linear_unit [OF assms(1,2)] srgb_to_linear_unit [OF assms(3,4)] srgb_to_linear_unit [OF assms(5,6)]
  have s: "0 \<le> c * (nits / 80) \<and> c * (nits / 80) \<le> 12.5" if "0 \<le> c \<and> c \<le> 1" for c
  proof -
    have "c * (nits / 80) \<le> 1 * (1000 / 80)" using that assms(7,8) by (intro mult_mono) auto
    then show ?thesis using that assms(7) by simp
  qed
  obtain r2 g2 b2 where m: "bt709_to_bt2020 (srgb_to_linear r, srgb_to_linear g, srgb_to_linear b) = (r2, g2, b2)"
    by (cases "bt709_to_bt2020 (srgb_to_linear r, srgb_to_linear g, srgb_to_linear b)") auto
  have b2: "0 \<le> r2 \<and> r2 \<le> 1.0001 \<and> 0 \<le> g2 \<and> g2 \<le> 1.0001 \<and> 0 \<le> b2 \<and> b2 \<le> 1.0001"
    by (rule bt2020_bounds [OF _ _ _ _ _ _ m]) (use u in simp_all)
  have q: "0 \<le> linear_to_pq c nits \<and> linear_to_pq c nits \<le> 1" if "0 \<le> c \<and> c \<le> 1.0001" for c
    using that assms(7,8) by (intro linear_to_pq_unit) auto
  show ?thesis
    using assms(1-6,9) u s [OF u(1)] s [OF u(2)] s [OF u(3)] m b2 q [of r2] q [of g2] q [of b2]
    by (cases tf) (simp_all add: apply_transfer_def Let_def)
qed

theorem apply_transfer_bounds_witness:
  "case apply_transfer TF_Pq 200 (1, 1 / 2, 0) of (r', g', b') \<Rightarrow>
    0 \<le> r' \<and> r' \<le> 1 \<and> 0 \<le> g' \<and> g' \<le> 1 \<and> 0 \<le> b' \<and> b' \<le> 1"
  using apply_transfer_bounds [of 1 "1 / 2" 0 200 TF_Pq] by (simp split: prod.splits)

end
