(* ===== verification/Renderer.thy ===== *)
theory Renderer
  imports Dispatch SwapchainColor
begin

text \<open>
  The ImGui renderer of one swapchain (\<^verbatim>\<open>src/layer/imgui_renderer.cpp\<close> and the pipeline of
  \<^verbatim>\<open>src/layer/imgui_impl_vulkan_unity.cpp\<close>): what it creates, in which order, and that it
  leaves nothing behind when any step fails. ImGui's context and Vulkan backend are library
  objects; the calls that create them may fail like any other.
\<close>

section \<open>State\<close>

text \<open>Handles are 0 when null; the backend belongs to the context it was initialised in.\<close>

record renderer =
  r_init_done :: bool
  r_frame_started :: bool
  r_transfer :: transfer_function
  r_nits :: rat
  r_pipeline :: nat
  r_ctx :: nat
  r_device :: nat
  r_pool :: nat
  r_disp :: "device_data option"

definition new_renderer :: renderer where
  "new_renderer = \<lparr>r_init_done = False, r_frame_started = False, r_transfer = TF_None, r_nits = 200,
     r_pipeline = 0, r_ctx = 0, r_device = 0, r_pool = 0, r_disp = None\<rparr>"

definition kImguiMaxSets :: nat where "kImguiMaxSets = 1000"

section \<open>Operations\<close>

definition create_hdr_pipeline :: "vk \<Rightarrow> nat \<times> vk" where
  "create_hdr_pipeline v =
     (case ask v of (have_vertex_shader, v) \<Rightarrow>
        if \<not> have_vertex_shader then (0, v)
        else case create K_shader v of (frag, v1) \<Rightarrow>
          if frag = 0 then (0, v1)
          else case create K_pipeline v1 of (pipe, v2) \<Rightarrow> (pipe, destroy K_shader frag v2))"

definition backend_init :: "nat \<Rightarrow> vk \<Rightarrow> bool \<times> vk" where
  "backend_init ctx v =
     (case ask v of (ok, v1) \<Rightarrow> (ok, if ok then v1\<lparr>vk_live := (K_backend, ctx) # vk_live v1\<rparr> else v1))"

text \<open>\<^verbatim>\<open>descriptor_pool_ = VK_NULL_HANDLE; device_ = VK_NULL_HANDLE; disp_ = nullptr\<close>\<close>

definition forget_device :: "renderer \<Rightarrow> renderer" where
  "forget_device r = r\<lparr>r_pool := 0, r_device := 0, r_disp := None\<rparr>"

definition renderer_init ::
    "device_data \<Rightarrow> nat \<Rightarrow> nat \<Rightarrow> transfer_function \<Rightarrow> rat \<Rightarrow> renderer \<Rightarrow> vk \<Rightarrow> bool \<times> renderer \<times> vk" where
  "renderer_init dd render_pass image_count transfer nits r v =
     (if r_init_done r then (True, r, v)
      else
        let r = r\<lparr>r_transfer := transfer, r_nits := nits\<rparr> in
        if dd_instance dd = 0 \<or> dd_physical_device dd = 0 \<or> dd_device dd = 0 \<or>
           dd_graphics_queue dd = 0 \<or> render_pass = 0 \<or> image_count = 0 \<or>
           \<not> dd_instance_gipa dd \<or> \<not> has dd ''GetDeviceProcAddr'' \<or>
           \<not> has dd ''CreateDescriptorPool'' \<or> \<not> has dd ''DestroyDescriptorPool''
        then (False, r, v)
        else
          let r = r\<lparr>r_device := dd_device dd, r_disp := Some dd\<rparr>;
              (pool, v) = create K_descriptor_pool v;
              r = r\<lparr>r_pool := pool\<rparr> in
          if pool = 0 then (False, forget_device r, v)
          else
            let (ctx, v) = create K_context v; r = r\<lparr>r_ctx := ctx\<rparr> in
            if ctx = 0 then (False, forget_device r, destroy K_descriptor_pool pool v)
            else
              let (loaded, v) = ask v in
              if \<not> loaded
              then (False, forget_device (r\<lparr>r_ctx := 0\<rparr>), destroy K_descriptor_pool pool (destroy K_context ctx v))
              else
                let (ok, v) = backend_init ctx v in
                if \<not> ok
                then (False, forget_device (r\<lparr>r_ctx := 0\<rparr>), destroy K_descriptor_pool pool (destroy K_context ctx v))
                else
                  let (pipe, v) = (if transfer \<noteq> TF_None then create_hdr_pipeline v else (r_pipeline r, v))
                  in (True, r\<lparr>r_pipeline := pipe, r_init_done := True\<rparr>, v))"

definition ready :: "renderer \<Rightarrow> bool" where
  "ready r = r_init_done r"

text \<open>
  Building a frame: the extent ImGui gets, and what the overlay draws, given by the number of
  vertices, \<^term>\<open>None\<close> when building it throws.
\<close>

definition sane :: "u32 \<Rightarrow> nat" where
  "sane v = (if v = 0 then 1 else if v > 16384 then 16384 else unat v)"

definition begin_frame :: "nat option \<Rightarrow> renderer \<Rightarrow> bool \<times> renderer" where
  "begin_frame built r =
     (if \<not> r_init_done r \<or> r_frame_started r then (True, r)
      else case built of None \<Rightarrow> (False, r) | Some vertices \<Rightarrow> (True, r\<lparr>r_frame_started := True\<rparr>))"

definition frame_has_content :: "nat option \<Rightarrow> renderer \<Rightarrow> bool" where
  "frame_has_content built r \<longleftrightarrow> r_init_done r \<and> r_frame_started r \<and> (case built of Some n \<Rightarrow> n > 0 | None \<Rightarrow> False)"

text \<open>\<open>end_frame\<close>: whether it returns (recording into a command buffer may throw).\<close>

definition end_frame :: "nat \<Rightarrow> bool \<Rightarrow> renderer \<Rightarrow> bool \<times> renderer" where
  "end_frame cmd throws r =
     (if \<not> r_init_done r \<or> \<not> r_frame_started r then (True, r)
      else if cmd \<noteq> 0 \<and> throws then (False, r)
      else (True, r\<lparr>r_frame_started := False\<rparr>))"

definition add_texture :: "renderer \<Rightarrow> vk \<Rightarrow> nat \<times> vk" where
  "add_texture r v = (if \<not> r_init_done r then (0, v) else create K_descriptor v)"

definition remove_texture :: "nat \<Rightarrow> renderer \<Rightarrow> vk \<Rightarrow> vk" where
  "remove_texture ds r v = (if \<not> r_init_done r \<or> ds = 0 then v else destroy K_descriptor ds v)"

definition renderer_shutdown :: "resolver \<Rightarrow> renderer \<Rightarrow> vk \<Rightarrow> renderer \<times> vk" where
  "renderer_shutdown gdpa r v =
     (let r = (if r_init_done r \<and> r_frame_started r then r\<lparr>r_frame_started := False\<rparr> else r);
          (r, v) =
            (if r_init_done r then
               let (r, v) =
                 (case r_disp r of
                    Some dd \<Rightarrow>
                      if r_pipeline r \<noteq> 0 \<and> has dd ''GetDeviceProcAddr'' \<and> r_device r \<noteq> 0
                      then (r\<lparr>r_pipeline := 0\<rparr>,
                            if gdpa ''vkDestroyPipeline'' then destroy K_pipeline (r_pipeline r) v else v)
                      else (r, v)
                  | None \<Rightarrow> (r, v))
               in (r\<lparr>r_init_done := False\<rparr>, destroy K_backend (r_ctx r) v)
             else (r, v));
          (r, v) = (if r_ctx r \<noteq> 0 then (r\<lparr>r_ctx := 0\<rparr>, destroy K_context (r_ctx r) v) else (r, v));
          v = (case r_disp r of
                 Some dd \<Rightarrow> if r_pool r \<noteq> 0 \<and> has dd ''DestroyDescriptorPool'' \<and> r_device r \<noteq> 0
                            then destroy K_descriptor_pool (r_pool r) v else v
               | None \<Rightarrow> v)
      in (forget_device r, v))"

section \<open>What a renderer holds\<close>

definition renderer_objs :: "renderer \<Rightarrow> obj list" where
  "renderer_objs r =
     [(K_pipeline, r_pipeline r), (K_backend, if r_init_done r then r_ctx r else 0), (K_context, r_ctx r),
      (K_descriptor_pool, r_pool r)]"

text \<open>
  A renderer either holds nothing, or is ready on a device that can free everything it holds.
\<close>

definition renderer_ok :: "renderer \<Rightarrow> bool" where
  "renderer_ok r \<longleftrightarrow>
     (if r_init_done r
      then r_ctx r \<noteq> 0 \<and> r_device r \<noteq> 0 \<and>
        (\<exists>dd. r_disp r = Some dd \<and> has dd ''DestroyDescriptorPool'' \<and> has dd ''GetDeviceProcAddr'')
      else r_pipeline r = 0 \<and> r_ctx r = 0 \<and> r_pool r = 0)"

lemma new_renderer_ok [simp]: "renderer_ok new_renderer"
  by (simp add: renderer_ok_def new_renderer_def)

lemma accounts_hdr_pipeline:
  assumes "accounts B xs v" and "create_hdr_pipeline v = (pipe, v')"
  shows "accounts B ((K_pipeline, pipe) # xs) v'"
proof -
  obtain vert v0 where 0: "ask v = (vert, v0)" by fastforce
  obtain frag v1 where 1: "create K_shader v0 = (frag, v1)" by fastforce
  obtain p v2 where 2: "create K_pipeline v1 = (p, v2)" by fastforce
  have a0: "accounts B xs v0" using assms(1) accounts_ask [OF 0] by simp
  note a1 = accounts_create [OF a0 1]
  consider "\<not> vert" | "vert" "frag = 0" | "vert" "frag \<noteq> 0" by blast
  then show ?thesis
  proof cases
    case c: 1
    then show ?thesis using assms(2) 0 a0 by (simp add: create_hdr_pipeline_def)
  next
    case c: 2
    then show ?thesis using assms(2) 0 1 a1 by (simp add: create_hdr_pipeline_def)
  next
    case c: 3
    have "accounts B ((K_shader, frag) # (K_pipeline, p) # xs) v2"
      using accounts_create [OF a1 2] by (simp add: accounts_perm [of "(K_pipeline, p) # (K_shader, frag) # xs" "(K_shader, frag) # (K_pipeline, p) # xs"] add_mset_commute)
    then have "accounts B ((K_pipeline, p) # xs) (destroy_if True K_shader frag v2)" by (rule accounts_destroy) simp_all
    then show ?thesis using assms(2) 0 1 2 c by (simp add: create_hdr_pipeline_def destroy_as_if)
  qed
qed

lemma accounts_backend:
  "accounts B xs v \<Longrightarrow> backend_init ctx v = (ok, v1) \<Longrightarrow> ctx \<noteq> 0 \<Longrightarrow> (K_context, ctx) \<in> set xs \<Longrightarrow>
     accounts B ((K_backend, if ok then ctx else 0) # xs) v1"
  using accounts_live [of B xs v K_context ctx]
  by (auto simp: backend_init_def accounts_def live_def held_Cons vk_wf_def split: prod.splits if_splits dest!: ask_keeps)

text \<open>Initialising creates what the renderer then holds, and nothing when it fails.\<close>

lemma renderer_init_accounts:
  assumes "accounts B xs v" and "renderer_ok r" and "renderer_init dd rp n tf nits r v = (ok, r', v')"
    and "\<not> r_init_done r"
  shows "accounts B (renderer_objs r' @ xs) v' \<and> renderer_ok r' \<and> ready r' = ok"
proof -
  have r0: "r_pipeline r = 0" "r_ctx r = 0" "r_pool r = 0" using assms(2,4) by (auto simp: renderer_ok_def)
  let ?bad = "dd_instance dd = 0 \<or> dd_physical_device dd = 0 \<or> dd_device dd = 0 \<or>
           dd_graphics_queue dd = 0 \<or> rp = 0 \<or> n = 0 \<or>
           \<not> dd_instance_gipa dd \<or> \<not> has dd ''GetDeviceProcAddr'' \<or>
           \<not> has dd ''CreateDescriptorPool'' \<or> \<not> has dd ''DestroyDescriptorPool''"
  obtain pool v1 where 1: "create K_descriptor_pool v = (pool, v1)" by fastforce
  obtain ctx v2 where 2: "create K_context v1 = (ctx, v2)" by fastforce
  obtain loaded v3 where 3: "ask v2 = (loaded, v3)" by fastforce
  obtain ok4 v4 where 4: "backend_init ctx v3 = (ok4, v4)" by fastforce
  obtain pipe v5 where 5: "(if tf \<noteq> TF_None then create_hdr_pipeline v4 else (0, v4)) = (pipe, v5)" by fastforce
  note a1 = accounts_create [OF assms(1) 1]
  note a2 = accounts_create [OF a1 2]
  have a3: "accounts B ((K_context, ctx) # (K_descriptor_pool, pool) # xs) v3" using a2 accounts_ask [OF 3] by simp
  have a4: "ctx \<noteq> 0 \<Longrightarrow> accounts B ((K_backend, if ok4 then ctx else 0) # (K_context, ctx) # (K_descriptor_pool, pool) # xs) v4"
    using accounts_backend [OF a3 4] by simp
  have a5: "ctx \<noteq> 0 \<Longrightarrow> accounts B ((K_pipeline, pipe) # (K_backend, if ok4 then ctx else 0) # (K_context, ctx) # (K_descriptor_pool, pool) # xs) v5"
    using accounts_hdr_pipeline [OF a4] 5 by (cases "tf = TF_None") (use a4 in auto)
  consider "?bad" | "\<not> ?bad" "pool = 0" | "\<not> ?bad" "pool \<noteq> 0" "ctx = 0"
    | "\<not> ?bad" "pool \<noteq> 0" "ctx \<noteq> 0" "\<not> loaded" | "\<not> ?bad" "pool \<noteq> 0" "ctx \<noteq> 0" "loaded" "\<not> ok4"
    | "\<not> ?bad" "pool \<noteq> 0" "ctx \<noteq> 0" "loaded" "ok4" by blast
  then show ?thesis
  proof cases
    case 1
    then show ?thesis
      using assms r0 by (auto simp: renderer_init_def renderer_objs_def renderer_ok_def ready_def)
  next
    case c: 2
    then show ?thesis
      using assms r0 1 a1 by (auto simp: renderer_init_def renderer_objs_def renderer_ok_def ready_def forget_device_def)
  next
    case c: 3
    then have "accounts B xs (destroy K_descriptor_pool pool v2)" using a2 by (auto intro: accounts_destroy_null)
    then show ?thesis
      using assms r0 1 2 c by (auto simp: renderer_init_def renderer_objs_def renderer_ok_def ready_def forget_device_def)
  next
    case c: 4
    then have "accounts B xs (destroy K_descriptor_pool pool (destroy K_context ctx v3))"
      using a3 by (auto intro!: accounts_destroy_null)
    then show ?thesis
      using assms r0 1 2 3 c by (auto simp: renderer_init_def renderer_objs_def renderer_ok_def ready_def forget_device_def)
  next
    case c: 5
    then have "accounts B xs (destroy K_descriptor_pool pool (destroy K_context ctx v4))"
      using a4 by (auto intro!: accounts_destroy_null)
    then show ?thesis
      using assms r0 1 2 3 4 c by (auto simp: renderer_init_def renderer_objs_def renderer_ok_def ready_def forget_device_def)
  next
    case c: 6
    have "ok \<and> v' = v5 \<and> renderer_objs r' = [(K_pipeline, pipe), (K_backend, ctx), (K_context, ctx), (K_descriptor_pool, pool)] \<and>
        renderer_ok r' \<and> ready r'"
      using assms r0 1 2 3 4 5 c
      by (auto simp: renderer_init_def renderer_objs_def renderer_ok_def ready_def split: prod.splits if_splits)
    then show ?thesis using a5 c by simp
  qed
qed

text \<open>Shutting down frees it all (the pipeline needs the driver's destroy function).\<close>

lemma renderer_shutdown_accounts:
  assumes "accounts B (renderer_objs r @ xs) v" and "renderer_ok r" and "renderer_shutdown gdpa r v = (r', v')"
    and "gdpa ''vkDestroyPipeline'' \<or> r_pipeline r = 0"
  shows "accounts B xs v' \<and> renderer_ok r' \<and> \<not> ready r'"
proof (cases "r_init_done r")
  case False
  then have "r_pipeline r = 0" "r_ctx r = 0" "r_pool r = 0" using assms(2) by (auto simp: renderer_ok_def)
  then show ?thesis
    using assms(1,3) False
    by (auto simp: renderer_shutdown_def renderer_objs_def renderer_ok_def ready_def forget_device_def Let_def
        split: option.splits)
next
  case True
  then obtain dd where dd: "r_ctx r \<noteq> 0" "r_device r \<noteq> 0" "r_disp r = Some dd"
    "has dd ''DestroyDescriptorPool''" "has dd ''GetDeviceProcAddr''" using assms(2) by (auto simp: renderer_ok_def)
  define v1 where "v1 = destroy_if True K_pipeline (r_pipeline r) v"
  define v2 where "v2 = destroy K_backend (r_ctx r) v1"
  define v3 where "v3 = destroy K_context (r_ctx r) v2"
  define v4 where "v4 = destroy_if True K_descriptor_pool (r_pool r) v3"
  have "accounts B ((K_pipeline, r_pipeline r) # (K_backend, r_ctx r) # (K_context, r_ctx r) #
      (K_descriptor_pool, r_pool r) # xs) v"
    using assms(1) True by (simp add: renderer_objs_def)
  then have "accounts B ((K_backend, r_ctx r) # (K_context, r_ctx r) # (K_descriptor_pool, r_pool r) # xs) v1"
    unfolding v1_def by (rule accounts_destroy) simp_all
  then have "accounts B ((K_context, r_ctx r) # (K_descriptor_pool, r_pool r) # xs) v2"
    unfolding v2_def by (rule accounts_destroy_null) (use dd in simp_all)
  then have "accounts B ((K_descriptor_pool, r_pool r) # xs) v3"
    unfolding v3_def by (rule accounts_destroy_null) (use dd in simp_all)
  then have "accounts B xs v4" unfolding v4_def by (rule accounts_destroy) simp_all
  moreover have "v' = v4 \<and> \<not> r_init_done r' \<and> r_ctx r' = 0 \<and> r_pool r' = 0 \<and> r_pipeline r' = 0"
    using assms(3,4) True dd
    by (auto simp: renderer_shutdown_def Let_def v1_def v2_def v3_def v4_def destroy_if_def forget_device_def
        split: if_splits)
  ultimately show ?thesis by (simp add: renderer_ok_def ready_def)
qed

text \<open>
  The renderer never leaks: initialising it either creates exactly what it then holds, or
  fails and leaves nothing behind, whichever step failed; and shutting a renderer down after a
  successful initialisation gives everything back. No call of either is illegal.
\<close>

theorem renderer_never_leaks:
  assumes "vk_ok v" and "renderer_init dd rp n tf nits new_renderer v = (ok, r, v1)"
    and "renderer_shutdown gdpa r v1 = (r', v2)" and "gdpa ''vkDestroyPipeline''" and "vk_wf v"
  shows "vk_ok v1 \<and> vk_ok v2 \<and> live v2 = live v \<and> \<not> ready r' \<and>
    live v1 = live v + (if ok then held (renderer_objs r) else {#})"
proof -
  have a: "accounts (live v) [] v" using assms(1,5) by (simp add: accounts_def)
  have "\<not> r_init_done new_renderer" by (simp add: new_renderer_def)
  from renderer_init_accounts [OF a new_renderer_ok assms(2) this]
  have 1: "accounts (live v) (renderer_objs r @ []) v1" "renderer_ok r" "ready r = ok" by simp_all
  from renderer_shutdown_accounts [OF 1(1,2) assms(3)] assms(4)
  have 2: "accounts (live v) [] v2" "\<not> ready r'" by simp_all
  have "\<not> ok \<Longrightarrow> held (renderer_objs r) = {#}"
    using 1(2,3) by (simp add: renderer_ok_def ready_def renderer_objs_def)
  with 1 2 show ?thesis by (auto simp: accounts_def)
qed

text \<open>A device whose driver resolves everything, and a driver state with nothing alive.\<close>

definition full_device :: device_data where
  "full_device = new_device_data\<lparr>dd_disp := ''GetDeviceProcAddr'' # device_names, dd_device := 1, dd_instance := 1,
     dd_physical_device := 1, dd_graphics_queue := 7, dd_instance_gipa := True, dd_get_phys_mem_props := True,
     dd_has_graphics_queue_family := True, dd_queue_families := [(7, 0), (8, 1)]\<rparr>"

definition empty_vk :: vk where
  "empty_vk = \<lparr>vk_next = 0, vk_live = [], vk_fence = (\<lambda>_. Unsignaled), vk_signaled = [], vk_pool_cmds = (\<lambda>_. []),
     vk_answers = [], vk_lost = False, vk_ok = True, vk_log = []\<rparr>"

theorem renderer_never_leaks_witness:
  "\<exists>r v1 r' v2. renderer_init full_device 1 2 TF_Pq 200 new_renderer
        (empty_vk\<lparr>vk_answers := [True, True, True, False]\<rparr>) = (False, r, v1) \<and>
     renderer_shutdown (\<lambda>_. True) r v1 = (r', v2) \<and> live v1 = {#} \<and> live v2 = {#}"
proof -
  let ?v = "empty_vk\<lparr>vk_answers := [True, True, True, False]\<rparr>"
  have f: "\<not> fst (renderer_init full_device 1 2 TF_Pq 200 new_renderer ?v)" by code_simp
  obtain ok r v1 where 1: "renderer_init full_device 1 2 TF_Pq 200 new_renderer ?v = (ok, r, v1)"
    by (cases "renderer_init full_device 1 2 TF_Pq 200 new_renderer ?v") auto
  obtain r' v2 where 2: "renderer_shutdown (\<lambda>_. True) r v1 = (r', v2)" by fastforce
  have w: "vk_ok ?v" "vk_wf ?v" by (simp_all add: empty_vk_def vk_wf_def)
  from renderer_never_leaks [OF w(1) 1 2 _ w(2)] f 1 2 show ?thesis by (auto simp: empty_vk_def live_def)
qed

end
