(* ===== verification/StateClient.thy ===== *)
theory StateClient
  imports State Framing Paths
begin

text \<open>
  The overlay's client thread (\<^verbatim>\<open>src/overlay/state_client.cpp\<close>): the Hello it opens a
  connection with, the loop that reads and dispatches frames, what it publishes to the render
  thread, and the reconnect loop with its backoff. What the kernel answers is an input; what
  the thread writes is its output. \<^term>\<open>None\<close> is an exception that leaves the thread, which
  ends the process.
\<close>

section \<open>Hello\<close>

text \<open>The first line of \<^verbatim>\<open>/proc/self/comm\<close>, when it can be read and is not empty.\<close>

definition self_exe_name :: "string option \<Rightarrow> string" where
  "self_exe_name comm =
     (case comm of Some name \<Rightarrow> if name \<noteq> [] then name else ''unknown'' | None \<Rightarrow> ''unknown'')"

abbreviation NUL :: char where
  "NUL \<equiv> CHR 0x00"

text \<open>The loop over the NUL-separated \<^verbatim>\<open>/proc/self/cmdline\<close>.\<close>

function self_argv :: "string \<Rightarrow> string list" where
  "self_argv all =
     (if all = [] then []
      else let a = takeWhile (\<lambda>c. c \<noteq> NUL) all; r = drop (length a + 1) all in
           (if a \<noteq> [] then [a] else []) @ self_argv r)"
  by pat_completeness auto
termination
  by (relation "measure length") auto

declare self_argv.simps [simp del]

definition hello_json :: "int \<Rightarrow> string option \<Rightarrow> string \<Rightarrow> json" where
  "hello_json pid comm cmdline = jobj
     [(''pid'', JInt pid), (''exe'', JStr (self_exe_name comm)),
      (''argv'', JArr (map JStr (self_argv cmdline))), (''proto'', JInt 1)]"

definition hello_payload :: "json_lib \<Rightarrow> int \<Rightarrow> string option \<Rightarrow> string \<Rightarrow> string option" where
  "hello_payload lib pid comm cmdline = lib_dump lib (hello_json pid comm cmdline)"

section \<open>Dispatch\<close>

record avatar_req =
  q_hash :: string
  q_path :: string
  q_w :: u32
  q_h :: u32

record client_state =
  latest :: "snapshot option"
  disabled :: bool
  known_avatars :: "string \<rightharpoonup> avatar_req"

text \<open>What the thread writes: a frame to the socket, the debug dump to its file.\<close>

datatype client_output = Frame msg_type string | Dump string

definition new_client_state :: client_state where
  "new_client_state = \<lparr>latest = None, disabled = False, known_avatars = Map.empty\<rparr>"

definition avatar_for :: "client_state \<Rightarrow> string \<Rightarrow> avatar_req option" where
  "avatar_for st hash = known_avatars st hash"

definition publish :: "snapshot \<Rightarrow> client_state \<Rightarrow> client_state" where
  "publish s st = st\<lparr>latest := Some s\<rparr>"

definition enqueue_avatar :: "avatar_req \<Rightarrow> client_state \<Rightarrow> client_state" where
  "enqueue_avatar r st = st\<lparr>known_avatars := (known_avatars st)(q_hash r \<mapsto> r)\<rparr>"

definition get_u32 :: "json \<Rightarrow> u32 option" where
  "get_u32 j = map_option word_of_int (get_int_like j)"

text \<open>The body of the \<^verbatim>\<open>try\<close> of an AvatarReady frame.\<close>

definition parse_avatar :: "json_lib \<Rightarrow> string \<Rightarrow> avatar_req option" where
  "parse_avatar lib pl =
     Option.bind (lib_parse lib pl) (\<lambda>j.
     Option.bind (jvalue get_string j ''hash'' []) (\<lambda>a.
     Option.bind (jvalue get_string j ''path'' []) (\<lambda>b.
     Option.bind (jvalue get_u32 j ''w'' 0) (\<lambda>c.
     Option.bind (jvalue get_u32 j ''h'' 0) (\<lambda>d.
       Some \<lparr>q_hash = a, q_path = b, q_w = c, q_h = d\<rparr>)))))"

text \<open>
  The switch of \<open>serve\<close>. \<open>dump_path\<close> says whether CHOIR_DEBUG_DUMP is set and, if it is,
  whether its file can be opened; the boolean passed along is \<open>dumped\<close>. The bytes of a frame
  go out through \<^const>\<open>write_frame\<close>, whose result the code ignores here.
\<close>

definition dispatch ::
    "json_lib \<Rightarrow> bool option \<Rightarrow> decoded_frame \<Rightarrow> client_state \<times> bool
      \<Rightarrow> ((client_state \<times> bool) \<times> client_output list) option" where
  "dispatch lib dump_path f = (\<lambda>(st, dumped).
     (case ftype f of
        Snapshot \<Rightarrow>
          (case from_json_str lib (payload f) new_snapshot of
             (ok, s) \<Rightarrow>
               if \<not> ok then Some ((st, dumped), [])
               else if dump_path \<noteq> None \<and> \<not> dumped then
                 (case to_json_str lib s of
                    None \<Rightarrow> None
                  | Some txt \<Rightarrow>
                      if dump_path = Some True then Some ((publish s st, True), [Dump txt])
                      else Some ((publish s st, dumped), []))
               else Some ((publish s st, dumped), []))
      | AvatarReady \<Rightarrow>
          (case parse_avatar lib (payload f) of
             None \<Rightarrow> Some ((st, dumped), [])
           | Some r \<Rightarrow>
               if q_hash r \<noteq> [] \<and> q_path r \<noteq> [] then Some ((enqueue_avatar r st, dumped), [])
               else Some ((st, dumped), []))
      | Disabled \<Rightarrow> Some ((st\<lparr>disabled := True\<rparr>, dumped), [])
      | Ping \<Rightarrow> Some ((st, dumped), [Frame Pong (payload f)])
      | _ \<Rightarrow> Some ((st, dumped), [])))"

fun dispatch_all ::
    "json_lib \<Rightarrow> bool option \<Rightarrow> decoded_frame list \<Rightarrow> client_state \<times> bool
      \<Rightarrow> ((client_state \<times> bool) \<times> client_output list) option" where
  "dispatch_all lib dump_path [] s = Some (s, [])"
| "dispatch_all lib dump_path (f # fs) s =
     (case dispatch lib dump_path f s of
        None \<Rightarrow> None
      | Some (s', out) \<Rightarrow> map_option (\<lambda>(s'', out'). (s'', out @ out')) (dispatch_all lib dump_path fs s'))"

section \<open>The connection loop\<close>

text \<open>
  One turn of the loop of \<open>serve\<close> as the outside decides it: the stop flag is set, or
  \<^verbatim>\<open>poll\<close> fails, or it returns with the wake pipe readable or not and the socket readable
  (with what \<^verbatim>\<open>read\<close> then gives) or not.
\<close>

datatype turn = Stop | Poll_failed errno | Polled bool "read_result option"

fun serve_loop ::
    "json_lib \<Rightarrow> bool option \<Rightarrow> turn list \<Rightarrow> frame_reader \<Rightarrow> client_state \<times> bool
      \<Rightarrow> ((client_state \<times> bool) \<times> client_output list \<times> bool) option" where
  "serve_loop lib dump_path [] r s = Some (s, [], True)"
| "serve_loop lib dump_path (t # ts) r s =
     (if t = Stop then Some (s, [], False)
      else case reader_drain r of (fs, r1) \<Rightarrow>
        (case dispatch_all lib dump_path fs s of
           None \<Rightarrow> None
         | Some (s1, out) \<Rightarrow>
             if failed r1 then Some (s1, out, False)
             else
               let continue = (\<lambda>r2. map_option (\<lambda>(s2, out2, alive). (s2, out @ out2, alive))
                     (serve_loop lib dump_path ts r2 s1));
                   break = Some (s1, out, False) in
               case t of
                 Stop \<Rightarrow> break
               | Poll_failed e \<Rightarrow> if e = EINTR then continue r1 else break
               | Polled wake sock \<Rightarrow>
                   if wake then break
                   else (case sock of
                       None \<Rightarrow> continue r1
                     | Some rr \<Rightarrow> (case feed rr r1 of (ok, r2) \<Rightarrow> if ok then continue r2 else break))))"

text \<open>
  \<open>serve\<close>: the Hello first (its printer may throw), then the loop. \<open>hello_sent\<close> is the result
  of \<^verbatim>\<open>write_frame\<close>. The returned boolean says that the connection is still open.
\<close>

definition serve ::
    "json_lib \<Rightarrow> int \<Rightarrow> string option \<Rightarrow> string \<Rightarrow> bool \<Rightarrow> bool option \<Rightarrow> turn list \<Rightarrow> client_state
      \<Rightarrow> (client_state \<times> client_output list \<times> bool) option" where
  "serve lib pid comm cmdline hello_sent dump_path ts st =
     (case hello_payload lib pid comm cmdline of
        None \<Rightarrow> None
      | Some pl \<Rightarrow>
          if \<not> hello_sent then Some (st, [Frame Hello pl], False)
          else map_option (\<lambda>((st', dumped), out, alive). (st', Frame Hello pl # out, alive))
                 (serve_loop lib dump_path ts new_reader (st, False)))"

section \<open>The reconnect loop\<close>

definition kBackoffStartMs :: int where "kBackoffStartMs = 200"
definition kBackoffMaxMs :: int where "kBackoffMaxMs = 2000"

definition next_backoff :: "int \<Rightarrow> int" where
  "next_backoff b =
     (let b' = (if b < kBackoffMaxMs then b * 2 else kBackoffMaxMs)
      in if b' > kBackoffMaxMs then kBackoffMaxMs else b')"

text \<open>
  \<open>run\<close> over the outcomes of \<open>connect_once\<close> (\<^term>\<open>True\<close>: connected and served until the
  connection dropped), until the list ends or a stop is requested: the pauses it makes.
\<close>

fun run_sleeps :: "bool list \<Rightarrow> int \<Rightarrow> int list" where
  "run_sleeps [] backoff = []"
| "run_sleeps (conn # rest) backoff =
     (if conn then kBackoffStartMs # run_sleeps rest kBackoffStartMs
      else backoff # run_sleeps rest (next_backoff backoff))"

section \<open>Lemmas\<close>

lemma self_argv_terminated:
  "list_all (\<lambda>a. a \<noteq> [] \<and> NUL \<notin> set a) as \<Longrightarrow> self_argv (concat (map (\<lambda>a. a @ [NUL]) as)) = as"
proof (induction as)
  case (Cons a as)
  have tw: "takeWhile (\<lambda>c. c \<noteq> NUL) (a @ NUL # r) = a" for r
    using Cons.prems by (subst takeWhile_append2) auto
  show ?case
    using Cons by (subst self_argv.simps) (simp add: tw)
qed (simp add: self_argv.simps)

lemma dispatch_all_append:
  "dispatch_all lib dp (fs @ gs) s =
     (case dispatch_all lib dp fs s of
        None \<Rightarrow> None
      | Some (s', out) \<Rightarrow> map_option (\<lambda>(s'', out'). (s'', out @ out')) (dispatch_all lib dp gs s'))"
  by (induction fs arbitrary: s)
    (auto simp: option.map_comp comp_def case_prod_unfold option.map_ident_strong split: option.splits)

text \<open>Without the debug hook nothing in the dispatch can throw.\<close>

definition pongs :: "decoded_frame list \<Rightarrow> client_output list" where
  "pongs fs = map (\<lambda>f. Frame Pong (payload f)) (filter (\<lambda>f. ftype f = Ping) fs)"

lemma pongs_append [simp]: "pongs (fs @ gs) = pongs fs @ pongs gs"
  by (simp add: pongs_def)

lemma ex_bool [simp]: "\<exists>x. x" "\<exists>x. \<not> x"
  by blast+

fun shown_after :: "json_lib \<Rightarrow> snapshot option \<Rightarrow> decoded_frame \<Rightarrow> snapshot option" where
  "shown_after lib s f =
     (if ftype f = Snapshot then
        (case from_json_str lib (payload f) new_snapshot of (ok, s') \<Rightarrow> if ok then Some s' else s)
      else s)"

fun announced_after ::
    "json_lib \<Rightarrow> (string \<rightharpoonup> avatar_req) \<Rightarrow> decoded_frame \<Rightarrow> (string \<rightharpoonup> avatar_req)" where
  "announced_after lib m f =
     (if ftype f = AvatarReady then
        (case parse_avatar lib (payload f) of
           Some r \<Rightarrow> if q_hash r \<noteq> [] \<and> q_path r \<noteq> [] then m(q_hash r \<mapsto> r) else m
         | None \<Rightarrow> m)
      else m)"

lemma dispatch_eq:
  "dispatch lib None f (st, d) =
     Some ((\<lparr>latest = shown_after lib (latest st) f, disabled = (disabled st \<or> ftype f = Disabled),
             known_avatars = announced_after lib (known_avatars st) f\<rparr>, d), pongs [f])"
  by (cases st; cases "ftype f")
    (auto simp: dispatch_def pongs_def publish_def enqueue_avatar_def split: option.splits prod.splits)

lemma dispatch_all_eq:
  "dispatch_all lib None fs (st, d) =
     Some ((\<lparr>latest = foldl (shown_after lib) (latest st) fs,
             disabled = (disabled st \<or> list_ex (\<lambda>f. ftype f = Disabled) fs),
             known_avatars = foldl (announced_after lib) (known_avatars st) fs\<rparr>, d), pongs fs)"
proof (induction fs arbitrary: st)
  case Nil
  then show ?case by (cases st) (simp add: pongs_def)
next
  case (Cons f fs)
  show ?case
    by (simp add: dispatch_eq Cons pongs_def del: shown_after.simps announced_after.simps)
qed

text \<open>Reading turns up to a time-out are the caller loop of the frame reader.\<close>

definition reading :: "read_result list \<Rightarrow> turn list" where
  "reading xs = map (\<lambda>x. Polled False (Some x)) xs @ [Polled False None]"

lemma serve_loop_reading:
  "serve_loop lib None (reading xs) r s =
     (case read_loop xs r of (fs, r', alive) \<Rightarrow>
        map_option (\<lambda>(s', out). (s', out, alive)) (dispatch_all lib None fs s))"
proof (induction xs arbitrary: r s)
  case Nil
  obtain st d where s: "s = (st, d)" by (cases s)
  show ?case by (simp add: reading_def s dispatch_all_eq split: prod.splits)
next
  case (Cons x xs)
  obtain st d where s: "s = (st, d)" by (cases s)
  obtain fs r1 where dr: "reader_drain r = (fs, r1)" by fastforce
  obtain ok r2 where fd: "feed x r1 = (ok, r2)" by fastforce
  obtain gs r3 alive where rl: "read_loop xs r2 = (gs, r3, alive)" by (cases "read_loop xs r2") auto
  have IH: "serve_loop lib None (map (\<lambda>x. Polled False (Some x)) xs @ [Polled False None]) r2 s' =
      map_option (\<lambda>(s', out). (s', out, alive)) (dispatch_all lib None gs s')" for s'
    using Cons [of r2 s'] rl by (simp add: reading_def)
  show ?case
    using dr fd rl IH
    by (simp add: reading_def s dispatch_all_eq dispatch_all_append)
qed

lemma serve_loop_total: "\<exists>s' out alive. serve_loop lib None ts r s = Some (s', out, alive)"
proof (induction ts arbitrary: r s)
  case (Cons t ts)
  obtain st d where s: "s = (st, d)" by (cases s)
  obtain fs r1 where dr: "reader_drain r = (fs, r1)" by fastforce
  have IH: "serve_loop lib None ts r' s' \<noteq> None" for r' s' using Cons [of r' s'] by auto
  have "serve_loop lib None (t # ts) r s \<noteq> None"
    using dr IH by (cases t) (simp_all add: s dispatch_all_eq Let_def del: not_None_eq split: option.splits prod.splits)
  then show ?case by (cases "serve_loop lib None (t # ts) r s") auto
qed simp

lemma dispatch_all_keeps:
  assumes "dispatch_all lib dp fs (st, d) = Some ((st', d'), out)"
  shows "(disabled st \<longrightarrow> disabled st') \<and> (latest st \<noteq> None \<longrightarrow> latest st' \<noteq> None) \<and>
    dom (known_avatars st) \<subseteq> dom (known_avatars st')"
  using assms
proof (induction fs arbitrary: st d out)
  case (Cons f fs)
  then obtain s1 d1 o1 o2 where h: "dispatch lib dp f (st, d) = Some ((s1, d1), o1)"
    and r: "dispatch_all lib dp fs (s1, d1) = Some ((st', d'), o2)"
    by (auto split: option.splits)
  have "(disabled st \<longrightarrow> disabled s1) \<and> (latest st \<noteq> None \<longrightarrow> latest s1 \<noteq> None) \<and>
      dom (known_avatars st) \<subseteq> dom (known_avatars s1)"
    using h by (cases "ftype f")
      (auto simp: dispatch_def publish_def enqueue_avatar_def split: option.splits prod.splits if_splits)
  with Cons.IH [OF r] show ?case by blast
qed simp

lemma serve_loop_keeps:
  "serve_loop lib dp ts r (st, d) = Some ((st', d'), out, alive) \<Longrightarrow>
     (disabled st \<longrightarrow> disabled st') \<and> (latest st \<noteq> None \<longrightarrow> latest st' \<noteq> None) \<and>
     dom (known_avatars st) \<subseteq> dom (known_avatars st')"
proof (induction ts arbitrary: r st d out)
  case (Cons t ts)
  show ?case
  proof (cases "t = Stop")
    case True
    then show ?thesis using Cons.prems by simp
  next
    case False
    obtain fs r1 where dr: "reader_drain r = (fs, r1)" by fastforce
    from Cons.prems False dr obtain s1 d1 o1 where
      h: "dispatch_all lib dp fs (st, d) = Some ((s1, d1), o1)" by (auto split: option.splits)
    have "(s1, d1) = (st', d') \<or> (\<exists>r2 o2. serve_loop lib dp ts r2 (s1, d1) = Some ((st', d'), o2, alive))"
      using Cons.prems False dr h
      by (auto simp: Let_def split: turn.splits if_splits option.splits prod.splits)
    with Cons.IH dispatch_all_keeps [OF h] show ?thesis by blast
  qed
qed simp

section \<open>Properties\<close>

text \<open>
  C15: Nothing the host sends can bring the game down: apart from the debug hook, the client
  thread ends by an exception exactly when its own Hello cannot be printed, whatever bytes
  arrive and whatever the kernel answers.
\<close>

theorem client_dies_only_of_hello:
  "(serve lib pid comm cmdline hello_sent None ts st = None)
     = (hello_payload lib pid comm cmdline = None)"
proof -
  obtain s' out alive where "serve_loop lib None ts new_reader (st, False) = Some (s', out, alive)"
    using serve_loop_total by blast
  then show ?thesis by (cases s') (simp add: serve_def split: option.splits)
qed



text \<open>
  What was published stays: through a connection, debug hook or not, the Disabled latch is
  never cleared, a snapshot once shown is only replaced by another, and no announced avatar is
  forgotten.
\<close>

theorem client_state_is_monotone:
  assumes "serve lib pid comm cmdline hello_sent dump_path ts st = Some (st', out, alive)"
  shows "(disabled st \<longrightarrow> disabled st') \<and> (latest st \<noteq> None \<longrightarrow> latest st' \<noteq> None) \<and>
    (avatar_for st hash \<noteq> None \<longrightarrow> avatar_for st' hash \<noteq> None)"
proof (cases hello_sent)
  case True
  with assms obtain d o2 where
    "serve_loop lib dump_path ts new_reader (st, False) = Some ((st', d), o2, alive)"
    by (auto simp: serve_def split: option.splits)
  from serve_loop_keeps [OF this] show ?thesis by (auto simp: avatar_for_def)
qed (use assms in \<open>auto simp: serve_def split: option.splits\<close>)

theorem client_state_is_monotone_witness:
  "(disabled (new_client_state\<lparr>disabled := True\<rparr>) \<longrightarrow> disabled (new_client_state\<lparr>disabled := True\<rparr>)) \<and>
    (latest (new_client_state\<lparr>disabled := True\<rparr>) \<noteq> None \<longrightarrow>
      latest (new_client_state\<lparr>disabled := True\<rparr>) \<noteq> None) \<and>
    (avatar_for (new_client_state\<lparr>disabled := True\<rparr>) ''a'' \<noteq> None \<longrightarrow>
      avatar_for (new_client_state\<lparr>disabled := True\<rparr>) ''a'' \<noteq> None)"
  by (rule client_state_is_monotone [where lib = "one_doc (hello_json 1 None []) ''h''" and pid = 1
        and comm = None and cmdline = "[]" and hello_sent = True and dump_path = None and ts = "[Stop]"
        and out = "[Frame Hello ''h'']" and alive = False])
    (simp add: serve_def hello_payload_def one_doc_def)

text \<open>
  While the host is absent the pauses between attempts double from 200 ms up to 2 s and stay
  there; a connection resets them.
\<close>

theorem backoff_schedule:
  "run_sleeps (replicate n False) kBackoffStartMs = map (\<lambda>k. min (200 * 2 ^ k) 2000) [0..<n] \<and>
   run_sleeps (outcomes @ True # rest) kBackoffStartMs =
     run_sleeps outcomes kBackoffStartMs @ kBackoffStartMs # run_sleeps rest kBackoffStartMs"
proof -
  have nb: "next_backoff (min (200 * 2 ^ k) 2000) = min (200 * 2 ^ Suc k) 2000" for k :: nat
    by (auto simp: next_backoff_def kBackoffMaxMs_def Let_def min_def)
  have "run_sleeps (replicate n False) (min (200 * 2 ^ j) 2000)
      = map (\<lambda>k. min (200 * 2 ^ k) 2000) [j..<j + n]" for j
  proof (induction n arbitrary: j)
    case (Suc n)
    show ?case using Suc [of "Suc j"] by (simp only: replicate_Suc run_sleeps.simps nb if_False)
        (simp add: upt_conv_Cons del: upt_Suc)
  qed simp
  from this [of 0] have "run_sleeps (replicate n False) kBackoffStartMs
      = map (\<lambda>k. min (200 * 2 ^ k) 2000) [0..<n]" by (simp add: kBackoffStartMs_def)
  moreover have "run_sleeps (outcomes @ True # rest) b =
     run_sleeps outcomes b @ kBackoffStartMs # run_sleeps rest kBackoffStartMs" for b
    by (induction outcomes arbitrary: b) auto
  ultimately show ?thesis by blast
qed

end
