(* ===== verification/TextureCache.thy ===== *)
theory TextureCache
  imports StateClient
begin

text \<open>
  The seam between the overlay's drawing and a GPU texture cache
  (\<^verbatim>\<open>src/overlay/iavatar_textures.hpp\<close>): resolving an image hash to a texture, and what the two
  implementations (Vulkan, OpenGL) promise. A texture id of 0 is \<^verbatim>\<open>ImTextureID_Invalid\<close>.
\<close>

text \<open>
  \<open>'c\<close> is a cache, \<open>'w\<close> the graphics state its loads change. A cached hash is answered from the
  cache without touching the graphics state; a load that succeeds is cached under its hash; one
  that fails caches nothing; other hashes are not affected.
\<close>

locale texture_cache =
  fixes lookup :: "string \<Rightarrow> 'c \<Rightarrow> nat"
    and get_or_load :: "avatar_req \<Rightarrow> 'c \<Rightarrow> 'w \<Rightarrow> nat \<times> 'c \<times> 'w"
    and inv :: "'c \<Rightarrow> bool"
  assumes inv_load: "inv c \<Longrightarrow> get_or_load req c w = (i, c', w') \<Longrightarrow> inv c'"
    and hit: "inv c \<Longrightarrow> lookup (q_hash req) c \<noteq> 0 \<Longrightarrow> get_or_load req c w = (lookup (q_hash req) c, c, w)"
    and loaded: "inv c \<Longrightarrow> get_or_load req c w = (i, c', w') \<Longrightarrow> lookup (q_hash req) c' = i"
    and others: "inv c \<Longrightarrow> get_or_load req c w = (i, c', w') \<Longrightarrow> h \<noteq> q_hash req \<Longrightarrow> lookup h c' = lookup h c"
begin

text \<open>Loading never loses a texture.\<close>

lemma kept:
  assumes "inv c" and "get_or_load req c w = (i, c', w')" and "lookup h c \<noteq> 0"
  shows "lookup h c' = lookup h c"
proof (cases "h = q_hash req")
  case True
  with hit [of c req w] assms have "(i, c', w') = (lookup h c, c, w)" by simp
  then show ?thesis by simp
qed (use others assms in blast)

end

text \<open>
  \<open>resolve_icon\<close> of the drawing code, over either cache: \<open>avatars\<close> is what the host announced
  (\<^verbatim>\<open>client.avatar_for\<close>).
\<close>

definition resolve_icon ::
    "(string \<Rightarrow> 'c \<Rightarrow> nat) \<Rightarrow> (avatar_req \<Rightarrow> 'c \<Rightarrow> 'w \<Rightarrow> nat \<times> 'c \<times> 'w) \<Rightarrow> client_state \<Rightarrow> string \<Rightarrow>
       'c \<times> 'w \<Rightarrow> nat \<times> 'c \<times> 'w" where
  "resolve_icon lookup get_or_load client hash cw =
     (case cw of (c, w) \<Rightarrow>
        if hash = [] then (0, c, w)
        else if lookup hash c \<noteq> 0 then (lookup hash c, c, w)
        else case avatar_for client hash of
          Some req \<Rightarrow> get_or_load req c w
        | None \<Rightarrow> (0, c, w))"

text \<open>The icons of one frame, in drawing order.\<close>

fun resolve_all ::
    "(string \<Rightarrow> 'c \<Rightarrow> nat) \<Rightarrow> (avatar_req \<Rightarrow> 'c \<Rightarrow> 'w \<Rightarrow> nat \<times> 'c \<times> 'w) \<Rightarrow> client_state \<Rightarrow> string list \<Rightarrow>
       'c \<times> 'w \<Rightarrow> nat list \<times> 'c \<times> 'w" where
  "resolve_all lookup get_or_load client [] cw = ([], cw)"
| "resolve_all lookup get_or_load client (h # hs) cw =
     (case resolve_icon lookup get_or_load client h cw of
        (i, cw1) \<Rightarrow> (case resolve_all lookup get_or_load client hs cw1 of (is, cw2) \<Rightarrow> (i # is, cw2)))"

text \<open>What every announced load keeps, the icons of a frame keep.\<close>

lemma resolve_all_invariant:
  assumes "\<And>k req c w i c' w'. avatar_for client k = Some req \<Longrightarrow> P c w \<Longrightarrow> load req c w = (i, c', w') \<Longrightarrow> P c' w'"
  shows "P c w \<Longrightarrow> resolve_all lk load client hs (c, w) = (is, c', w') \<Longrightarrow> P c' w'"
proof (induction hs arbitrary: c w "is")
  case (Cons h hs)
  obtain i c1 w1 where 1: "resolve_icon lk load client h (c, w) = (i, c1, w1)" by (metis prod.exhaust)
  obtain is2 where 2: "resolve_all lk load client hs (c1, w1) = (is2, c', w')"
    using Cons.prems(2) 1 by (auto split: prod.splits)
  have "P c1 w1"
    using 1 Cons.prems(1) assms by (auto simp: resolve_icon_def split: if_splits option.splits)
  from Cons.IH [OF this 2] show ?case .
qed simp

context texture_cache begin

lemma resolve_inv: "inv c \<Longrightarrow> resolve_icon lookup get_or_load client h (c, w) = (i, c', w') \<Longrightarrow> inv c'"
  by (auto simp: resolve_icon_def split: if_splits option.splits dest: inv_load)

lemma resolve_kept:
  "inv c \<Longrightarrow> resolve_icon lookup get_or_load client h (c, w) = (i, c', w') \<Longrightarrow> lookup k c \<noteq> 0 \<Longrightarrow>
     lookup k c' = lookup k c"
  by (auto simp: resolve_icon_def split: if_splits option.splits dest: kept)

lemma resolve_all_kept:
  "inv c \<Longrightarrow> resolve_all lookup get_or_load client hs (c, w) = (is, c', w') \<Longrightarrow> lookup k c \<noteq> 0 \<Longrightarrow>
     lookup k c' = lookup k c \<and> inv c'"
proof (induction hs arbitrary: c w "is")
  case (Cons h hs)
  obtain i c1 w1 where 1: "resolve_icon lookup get_or_load client h (c, w) = (i, c1, w1)"
    by (cases "resolve_icon lookup get_or_load client h (c, w)") auto
  obtain is2 where 2: "resolve_all lookup get_or_load client hs (c1, w1) = (is2, c', w')"
    using Cons.prems(2) 1 by (auto split: prod.splits)
  from resolve_kept [OF Cons.prems(1) 1 Cons.prems(3)] have k: "lookup k c1 = lookup k c" .
  with Cons.IH [OF resolve_inv [OF Cons.prems(1) 1] 2] Cons.prems(3) show ?case by simp
qed simp

text \<open>A frame all of whose icons are cached touches nothing and draws the cached textures.\<close>

lemma resolve_cached:
  "inv c \<Longrightarrow> list_all (\<lambda>h. h \<noteq> [] \<and> lookup h c \<noteq> 0) hs \<Longrightarrow>
     resolve_all lookup get_or_load client hs (c, w) = (map (\<lambda>h. lookup h c) hs, c, w)"
  by (induction hs) (simp_all add: resolve_icon_def)

end

end
