(* ===== verification/AvatarFile.thy ===== *)
theory AvatarFile
  imports Prelude
begin

text \<open>
  The avatar cache file (\<^verbatim>\<open>src/ipc/avatar_file.cpp\<close>) that the host writes and the
  overlay reads: four magic bytes, two 32-bit little-endian dimensions, then the pixels. The
  answers of \<^verbatim>\<open>fopen\<close>, \<^verbatim>\<open>fwrite\<close> and \<^verbatim>\<open>fclose\<close> are inputs of the writer, so a
  write that fails half-way is a run of the model.
\<close>

section \<open>Definitions\<close>

definition kMagic :: bytes where
  "kMagic = [byte_of CHR ''C'', byte_of CHR ''H'', byte_of CHR ''A'', byte_of CHR ''V'']"

definition put_u32_le :: "u32 \<Rightarrow> bytes" where
  "put_u32_le v = le32_bytes v"

definition get_u32_le :: "bytes \<Rightarrow> u32" where
  "get_u32_le p = le32_word (p ! 0) (p ! 1) (p ! 2) (p ! 3)"

text \<open>\<^verbatim>\<open>static_cast<size_t>(w) * static_cast<size_t>(h) * 4u\<close>, in 64 bits.\<close>

definition body_size :: "u32 \<Rightarrow> u32 \<Rightarrow> nat" where
  "body_size w h = unat (ucast w * ucast h * 4 :: u64)"

text \<open>What the C library answers while the file is written.\<close>

record write_io =
  can_open :: bool
  hdr_accepted :: nat
  body_accepted :: nat
  close_ok :: bool

text \<open>
  The returned boolean and what the file at \<^verbatim>\<open>path\<close> then holds, \<^term>\<open>None\<close> when it is
  not touched. \<open>rgba\<close> is \<^term>\<open>None\<close> for a null pointer; a buffer shorter than the body
  is outside the function's contract.
\<close>

definition write_avatar_rgba :: "write_io \<Rightarrow> u32 \<Rightarrow> u32 \<Rightarrow> bytes option \<Rightarrow> bool \<times> bytes option" where
  "write_avatar_rgba io w h rgba =
     (if rgba = None \<and> (w \<noteq> 0 \<and> h \<noteq> 0) then (False, None)
      else if \<not> can_open io then (False, None)
      else
        let header = kMagic @ put_u32_le w @ put_u32_le h;
            n = min (hdr_accepted io) (length header);
            ok1 = (n = length header);
            body = body_size w h;
            pixels = (case rgba of None \<Rightarrow> [] | Some px \<Rightarrow> take body px);
            k = (if ok1 \<and> body > 0 then min (body_accepted io) body else 0);
            ok2 = (ok1 \<and> (body > 0 \<longrightarrow> k = body));
            ok3 = (ok2 \<and> close_ok io)
        in (ok3, Some (take n header @ take k pixels)))"

definition kMaxDim :: u32 where
  "kMaxDim = 8192"

text \<open>The contents of the file, \<^term>\<open>None\<close> when it cannot be opened.\<close>

definition read_avatar_rgba :: "bytes option \<Rightarrow> (u32 \<times> u32 \<times> bytes) option" where
  "read_avatar_rgba file =
     (case file of
        None \<Rightarrow> None
      | Some f \<Rightarrow>
          let header = take 12 f; rest = drop 12 f in
          if length header \<noteq> 12 then None
          else if header ! 0 \<noteq> kMagic ! 0 \<or> header ! 1 \<noteq> kMagic ! 1 \<or>
                  header ! 2 \<noteq> kMagic ! 2 \<or> header ! 3 \<noteq> kMagic ! 3 then None
          else
            let fw = get_u32_le (drop 4 header); fh = get_u32_le (drop 8 header) in
            if fw = 0 \<or> fh = 0 \<or> fw > kMaxDim \<or> fh > kMaxDim then None
            else
              let body = body_size fw fh; pixels = take body rest in
              if length pixels \<noteq> body then None
              else if drop body rest \<noteq> [] then None
              else Some (fw, fh, pixels))"

text \<open>The dimensions the reader accepts.\<close>

definition dims_ok :: "u32 \<Rightarrow> u32 \<Rightarrow> bool" where
  "dims_ok w h \<longleftrightarrow> 0 < w \<and> w \<le> kMaxDim \<and> 0 < h \<and> h \<le> kMaxDim"

definition avatar_image :: "u32 \<Rightarrow> u32 \<Rightarrow> bytes \<Rightarrow> bytes" where
  "avatar_image w h px = kMagic @ le32_bytes w @ le32_bytes h @ px"

section \<open>Lemmas\<close>

lemma length_kMagic [simp]: "length kMagic = 4"
  by (simp add: kMagic_def)

lemma length_avatar_image [simp]: "length (avatar_image w h px) = 12 + length px"
  by (simp add: avatar_image_def)

lemma get_u32_le_append [simp]: "get_u32_le (le32_bytes v @ rest) = v"
  unfolding get_u32_le_def by (rule le32_word_nth) simp

lemma get_u32_le_bytes [simp]: "get_u32_le (le32_bytes v) = v"
  using get_u32_le_append [of v "[]"] by simp

lemma le32_bytes_get: "length p = 4 \<Longrightarrow> le32_bytes (get_u32_le p) = p"
  using le32_bytes_nth [of p] by (simp add: get_u32_le_def)

text \<open>Within the cap the size does not wrap.\<close>

lemma body_size_eq:
  assumes "dims_ok w h"
  shows "body_size w h = 4 * (unat w * unat h)"
proof -
  have w: "unat w \<le> 8192" and h: "unat h \<le> 8192"
    using assms by (auto simp: dims_ok_def kMaxDim_def word_le_nat_alt)
  have "unat w * unat h \<le> 8192 * 8192" by (rule mult_le_mono [OF w h])
  then show ?thesis
    using w by (simp add: body_size_def unat_word_ariths unat_ucast_32_64 mult_ac)
qed

lemma body_size_pos: "dims_ok w h \<Longrightarrow> 0 < body_size w h"
  by (simp add: body_size_eq) (simp add: dims_ok_def word_greater_zero_iff unat_gt_0)

lemma magic_prefix:
  "length p = 12 \<Longrightarrow> p ! 0 = kMagic ! 0 \<Longrightarrow> p ! 1 = kMagic ! 1 \<Longrightarrow> p ! 2 = kMagic ! 2 \<Longrightarrow>
     p ! 3 = kMagic ! 3 \<Longrightarrow> take 4 p = kMagic"
  by (rule nth_equalityI) (auto simp: less_Suc_eq numeral_eq_Suc)

lemma read_avatar_image:
  assumes "dims_ok w h" and "length px = body_size w h"
  shows "read_avatar_rgba (Some (avatar_image w h px)) = Some (w, h, px)"
proof -
  have "take 12 (avatar_image w h px) = kMagic @ le32_bytes w @ le32_bytes h"
    and "drop 12 (avatar_image w h px) = px"
    by (simp_all add: avatar_image_def)
  moreover have "\<not> (w = 0 \<or> h = 0 \<or> kMaxDim < w \<or> kMaxDim < h)"
    using assms(1) by (auto simp: dims_ok_def)
  ultimately show ?thesis
    using assms(2) by (simp add: read_avatar_rgba_def nth_append)
qed

lemma read_avatar_rgba_sound:
  assumes "read_avatar_rgba (Some f) = Some (w, h, px)"
  shows "dims_ok w h \<and> length px = body_size w h \<and> f = avatar_image w h px"
proof -
  let ?p = "take 12 f" and ?q = "drop 12 f"
  from assms have len: "length ?p = 12"
    and mg: "?p ! 0 = kMagic ! 0" "?p ! 1 = kMagic ! 1" "?p ! 2 = kMagic ! 2" "?p ! 3 = kMagic ! 3"
    and w: "w = get_u32_le (drop 4 ?p)" and h: "h = get_u32_le (drop 8 ?p)"
    and d: "w \<noteq> 0" "h \<noteq> 0" "\<not> w > kMaxDim" "\<not> h > kMaxDim"
    and px: "px = take (body_size w h) ?q" "length px = body_size w h" "drop (body_size w h) ?q = []"
    by (auto simp: read_avatar_rgba_def Let_def split: if_splits)
  have q: "?q = px" using px(1,3) append_take_drop_id [of "body_size w h" ?q] by simp
  have "?p = take 4 ?p @ take 4 (drop 4 ?p) @ drop 8 ?p"
    using append_take_drop_id [of 4 ?p] append_take_drop_id [of 4 "drop 4 ?p"] by simp
  also have "take 4 ?p = kMagic" by (rule magic_prefix [OF len mg])
  also have "take 4 (drop 4 ?p) = le32_bytes w"
    using le32_bytes_nth [of "drop 4 ?p"] len by (simp add: w get_u32_le_def)
  also have "drop 8 ?p = le32_bytes h"
    using le32_bytes_get [of "drop 8 ?p"] len by (simp add: h)
  finally have "f = avatar_image w h px"
    using append_take_drop_id [of 12 f] q by (simp add: avatar_image_def)
  then show ?thesis
    using d px(2) by (auto simp: dims_ok_def word_greater_zero_iff)
qed

lemma write_avatar_eq:
  "write_avatar_rgba io w h (Some px) =
     (if \<not> can_open io then (False, None)
      else if hdr_accepted io < 12
      then (False, Some (take (hdr_accepted io) (avatar_image w h [])))
      else (body_size w h \<le> body_accepted io \<and> close_ok io,
            Some (avatar_image w h (take (min (body_accepted io) (body_size w h)) px))))"
  by (auto simp: write_avatar_rgba_def avatar_image_def put_u32_le_def Let_def min_def)

section \<open>Properties\<close>

text \<open>
  The reader accepts a file exactly when it is the image of an avatar of at most 8192 by
  8192 pixels: any other magic, a zero or larger dimension, a missing byte and a trailing byte
  are all refused, and the size computation does not wrap on what is accepted.
\<close>

theorem read_avatar_characterisation:
  "read_avatar_rgba (Some f) = Some (w, h, px) \<longleftrightarrow>
     0 < w \<and> w \<le> 8192 \<and> 0 < h \<and> h \<le> 8192 \<and>
     length px = 4 * (unat w * unat h) \<and> f = avatar_image w h px"
proof -
  have "dims_ok w h \<longleftrightarrow> 0 < w \<and> w \<le> 8192 \<and> 0 < h \<and> h \<le> 8192"
    by (simp add: dims_ok_def kMaxDim_def)
  then show ?thesis
    using read_avatar_rgba_sound [of f w h px] read_avatar_image [of w h px] body_size_eq [of w h]
    by auto
qed

text \<open>
  Writing an avatar of acceptable dimensions leaves a file that reads back to it exactly
  when every byte was accepted; if the write stopped anywhere before the last byte, it
  reported failure and the reader refuses what it left behind.
\<close>

theorem write_then_read_avatar:
  assumes "0 < w" "w \<le> 8192" "0 < h" "h \<le> 8192" and "length px = 4 * (unat w * unat h)"
    and "write_avatar_rgba io w h (Some px) = (ok, Some f)"
  shows "(ok \<longrightarrow> read_avatar_rgba (Some f) = Some (w, h, px)) \<and>
    (\<not> ok \<and> close_ok io \<longrightarrow> read_avatar_rgba (Some f) = None)"
proof -
  have d: "dims_ok w h" using assms(1-4) by (simp add: dims_ok_def kMaxDim_def)
  have len: "length px = body_size w h" using assms(5) by (simp add: body_size_eq [OF d])
  show ?thesis
  proof (cases "hdr_accepted io < 12")
    case True
    then have "\<not> ok" "length f < 12"
      using assms(6) by (auto simp: write_avatar_eq split: if_splits)
    then show ?thesis by (simp add: read_avatar_rgba_def Let_def)
  next
    case False
    then have f: "f = avatar_image w h (take (min (body_accepted io) (body_size w h)) px)"
      and ok: "ok \<longleftrightarrow> body_size w h \<le> body_accepted io \<and> close_ok io"
      using assms(6) by (auto simp: write_avatar_eq split: if_splits)
    have "read_avatar_rgba (Some f) = None" if "body_accepted io < body_size w h"
    proof (rule ccontr)
      assume "read_avatar_rgba (Some f) \<noteq> None"
      then obtain w' h' q where "read_avatar_rgba (Some f) = Some (w', h', q)" by auto
      from read_avatar_rgba_sound [OF this]
      have q: "length q = body_size w' h'" and e: "f = avatar_image w' h' q" by auto
      have "le32_bytes w' = le32_bytes w" "le32_bytes h' = le32_bytes h"
        using e f by (simp_all add: avatar_image_def)
      then have "w' = w" "h' = h" by (metis get_u32_le_bytes)+
      with q have "length f = 12 + body_size w h" using e by simp
      with f that len show False by simp
    qed
    then show ?thesis
      using ok f len read_avatar_image [OF d len] by (auto simp: not_le)
  qed
qed

theorem write_then_read_avatar_witness:
  "read_avatar_rgba (Some (avatar_image 1 2 [1, 2, 3, 4, 5, 6, 7, 8]))
     = Some (1, 2, [1, 2, 3, 4, 5, 6, 7, 8])"
proof -
  have d: "dims_ok 1 2" by (simp add: dims_ok_def kMaxDim_def)
  have "write_avatar_rgba \<lparr>can_open = True, hdr_accepted = 12, body_accepted = 8, close_ok = True\<rparr>
      1 2 (Some [1, 2, 3, 4, 5, 6, 7, 8])
    = (True, Some (avatar_image 1 2 [1, 2, 3, 4, 5, 6, 7, 8]))"
    by (simp add: write_avatar_eq body_size_eq [OF d])
  from write_then_read_avatar [OF _ _ _ _ _ this] show ?thesis by simp
qed

end
