(* ===== verification/AvatarTextures.thy ===== *)
theory AvatarTextures
  imports Renderer TextureCache AvatarFile
begin

text \<open>
  The Vulkan texture cache (\<^verbatim>\<open>src/layer/avatar_textures.cpp\<close>): an image file becomes a sampled
  image through a staging buffer and a one-shot command buffer. What each stage has created is
  freed when a later one fails.
\<close>

section \<open>State\<close>

record texture =
  x_image :: nat
  x_memory :: nat
  x_view :: nat
  x_sampler :: nat
  x_descriptor :: nat

definition no_texture :: texture where
  "no_texture = \<lparr>x_image = 0, x_memory = 0, x_view = 0, x_sampler = 0, x_descriptor = 0\<rparr>"

record avatar_textures =
  a_renderer :: "renderer option"
  a_textures :: "(string \<times> texture) list"

definition new_avatar_textures :: avatar_textures where
  "new_avatar_textures = \<lparr>a_renderer = None, a_textures = []\<rparr>"

text \<open>
  The memory types of the device, and the types each of the two allocations may use
  (\<^verbatim>\<open>memoryTypeBits\<close>).
\<close>

record gpu_memory =
  m_types :: "u32 list"
  m_image_bits :: u32
  m_buffer_bits :: u32

definition DEVICE_LOCAL :: u32 where "DEVICE_LOCAL = 1"
definition HOST_VISIBLE_COHERENT :: u32 where "HOST_VISIBLE_COHERENT = 6"

definition find_memory_type :: "u32 list \<Rightarrow> u32 \<Rightarrow> u32 \<Rightarrow> nat option" where
  "find_memory_type mp bits want =
     find (\<lambda>i. bit bits i \<and> (mp ! i) AND want = want) [0..<length mp]"

section \<open>Operations\<close>

definition destroy_texture :: "renderer option \<Rightarrow> texture \<Rightarrow> vk \<Rightarrow> texture \<times> vk" where
  "destroy_texture ro t v =
     (case ro of None \<Rightarrow> (t, v)
      | Some r \<Rightarrow>
          (case r_disp r of
             Some dd \<Rightarrow>
               if r_device r \<noteq> 0 then
                 (no_texture,
                  destroy_if (has dd ''FreeMemory'') K_memory (x_memory t)
                    (destroy_if (has dd ''DestroyImage'') K_image (x_image t)
                      (destroy_if (has dd ''DestroyImageView'') K_view (x_view t)
                        (destroy_if (has dd ''DestroySampler'') K_sampler (x_sampler t) v))))
               else (no_texture, v)
           | None \<Rightarrow> (no_texture, v)))"

definition create_texture_needs :: "string list" where
  "create_texture_needs =
     [''CreateImage'', ''DestroyImage'', ''GetImageMemoryRequirements'', ''BindImageMemory'', ''CreateBuffer'',
      ''DestroyBuffer'', ''GetBufferMemoryRequirements'', ''BindBufferMemory'', ''AllocateMemory'',
      ''FreeMemory'', ''MapMemory'', ''UnmapMemory'', ''CreateSampler'', ''DestroySampler'',
      ''CreateImageView'', ''DestroyImageView'', ''CreateCommandPool'', ''DestroyCommandPool'',
      ''AllocateCommandBuffers'', ''BeginCommandBuffer'', ''EndCommandBuffer'', ''CmdCopyBufferToImage'',
      ''CmdPipelineBarrier'', ''CreateFence'', ''DestroyFence'', ''WaitForFences'', ''QueueSubmit'']"

text \<open>The image and its memory; a failure leaves what was made in \<open>t\<close> for the caller to free.\<close>

definition make_image :: "gpu_memory \<Rightarrow> texture \<Rightarrow> vk \<Rightarrow> bool \<times> texture \<times> vk" where
  "make_image mem t v =
     (let (image, v) = create K_image v; t = t\<lparr>x_image := image\<rparr> in
      if image = 0 then (False, t, v)
      else
        let kind = (case find_memory_type (m_types mem) (m_image_bits mem) DEVICE_LOCAL of
                      Some i \<Rightarrow> Some i | None \<Rightarrow> find_memory_type (m_types mem) (m_image_bits mem) 0) in
        if kind = None then (False, t, v)
        else
          let (memory, v) = create K_memory v; t = t\<lparr>x_memory := memory\<rparr> in
          if memory = 0 then (False, t, v)
          else let (bound, v) = ask v in (bound, t, v))"

text \<open>The staging buffer, filled; its two handles are 0 where nothing was made.\<close>

definition make_staging :: "gpu_memory \<Rightarrow> vk \<Rightarrow> bool \<times> nat \<times> nat \<times> vk" where
  "make_staging mem v =
     (let (staging, v) = create K_buffer v in
      if staging = 0 then (False, 0, 0, v)
      else if find_memory_type (m_types mem) (m_buffer_bits mem) HOST_VISIBLE_COHERENT = None
      then (False, staging, 0, v)
      else
        let (staging_mem, v) = create K_memory v in
        if staging_mem = 0 then (False, staging, 0, v)
        else
          let (bound, v) = ask v in
          if \<not> bound then (False, staging, staging_mem, v)
          else let (mapped, v) = ask v in (mapped, staging, staging_mem, v))"

definition free_staging :: "nat \<Rightarrow> nat \<Rightarrow> vk \<Rightarrow> vk" where
  "free_staging staging staging_mem v =
     destroy_if True K_buffer staging (destroy_if True K_memory staging_mem v)"

text \<open>The copy: pool, command buffer, recording, fence, submit and wait; all freed again.\<close>

definition upload :: "nat \<Rightarrow> vk \<Rightarrow> bool \<times> vk" where
  "upload queue v =
     (let (pool, v) = create_pool v in
      if pool = 0 then (False, v)
      else
        let (cmds, v) = allocate_commands pool 1 v in
        case cmds of
          None \<Rightarrow> (False, destroy K_command_pool pool v)
        | Some cs \<Rightarrow>
            let cmd = hd cs; (begun, v) = begin_command cmd v in
            if \<not> begun then (False, destroy K_command_pool pool v)
            else
              let (ended, v) = ask v in
              if \<not> ended then (False, destroy K_command_pool pool v)
              else
                let (fence, v) = create_fence Unsignaled v in
                if fence = 0 then (False, destroy K_command_pool pool v)
                else
                  let (submitted, v) = submit queue [] cmd [] fence v;
                      (ok, v) = (if submitted then wait_fence fence v else (False, v))
                  in (ok, destroy K_command_pool pool (destroy K_fence fence v)))"

definition make_view :: "texture \<Rightarrow> vk \<Rightarrow> bool \<times> texture \<times> vk" where
  "make_view t v =
     (let (view, v) = create K_view v; t = t\<lparr>x_view := view\<rparr> in
      if view = 0 then (False, t, v)
      else let (sampler, v) = create K_sampler v; t = t\<lparr>x_sampler := sampler\<rparr>
           in (sampler \<noteq> 0, t, v))"

definition create_texture ::
    "device_data option \<Rightarrow> gpu_memory \<Rightarrow> renderer option \<Rightarrow> vk \<Rightarrow> bool \<times> texture \<times> vk" where
  "create_texture dev mem ro v =
     (let t = no_texture in
      case ro of None \<Rightarrow> (False, t, v)
      | Some r \<Rightarrow>
          (case r_disp r of
             None \<Rightarrow> (False, t, v)
           | Some dp \<Rightarrow>
               if r_device r = 0 \<or> \<not> list_all (has dp) create_texture_needs then (False, t, v)
               else
                 (case dev of
                    None \<Rightarrow> (False, t, v)
                  | Some dd \<Rightarrow>
                      if \<not> dd_has_graphics_queue_family dd \<or> dd_graphics_queue dd = 0 \<or>
                         \<not> dd_get_phys_mem_props dd \<or> dd_physical_device dd = 0 then (False, t, v)
                      else
                        let (ok, t, v) = make_image mem t v;
                            failed = (\<lambda>(t, v). (False, destroy_texture ro t v)) in
                        if \<not> ok then failed (t, v)
                        else
                          let (ok, staging, staging_mem, v) = make_staging mem v in
                          if \<not> ok then failed (t, free_staging staging staging_mem v)
                          else
                            let (ok, v) = upload (dd_graphics_queue dd) v; v = free_staging staging staging_mem v in
                            if \<not> ok then failed (t, v)
                            else let (ok, t, v) = make_view t v in
                              if \<not> ok then failed (t, v) else (True, t, v))))"

definition lookup :: "string \<Rightarrow> avatar_textures \<Rightarrow> nat" where
  "lookup hash a = (case map_of (a_textures a) hash of None \<Rightarrow> 0 | Some t \<Rightarrow> x_descriptor t)"

text \<open>\<open>files\<close> is what the file system holds; the decoded size is checked once more.\<close>

definition get_or_load ::
    "device_data option \<Rightarrow> gpu_memory \<Rightarrow> (string \<Rightarrow> bytes option) \<Rightarrow> avatar_req \<Rightarrow> avatar_textures \<Rightarrow> vk \<Rightarrow>
       nat \<times> avatar_textures \<times> vk" where
  "get_or_load dev mem files req a v =
     (if q_hash req = [] then (0, a, v)
      else case map_of (a_textures a) (q_hash req) of
        Some t \<Rightarrow> (x_descriptor t, a, v)
      | None \<Rightarrow>
          (case a_renderer a of
             None \<Rightarrow> (0, a, v)
           | Some r \<Rightarrow>
               if \<not> ready r then (0, a, v)
               else case read_avatar_rgba (files (q_path req)) of
                 None \<Rightarrow> (0, a, v)
               | Some (fw, fh, rgba) \<Rightarrow>
                   if fw = 0 \<or> fh = 0 \<or> length rgba \<noteq> unat fw * unat fh * 4 then (0, a, v)
                   else
                     let (ok, t, v) = create_texture dev mem (Some r) v in
                     if \<not> ok then (0, a, v)
                     else
                       let (descriptor, v) = add_texture r v; t = t\<lparr>x_descriptor := descriptor\<rparr> in
                       if descriptor = 0 then (0, a, snd (destroy_texture (Some r) t v))
                       else (descriptor, a\<lparr>a_textures := (q_hash req, t) # a_textures a\<rparr>, v)))"

fun drop_textures :: "renderer option \<Rightarrow> (string \<times> texture) list \<Rightarrow> vk \<Rightarrow> vk" where
  "drop_textures ro [] v = v"
| "drop_textures ro ((h, t) # ts) v =
     drop_textures ro ts (snd (destroy_texture ro (t\<lparr>x_descriptor := 0\<rparr>)
       (case ro of Some r \<Rightarrow> if x_descriptor t \<noteq> 0 then remove_texture (x_descriptor t) r v else v | None \<Rightarrow> v)))"

definition textures_shutdown :: "avatar_textures \<Rightarrow> vk \<Rightarrow> avatar_textures \<times> vk" where
  "textures_shutdown a v = (new_avatar_textures, drop_textures (a_renderer a) (a_textures a) v)"

section \<open>Nothing is leaked\<close>

definition texture_objs :: "texture \<Rightarrow> obj list" where
  "texture_objs t = [(K_sampler, x_sampler t), (K_view, x_view t), (K_image, x_image t), (K_memory, x_memory t)]"

definition able :: "renderer \<Rightarrow> bool" where
  "able r \<longleftrightarrow> r_device r \<noteq> 0 \<and> (\<exists>dd. r_disp r = Some dd \<and> list_all (has dd) create_texture_needs)"

lemma able_names:
  "list_all (has dd) create_texture_needs \<Longrightarrow>
     has dd ''FreeMemory'' \<and> has dd ''DestroyImage'' \<and> has dd ''DestroyImageView'' \<and> has dd ''DestroySampler''"
  by (simp add: create_texture_needs_def)

lemma texture_destroyed:
  assumes "accounts B (texture_objs t @ xs) v" and "able r"
  shows "accounts B xs (snd (destroy_texture (Some r) t v))"
proof -
  obtain dd where dd: "r_disp r = Some dd" "r_device r \<noteq> 0" "list_all (has dd) create_texture_needs"
    using assms(2) by (auto simp: able_def)
  note n = able_names [OF dd(3)]
  have "accounts B ((K_sampler, x_sampler t) # (K_view, x_view t) # (K_image, x_image t) # (K_memory, x_memory t) # xs) v"
    using assms(1) by (simp add: texture_objs_def)
  then have "accounts B xs (destroy_if True K_memory (x_memory t) (destroy_if True K_image (x_image t)
      (destroy_if True K_view (x_view t) (destroy_if True K_sampler (x_sampler t) v))))"
    by (intro accounts_destroy) simp_all
  then show ?thesis using dd n by (simp add: destroy_texture_def)
qed

lemma image_made:
  assumes "accounts B xs v" and "make_image mem no_texture v = (ok, t, v')"
  shows "accounts B (texture_objs t @ xs) v' \<and> x_view t = 0 \<and> x_sampler t = 0 \<and> x_descriptor t = 0"
proof -
  obtain image v1 where 1: "create K_image v = (image, v1)" by fastforce
  obtain memory v2 where 2: "create K_memory v1 = (memory, v2)" by fastforce
  obtain bound v3 where 3: "ask v2 = (bound, v3)" by fastforce
  note a1 = accounts_create [OF assms(1) 1]
  note a2 = accounts_swap [OF accounts_create [OF a1 2]]
  show ?thesis
    using assms(2) 1 2 3 a1 a2 accounts_ask [OF 3]
    by (auto simp: make_image_def texture_objs_def no_texture_def Let_def split: if_splits option.splits)
qed

lemma staging_made:
  assumes "accounts B xs v" and "make_staging mem v = (ok, staging, staging_mem, v')"
  shows "accounts B ((K_memory, staging_mem) # (K_buffer, staging) # xs) v'"
proof -
  obtain buf v1 where 1: "create K_buffer v = (buf, v1)" by fastforce
  obtain memory v2 where 2: "create K_memory v1 = (memory, v2)" by fastforce
  obtain bound v3 where 3: "ask v2 = (bound, v3)" by fastforce
  obtain mapped v4 where 4: "ask v3 = (mapped, v4)" by fastforce
  note a1 = accounts_create [OF assms(1) 1]
  note a2 = accounts_create [OF a1 2]
  show ?thesis
    using assms(2) 1 2 3 4 a1 a2 accounts_ask [OF 3] accounts_ask [OF 4]
    by (auto simp: make_staging_def Let_def split: if_splits)
qed

lemma staging_freed:
  "accounts B ((K_memory, m) # (K_buffer, b) # xs) v \<Longrightarrow> accounts B xs (free_staging b m v)"
  unfolding free_staging_def by (intro accounts_destroy) simp_all

lemma upload_accounts:
  assumes "accounts B xs v" and "upload queue v = (ok, v')"
  shows "accounts B xs v'"
proof -
  obtain pool v1 where 1: "create_pool v = (pool, v1)" by fastforce
  obtain cs v2 where 2: "allocate_commands pool 1 v1 = (cs, v2)" by fastforce
  note a1 = accounts_pool [OF assms(1) 1] note a2 = accounts_commands [OF a1(1) 2]
  have drop: "accounts B xs (destroy K_command_pool pool w)"
    if "accounts B ((K_command_pool, pool) # xs) w" "pool \<noteq> 0" "list_all (idle w) (vk_pool_cmds w pool)" for w
    using accounts_destroy_pool [OF that(1,3)] that(2) by (simp add: destroy_as_if)
  show ?thesis
  proof (cases "pool = 0 \<or> cs = None")
    case True
    have none: "accounts B xs (destroy K_command_pool pool v2)" if "cs = None" "pool \<noteq> 0"
      using drop [OF a2(1) that(2)] a2(7) [OF that(1)] a1(6) [OF that(2)] by simp
    show ?thesis
      using True assms(2) 1 2 a1(1) none by (auto simp: upload_def simp del: One_nat_def split: if_splits)
  next
    case False
    then obtain c where c: "cs = Some [c]" and pool: "pool \<noteq> 0"
      using a2(8) by (cases cs) (auto simp: length_Suc_conv)
    have p2: "vk_pool_cmds v2 pool = [c]" "vk_next v1 < c" "c \<le> vk_next v2" using a2(8) [OF c] by simp_all
    have "vk_wf v1" using a1(1) by (simp add: accounts_def)
    then have i2: "vk_fence v2 f \<noteq> Pending c" for f using p2(2) a2(2) by (fastforce simp: vk_wf_def)
    obtain begun v3 where 3: "begin_command c v2 = (begun, v3)" by fastforce
    obtain ended v4 where 4: "ask v3 = (ended, v4)" by fastforce
    obtain fence v5 where 5: "create_fence Unsignaled v4 = (fence, v5)" by fastforce
    obtain sub v6 where 6: "submit queue [] c [] fence v5 = (sub, v6)" by fastforce
    obtain ok' v7 where 7: "(if sub then wait_fence fence v6 else (False, v6)) = (ok', v7)" by fastforce
    have a3: "accounts B ((K_command_pool, pool) # xs) v3" "vk_fence v3 = vk_fence v2" "vk_pool_cmds v3 = vk_pool_cmds v2"
      "vk_next v3 = vk_next v2"
      using accounts_begin [OF a2(1) _ 3] i2 by (auto simp: idle_def)
    note k4 = ask_keeps [OF 4]
    have a4: "accounts B ((K_command_pool, pool) # xs) v4" using a3(1) accounts_ask [OF 4] by simp
    note a5 = accounts_new_fence [OF a4 5, simplified]
    have i3: "list_all (idle w) (vk_pool_cmds w pool)" if "vk_pool_cmds w = vk_pool_cmds v2" "vk_fence w = vk_fence v2" for w
      using that p2 i2 by (simp add: idle_def)
    have d: "accounts B xs (destroy K_command_pool pool w)" if "w = v3 \<or> w = v4" for w
      using that a3 a4 k4 pool by (intro drop i3) auto
    show ?thesis
    proof (cases "fence = 0 \<or> \<not> begun \<or> \<not> ended")
      case True
      moreover have "accounts B xs (destroy K_command_pool pool v5)" if "fence = 0"
        using that a5(1,2,6) a3 k4 pool by (intro drop i3) auto
      ultimately show ?thesis
        using assms(2) 1 2 3 4 5 c pool d by (cases begun; cases ended) (auto simp: upload_def)
    next
      case ok: False
      have f5: "vk_fence v5 = (vk_fence v2)(fence := Unsignaled)" using a5(2) ok k4 a3(2) by simp
      have c5: "c \<le> vk_next v5" using p2(3) a3(4) k4 a5(5) by simp
      have i5: "idle v5 c" using i2 f5 by (simp add: idle_def)
      note a6 = accounts_submit [OF a5(1) 6 _ i5 _ _ c5, simplified f5 all_signaled_def, simplified]
      have w: "vk_fence v6 fence \<noteq> Unsignaled" if "sub" using that a6(2) by simp
      have a7: "accounts B ((K_fence, fence) # (K_command_pool, pool) # xs) v7"
        "vk_pool_cmds v7 = vk_pool_cmds v2" "\<not> pending v7 fence" "idle v7 c"
        using 7 w a6 accounts_wait [OF a6(1), of fence ok' v7] i2 k4 a3(3) a5(6)
        by (auto simp: pending_def idle_def split: if_splits fence_state.splits)
      have "accounts B ((K_command_pool, pool) # xs) (destroy_if True K_fence fence v7)"
        by (rule accounts_destroy_fence [OF a7(1,3)])
      then have "accounts B xs (destroy K_command_pool pool (destroy_if True K_fence fence v7))"
        by (rule drop [OF _ pool]) (use a7 p2 in \<open>simp add: idle_def\<close>)
      then show ?thesis
        using assms(2) 1 2 3 4 5 6 7 c pool ok by (simp add: upload_def destroy_as_if)
    qed
  qed
qed

lemma view_made:
  assumes "accounts B (texture_objs t @ xs) v" and "x_view t = 0" "x_sampler t = 0" and "make_view t v = (ok, t', v')"
  shows "accounts B (texture_objs t' @ xs) v' \<and> x_descriptor t' = x_descriptor t"
proof -
  obtain view v1 where 1: "create K_view v = (view, v1)" by fastforce
  obtain sampler v2 where 2: "create K_sampler v1 = (sampler, v2)" by fastforce
  have "accounts B ((K_image, x_image t) # (K_memory, x_memory t) # xs) v"
    using assms(1-3) by (simp add: texture_objs_def)
  note a1 = accounts_create [OF this 1]
  note a2 = accounts_create [OF a1 2]
  show ?thesis
    using assms(2-4) 1 2 a1 a2 by (auto simp: make_view_def texture_objs_def Let_def split: if_splits)
qed

lemma create_texture_accounts:
  assumes "accounts B xs v" and "create_texture dev mem ro v = (ok, t, v')"
  shows "if ok then accounts B (texture_objs t @ xs) v' \<and> (\<exists>r. ro = Some r \<and> able r) \<and> x_descriptor t = 0
         else accounts B xs v'"
proof (cases "\<exists>r dp dd. ro = Some r \<and> r_disp r = Some dp \<and> r_device r \<noteq> 0 \<and> list_all (has dp) create_texture_needs \<and>
    dev = Some dd \<and> dd_has_graphics_queue_family dd \<and> dd_graphics_queue dd \<noteq> 0 \<and> dd_get_phys_mem_props dd \<and>
    dd_physical_device dd \<noteq> 0")
  case False
  then have "\<not> ok \<and> v' = v"
    using assms(2) by (auto simp: create_texture_def Let_def split: option.splits if_splits)
  then show ?thesis using assms(1) by simp
next
  case True
  then obtain r dp dd where r: "ro = Some r" "r_disp r = Some dp" "r_device r \<noteq> 0" "list_all (has dp) create_texture_needs"
    and dd: "dev = Some dd" "dd_has_graphics_queue_family dd" "dd_graphics_queue dd \<noteq> 0" "dd_get_phys_mem_props dd"
      "dd_physical_device dd \<noteq> 0" by blast
  have able: "able r" using r by (auto simp: able_def)
  obtain ok1 t1 v1 where 1: "make_image mem no_texture v = (ok1, t1, v1)" by (metis prod.exhaust)
  obtain ok2 b m v2 where 2: "make_staging mem v1 = (ok2, b, m, v2)" by (metis prod.exhaust)
  obtain ok3 v3 where 3: "upload (dd_graphics_queue dd) v2 = (ok3, v3)" by fastforce
  define v4 where "v4 = free_staging b m v3"
  obtain ok5 t5 v5 where 5: "make_view t1 v4 = (ok5, t5, v5)" by (metis prod.exhaust)
  note a1 = image_made [OF assms(1) 1]
  note a2 = staging_made [OF conjunct1 [OF a1] 2]
  have f2: "accounts B (texture_objs t1 @ xs) (free_staging b m v2)" by (rule staging_freed [OF a2])
  have a4: "accounts B (texture_objs t1 @ xs) v4" unfolding v4_def by (rule staging_freed [OF upload_accounts [OF a2 3]])
  have a5: "accounts B (texture_objs t5 @ xs) v5 \<and> x_descriptor t5 = x_descriptor t1"
    by (rule view_made [OF a4 _ _ 5]) (simp_all add: a1)
  note freed = texture_destroyed [OF _ able]
  have e: "create_texture dev mem ro v =
      (if \<not> ok1 then (False, destroy_texture ro t1 v1)
       else if \<not> ok2 then (False, destroy_texture ro t1 (free_staging b m v2))
       else if \<not> ok3 then (False, destroy_texture ro t1 v4)
       else if \<not> ok5 then (False, destroy_texture ro t5 v5) else (True, t5, v5))"
    using r dd 1 2 3 5 by (simp add: create_texture_def v4_def)
  show ?thesis
    using assms(2) e r(1) able freed [OF conjunct1 [OF a1]] freed [OF f2] freed [OF a4] freed [OF conjunct1 [OF a5]] a1 a5
    by (auto split: if_splits) (metis snd_conv)+
qed

section \<open>The cache\<close>

definition cache_objs :: "(string \<times> texture) list \<Rightarrow> obj list" where
  "cache_objs ts = concat (map (\<lambda>(h, t). (K_descriptor, x_descriptor t) # texture_objs t) ts)"

text \<open>A cached texture is complete: it has a descriptor, and an image file's hash for a key.\<close>

definition textures_inv :: "avatar_textures \<Rightarrow> bool" where
  "textures_inv a \<longleftrightarrow> list_all (\<lambda>(h, t). h \<noteq> [] \<and> x_descriptor t \<noteq> 0) (a_textures a)"

lemma get_or_load_inv:
  "textures_inv a \<Longrightarrow> get_or_load dev mem files req a v = (i, a', v') \<Longrightarrow> textures_inv a'"
  by (auto simp: get_or_load_def textures_inv_def Let_def split: if_splits option.splits prod.splits)

lemma lookup_inv: "textures_inv a \<Longrightarrow> map_of (a_textures a) h = Some t \<Longrightarrow> h \<noteq> [] \<and> x_descriptor t \<noteq> 0"
  by (fastforce simp: textures_inv_def list_all_iff dest: map_of_SomeD)

lemma get_or_load_cases:
  assumes "get_or_load dev mem files req a v = (i, a', v')"
  shows "(i = 0 \<and> a' = a \<and> (q_hash req = [] \<or> map_of (a_textures a) (q_hash req) = None)) \<or>
     (a' = a \<and> v' = v \<and> (\<exists>t. map_of (a_textures a) (q_hash req) = Some t \<and> i = x_descriptor t)) \<or>
     (i \<noteq> 0 \<and> q_hash req \<noteq> [] \<and> (\<exists>t. x_descriptor t = i \<and> a' = a\<lparr>a_textures := (q_hash req, t) # a_textures a\<rparr>))"
  using assms
  by (auto simp: get_or_load_def Let_def split: if_splits option.splits prod.splits)
    (rule exI [of _ "_\<lparr>x_descriptor := i\<rparr>"], simp)

text \<open>The layer's cache keeps what the drawing code relies on.\<close>

interpretation vulkan_cache: texture_cache lookup "\<lambda>req a v. get_or_load dev mem files req a v" textures_inv
proof unfold_locales
  fix c c' :: avatar_textures and req w w' i h
  assume inv: "textures_inv c"
  show "get_or_load dev mem files req c w = (i, c', w') \<Longrightarrow> textures_inv c'"
    using get_or_load_inv [OF inv] .
  show "lookup (q_hash req) c \<noteq> 0 \<Longrightarrow> get_or_load dev mem files req c w = (lookup (q_hash req) c, c, w)"
    using lookup_inv [OF inv, of "q_hash req"] by (auto simp: lookup_def get_or_load_def split: option.splits)
  assume load: "get_or_load dev mem files req c w = (i, c', w')"
  show "lookup (q_hash req) c' = i"
    using get_or_load_cases [OF load] lookup_inv [OF inv, of "q_hash req"] by (auto simp: lookup_def split: option.splits)
  show "h \<noteq> q_hash req \<Longrightarrow> lookup h c' = lookup h c"
    using get_or_load_cases [OF load] by (auto simp: lookup_def)
qed

section \<open>The cache owns what it made\<close>

definition cache_ok :: "avatar_textures \<Rightarrow> bool" where
  "cache_ok a \<longleftrightarrow> textures_inv a \<and> (a_textures a \<noteq> [] \<longrightarrow> (\<exists>r. a_renderer a = Some r \<and> ready r \<and> able r))"

lemma cache_objs_simps [simp]:
  "cache_objs [] = []" "cache_objs ((h, t) # ts) = (K_descriptor, x_descriptor t) # texture_objs t @ cache_objs ts"
  by (simp_all add: cache_objs_def)

lemma texture_objs_descriptor [simp]: "texture_objs (t\<lparr>x_descriptor := i\<rparr>) = texture_objs t"
  by (simp add: texture_objs_def)

lemma get_or_load_accounts:
  assumes "accounts B (cache_objs (a_textures a) @ xs) v" and "cache_ok a"
    and "get_or_load dev mem files req a v = (i, a', v')"
  shows "accounts B (cache_objs (a_textures a') @ xs) v' \<and> cache_ok a'"
proof (cases "a' = a \<and> v' = v")
  case True
  then show ?thesis using assms by simp
next
  case False
  obtain r where r: "a_renderer a = Some r" "ready r" and hash: "q_hash req \<noteq> []"
      "map_of (a_textures a) (q_hash req) = None"
    using assms(3) False by (auto simp: get_or_load_def split: if_splits option.splits)
  obtain ok t v1 where 1: "create_texture dev mem (Some r) v = (ok, t, v1)" by (metis prod.exhaust)
  obtain d v2 where 2: "add_texture r v1 = (d, v2)" by fastforce
  note a1 = create_texture_accounts [OF assms(1) 1]
  have a': "(i, a', v') = (if \<not> ok then (0, a, v1) else if d = 0 then (0, a, snd (destroy_texture (Some r) (t\<lparr>x_descriptor := d\<rparr>) v2))
      else (d, a\<lparr>a_textures := (q_hash req, t\<lparr>x_descriptor := d\<rparr>) # a_textures a\<rparr>, v2))"
    using assms(3) False r hash 1 2 by (auto simp: get_or_load_def split: if_splits option.splits)
  show ?thesis
  proof (cases ok)
    case False
    then show ?thesis using a' a1 assms(2) by simp
  next
    case True
    then have a1: "accounts B (texture_objs t @ cache_objs (a_textures a) @ xs) v1" "able r" using a1 by auto
    have a2: "accounts B ((K_descriptor, d) # texture_objs t @ cache_objs (a_textures a) @ xs) v2"
      by (rule accounts_create [OF a1(1)]) (use 2 r in \<open>simp add: add_texture_def ready_def\<close>)
    have "accounts B (cache_objs (a_textures a) @ xs) (snd (destroy_texture (Some r) (t\<lparr>x_descriptor := d\<rparr>) v2))" if "d = 0"
      by (rule texture_destroyed [OF _ a1(2)]) (use a2 that in simp)
    then show ?thesis
      using True a' a2 a1(2) r hash assms(2) by (auto simp: cache_ok_def textures_inv_def split: if_splits)
  qed
qed

fun load_all ::
    "device_data option \<Rightarrow> gpu_memory \<Rightarrow> (string \<Rightarrow> bytes option) \<Rightarrow> avatar_req list \<Rightarrow> avatar_textures \<Rightarrow> vk \<Rightarrow>
       avatar_textures \<times> vk" where
  "load_all dev mem files [] a v = (a, v)"
| "load_all dev mem files (req # reqs) a v =
     (case get_or_load dev mem files req a v of (_, a1, v1) \<Rightarrow> load_all dev mem files reqs a1 v1)"

lemma load_all_accounts:
  "accounts B (cache_objs (a_textures a) @ xs) v \<Longrightarrow> cache_ok a \<Longrightarrow> load_all dev mem files reqs a v = (a', v') \<Longrightarrow>
     accounts B (cache_objs (a_textures a') @ xs) v' \<and> cache_ok a'"
proof (induction reqs arbitrary: a v)
  case (Cons req reqs)
  obtain i a1 v1 where 1: "get_or_load dev mem files req a v = (i, a1, v1)" by (metis prod.exhaust)
  from get_or_load_accounts [OF Cons.prems(1,2) 1] Cons.IH [of a1 v1] Cons.prems(3) 1 show ?case by simp
qed simp

lemma drop_textures_accounts:
  "accounts B (cache_objs ts @ xs) v \<Longrightarrow> ts \<noteq> [] \<Longrightarrow> ready r \<Longrightarrow> able r \<Longrightarrow>
     accounts B xs (drop_textures (Some r) ts v)"
proof (induction ts arbitrary: v)
  case (Cons p ts)
  obtain h t where p: "p = (h, t)" by fastforce
  let ?v = "destroy_if True K_descriptor (x_descriptor t) v"
  have "accounts B ((K_descriptor, x_descriptor t) # texture_objs t @ cache_objs ts @ xs) v"
    using Cons.prems(1) p by simp
  then have "accounts B (texture_objs (t\<lparr>x_descriptor := 0\<rparr>) @ cache_objs ts @ xs) ?v"
    using accounts_destroy by simp
  note a = texture_destroyed [OF this Cons.prems(4)]
  have e: "drop_textures (Some r) (p # ts) v =
      drop_textures (Some r) ts (snd (destroy_texture (Some r) (t\<lparr>x_descriptor := 0\<rparr>) ?v))"
    using Cons.prems(3) p by (simp add: remove_texture_def destroy_if_def ready_def)
  show ?case
  proof (cases "ts = []")
    case True
    then show ?thesis using a e by simp
  next
    case False
    from Cons.IH [OF a False Cons.prems(3,4)] e show ?thesis by simp
  qed
qed simp

lemma textures_shutdown_accounts:
  assumes "accounts B (cache_objs (a_textures a) @ xs) v" and "cache_ok a" and "textures_shutdown a v = (a', v')"
  shows "accounts B xs v'" and "a' = new_avatar_textures"
proof -
  show "accounts B xs v'"
    using assms drop_textures_accounts [OF assms(1)]
    by (cases "a_textures a = []") (auto simp: textures_shutdown_def cache_ok_def)
  show "a' = new_avatar_textures" using assms(3) by (simp add: textures_shutdown_def)
qed

section \<open>Properties\<close>

text \<open>
  The texture cache never leaks. Whatever images are asked for, in whatever order and however
  often, and whichever of the driver's calls fail on the way, no call made is illegal (nothing is
  freed twice or while the GPU uses it), and shutting the cache down gives back everything the
  loads created: the device is left with what was alive before.
\<close>

theorem texture_cache_never_leaks:
  assumes "vk_ok v" and "vk_wf v"
    and "load_all dev mem files reqs (new_avatar_textures\<lparr>a_renderer := Some r\<rparr>) v = (a, v1)"
    and "textures_shutdown a v1 = (a', v2)"
  shows "vk_ok v1 \<and> vk_ok v2 \<and> live v2 = live v \<and> live v1 = live v + held (cache_objs (a_textures a))"
proof -
  let ?a = "new_avatar_textures\<lparr>a_renderer := Some r\<rparr>"
  have "accounts (live v) (cache_objs (a_textures ?a) @ []) v" "cache_ok ?a"
    using assms(1,2) by (simp_all add: accounts_def new_avatar_textures_def cache_ok_def textures_inv_def)
  from load_all_accounts [OF this assms(3)]
  have 1: "accounts (live v) (cache_objs (a_textures a) @ []) v1" "cache_ok a" by simp_all
  from textures_shutdown_accounts(1) [OF this assms(4)] 1(1) show ?thesis by (simp add: accounts_def)
qed

text \<open>A memory type that is visible, coherent and device local; an avatar file of one pixel.\<close>

definition one_memory :: gpu_memory where
  "one_memory = \<lparr>m_types = [7], m_image_bits = 1, m_buffer_bits = 1\<rparr>"

definition pixel_file :: "bytes" where
  "pixel_file = map byte_of ''CHAV'' @ [1, 0, 0, 0, 1, 0, 0, 0, 255, 255, 255, 255]"

definition ready_renderer :: renderer where
  "ready_renderer = new_renderer\<lparr>r_init_done := True, r_device := 1, r_disp := Some full_device\<rparr>"

definition icon_req :: "string \<Rightarrow> avatar_req" where
  "icon_req h = \<lparr>q_hash = h, q_path = CHR ''/'' # h, q_w = 1, q_h = 1\<rparr>"

definition some_loads :: "avatar_textures \<times> vk" where
  "some_loads = load_all (Some full_device) one_memory (\<lambda>_. Some pixel_file)
     [icon_req ''a'', icon_req ''b'', icon_req ''a'']
     (new_avatar_textures\<lparr>a_renderer := Some ready_renderer\<rparr>)
     (empty_vk\<lparr>vk_answers := replicate 15 True @ replicate 8 True @ [False]\<rparr>)"

lemma device_can_load:
  "list_all (has full_device) create_texture_needs" "dd_has_graphics_queue_family full_device"
  "dd_graphics_queue full_device = 7" "dd_get_phys_mem_props full_device" "dd_physical_device full_device = 1"
  by code_simp+

lemma pixel_read: "read_avatar_rgba (Some pixel_file) = Some (1, 1, [255, 255, 255, 255])"
  by code_simp

lemma memory_found:
  "find_memory_type [7] 1 DEVICE_LOCAL = Some 0" "find_memory_type [7] 1 HOST_VISIBLE_COHERENT = Some 0"
  by code_simp+

lemma some_loads_value:
  "map fst (a_textures (fst some_loads)) = [''a''] \<and> length (vk_live (snd some_loads)) = 5"
  apply (simp add: some_loads_def get_or_load_def icon_req_def new_avatar_textures_def ready_renderer_def ready_def
      new_renderer_def pixel_read)
  apply (simp add: create_texture_def device_can_load no_texture_def Let_def)
  apply (simp add: make_image_def create_def fresh_def ask_def empty_vk_def one_memory_def memory_found numeral_eq_Suc)
  apply (simp add: make_staging_def create_def fresh_def ask_def memory_found numeral_eq_Suc)
  apply (simp add: upload_def allocate_commands_def begin_command_def create_fence_def create_def fresh_def ask_def
      submit_def Let_def create_pool_def consume_def wait_fence_def legal_def busy_def all_signaled_def)
  apply (simp add: make_view_def add_texture_def free_staging_def destroy_if_def destroy_def create_def fresh_def
      ask_def legal_def pending_def ready_def busy_def)
  apply (simp add: get_or_load_def ready_def pixel_read create_texture_def device_can_load no_texture_def Let_def)
  apply (simp add: make_image_def make_staging_def create_def fresh_def ask_def memory_found)
  apply (simp add: free_staging_def destroy_texture_def destroy_if_def destroy_def legal_def pending_def
      able_names [OF device_can_load(1)] get_or_load_def)
  done

theorem texture_cache_never_leaks_witness:
  "\<exists>a v1 a' v2. some_loads = (a, v1) \<and> length (a_textures a) = 1 \<and> size (live v1) = 5 \<and>
     textures_shutdown a v1 = (a', v2) \<and> live v2 = {#} \<and> vk_ok v2"
proof -
  let ?v = "empty_vk\<lparr>vk_answers := replicate 15 True @ replicate 8 True @ [False]\<rparr>"
  obtain a v1 where 1: "some_loads = (a, v1)" by fastforce
  obtain a' v2 where 2: "textures_shutdown a v1 = (a', v2)" by fastforce
  have w: "vk_ok ?v" "vk_wf ?v" by (simp_all add: empty_vk_def vk_wf_def)
  have e: "live ?v = {#}" by (simp add: empty_vk_def live_def)
  from texture_cache_never_leaks [OF w 1 [unfolded some_loads_def] 2] e
  have "live v2 = {#}" "vk_ok v2" by simp_all
  moreover have "length (a_textures a) = 1" "size (live v1) = 5"
    using some_loads_value [unfolded 1] by (auto simp: live_def)
  ultimately show ?thesis using 1 2 by blast
qed

text \<open>
  The drawing code asks either texture cache once per frame and icon. An icon that is cached
  is drawn with its texture and costs no driver call, for as long as the cache lives: no other
  load displaces it.
\<close>

theorem cached_icons_stay_drawn:
  assumes "textures_inv a"
    and "resolve_all lookup (get_or_load dev mem files) client hs (a, v) = (is, a', v')"
    and "h \<noteq> []" and "lookup h a \<noteq> 0"
  shows "resolve_icon lookup (get_or_load dev mem files) client h (a', v') = (lookup h a, a', v')"
proof -
  from vulkan_cache.resolve_all_kept [OF assms(1,2,4)] assms(3,4) show ?thesis by (simp add: resolve_icon_def)
qed

theorem cached_icons_stay_drawn_witness:
  "\<exists>a v1 is a' v'. some_loads = (a, v1) \<and> lookup ''a'' a \<noteq> 0 \<and>
     resolve_all lookup (get_or_load (Some full_device) one_memory (\<lambda>_. Some pixel_file))
       (enqueue_avatar (icon_req ''b'') new_client_state) [''b'', ''c''] (a, v1) = (is, a', v') \<and>
     resolve_icon lookup (get_or_load (Some full_device) one_memory (\<lambda>_. Some pixel_file))
       (enqueue_avatar (icon_req ''b'') new_client_state) ''a'' (a', v') = (lookup ''a'' a, a', v')"
proof -
  obtain a v1 where 1: "some_loads = (a, v1)" by fastforce
  let ?v = "empty_vk\<lparr>vk_answers := replicate 15 True @ replicate 8 True @ [False]\<rparr>"
  let ?a = "new_avatar_textures\<lparr>a_renderer := Some ready_renderer\<rparr>"
  have "accounts {#} (cache_objs (a_textures ?a) @ []) ?v" "cache_ok ?a"
    by (simp_all add: accounts_def new_avatar_textures_def cache_ok_def textures_inv_def empty_vk_def vk_wf_def live_def)
  from load_all_accounts [OF this 1 [unfolded some_loads_def]]
  have "textures_inv a" by (simp add: cache_ok_def)
  moreover obtain t where "a_textures a = [(''a'', t)]" using some_loads_value [unfolded 1] by auto
  ultimately have inv: "textures_inv a" "lookup ''a'' a \<noteq> 0" by (simp_all add: lookup_def textures_inv_def)
  obtain "is" a' v' where 2: "resolve_all lookup (get_or_load (Some full_device) one_memory (\<lambda>_. Some pixel_file))
       (enqueue_avatar (icon_req ''b'') new_client_state) [''b'', ''c''] (a, v1) = (is, a', v')" by (metis prod.exhaust)
  from cached_icons_stay_drawn [OF inv(1) 2 _ inv(2)] 1 2 inv show ?thesis by blast
qed

end
