(* ===== verification/Swapchain.thy ===== *)
theory Swapchain
  imports AvatarTextures
begin

text \<open>
  The swapchain hooks of the Vulkan layer (\<^verbatim>\<open>src/layer/swapchain.cpp\<close>): what is built for a
  swapchain and torn down with it, what is recorded for a presented image, and how the recorded
  overlays are chained between the application's rendering and the present.
\<close>

section \<open>State\<close>

record image_state =
  m_image :: nat
  m_view :: nat
  m_framebuffer :: nat
  m_cmd :: nat
  m_fence :: nat
  m_done :: nat
  m_in_flight :: bool

definition null_image :: image_state where
  "null_image = \<lparr>m_image = 0, m_view = 0, m_framebuffer = 0, m_cmd = 0, m_fence = 0, m_done = 0, m_in_flight = False\<rparr>"

text \<open>
  \<open>s_key\<close> stands for the pointer to the device's entry; the entry's table never changes while the
  device lives, and is passed to the operations as \<open>dd\<close>.
\<close>

record swapchain_state =
  s_key :: nat
  s_format :: format
  s_space :: color_space
  s_extent :: "u32 \<times> u32"
  s_render_pass :: nat
  s_pool :: nat
  s_images :: "image_state list"
  s_ok :: bool
  s_imgui :: "renderer option"
  s_tried :: bool
  s_avatars :: "avatar_textures option"

definition new_swapchain :: "nat \<Rightarrow> format \<Rightarrow> color_space \<Rightarrow> u32 \<times> u32 \<Rightarrow> swapchain_state" where
  "new_swapchain key fmt space extent =
     \<lparr>s_key = key, s_format = fmt, s_space = space, s_extent = extent, s_render_pass = 0, s_pool = 0, s_images = [],
      s_ok = False, s_imgui = None, s_tried = False, s_avatars = None\<rparr>"

text \<open>The layer's state: its devices, the tracked swapchains, and the Vulkan device below.\<close>

record sc_world =
  w_layer :: layer
  w_chains :: "(nat \<times> swapchain_state) list"
  w_vk :: vk

text \<open>What stays the same: environment, float parser, memory types, avatar files, resolver.\<close>

record sc_env =
  se_env :: environment
  se_parse :: "string \<Rightarrow> rat"
  se_mem :: gpu_memory
  se_files :: "string \<Rightarrow> bytes option"
  se_gdpa :: resolver
  se_images :: "nat \<Rightarrow> nat list"

section \<open>Building and tearing down\<close>

fun wait_images :: "image_state list \<Rightarrow> vk \<Rightarrow> image_state list \<times> vk" where
  "wait_images [] v = ([], v)"
| "wait_images (m # ms) v =
     (let (m, v) = (if m_in_flight m \<and> m_fence m \<noteq> 0
                    then (m\<lparr>m_in_flight := False\<rparr>, snd (wait_fence (m_fence m) v)) else (m, v));
          (ms, v) = wait_images ms v
      in (m # ms, v))"

definition wait_overlay_idle :: "device_data \<Rightarrow> swapchain_state \<Rightarrow> vk \<Rightarrow> swapchain_state \<times> vk" where
  "wait_overlay_idle dd s v =
     (if \<not> has dd ''WaitForFences'' then (s, v)
      else let (ms, v) = wait_images (s_images s) v in (s\<lparr>s_images := ms\<rparr>, v))"

fun destroy_images :: "device_data \<Rightarrow> image_state list \<Rightarrow> vk \<Rightarrow> vk" where
  "destroy_images dd [] v = v"
| "destroy_images dd (m # ms) v =
     destroy_images dd ms
       (destroy_if (has dd ''DestroyImageView'') K_view (m_view m)
         (destroy_if (has dd ''DestroyFramebuffer'') K_framebuffer (m_framebuffer m)
           (destroy_if (has dd ''DestroyFence'') K_fence (m_fence m)
             (destroy_if (has dd ''DestroySemaphore'') K_semaphore (m_done m) v))))"

definition destroy_state :: "sc_env \<Rightarrow> device_data \<Rightarrow> swapchain_state \<Rightarrow> vk \<Rightarrow> swapchain_state \<times> vk" where
  "destroy_state e dd s v =
     (let v = (case s_avatars s of Some a \<Rightarrow> snd (textures_shutdown a v) | None \<Rightarrow> v);
          v = (case s_imgui s of Some r \<Rightarrow> snd (renderer_shutdown (se_gdpa e) r v) | None \<Rightarrow> v);
          v = destroy_images dd (s_images s) v;
          v = destroy_if (has dd ''DestroyCommandPool'') K_command_pool (s_pool s) v;
          v = destroy_if (has dd ''DestroyRenderPass'') K_render_pass (s_render_pass s) v
      in (s\<lparr>s_avatars := None, s_imgui := None, s_tried := False, s_images := [], s_pool := 0, s_render_pass := 0,
            s_ok := False\<rparr>, v))"

definition build_needs :: "string list" where
  "build_needs =
     [''GetSwapchainImagesKHR'', ''CreateImageView'', ''DestroyImageView'', ''CreateRenderPass'', ''DestroyRenderPass'',
      ''CreateFramebuffer'', ''DestroyFramebuffer'', ''CreateCommandPool'', ''DestroyCommandPool'',
      ''AllocateCommandBuffers'', ''CreateFence'', ''DestroyFence'', ''CreateSemaphore'', ''DestroySemaphore'',
      ''BeginCommandBuffer'', ''EndCommandBuffer'', ''CmdBeginRenderPass'', ''CmdEndRenderPass'',
      ''CmdClearAttachments'', ''WaitForFences'', ''ResetFences'', ''QueueSubmit'']"

text \<open>One image's objects, in order; what is made stays in the image for \<open>destroy_state\<close>.\<close>

definition build_image :: "nat \<Rightarrow> nat \<Rightarrow> vk \<Rightarrow> bool \<times> image_state \<times> vk" where
  "build_image img cmd v =
     (let m = null_image\<lparr>m_image := img, m_cmd := cmd\<rparr>;
          (view, v) = create K_view v; m = m\<lparr>m_view := view\<rparr> in
      if view = 0 then (False, m, v)
      else
        let (framebuffer, v) = create K_framebuffer v; m = m\<lparr>m_framebuffer := framebuffer\<rparr> in
        if framebuffer = 0 then (False, m, v)
        else
          let (fence, v) = create_fence Signaled v; m = m\<lparr>m_fence := fence\<rparr> in
          if fence = 0 then (False, m, v)
          else
            let (sem, v) = create_semaphore v; m = m\<lparr>m_done := sem\<rparr> in
            (sem \<noteq> 0, m, v))"

fun build_images :: "(nat \<times> nat) list \<Rightarrow> vk \<Rightarrow> bool \<times> image_state list \<times> vk" where
  "build_images [] v = (True, [], v)"
| "build_images ((img, cmd) # xs) v =
     (let (ok, m, v) = build_image img cmd v in
      if \<not> ok then (False, m # map (\<lambda>_. null_image) xs, v)
      else let (ok, ms, v) = build_images xs v in (ok, m # ms, v))"

definition build_state ::
    "sc_env \<Rightarrow> device_data \<Rightarrow> nat list \<Rightarrow> swapchain_state \<Rightarrow> vk \<Rightarrow> bool \<times> swapchain_state \<times> vk" where
  "build_state e dd images s v =
     (if \<not> list_all (has dd) build_needs then (False, s, v)
      else if \<not> dd_has_graphics_queue_family dd then (False, s, v)
      else
        let (counted, v) = ask v in
        if \<not> counted \<or> length images = 0 then (False, s, v)
        else
          let (got, v) = ask v in
          if \<not> got then (False, s, v)
          else
            let (rp, v) = create K_render_pass v in
            if rp = 0 then (False, s, v)
            else
              let (pool, v) = create_pool v in
              if pool = 0 then (False, s, destroy K_render_pass rp v)
              else
                let s = s\<lparr>s_render_pass := rp, s_pool := pool\<rparr>;
                    (cmds, v) = allocate_commands pool (length images) v in
                case cmds of
                  None \<Rightarrow> (let (s, v) = destroy_state e dd s v in (False, s, v))
                | Some cs \<Rightarrow>
                    let (ok, ms, v) = build_images (zip images cs) v;
                        s = s\<lparr>s_images := ms\<rparr> in
                    if \<not> ok then (let (s, v) = destroy_state e dd s v in (False, s, v))
                    else (True, s\<lparr>s_ok := True\<rparr>, v))"

section \<open>Recording\<close>

datatype record_result = Drawn | Skipped | Failed

text \<open>
  What drawing this frame does, for a visible overlay: the vertices ImGui ends up with (\<^term>\<open>None\<close>
  when building throws), the icons it resolves, and whether recording the draw data throws.
\<close>

record frame_input =
  f_vertices :: "nat option"
  f_icons :: "string list"
  f_record_throws :: bool

definition snapshot_nits :: "client_state \<Rightarrow> rat" where
  "snapshot_nits client = (case latest client of Some sn \<Rightarrow> c_hdr_nits (s_config sn) | None \<Rightarrow> 200)"

definition in_voice :: "client_state \<Rightarrow> bool" where
  "in_voice client \<longleftrightarrow> (case latest client of Some sn \<Rightarrow> s_in_voice sn | None \<Rightarrow> False)"

text \<open>The lazy initialisation on the first frame in voice.\<close>

definition lazy_init :: "sc_env \<Rightarrow> device_data \<Rightarrow> client_state \<Rightarrow> swapchain_state \<Rightarrow> vk \<Rightarrow> swapchain_state \<times> vk" where
  "lazy_init e dd client s v =
     (if in_voice client \<and> \<not> s_tried s then
        let (ok, r, v) = renderer_init dd (s_render_pass s) (length (s_images s))
              (transfer_for_swapchain (se_env e) (s_format s) (s_space s))
              (hdr_nits (se_parse e) (se_env e) (snapshot_nits client)) new_renderer v in
        if ok then (s\<lparr>s_tried := True, s_imgui := Some r\<rparr>, v)
        else (s\<lparr>s_tried := True, s_imgui := None\<rparr>, snd (renderer_shutdown (se_gdpa e) r v))
      else (s, v))"

text \<open>
  \<open>begin_frame\<close> with its drawing: icons are loaded by the drawing, so only where it happens. The
  vertices count for a frame in voice; else nothing is drawn.
\<close>

definition build_frame ::
    "sc_env \<Rightarrow> device_data \<Rightarrow> client_state \<Rightarrow> frame_input \<Rightarrow> renderer \<Rightarrow> avatar_textures \<Rightarrow> vk \<Rightarrow>
       bool \<times> renderer \<times> avatar_textures \<times> vk" where
  "build_frame e dd client fr r a v =
     (let draws = (in_voice client \<and> r_init_done r \<and> \<not> r_frame_started r);
          (a, v) = (if draws
                    then snd (resolve_all lookup (get_or_load (Some dd) (se_mem e) (se_files e)) client (f_icons fr) (a, v))
                    else (a, v));
          (ok, r) = begin_frame (if in_voice client then f_vertices fr else Some 0) r
      in (ok, r, a, v))"

definition discard_frame :: "swapchain_state \<Rightarrow> renderer \<Rightarrow> swapchain_state" where
  "discard_frame s r = s\<lparr>s_imgui := Some (snd (end_frame 0 False r))\<rparr>"

text \<open>From the built frame on: discard it, or wait for the image and record.\<close>

definition record_built ::
    "nat \<Rightarrow> nat option \<Rightarrow> bool \<Rightarrow> bool \<Rightarrow> swapchain_state \<Rightarrow> renderer \<Rightarrow> layer \<Rightarrow> vk \<Rightarrow>
       record_result \<times> swapchain_state \<times> layer \<times> vk" where
  "record_built idx vertices throws built s r l v =
     (if \<not> built
      then (Failed, discard_frame s r, mark_overlay_failed (s_key s) ''exception during overlay frame build'' l, v)
      else if \<not> frame_has_content vertices r then (Skipped, discard_frame s r, l, v)
      else
        let m = s_images s ! idx;
            (waited, v) = (if m_in_flight m then wait_fence (m_fence m) v else (True, v)) in
        if \<not> waited then (Failed, discard_frame s r, l, v)
        else
          let (begun, v) = begin_command (m_cmd m) v in
          if \<not> begun then (Failed, discard_frame s r, l, v)
          else
            let (recorded, r) = end_frame (m_cmd m) throws r;
                s = s\<lparr>s_imgui := Some r\<rparr>;
                (ended, v) = ask v in
            if \<not> recorded
            then (Failed, s, mark_overlay_failed (s_key s) ''exception recording ImGui draw data'' l, v)
            else if \<not> ended then (Failed, s, l, v) else (Drawn, s, l, v))"

definition record_one ::
    "sc_env \<Rightarrow> device_data \<Rightarrow> nat \<Rightarrow> client_state \<Rightarrow> frame_input \<Rightarrow> swapchain_state \<Rightarrow> layer \<Rightarrow> vk \<Rightarrow>
       record_result \<times> swapchain_state \<times> layer \<times> vk" where
  "record_one e dd idx client fr s l v =
     (if \<not> s_ok s \<or> idx \<ge> length (s_images s) then (Failed, s, l, v)
      else if disabled client then (Skipped, s, l, v)
      else
        let (s, v) = lazy_init e dd client s v in
        case s_imgui s of
          None \<Rightarrow> (Skipped, s, l, v)
        | Some r \<Rightarrow>
            if \<not> ready r then (Skipped, s, l, v)
            else
              let a = (case s_avatars s of Some a \<Rightarrow> a | None \<Rightarrow> new_avatar_textures\<lparr>a_renderer := Some r\<rparr>);
                  (built, r, a, v) = build_frame e dd client fr r a v
              in record_built idx (if in_voice client then f_vertices fr else Some 0) (f_record_throws fr) built
                   (s\<lparr>s_avatars := Some a\<rparr>) r l v)"

section \<open>The hooks\<close>

definition chain_at :: "sc_world \<Rightarrow> nat \<Rightarrow> swapchain_state option" where
  "chain_at w h = map_of (w_chains w) h"

fun put_chain :: "nat \<Rightarrow> swapchain_state \<Rightarrow> (nat \<times> swapchain_state) list \<Rightarrow> (nat \<times> swapchain_state) list" where
  "put_chain h s [] = [(h, s)]"
| "put_chain h s ((h', s') # cs) = (if h' = h then (h, s) # cs else (h', s') # put_chain h s cs)"

fun drop_chain :: "nat \<Rightarrow> (nat \<times> swapchain_state) list \<Rightarrow> (nat \<times> swapchain_state) list" where
  "drop_chain h [] = []"
| "drop_chain h ((h', s') # cs) = (if h' = h then cs else (h', s') # drop_chain h cs)"

text \<open>The entry a stored device pointer leads to.\<close>

definition device_of :: "layer \<Rightarrow> nat \<Rightarrow> device_data" where
  "device_of l key = (case l_devices l key of Some dd \<Rightarrow> dd | None \<Rightarrow> new_device_data)"

definition retire :: "sc_env \<Rightarrow> nat \<Rightarrow> sc_world \<Rightarrow> sc_world" where
  "retire e h w =
     (case chain_at w h of
        None \<Rightarrow> w
      | Some s \<Rightarrow>
          let dd = device_of (w_layer w) (s_key s);
              (s, v) = wait_overlay_idle dd s (w_vk w);
              (s, v) = destroy_state e dd s v
          in w\<lparr>w_chains := drop_chain h (w_chains w), w_vk := v\<rparr>)"

text \<open>The driver's swapchain creation, with the usage it is asked for.\<close>

definition driver_swapchain :: "32 word \<Rightarrow> vk \<Rightarrow> nat option \<times> vk" where
  "driver_swapchain usage v =
     (let (ok, v) = ask (v\<lparr>vk_log := vk_log v @ [Create_swapchain usage]\<rparr>) in
      if ok then (Some (Suc (vk_next v)), v\<lparr>vk_next := Suc (vk_next v)\<rparr>) else (None, v))"

record swapchain_request =
  rq_usage :: "32 word"
  rq_format :: format
  rq_space :: color_space
  rq_extent :: "u32 \<times> u32"
  rq_old :: nat

definition CreateSwapchainKHR :: "sc_env \<Rightarrow> nat \<Rightarrow> swapchain_request \<Rightarrow> sc_world \<Rightarrow> nat option \<times> sc_world" where
  "CreateSwapchainKHR e key rq w =
     (case l_devices (w_layer w) key of
        None \<Rightarrow> (None, w)
      | Some dd \<Rightarrow>
          if \<not> has dd ''CreateSwapchainKHR'' then (None, w)
          else
            let usage = overlay_swapchain_usage (rq_usage rq);
                (res, v) = driver_swapchain usage (w_vk w);
                capable = (res \<noteq> None \<and> usage AND COLOR_ATTACHMENT_BIT \<noteq> 0);
                (res, capable, v) =
                  (if res = None \<and> usage \<noteq> rq_usage rq
                   then (let (res, v) = driver_swapchain (rq_usage rq) v in (res, False, v))
                   else (res, capable, v));
                w = w\<lparr>w_vk := v\<rparr> in
            case res of
              None \<Rightarrow> (None, w)
            | Some h \<Rightarrow>
                let w = (if rq_old rq \<noteq> 0 then retire e (rq_old rq) w else w) in
                if dd_overlay_disabled dd then (Some h, w)
                else
                  let s = new_swapchain key (rq_format rq) (rq_space rq) (rq_extent rq);
                      (s, v) = (if capable then snd (build_state e dd (se_images e h) s (w_vk w)) else (s, w_vk w))
                  in (Some h, w\<lparr>w_chains := put_chain h s (w_chains w), w_vk := v\<rparr>))"

definition DestroySwapchainKHR :: "sc_env \<Rightarrow> nat \<Rightarrow> nat \<Rightarrow> sc_world \<Rightarrow> sc_world" where
  "DestroySwapchainKHR e key h w =
     (let w = retire e h w in
      case l_devices (w_layer w) key of
        None \<Rightarrow> w
      | Some dd \<Rightarrow>
          if has dd ''DestroySwapchainKHR''
          then w\<lparr>w_vk := (w_vk w)\<lparr>vk_log := vk_log (w_vk w) @ [Destroy_swapchain h]\<rparr>\<rparr> else w)"

text \<open>
  A present request: the semaphores to wait for, and per swapchain its handle, image index and
  what drawing this frame does.
\<close>

record present_request =
  pr_waits :: "nat list"
  pr_chains :: "(nat \<times> nat \<times> frame_input) list"

text \<open>Phase 1: whether something failed, and which images were recorded.\<close>

fun record_all ::
    "sc_env \<Rightarrow> client_state \<Rightarrow> (nat \<times> nat \<times> frame_input) list \<Rightarrow> sc_world \<Rightarrow> bool \<times> (nat \<times> nat) list \<times> sc_world" where
  "record_all e client [] w = (False, [], w)"
| "record_all e client ((h, idx, fr) # xs) w =
     (case chain_at w h of
        None \<Rightarrow> (True, [], w)
      | Some s \<Rightarrow>
          let (r, s, l, v) = record_one e (device_of (w_layer w) (s_key s)) idx client fr s (w_layer w) (w_vk w);
              w = \<lparr>w_layer = l, w_chains = put_chain h s (w_chains w), w_vk = v\<rparr> in
          if r = Failed then (True, [], w)
          else
            let (failed, recorded, w) = record_all e client xs w
            in (failed, (if r = Drawn then (h, idx) # recorded else recorded), w))"

definition image_at :: "sc_world \<Rightarrow> nat \<times> nat \<Rightarrow> image_state" where
  "image_at w p = (case chain_at w (fst p) of Some s \<Rightarrow> s_images s ! snd p | None \<Rightarrow> null_image)"

definition set_in_flight :: "bool \<Rightarrow> nat \<times> nat \<Rightarrow> sc_world \<Rightarrow> sc_world" where
  "set_in_flight b p w =
     (case chain_at w (fst p) of
        None \<Rightarrow> w
      | Some s \<Rightarrow> w\<lparr>w_chains := put_chain (fst p)
          (s\<lparr>s_images := (s_images s)[snd p := (s_images s ! snd p)\<lparr>m_in_flight := b\<rparr>]\<rparr>) (w_chains w)\<rparr>)"

text \<open>
  Phase 2: \<open>waits\<close> are the semaphores of the next submit, \<open>sems\<close> the done-semaphores so far (none
  for the first). The first component says that nothing was submitted and the present is forwarded.
\<close>

fun submit_all ::
    "nat \<Rightarrow> nat \<Rightarrow> nat list \<Rightarrow> (nat \<times> nat) list \<Rightarrow> nat list \<Rightarrow> sc_world \<Rightarrow> bool \<times> nat list \<times> sc_world" where
  "submit_all key queue waits [] sems w = (False, sems, w)"
| "submit_all key queue waits (p # ps) sems w =
     (let m = image_at w p;
          w = set_in_flight False p w;
          (reset, v) = reset_fence (m_fence m) (w_vk w); w = w\<lparr>w_vk := v\<rparr> in
      if \<not> reset then
        if sems = [] then (True, sems, w\<lparr>w_layer := mark_overlay_failed key ''vkResetFences failed'' (w_layer w)\<rparr>)
        else (False, sems, w)
      else
        let (submitted, v) = submit queue waits (m_cmd m) [m_done m] (m_fence m) (w_vk w); w = w\<lparr>w_vk := v\<rparr> in
        if \<not> submitted then
          if sems = [] then (True, sems, w\<lparr>w_layer := mark_overlay_failed key ''vkQueueSubmit failed'' (w_layer w)\<rparr>)
          else (False, sems, w\<lparr>w_layer := mark_overlay_failed key ''vkQueueSubmit failed mid-batch'' (w_layer w)\<rparr>)
        else submit_all key queue [m_done m] ps (sems @ [m_done m]) (set_in_flight True p w))"

text \<open>The real present; \<^term>\<open>None\<close> is \<^verbatim>\<open>VK_ERROR_INITIALIZATION_FAILED\<close>.\<close>

definition real_present :: "nat \<Rightarrow> nat list \<Rightarrow> sc_world \<Rightarrow> bool option \<times> sc_world" where
  "real_present queue waits w = (let (ok, v) = present queue waits (w_vk w) in (Some ok, w\<lparr>w_vk := v\<rparr>))"

definition forward :: "device_data option \<Rightarrow> nat \<Rightarrow> present_request option \<Rightarrow> sc_world \<Rightarrow> bool option \<times> sc_world" where
  "forward dd queue rq w =
     (case dd of
        None \<Rightarrow> (None, w)
      | Some d \<Rightarrow>
          if has d ''QueuePresentKHR'' then real_present queue (case rq of Some p \<Rightarrow> pr_waits p | None \<Rightarrow> []) w
          else (None, w))"

definition QueuePresentKHR ::
    "sc_env \<Rightarrow> nat \<Rightarrow> nat \<Rightarrow> client_state \<Rightarrow> present_request option \<Rightarrow> sc_world \<Rightarrow> bool option \<times> sc_world" where
  "QueuePresentKHR e key queue client rq w =
     (let dd = l_devices (w_layer w) key in
      case (dd, rq) of
        (Some d, Some p) \<Rightarrow>
          if \<not> has d ''QueuePresentKHR'' \<or> dd_overlay_disabled d \<or> overlay_disabled (se_env e) \<or>
             dd_overlay_failed d \<or> pr_chains p = []
          then forward dd queue rq w
          else if \<not> dd_has_graphics_queue_family d \<or> queue_family_for dd queue \<noteq> dd_graphics_queue_family d
          then forward dd queue rq w
          else
            let (failed, recorded, w) = record_all e client (pr_chains p) w in
            if failed \<or> recorded = [] then forward dd queue rq w
            else
              let (forwarded, sems, w) = submit_all key queue (pr_waits p) recorded [] w in
              if forwarded then forward dd queue rq w else real_present queue sems w
      | _ \<Rightarrow> forward dd queue rq w)"

end
