(* ===== verification/SwapchainSafety.thy ===== *)
theory SwapchainSafety
  imports Swapchain
begin

text \<open>
  What the swapchain hooks (\<^verbatim>\<open>src/layer/swapchain.cpp\<close>) keep over a game's life: every Vulkan
  call legal, every object accounted for, no image's commands recorded or freed while in flight.
\<close>

section \<open>Steps that leave older objects alone\<close>

text \<open>
  \<open>quiet n v v'\<close>: between \<open>v\<close> and \<open>v'\<close> no fence, semaphore or pool handed out up to \<open>n\<close> changed, and
  nothing new is in flight.
\<close>

definition quiet :: "nat \<Rightarrow> vk \<Rightarrow> vk \<Rightarrow> bool" where
  "quiet n v v' \<longleftrightarrow> vk_next v \<le> vk_next v' \<and> (\<forall>f \<le> n. vk_fence v' f = vk_fence v f) \<and>
     (\<forall>f c. vk_fence v' f = Pending c \<longrightarrow> vk_lost v' \<or> vk_fence v f = Pending c) \<and>
     (\<forall>x \<le> n. x \<in> set (vk_signaled v') \<longleftrightarrow> x \<in> set (vk_signaled v)) \<and>
     (\<forall>p \<le> n. vk_pool_cmds v' p = vk_pool_cmds v p) \<and> (vk_lost v \<longrightarrow> vk_lost v')"

named_theorems quiet

lemma quiet_refl [simp]: "quiet n v v"
  by (simp add: quiet_def)

lemma quiet_trans [trans]: "quiet n v1 v2 \<Longrightarrow> quiet n v2 v3 \<Longrightarrow> quiet n v1 v3"
  unfolding quiet_def by (intro conjI) (simp, simp, blast, simp, simp, blast)

lemma quiet_mono: "quiet n v v' \<Longrightarrow> k \<le> n \<Longrightarrow> quiet k v v'"
  unfolding quiet_def by auto

lemma quiet_next: "quiet n v v' \<Longrightarrow> n \<le> vk_next v \<Longrightarrow> n \<le> vk_next v'"
  by (simp add: quiet_def)

lemma quiet_ask [quiet]: "ask v = (b, v') \<Longrightarrow> quiet n v v'"
  by (drule ask_keeps) (simp add: quiet_def)

lemma quiet_create [quiet]: "create k v = (h, v') \<Longrightarrow> quiet n v v'"
  by (drule create_keeps) (simp add: quiet_def)

lemma quiet_destroy_if [quiet]: "quiet n v (destroy_if b k h v)"
  by (simp add: quiet_def)

lemma quiet_destroy [quiet]: "quiet n v (destroy k h v)"
  by (simp add: quiet_def destroy_def legal_def)

lemma quiet_create_fence:
  assumes "create_fence st v = (h, v')" and "\<And>c. st \<noteq> Pending c" and "n \<le> vk_next v"
  shows "quiet n v v'" and "h \<noteq> 0 \<Longrightarrow> n < h"
proof -
  obtain v1 where c: "create K_fence v = (h, v1)" and v': "v' = (if h = 0 then v1 else v1\<lparr>vk_fence := (vk_fence v1)(h := st)\<rparr>)"
    using assms(1) by (auto simp: create_fence_def split: prod.splits)
  note k = create_keeps [OF c]
  show "h \<noteq> 0 \<Longrightarrow> n < h" using k assms(3) by linarith
  show "quiet n v v'" using k v' assms(2,3) by (auto simp: quiet_def)
qed

lemma quiet_create_semaphore:
  assumes "create_semaphore v = (h, v')" and "n \<le> vk_next v"
  shows "quiet n v v'" and "h \<noteq> 0 \<Longrightarrow> h \<notin> set (vk_signaled v') \<and> n < h \<and> h \<le> vk_next v'"
proof -
  obtain v1 where c: "create K_semaphore v = (h, v1)"
    and v': "v' = (if h = 0 then v1 else v1\<lparr>vk_signaled := removeAll h (vk_signaled v1)\<rparr>)"
    using assms(1) by (auto simp: create_semaphore_def split: prod.splits)
  note k = create_keeps [OF c]
  show "h \<noteq> 0 \<Longrightarrow> h \<notin> set (vk_signaled v') \<and> n < h \<and> h \<le> vk_next v'" using k v' assms(2) by auto
  show "quiet n v v'" using k v' assms(2) by (auto simp: quiet_def)
qed

lemma accounts_new_semaphore:
  "accounts B xs v \<Longrightarrow> create_semaphore v = (h, v') \<Longrightarrow> accounts B ((K_semaphore, h) # xs) v'"
  using accounts_create [of B xs v K_semaphore h]
  by (auto simp: create_semaphore_def accounts_upds split: prod.splits if_splits)

lemma quiet_create_pool:
  assumes "create_pool v = (h, v')" and "n \<le> vk_next v"
  shows "quiet n v v'" and "h \<noteq> 0 \<Longrightarrow> n < h"
proof -
  obtain v1 where c: "create K_command_pool v = (h, v1)"
    and v': "v' = (if h = 0 then v1 else v1\<lparr>vk_pool_cmds := (vk_pool_cmds v1)(h := [])\<rparr>)"
    using assms(1) by (auto simp: create_pool_def split: prod.splits)
  note k = create_keeps [OF c]
  show "h \<noteq> 0 \<Longrightarrow> n < h" using k assms(2) by linarith
  show "quiet n v v'" using k v' assms(2) by (auto simp: quiet_def)
qed

lemma quiet_allocate:
  "allocate_commands pool k v = (cs, v') \<Longrightarrow> n < pool \<Longrightarrow> quiet n v v'"
  by (auto simp: allocate_commands_def quiet_def Let_def split: prod.splits if_splits dest!: ask_keeps)

lemma quiet_legal [quiet]: "quiet n v (legal b v)"
  by (simp add: quiet_def legal_def)

lemma quiet_begin [quiet]: "begin_command c v = (b, v') \<Longrightarrow> quiet n v v'"
  unfolding begin_command_def by (drule quiet_ask [of _ _ _ n]) (simp add: quiet_def legal_def)

text \<open>A submit on a new fence and the wait for it.\<close>

lemma quiet_submit_wait:
  assumes "submit q [] c [] f v = (sub, v1)" and "(if sub then wait_fence f v1 else (False, v1)) = (b, v2)" and "n < f"
  shows "quiet n v v2"
proof -
  obtain ok w where a: "ask (legal (all_signaled [] v \<and> \<not> busy v c \<and> vk_fence v f = Unsignaled) v) = (ok, w)" by fastforce
  have k: "vk_next w = vk_next v" "vk_fence w = vk_fence v" "vk_lost w = vk_lost v" "vk_signaled w = vk_signaled v"
    "vk_pool_cmds w = vk_pool_cmds v"
    using ask_keeps [OF a] by (simp_all add: legal_def)
  have 1: "sub = ok" "v1 = (if ok then w\<lparr>vk_signaled := vk_signaled w, vk_fence := (vk_fence w)(f := Pending c),
      vk_log := vk_log w @ [Submit q [] c [] f]\<rparr> else w)"
    using assms(1) a by (auto simp: submit_def Let_def consume_def)
  show ?thesis
  proof (cases ok)
    case False
    then show ?thesis using assms(2) 1 k by (simp add: quiet_def)
  next
    case True
    obtain ok2 w2 where a2: "ask (legal (vk_fence v1 f \<noteq> Unsignaled \<or> vk_lost v1) v1) = (ok2, w2)" by fastforce
    have k2: "vk_next w2 = vk_next v" "vk_fence w2 = (vk_fence v)(f := Pending c)" "vk_lost w2 = vk_lost v"
      "vk_signaled w2 = vk_signaled v" "vk_pool_cmds w2 = vk_pool_cmds v"
      using ask_keeps [OF a2] 1 k True by (simp_all add: legal_def)
    have "v2 = (if ok2 then w2\<lparr>vk_fence := (vk_fence w2)(f := Signaled)\<rparr> else w2\<lparr>vk_lost := True\<rparr>)"
      using assms(2) a2 1(1) True by (auto simp: wait_fence_def)
    then show ?thesis using k2 assms(3) by (auto simp: quiet_def)
  qed
qed

lemma quiet_upload:
  assumes "upload queue v = (ok, v')" and "n \<le> vk_next v"
  shows "quiet n v v'"
proof -
  obtain pool v1 where 1: "create_pool v = (pool, v1)" by fastforce
  obtain cs v2 where 2: "allocate_commands pool 1 v1 = (cs, v2)" by fastforce
  obtain begun v3 where 3: "begin_command (hd (the cs)) v2 = (begun, v3)" by fastforce
  obtain ended v4 where 4: "ask v3 = (ended, v4)" by fastforce
  obtain fence v5 where 5: "create_fence Unsignaled v4 = (fence, v5)" by fastforce
  obtain sub v6 where 6: "submit queue [] (hd (the cs)) [] fence v5 = (sub, v6)" by fastforce
  obtain ok' v7 where 7: "(if sub then wait_fence fence v6 else (False, v6)) = (ok', v7)" by fastforce
  note q1 = quiet_create_pool [OF 1 assms(2)]
  show ?thesis
  proof (cases "pool = 0")
    case True
    then show ?thesis using assms(1) 1 q1 by (simp add: upload_def)
  next
    case pool: False
    note q2 = quiet_trans [OF q1(1) quiet_allocate [OF 2 q1(2) [OF pool]]]
    note q3 = quiet_trans [OF q2 quiet_begin [OF 3]]
    note q4 = quiet_trans [OF q3 quiet_ask [OF 4]]
    have n4: "n \<le> vk_next v4" using q4 assms(2) by (simp add: quiet_next)
    note q5 = quiet_create_fence [OF 5 _ n4, simplified]
    note q5' = quiet_trans [OF q4 q5(1)]
    have q7: "quiet n v v7" if "fence \<noteq> 0"
      using quiet_trans [OF q5' quiet_submit_wait [OF 6 7]] q5(2) that by simp
    have d: "quiet n v w \<Longrightarrow> quiet n v (destroy K_command_pool pool w)" for w using quiet_trans quiet_destroy by blast
    have d2: "quiet n v w \<Longrightarrow> quiet n v (destroy K_command_pool pool (destroy K_fence fence w))" for w
      using quiet_trans quiet_destroy by blast
    show ?thesis
    proof (cases cs)
      case None
      then show ?thesis using assms(1) 1 2 pool d [OF q2] by (simp add: upload_def)
    next
      case (Some c)
      then show ?thesis
        using assms(1) 1 2 3 4 5 6 7 pool d [OF q3] d [OF q4] d [OF q5'] d2 [OF q7]
        by (cases begun; cases ended; cases "fence = 0") (auto simp: upload_def)
    qed
  qed
qed

text \<open>Continuing a quiet prefix with one more step.\<close>

lemma quiet_step:
  "quiet n v v1 \<Longrightarrow> ask v1 = (b, v') \<Longrightarrow> quiet n v v'" "quiet n v v1 \<Longrightarrow> create k v1 = (h, v') \<Longrightarrow> quiet n v v'"
  "quiet n v v1 \<Longrightarrow> quiet n v (destroy_if c k h v1)" "quiet n v v1 \<Longrightarrow> quiet n v (destroy k h v1)"
  by (erule quiet_trans, erule quiet_ask) (erule quiet_trans, erule quiet_create,
      erule quiet_trans, rule quiet_destroy_if, erule quiet_trans, rule quiet_destroy)

lemma quiet_make_image: "make_image mem t v = (ok, t', v') \<Longrightarrow> quiet n v v'"
  by (auto simp: make_image_def Let_def split: prod.splits if_splits option.splits) (meson quiet_step quiet_refl)+

lemma quiet_make_staging: "make_staging mem v = (ok, b, m, v') \<Longrightarrow> quiet n v v'"
  by (auto simp: make_staging_def Let_def split: prod.splits if_splits) (meson quiet_step quiet_refl)+

lemma quiet_make_view: "make_view t v = (ok, t', v') \<Longrightarrow> quiet n v v'"
  by (auto simp: make_view_def Let_def split: prod.splits if_splits) (meson quiet_step quiet_refl)+

lemma quiet_free_staging: "quiet n v (free_staging b m v)"
  unfolding free_staging_def by (rule quiet_step(3), rule quiet_step(3), rule quiet_refl)

lemma quiet_destroy_texture: "quiet n v (snd (destroy_texture ro t v))"
proof -
  have "quiet n v (destroy_if a K_memory h1 (destroy_if b K_image h2 (destroy_if c K_view h3 (destroy_if d K_sampler h4 v))))"
    for a b c d h1 h2 h3 h4
    by (rule quiet_step(3), rule quiet_step(3), rule quiet_step(3), rule quiet_step(3), rule quiet_refl)
  then show ?thesis by (simp add: destroy_texture_def split: option.splits)
qed

lemma quiet_create_texture:
  assumes "create_texture dev mem ro v = (ok, t, v')" and "n \<le> vk_next v"
  shows "quiet n v v'"
proof (cases "\<exists>r dp dd. ro = Some r \<and> r_disp r = Some dp \<and> r_device r \<noteq> 0 \<and> list_all (has dp) create_texture_needs \<and>
    dev = Some dd \<and> dd_has_graphics_queue_family dd \<and> dd_graphics_queue dd \<noteq> 0 \<and> dd_get_phys_mem_props dd \<and>
    dd_physical_device dd \<noteq> 0")
  case False
  then have "v' = v"
    using assms(1) by (auto simp: create_texture_def Let_def split: option.splits if_splits)
  then show ?thesis by simp
next
  case True
  then obtain r dp dd where r: "ro = Some r" "r_disp r = Some dp" "r_device r \<noteq> 0" "list_all (has dp) create_texture_needs"
    and dd: "dev = Some dd" "dd_has_graphics_queue_family dd" "dd_graphics_queue dd \<noteq> 0" "dd_get_phys_mem_props dd"
      "dd_physical_device dd \<noteq> 0" by blast
  obtain ok1 t1 v1 where 1: "make_image mem no_texture v = (ok1, t1, v1)" by (metis prod.exhaust)
  obtain ok2 b m v2 where 2: "make_staging mem v1 = (ok2, b, m, v2)" by (metis prod.exhaust)
  obtain ok3 v3 where 3: "upload (dd_graphics_queue dd) v2 = (ok3, v3)" by fastforce
  define v4 where "v4 = free_staging b m v3"
  obtain ok5 t5 v5 where 5: "make_view t1 v4 = (ok5, t5, v5)" by (metis prod.exhaust)
  note q1 = quiet_make_image [OF 1, of n]
  note q2 = quiet_trans [OF q1 quiet_make_staging [OF 2]]
  note q3 = quiet_trans [OF q2 quiet_upload [OF 3 quiet_next [OF q2 assms(2)]]]
  have q4: "quiet n v v4" unfolding v4_def by (rule quiet_trans [OF q3 quiet_free_staging])
  note q5 = quiet_trans [OF q4 quiet_make_view [OF 5]]
  have e: "create_texture dev mem ro v =
      (if \<not> ok1 then (False, destroy_texture ro t1 v1)
       else if \<not> ok2 then (False, destroy_texture ro t1 (free_staging b m v2))
       else if \<not> ok3 then (False, destroy_texture ro t1 v4)
       else if \<not> ok5 then (False, destroy_texture ro t5 v5) else (True, t5, v5))"
    using r dd 1 2 3 5 by (simp add: create_texture_def v4_def)
  have d: "quiet n v w \<Longrightarrow> destroy_texture ro t' w = (t'', w') \<Longrightarrow> quiet n v w'" for w w' t' t''
    using quiet_trans [of n v w w'] quiet_destroy_texture [of n w ro t'] by simp
  show ?thesis
    using assms(1) e d [OF q1] d [OF quiet_trans [OF q2 quiet_free_staging]] d [OF q4] d [OF q5] q5
    by (simp split: if_splits; metis)
qed

lemma quiet_get_or_load:
  assumes "get_or_load dev mem files req a v = (i, a', v')" and "n \<le> vk_next v"
  shows "quiet n v v'"
proof (cases "v' = v")
  case False
  then obtain r where r: "a_renderer a = Some r" "ready r" "q_hash req \<noteq> []" "map_of (a_textures a) (q_hash req) = None"
    using assms(1) by (auto simp: get_or_load_def split: if_splits option.splits)
  obtain ok t v1 where 1: "create_texture dev mem (Some r) v = (ok, t, v1)" by (metis prod.exhaust)
  obtain d v2 where 2: "add_texture r v1 = (d, v2)" by fastforce
  note q1 = quiet_create_texture [OF 1 assms(2)]
  have q2: "quiet n v v2" using 2 q1 r(2) by (auto simp: add_texture_def ready_def intro: quiet_step)
  have "v' = v1 \<or> v' = v2 \<or> v' = snd (destroy_texture (Some r) (t\<lparr>x_descriptor := d\<rparr>) v2)"
    using assms(1) False r 1 2 by (auto simp: get_or_load_def Let_def split: if_splits option.splits)
  then show ?thesis using q1 q2 quiet_trans [OF q2 quiet_destroy_texture] by blast
qed simp

lemma quiet_resolve_all:
  assumes "resolve_all lookup (get_or_load dev mem files) client hs (a, v) = (is, a', v')" and "n \<le> vk_next v"
  shows "quiet n v v'"
proof -
  have step: "quiet n v w' \<and> n \<le> vk_next w'"
    if "avatar_for client k = Some req" "quiet n v w \<and> n \<le> vk_next w" "get_or_load dev mem files req c w = (i, c', w')"
    for k req w c i c' w'
    using that quiet_trans quiet_get_or_load quiet_next by metis
  have "quiet n v v' \<and> n \<le> vk_next v'"
    by (rule resolve_all_invariant [where P = "\<lambda>_ w. quiet n v w \<and> n \<le> vk_next w", OF _ _ assms(1)])
      (rule step, assumption+, use assms(2) in simp)
  then show ?thesis ..
qed

lemma quiet_drop_textures: "quiet n v (drop_textures ro ts v)"
proof (induction ts arbitrary: v)
  case (Cons p ts)
  obtain h t where p: "p = (h, t)" by fastforce
  let ?w = "case ro of Some r \<Rightarrow> if x_descriptor t \<noteq> 0 then remove_texture (x_descriptor t) r v else v | None \<Rightarrow> v"
  have "quiet n v ?w" by (auto simp: remove_texture_def split: option.splits intro: quiet_step)
  then have "quiet n v (snd (destroy_texture ro (t\<lparr>x_descriptor := 0\<rparr>) ?w))"
    using quiet_trans quiet_destroy_texture by blast
  then show ?case using Cons quiet_trans p by fastforce
qed simp

lemma quiet_textures_shutdown: "textures_shutdown a v = (a', v') \<Longrightarrow> quiet n v v'"
  by (auto simp: textures_shutdown_def quiet_drop_textures)

lemma quiet_hdr_pipeline: "create_hdr_pipeline v = (p, v') \<Longrightarrow> quiet n v v'"
  by (auto simp: create_hdr_pipeline_def split: prod.splits if_splits) (meson quiet_step quiet_refl)+

lemma quiet_live [quiet]: "quiet n v (v\<lparr>vk_live := l\<rparr>)"
  by (simp add: quiet_def)

lemma quiet_backend [quiet]: "backend_init c v = (ok, v') \<Longrightarrow> quiet n v v'"
  by (auto simp: backend_init_def split: prod.splits if_splits dest!: quiet_ask [of _ _ _ n]
      intro: quiet_trans [OF _ quiet_live])

lemma quiet_renderer_init:
  assumes "renderer_init dd rp k tf nits r v = (ok, r', v')"
  shows "quiet n v v'"
proof (cases "v' = v")
  case False
  obtain pool v1 where 1: "create K_descriptor_pool v = (pool, v1)" by fastforce
  obtain ctx v2 where 2: "create K_context v1 = (ctx, v2)" by fastforce
  obtain loaded v3 where 3: "ask v2 = (loaded, v3)" by fastforce
  obtain ok4 v4 where 4: "backend_init ctx v3 = (ok4, v4)" by fastforce
  obtain pipe v5 where 5: "(if tf \<noteq> TF_None then create_hdr_pipeline v4 else (r_pipeline r, v4)) = (pipe, v5)" by fastforce
  have q1: "quiet n v v1" by (rule quiet_create [OF 1])
  have q2: "quiet n v v2" by (rule quiet_step(2) [OF q1 2])
  have q3: "quiet n v v3" by (rule quiet_step(1) [OF q2 3])
  have q4: "quiet n v v4" by (rule quiet_trans [OF q3 quiet_backend [OF 4]])
  have q5: "quiet n v v5" using q4 5 quiet_trans [OF q4 quiet_hdr_pipeline] by (auto split: if_splits)
  have "v' \<in> {v1, destroy K_descriptor_pool pool v2, destroy K_descriptor_pool pool (destroy K_context ctx v3),
      destroy K_descriptor_pool pool (destroy K_context ctx v4), v5}"
    using assms False 1 2 3 4 5
    by (auto simp: renderer_init_def Let_def split: if_splits)
  then show ?thesis
    using q1 quiet_step(4) [OF q2] quiet_step(4) [OF quiet_step(4) [OF q3]] quiet_step(4) [OF quiet_step(4) [OF q4]] q5
    by blast
qed simp

lemma quiet_renderer_shutdown: "renderer_shutdown gdpa r v = (r', v') \<Longrightarrow> quiet n v v'"
proof -
  define v1 where "v1 = (case r_disp r of
      Some dd \<Rightarrow> if r_pipeline r \<noteq> 0 \<and> has dd ''GetDeviceProcAddr'' \<and> r_device r \<noteq> 0 \<and> gdpa ''vkDestroyPipeline''
                 then destroy K_pipeline (r_pipeline r) v else v
    | None \<Rightarrow> v)"
  define v2 where "v2 = (if r_init_done r then destroy K_backend (r_ctx r) v1 else v)"
  define v3 where "v3 = (if r_ctx r \<noteq> 0 then destroy K_context (r_ctx r) v2 else v2)"
  have q1: "quiet n v v1" unfolding v1_def by (auto split: option.splits intro: quiet_destroy)
  have q2: "quiet n v v2" unfolding v2_def using quiet_step(4) [OF q1] by simp
  have q3: "quiet n v v3" unfolding v3_def using quiet_step(4) [OF q2] q2 by simp
  assume "renderer_shutdown gdpa r v = (r', v')"
  then have "v' = v3 \<or> (\<exists>p. v' = destroy K_descriptor_pool p v3)"
    by (auto simp: renderer_shutdown_def Let_def v3_def v2_def v1_def split: option.splits if_splits)
  then show ?thesis using q3 quiet_step(4) [OF q3] by blast
qed

section \<open>What a swapchain holds\<close>

definition image_objs :: "image_state \<Rightarrow> obj list" where
  "image_objs m = [(K_semaphore, m_done m), (K_fence, m_fence m), (K_framebuffer, m_framebuffer m), (K_view, m_view m)]"

definition state_objs :: "swapchain_state \<Rightarrow> obj list" where
  "state_objs s =
     (case s_avatars s of Some a \<Rightarrow> cache_objs (a_textures a) | None \<Rightarrow> []) @
     (case s_imgui s of Some r \<Rightarrow> renderer_objs r | None \<Rightarrow> []) @
     concat (map image_objs (s_images s)) @ [(K_command_pool, s_pool s), (K_render_pass, s_render_pass s)]"

text \<open>A swapchain is either complete (built on a device that can free it) or holds nothing.\<close>

definition built :: "device_data \<Rightarrow> vk \<Rightarrow> swapchain_state \<Rightarrow> bool" where
  "built dd v s \<longleftrightarrow> list_all (has dd) build_needs \<and> s_pool s \<noteq> 0 \<and> s_pool s \<le> vk_next v \<and>
     vk_pool_cmds v (s_pool s) = map m_cmd (s_images s) \<and>
     list_all (\<lambda>m. m_fence m \<noteq> 0 \<and> m_done m \<noteq> 0 \<and> m_fence m \<le> vk_next v \<and> m_done m \<le> vk_next v \<and> m_cmd m \<le> vk_next v \<and>
       m_done m \<notin> set (vk_signaled v) \<and> (m_in_flight m \<longrightarrow> vk_fence v (m_fence m) \<noteq> Unsignaled \<or> vk_lost v))
       (s_images s)"

definition empty_state :: "swapchain_state \<Rightarrow> bool" where
  "empty_state s \<longleftrightarrow> s_images s = [] \<and> s_pool s = 0 \<and> s_render_pass s = 0 \<and> s_imgui s = None \<and> s_avatars s = None"

definition overlay_ok :: "swapchain_state \<Rightarrow> bool" where
  "overlay_ok s \<longleftrightarrow> (\<forall>r. s_imgui s = Some r \<longrightarrow> renderer_ok r \<and> ready r) \<and>
     (\<forall>a. s_avatars s = Some a \<longrightarrow> cache_ok a) \<and> (s_imgui s \<noteq> None \<longrightarrow> s_tried s)"

definition chain_ok :: "layer \<Rightarrow> vk \<Rightarrow> swapchain_state \<Rightarrow> bool" where
  "chain_ok l v s \<longleftrightarrow> overlay_ok s \<and> (if s_ok s then built (device_of l (s_key s)) v s else empty_state s)"

text \<open>Whose fence may be pending: an image whose submit has not been waited for.\<close>

definition only_ours :: "image_state list \<Rightarrow> vk \<Rightarrow> bool" where
  "only_ours ms v \<longleftrightarrow> (\<forall>f c. vk_fence v f = Pending c \<longrightarrow>
     vk_lost v \<or> (\<exists>m \<in> set ms. m_fence m = f \<and> m_cmd m = c \<and> m_in_flight m))"

definition all_images :: "(nat \<times> swapchain_state) list \<Rightarrow> image_state list" where
  "all_images cs = concat (map (\<lambda>(h, s). s_images s) cs)"

definition all_objs :: "(nat \<times> swapchain_state) list \<Rightarrow> obj list" where
  "all_objs cs = concat (map (\<lambda>(h, s). state_objs s) cs)"

definition sc_inv :: "obj multiset \<Rightarrow> sc_world \<Rightarrow> bool" where
  "sc_inv B w \<longleftrightarrow>
     accounts B (all_objs (w_chains w)) (w_vk w) \<and>
     list_all (\<lambda>(h, s). chain_ok (w_layer w) (w_vk w) s \<and> h \<le> vk_next (w_vk w)) (w_chains w) \<and>
     distinct (map fst (w_chains w)) \<and>
     distinct (map m_fence (all_images (w_chains w))) \<and> distinct (map m_done (all_images (w_chains w))) \<and>
     distinct (map m_cmd (all_images (w_chains w))) \<and>
     only_ours (all_images (w_chains w)) (w_vk w)"

text \<open>Quiet steps keep what the other swapchains need.\<close>

lemma built_quiet:
  "built dd v s \<Longrightarrow> quiet n v v' \<Longrightarrow> n = vk_next v \<Longrightarrow> built dd v' s"
  unfolding built_def quiet_def list_all_iff by (auto dest: le_trans)

lemma chain_ok_quiet:
  "chain_ok l v s \<Longrightarrow> quiet (vk_next v) v v' \<Longrightarrow> chain_ok l v' s"
  by (auto simp: chain_ok_def intro: built_quiet)

lemma only_ours_quiet:
  "only_ours ms v \<Longrightarrow> quiet n v v' \<Longrightarrow> only_ours ms v'"
  unfolding only_ours_def quiet_def by blast

section \<open>Tearing down\<close>

lemma quiet_pending: "quiet n v v' \<Longrightarrow> pending v' f \<Longrightarrow> f \<le> n \<Longrightarrow> pending v f"
  unfolding quiet_def pending_def by metis

lemma quiet_idle: "quiet n v v' \<Longrightarrow> idle v c \<Longrightarrow> idle v' c"
  unfolding quiet_def idle_def by blast

text \<open>Waiting for the images: nothing of theirs is pending afterwards, nothing else changed.\<close>

lemma wait_images_spec:
  assumes "accounts B xs v" and "wait_images ms v = (ms', v')" and "distinct (map m_fence ms)"
    and "\<And>m. m \<in> set ms \<Longrightarrow> m_in_flight m \<Longrightarrow> m_fence m \<noteq> 0 \<and> (vk_fence v (m_fence m) \<noteq> Unsignaled \<or> vk_lost v)"
  shows "accounts B xs v' \<and> ms' = map (\<lambda>m. m\<lparr>m_in_flight := False\<rparr>) ms \<and> vk_next v' = vk_next v \<and>
    vk_signaled v' = vk_signaled v \<and> vk_pool_cmds v' = vk_pool_cmds v \<and> (vk_lost v \<longrightarrow> vk_lost v') \<and>
    (\<forall>f. (\<forall>m \<in> set ms. m_in_flight m \<longrightarrow> m_fence m \<noteq> f) \<longrightarrow> vk_fence v' f = vk_fence v f) \<and>
    (\<forall>m \<in> set ms. m_in_flight m \<longrightarrow> vk_lost v' \<or> vk_fence v' (m_fence m) = Signaled)"
  using assms
proof (induction ms arbitrary: v ms' v')
  case (Cons m ms)
  define v1 where "v1 = (if m_in_flight m \<and> m_fence m \<noteq> 0 then snd (wait_fence (m_fence m) v) else v)"
  obtain ms2 v2 where 2: "wait_images ms v1 = (ms2, v2)" by fastforce
  have r: "v' = v2" "ms' = m\<lparr>m_in_flight := False\<rparr> # ms2"
    using Cons.prems(2) 2 Cons.prems(4) [of m] by (cases m; auto simp: v1_def Let_def split: if_splits)+
  have 1: "accounts B xs v1" "vk_next v1 = vk_next v" "vk_signaled v1 = vk_signaled v" "vk_pool_cmds v1 = vk_pool_cmds v"
    "vk_lost v \<longrightarrow> vk_lost v1" "\<forall>f. (m_in_flight m \<longrightarrow> m_fence m \<noteq> f) \<longrightarrow> vk_fence v1 f = vk_fence v f"
    "m_in_flight m \<longrightarrow> vk_lost v1 \<or> vk_fence v1 (m_fence m) = Signaled"
  proof -
    obtain ok w where w: "wait_fence (m_fence m) v = (ok, w)" by fastforce
    have u: "m_in_flight m \<Longrightarrow> m_fence m \<noteq> 0 \<and> (vk_fence v (m_fence m) \<noteq> Unsignaled \<or> vk_lost v)"
      by (rule Cons.prems(4)) simp
    note a = accounts_wait [OF Cons.prems(1) w conjunct2 [OF u]]
    show "accounts B xs v1" "vk_next v1 = vk_next v" "vk_signaled v1 = vk_signaled v" "vk_pool_cmds v1 = vk_pool_cmds v"
      "vk_lost v \<longrightarrow> vk_lost v1" "\<forall>f. (m_in_flight m \<longrightarrow> m_fence m \<noteq> f) \<longrightarrow> vk_fence v1 f = vk_fence v f"
      "m_in_flight m \<longrightarrow> vk_lost v1 \<or> vk_fence v1 (m_fence m) = Signaled"
      using a u Cons.prems(1) w by (auto simp: v1_def)
  qed
  have pre: "m_fence k \<noteq> 0 \<and> (vk_fence v1 (m_fence k) \<noteq> Unsignaled \<or> vk_lost v1)" if "k \<in> set ms" "m_in_flight k" for k
  proof -
    have "m_fence k \<noteq> m_fence m" using Cons.prems(3) that(1) by (metis image_eqI list.set_map list.simps(9) distinct.simps(2))
    then have "vk_fence v1 (m_fence k) = vk_fence v (m_fence k)" using 1(6) by metis
    then show ?thesis using Cons.prems(4) [of k] that 1(5) by auto
  qed
  note I = Cons.IH [OF 1(1) 2 _ pre]
  have d: "distinct (map m_fence ms)" "\<And>k. k \<in> set ms \<Longrightarrow> m_fence k \<noteq> m_fence m"
    using Cons.prems(3) by (simp, force simp: image_iff)
  have "m_in_flight m \<longrightarrow> vk_lost v2 \<or> vk_fence v2 (m_fence m) = Signaled"
    using 1(7) I [OF d(1)] d(2) by fastforce
  then show ?case using I [OF d(1)] 1 r by auto
qed simp

lemma quiet_destroy_images: "quiet n v (destroy_images dd ms v)"
proof (induction ms arbitrary: v)
  case (Cons m ms)
  let ?v = "destroy_if (has dd ''DestroyImageView'') K_view (m_view m)
         (destroy_if (has dd ''DestroyFramebuffer'') K_framebuffer (m_framebuffer m)
           (destroy_if (has dd ''DestroyFence'') K_fence (m_fence m)
             (destroy_if (has dd ''DestroySemaphore'') K_semaphore (m_done m) v)))"
  have "quiet n v ?v"
    by (rule quiet_step(3), rule quiet_step(3), rule quiet_step(3), rule quiet_step(3), rule quiet_refl)
  then show ?case using Cons.IH quiet_trans by simp
qed simp

lemma destroy_images_fences [simp]:
  "vk_fence (destroy_images dd ms v) = vk_fence v" "vk_lost (destroy_images dd ms v) = vk_lost v"
  "vk_pool_cmds (destroy_images dd ms v) = vk_pool_cmds v"
  by (induction ms arbitrary: v) simp_all

lemma build_needs_has:
  "list_all (has dd) build_needs \<Longrightarrow> has dd ''DestroyImageView'' \<and> has dd ''DestroyFramebuffer'' \<and> has dd ''DestroyFence'' \<and>
     has dd ''DestroySemaphore'' \<and> has dd ''DestroyCommandPool'' \<and> has dd ''DestroyRenderPass'' \<and> has dd ''WaitForFences''"
  by (simp add: build_needs_def)

lemma destroy_images_accounts:
  "accounts B (concat (map image_objs ms) @ xs) v \<Longrightarrow> list_all (has dd) build_needs \<Longrightarrow>
     (\<And>m. m \<in> set ms \<Longrightarrow> m_fence m \<noteq> 0 \<Longrightarrow> \<not> pending v (m_fence m)) \<Longrightarrow> accounts B xs (destroy_images dd ms v)"
proof (induction ms arbitrary: v)
  case (Cons m ms)
  let ?ys = "concat (map image_objs ms) @ xs"
  let ?v1 = "destroy_if True K_semaphore (m_done m) v"
  let ?v2 = "destroy_if True K_fence (m_fence m) ?v1"
  let ?v3 = "destroy_if True K_framebuffer (m_framebuffer m) ?v2"
  let ?v4 = "destroy_if True K_view (m_view m) ?v3"
  have "accounts B ((K_semaphore, m_done m) # (K_fence, m_fence m) # (K_framebuffer, m_framebuffer m) #
      (K_view, m_view m) # ?ys) v" using Cons.prems(1) by (simp add: image_objs_def [of m])
  then have 1: "accounts B ((K_fence, m_fence m) # (K_framebuffer, m_framebuffer m) # (K_view, m_view m) # ?ys) ?v1"
    by (rule accounts_destroy) simp_all
  have p: "pending w f = pending v f" if "vk_fence w = vk_fence v" "vk_lost w = vk_lost v" for w f
    using that by (simp add: pending_def)
  have 2: "accounts B ((K_framebuffer, m_framebuffer m) # (K_view, m_view m) # ?ys) ?v2"
    using accounts_destroy_gen [OF 1, of K_fence "m_fence m"] Cons.prems(3) [of m] p [of ?v1] by simp
  have 4: "accounts B ?ys ?v4" using accounts_destroy [OF accounts_destroy [OF 2]] by simp
  have "accounts B xs (destroy_images dd ms ?v4)"
    by (rule Cons.IH [OF 4 Cons.prems(2)]) (use Cons.prems(3) p [of ?v4] in simp)
  then show ?case using build_needs_has [OF Cons.prems(2)] by simp
qed simp

lemma quiet_destroy_state: "destroy_state e dd s v = (s', v') \<Longrightarrow> quiet n v v'"
proof -
  assume a: "destroy_state e dd s v = (s', v')"
  define v1 where "v1 = (case s_avatars s of Some a \<Rightarrow> snd (textures_shutdown a v) | None \<Rightarrow> v)"
  define v2 where "v2 = (case s_imgui s of Some r \<Rightarrow> snd (renderer_shutdown (se_gdpa e) r v1) | None \<Rightarrow> v1)"
  have q1: "quiet n v v1" unfolding v1_def by (auto split: option.splits intro: quiet_textures_shutdown [OF surjective_pairing])
  have q2: "quiet n v v2"
    unfolding v2_def using q1 quiet_trans [OF q1 quiet_renderer_shutdown [OF surjective_pairing]] by (auto split: option.splits)
  have "v' = destroy_if (has dd ''DestroyRenderPass'') K_render_pass (s_render_pass s)
      (destroy_if (has dd ''DestroyCommandPool'') K_command_pool (s_pool s) (destroy_images dd (s_images s) v2))"
    using a unfolding v1_def v2_def by (simp add: destroy_state_def Let_def)
  then show ?thesis using quiet_step(3) [OF quiet_step(3) [OF quiet_trans [OF q2 quiet_destroy_images]]] by simp
qed

lemma destroy_state_accounts:
  assumes "accounts B (state_objs s @ xs) v" and "overlay_ok s" and "list_all (has dd) build_needs"
    and "\<And>m. m \<in> set (s_images s) \<Longrightarrow> m_fence m \<noteq> 0 \<Longrightarrow> \<not> pending v (m_fence m)"
    and "s_pool s \<noteq> 0 \<Longrightarrow> list_all (idle v) (vk_pool_cmds v (s_pool s))" and "s_pool s \<le> vk_next v"
    and "\<And>f. f \<in> m_fence ` set (s_images s) \<Longrightarrow> f \<le> vk_next v"
    and "se_gdpa e ''vkDestroyPipeline''" and "destroy_state e dd s v = (s', v')"
  shows "accounts B xs v' \<and> empty_state s' \<and> \<not> s_ok s' \<and> s_key s' = s_key s"
proof -
  let ?n = "vk_next v"
  define v1 where "v1 = (case s_avatars s of Some a \<Rightarrow> snd (textures_shutdown a v) | None \<Rightarrow> v)"
  define v2 where "v2 = (case s_imgui s of Some r \<Rightarrow> snd (renderer_shutdown (se_gdpa e) r v1) | None \<Rightarrow> v1)"
  let ?is = "concat (map image_objs (s_images s))" and ?ps = "[(K_command_pool, s_pool s), (K_render_pass, s_render_pass s)]"
  let ?rs = "case s_imgui s of Some r \<Rightarrow> renderer_objs r | None \<Rightarrow> []"
  have 0: "accounts B ((case s_avatars s of Some a \<Rightarrow> cache_objs (a_textures a) | None \<Rightarrow> []) @ ?rs @ ?is @ ?ps @ xs) v"
    using assms(1) by (simp add: state_objs_def)
  have 1: "accounts B (?rs @ ?is @ ?ps @ xs) v1 \<and> quiet ?n v v1"
  proof (cases "s_avatars s")
    case None
    then show ?thesis using 0 by (simp add: v1_def)
  next
    case (Some a)
    obtain a' w where w: "textures_shutdown a v = (a', w)" by fastforce
    from textures_shutdown_accounts(1) [OF _ _ w, of B "?rs @ ?is @ ?ps @ xs"] 0 Some assms(2) quiet_textures_shutdown [OF w, of ?n]
    show ?thesis using w by (simp add: v1_def overlay_ok_def)
  qed
  have 2: "accounts B (?is @ ?ps @ xs) v2 \<and> quiet ?n v v2"
  proof (cases "s_imgui s")
    case None
    then show ?thesis using 1 by (simp add: v2_def)
  next
    case (Some r)
    obtain r' w where w: "renderer_shutdown (se_gdpa e) r v1 = (r', w)" by fastforce
    from renderer_shutdown_accounts [OF _ _ w, of B "?is @ ?ps @ xs"] 1 Some assms(2,8)
      quiet_trans [OF _ quiet_renderer_shutdown [OF w], of ?n v]
    show ?thesis using w by (simp add: v2_def overlay_ok_def)
  qed
  have p: "pending v2 f \<Longrightarrow> f \<le> ?n \<Longrightarrow> pending v f" for f
    using quiet_pending [OF conjunct2 [OF 2]] .
  have i: "idle v c \<Longrightarrow> idle v2 c" for c using quiet_idle [OF conjunct2 [OF 2]] .
  have 3: "accounts B (?ps @ xs) (destroy_images dd (s_images s) v2)"
    by (rule destroy_images_accounts [OF conjunct1 [OF 2] assms(3)]) (use assms(4,7) p in blast)
  have "vk_pool_cmds v2 (s_pool s) = vk_pool_cmds v (s_pool s)" using 2 assms(6) by (simp add: quiet_def)
  then have "s_pool s \<noteq> 0 \<Longrightarrow> list_all (idle (destroy_images dd (s_images s) v2))
      (vk_pool_cmds (destroy_images dd (s_images s) v2) (s_pool s))"
    using assms(5) i by (auto simp: list_all_iff idle_def)
  with 3 have 4: "accounts B ((K_render_pass, s_render_pass s) # xs)
      (destroy_if True K_command_pool (s_pool s) (destroy_images dd (s_images s) v2))"
    by (intro accounts_destroy_pool) auto
  then have 5: "accounts B xs (destroy_if True K_render_pass (s_render_pass s)
      (destroy_if True K_command_pool (s_pool s) (destroy_images dd (s_images s) v2)))"
    by (rule accounts_destroy) simp_all
  have e: "v' = destroy_if True K_render_pass (s_render_pass s)
      (destroy_if True K_command_pool (s_pool s) (destroy_images dd (s_images s) v2))"
    using assms(9) build_needs_has [OF assms(3)] unfolding v1_def v2_def by (simp add: destroy_state_def Let_def)
  have "empty_state s' \<and> \<not> s_ok s' \<and> s_key s' = s_key s"
    using assms(9) by (auto simp: destroy_state_def Let_def empty_state_def)
  then show ?thesis using 5 e by simp
qed

section \<open>Building\<close>

lemma build_image_spec:
  assumes "accounts B xs v" and "build_image img cmd v = (ok, m, v')"
  shows "accounts B (image_objs m @ xs) v' \<and> quiet (vk_next v) v v' \<and> m_cmd m = cmd \<and> \<not> m_in_flight m \<and>
     (m_fence m \<noteq> 0 \<longrightarrow> vk_next v < m_fence m \<and> m_fence m \<le> vk_next v' \<and> vk_fence v' (m_fence m) = Signaled) \<and>
     (m_done m \<noteq> 0 \<longrightarrow> vk_next v < m_done m \<and> m_done m \<le> vk_next v' \<and> m_done m \<notin> set (vk_signaled v')) \<and>
     (ok \<longrightarrow> m_fence m \<noteq> 0 \<and> m_done m \<noteq> 0)"
proof -
  let ?n = "vk_next v"
  obtain view v1 where 1: "create K_view v = (view, v1)" by fastforce
  obtain fb v2 where 2: "create K_framebuffer v1 = (fb, v2)" by fastforce
  obtain fence v3 where 3: "create_fence Signaled v2 = (fence, v3)" by fastforce
  obtain sem v4 where 4: "create_semaphore v3 = (sem, v4)" by fastforce
  note q1 = quiet_create [OF 1, of ?n]
  note q2 = quiet_step(2) [OF q1 2]
  have n2: "?n \<le> vk_next v2" using quiet_next [OF q2] by simp
  note f3 = quiet_create_fence [OF 3 _ n2, simplified]
  note q3 = quiet_trans [OF q2 f3(1)]
  note f4 = quiet_create_semaphore [OF 4 quiet_next [OF q3 order_refl]]
  note q4 = quiet_trans [OF q3 f4(1)]
  note a1 = accounts_create [OF assms(1) 1]
  note a2 = accounts_create [OF a1 2]
  note a3 = accounts_new_fence [OF a2 3, simplified]
  note a4 = accounts_new_semaphore [OF a3(1) 4]
  have s4: "vk_fence v4 = vk_fence v3" "vk_next v3 \<le> vk_next v4"
    using 4 by (auto simp: create_semaphore_def split: prod.splits if_splits dest!: create_keeps)
  have f: "fence \<noteq> 0 \<Longrightarrow> fence \<le> vk_next v3" using accounts_live [OF a3(1), of K_fence fence] by simp
  consider "view = 0" | "view \<noteq> 0" "fb = 0" | "view \<noteq> 0" "fb \<noteq> 0" "fence = 0" | "view \<noteq> 0" "fb \<noteq> 0" "fence \<noteq> 0" by blast
  then show ?thesis
  proof cases
    case c: 1
    then show ?thesis using assms(2) 1 a1 q1 by (auto simp: build_image_def image_objs_def null_image_def)
  next
    case c: 2
    then show ?thesis using assms(2) 1 2 a2 q2 by (auto simp: build_image_def image_objs_def null_image_def)
  next
    case c: 3
    then show ?thesis using assms(2) 1 2 3 a3(1) q3 by (auto simp: build_image_def image_objs_def null_image_def)
  next
    case c: 4
    then show ?thesis
      using assms(2) 1 2 3 4 a3(2) a4 q4 f f3(2) f4(2) s4 by (auto simp: build_image_def image_objs_def null_image_def)
  qed
qed

lemma build_images_spec:
  "accounts B xs v \<Longrightarrow> build_images ps v = (ok, ms, v') \<Longrightarrow>
     accounts B (concat (map image_objs ms) @ xs) v' \<and> quiet (vk_next v) v v' \<and>
     list_all (\<lambda>m. \<not> m_in_flight m \<and> (m_fence m \<noteq> 0 \<longrightarrow> vk_next v < m_fence m \<and> m_fence m \<le> vk_next v' \<and> vk_fence v' (m_fence m) = Signaled) \<and>
       (m_done m \<noteq> 0 \<longrightarrow> vk_next v < m_done m \<and> m_done m \<le> vk_next v' \<and> m_done m \<notin> set (vk_signaled v'))) ms \<and>
     (ok \<longrightarrow> map m_cmd ms = map snd ps \<and> list_all (\<lambda>m. m_fence m \<noteq> 0 \<and> m_done m \<noteq> 0) ms \<and>
        distinct (map m_fence ms) \<and> distinct (map m_done ms))"
proof (induction ps arbitrary: v xs ok ms v')
  case (Cons p ps)
  obtain img cmd where p: "p = (img, cmd)" by fastforce
  obtain ok1 m v1 where 1: "build_image img cmd v = (ok1, m, v1)" by (metis prod.exhaust)
  note a = build_image_spec [OF Cons.prems(1) 1]
  show ?case
  proof (cases ok1)
    case False
    then have e: "\<not> ok" "ms = m # map (\<lambda>_. null_image) ps" "v' = v1" using Cons.prems(2) p 1 by auto
    have z: "held (concat (map image_objs (map (\<lambda>_. null_image) ps))) = {#}"
      by (induction ps) (simp_all add: image_objs_def null_image_def)
    have n: "\<not> m_in_flight null_image \<and> m_fence null_image = 0 \<and> m_done null_image = 0" by (simp add: null_image_def)
    have "accounts B (concat (map image_objs ms) @ xs) v'"
      using a z e by (simp add: accounts_def)
    then show ?thesis using a e n by (auto simp: list_all_iff)
  next
    case True
    obtain ok2 ms2 v2 where 2: "build_images ps v1 = (ok2, ms2, v2)" by (metis prod.exhaust)
    have e: "ok = ok2" "ms = m # ms2" "v' = v2" using Cons.prems(2) p 1 2 True by auto
    note I = Cons.IH [OF conjunct1 [OF a] 2]
    have "mset (concat (map image_objs ms2) @ image_objs m @ xs) = mset (concat (map image_objs (m # ms2)) @ xs)" by simp
    then have A: "accounts B (concat (map image_objs ms) @ xs) v'"
      unfolding e using accounts_perm [of _ _ B v2] conjunct1 [OF I] by blast
    have n: "vk_next v \<le> vk_next v1" using a quiet_next by auto
    have q: "quiet (vk_next v) v v'" using a I e quiet_mono [OF _ n] quiet_trans by metis
    have m: "m_fence m \<noteq> 0 \<and> vk_next v < m_fence m \<and> m_fence m \<le> vk_next v1 \<and> m_done m \<noteq> 0 \<and> vk_next v < m_done m \<and>
        m_done m \<le> vk_next v1 \<and> vk_fence v1 (m_fence m) = Signaled \<and> m_done m \<notin> set (vk_signaled v1) \<and> \<not> m_in_flight m \<and> m_cmd m = cmd"
      using a True by blast
    have q2: "quiet (vk_next v1) v1 v'" using I e by blast
    have m2: "m_fence m \<le> vk_next v' \<and> m_done m \<le> vk_next v' \<and> vk_fence v' (m_fence m) = Signaled \<and> m_done m \<notin> set (vk_signaled v')"
      using q2 m unfolding quiet_def by (metis le_trans)
    have D: "m_fence k \<noteq> m_fence m \<and> m_done k \<noteq> m_done m" if "k \<in> set ms2" "m_fence k \<noteq> 0" "m_done k \<noteq> 0" for k
      using I that m by (fastforce simp: list_all_iff)
    show ?thesis
      using A q I m m2 n e p D by (auto simp: list_all_iff dest: le_less_trans)
  qed
qed simp

lemma build_state_spec:
  assumes "accounts B xs v" and "build_state e dd images s v = (ok, s', v')" and "empty_state s" "\<not> s_ok s"
    and "se_gdpa e ''vkDestroyPipeline''"
  shows "quiet (vk_next v) v v' \<and> s_key s' = s_key s \<and> s_ok s' = ok \<and>
    (if ok then accounts B (state_objs s' @ xs) v' \<and> built dd v' s' \<and> s_imgui s' = None \<and> s_avatars s' = None \<and>
       distinct (map m_fence (s_images s')) \<and> distinct (map m_done (s_images s')) \<and> distinct (map m_cmd (s_images s')) \<and>
       list_all (\<lambda>m. vk_next v < m_fence m \<and> vk_next v < m_done m \<and> vk_next v < m_cmd m) (s_images s')
     else accounts B xs v' \<and> empty_state s')"
proof (cases "list_all (has dd) build_needs \<and> dd_has_graphics_queue_family dd \<and> images \<noteq> []")
  case False
  then have "\<not> ok \<and> s' = s \<and> (v' = v \<or> v' = snd (ask v))"
    using assms(2) by (auto simp: build_state_def split: if_splits prod.splits)
  moreover obtain b w where "ask v = (b, w)" by fastforce
  ultimately show ?thesis using assms(1,3,4) accounts_ask [of v b w] quiet_ask [of v b w] by auto
next
  case True
  let ?n = "vk_next v"
  obtain b1 v1 where 1: "ask v = (b1, v1)" by fastforce
  obtain b2 v2 where 2: "ask v1 = (b2, v2)" by fastforce
  obtain rp v3 where 3: "create K_render_pass v2 = (rp, v3)" by fastforce
  obtain pool v4 where 4: "create_pool v3 = (pool, v4)" by fastforce
  obtain cs v5 where 5: "allocate_commands pool (length images) v4 = (cs, v5)" by fastforce
  let ?s = "s\<lparr>s_render_pass := rp, s_pool := pool\<rparr>"
  note q1 = quiet_ask [OF 1, of ?n] note q2 = quiet_step(1) [OF q1 2] note q3 = quiet_step(2) [OF q2 3]
  note p4 = quiet_create_pool [OF 4 quiet_next [OF q3 order_refl]]
  note q4 = quiet_trans [OF q3 p4(1)]
  have a2: "accounts B xs v2" using assms(1) accounts_ask [OF 1] accounts_ask [OF 2] by simp
  note a3 = accounts_create [OF a2 3]
  note a4 = accounts_pool [OF a3 4]
  note a5 = accounts_commands [OF a4(1) 5]
  consider "\<not> b1 \<or> \<not> b2" | "b1" "b2" "rp = 0" | "b1" "b2" "rp \<noteq> 0" "pool = 0" | "b1" "b2" "rp \<noteq> 0" "pool \<noteq> 0" by blast
  then show ?thesis
  proof cases
    case c: 1
    then have "\<not> ok \<and> s' = s \<and> (v' = v1 \<or> v' = v2)" using assms(2) True 1 2 by (auto simp: build_state_def split: if_splits)
    then show ?thesis using assms(1,3,4) a2 accounts_ask [OF 1] q1 q2 by auto
  next
    case c: 2
    then have "\<not> ok \<and> s' = s \<and> v' = v3" using assms(2) True 1 2 3 by (auto simp: build_state_def)
    then show ?thesis using assms(3,4) a3 c q3 by simp
  next
    case c: 3
    then have e: "\<not> ok \<and> s' = s \<and> v' = destroy K_render_pass rp v4" using assms(2) True 1 2 3 4 by (auto simp: build_state_def)
    have "accounts B ((K_render_pass, rp) # xs) v4" using a4(1) c by simp
    then have "accounts B xs (destroy K_render_pass rp v4)" by (rule accounts_destroy_null) (use c in simp_all)
    then show ?thesis using assms(3,4) e quiet_step(4) [OF q4] by simp
  next
    case c: 4
    have nd: "list_all (has dd) build_needs" using True by simp
    have q5: "quiet ?n v v5" using quiet_trans [OF q4 quiet_allocate [OF 5 p4(2) [OF c(4)]]] .
    have o: "overlay_ok s" "s_images s = []" "s_avatars s = None" "s_imgui s = None"
      using assms(3) by (auto simp: empty_state_def overlay_ok_def)
    have wf4: "vk_wf v4" using a4(1) by (simp add: accounts_def)
    have pl: "pool \<le> vk_next v4" using accounts_live [OF a4(1), of K_command_pool pool] c by simp
    have pl5: "pool \<le> vk_next v5" using pl a5(5) by simp
    show ?thesis
    proof (cases cs)
      case None
      obtain s2 v6 where 6: "destroy_state e dd ?s v5 = (s2, v6)" by fastforce
      have e: "\<not> ok \<and> s' = s2 \<and> v' = v6" using assms(2) True 1 2 3 4 5 6 c None by (auto simp: build_state_def)
      have a: "accounts B (state_objs ?s @ xs) v5" using a5(1) o by (simp add: state_objs_def)
      have "vk_pool_cmds v5 pool = []" using a5(7) [OF None] a4(6) c by simp
      from destroy_state_accounts [OF a _ nd _ _ _ _ assms(5) 6] this o pl5
      have "accounts B xs v6 \<and> empty_state s2 \<and> \<not> s_ok s2 \<and> s_key s2 = s_key s" by (simp add: overlay_ok_def)
      then show ?thesis using e quiet_trans [OF q5 quiet_destroy_state [OF 6]] by simp
    next
      case (Some cmds)
      note cm = a5(8) [OF Some]
      obtain b6 ms v6 where 6: "build_images (zip images cmds) v5 = (b6, ms, v6)" by (metis prod.exhaust)
      note I = build_images_spec [OF a5(1) 6]
      let ?t = "?s\<lparr>s_images := ms\<rparr>"
      have n5: "?n \<le> vk_next v5" using quiet_next [OF q5 order_refl] .
      have q6: "quiet ?n v v6" using I q5 quiet_mono n5 quiet_trans by blast
      have "mset (concat (map image_objs ms) @ (K_command_pool, pool) # (K_render_pass, rp) # xs) = mset (state_objs ?t @ xs)"
        using o by (simp add: state_objs_def)
      then have a6: "accounts B (state_objs ?t @ xs) v6" using accounts_perm [of _ _ B v6] conjunct1 [OF I] by blast
      have pc: "vk_pool_cmds v6 pool = cmds" using I cm pl5 by (simp add: quiet_def)
      have pl6: "pool \<le> vk_next v6" using I pl5 by (auto simp: quiet_def)
      have ci: "list_all (idle v6) cmds"
      proof -
        have "idle v6 x" if "x \<in> set cmds" for x
        proof -
          have "vk_next v4 < x" using cm that by (simp add: list_all_iff)
          then have "idle v4 x" by (rule fresh_idle [OF wf4])
          then have "idle v5 x" using a5(2,3) by (simp add: idle_def)
          then show ?thesis using I quiet_idle by blast
        qed
        then show ?thesis by (simp add: list_all_iff)
      qed
      show ?thesis
      proof (cases b6)
        case False
        obtain s2 v7 where 7: "destroy_state e dd ?t v6 = (s2, v7)" by fastforce
        have e: "\<not> ok \<and> s' = s2 \<and> v' = v7" using assms(2) True 1 2 3 4 5 6 7 c Some False by (auto simp: build_state_def)
        have np: "\<not> pending v6 (m_fence m)" if "m \<in> set ms" "m_fence m \<noteq> 0" for m
          using I that by (auto simp: list_all_iff pending_def)
        have bd: "f \<le> vk_next v6" if "f \<in> m_fence ` set ms" for f
          using I that by (cases "f = 0") (auto simp: list_all_iff)
        have "accounts B xs v7 \<and> empty_state s2 \<and> \<not> s_ok s2 \<and> s_key s2 = s_key ?t"
          by (rule destroy_state_accounts [OF a6 _ nd _ _ _ _ assms(5) 7])
            (use o pc pl6 ci np bd in \<open>auto simp: overlay_ok_def\<close>)
        then show ?thesis using e quiet_trans [OF q6 quiet_destroy_state [OF 7]] by simp
      next
        case b: True
        have e: "ok \<and> s' = ?t\<lparr>s_ok := True\<rparr> \<and> v' = v6" using assms(2) True 1 2 3 4 5 6 c Some b by (auto simp: build_state_def)
        have so: "state_objs (?t\<lparr>s_ok := True\<rparr>) = state_objs ?t" by (simp add: state_objs_def)
        have mc: "map m_cmd ms = cmds" using I b cm by (simp add: map_snd_zip)
        have cb: "list_all (\<lambda>x. ?n < x \<and> x \<le> vk_next v6) cmds"
          using cm quiet_next [OF q4 order_refl] I by (fastforce simp: list_all_iff quiet_def)
        then have mb: "list_all (\<lambda>m. ?n < m_cmd m \<and> m_cmd m \<le> vk_next v6) ms" using mc by (auto simp: list_all_iff)
        have "built dd v6 (?t\<lparr>s_ok := True\<rparr>)"
          using nd c pl6 pc mc I b mb by (auto simp: built_def list_all_iff)
        moreover have "list_all (\<lambda>m. ?n < m_fence m \<and> ?n < m_done m \<and> ?n < m_cmd m) ms"
          using I b mb le_less_trans [OF n5] by (auto simp: list_all_iff)
        ultimately show ?thesis using e so a6 q6 o I b mc cm by simp
      qed
    qed
  qed
qed

end
