(* ===== verification/SwapchainLife.thy ===== *)
theory SwapchainLife
  imports SwapchainSafety
begin

text \<open>
  The swapchain hooks over a game's life: each keeps the invariant of
  \<^verbatim>\<open>SwapchainSafety\<close>, whatever the driver answers, and what follows for the game's frames.
\<close>

section \<open>Tracked swapchains\<close>

lemma chain_split:
  "map_of cs h = Some s \<Longrightarrow> \<exists>xs ys. cs = xs @ (h, s) # ys \<and> drop_chain h cs = xs @ ys \<and>
     (\<forall>s'. put_chain h s' cs = xs @ (h, s') # ys)"
proof (induction cs)
  case (Cons p cs)
  obtain h' t where p: "p = (h', t)" by fastforce
  show ?case
  proof (cases "h' = h")
    case True
    then show ?thesis using Cons.prems p by (intro exI [of _ "[]"] exI [of _ cs]) simp
  next
    case False
    then obtain xs ys where "cs = xs @ (h, s) # ys" "drop_chain h cs = xs @ ys" "\<forall>s'. put_chain h s' cs = xs @ (h, s') # ys"
      using Cons p by auto
    then show ?thesis using False p by (intro exI [of _ "p # xs"] exI [of _ ys]) simp
  qed
qed simp

lemma put_chain_new: "h \<notin> fst ` set cs \<Longrightarrow> put_chain h s cs = cs @ [(h, s)]"
  by (induction cs) auto

lemma all_append [simp]:
  "all_objs (xs @ ys) = all_objs xs @ all_objs ys" "all_images (xs @ ys) = all_images xs @ all_images ys"
  "all_objs ((h, s) # ys) = state_objs s @ all_objs ys" "all_images ((h, s) # ys) = s_images s @ all_images ys"
  "all_objs [] = []" "all_images [] = []"
  by (simp_all add: all_objs_def all_images_def)

lemma accounts_front:
  "accounts B (xs @ zs @ ys) v \<longleftrightarrow> accounts B (zs @ xs @ ys) v"
  by (rule accounts_perm) simp

lemma empty_state_objs: "empty_state s \<Longrightarrow> accounts B (state_objs s @ xs) v = accounts B xs v"
  by (simp add: empty_state_def state_objs_def)

lemma empty_destroyed:
  "empty_state s \<Longrightarrow> destroy_state e dd s v = (s', v') \<Longrightarrow> v' = v"
  by (simp add: destroy_state_def empty_state_def destroy_if_def)

lemma empty_waited: "empty_state s \<Longrightarrow> wait_overlay_idle dd s v = (s, v)"
  by (cases s) (auto simp: wait_overlay_idle_def empty_state_def)

lemma image_objs_in_flight [simp]: "image_objs (m\<lparr>m_in_flight := b\<rparr>) = image_objs m"
  by (simp add: image_objs_def)

section \<open>Retiring a swapchain\<close>

text \<open>What holds of one swapchain \<open>s\<close> among others with images \<open>ms\<close>.\<close>

lemma torn_down:
  assumes "accounts B (state_objs s @ xs) v" and "chain_ok l v s" and "only_ours (s_images s @ ms) v"
    and "distinct (map m_fence (s_images s @ ms))" "distinct (map m_cmd (s_images s @ ms))"
    and "se_gdpa e ''vkDestroyPipeline''"
    and "wait_overlay_idle (device_of l (s_key s)) s v = (s1, v1)"
    and "destroy_state e (device_of l (s_key s)) s1 v1 = (s2, v2)"
  shows "accounts B xs v2 \<and> only_ours ms v2 \<and> vk_next v \<le> vk_next v2 \<and>
    (\<forall>dd t. built dd v t \<longrightarrow> set (s_images t) \<subseteq> set ms \<longrightarrow> built dd v2 t) \<and>
    set (vk_signaled v2) \<inter> {..vk_next v} = set (vk_signaled v) \<inter> {..vk_next v}"
proof (cases "s_ok s")
  case False
  then have e: "empty_state s" using assms(2) by (simp add: chain_ok_def)
  then have "s1 = s" "v1 = v" using assms(7) empty_waited by fastforce+
  then have "v2 = v" using e empty_destroyed assms(8) by blast
  then show ?thesis using assms(1,3) e by (simp add: empty_state_objs empty_state_def)
next
  case True
  let ?dd = "device_of l (s_key s)"
  have b: "built ?dd v s" and o: "overlay_ok s" using assms(2) True by (simp_all add: chain_ok_def)
  have nd: "list_all (has ?dd) build_needs" using b by (simp add: built_def)
  obtain ms1 where w: "wait_images (s_images s) v = (ms1, v1)" and s1: "s1 = s\<lparr>s_images := ms1\<rparr>"
    using assms(7) build_needs_has [OF nd] by (auto simp: wait_overlay_idle_def split: prod.splits)
  have d: "distinct (map m_fence (s_images s))" using assms(4) by simp
  have pre: "m_fence m \<noteq> 0 \<and> (vk_fence v (m_fence m) \<noteq> Unsignaled \<or> vk_lost v)" if "m \<in> set (s_images s)" "m_in_flight m" for m
    using b that by (auto simp: built_def list_all_iff)
  note W = wait_images_spec [OF assms(1) w d pre]
  have ms1: "ms1 = map (\<lambda>m. m\<lparr>m_in_flight := False\<rparr>) (s_images s)" using W by blast
  have so: "state_objs s1 = state_objs s" by (simp add: s1 ms1 state_objs_def comp_def)
  text \<open>After the wait no fence of this swapchain is pending, and none of its commands is in flight.\<close>
  have inj: "inj_on m_fence (set (s_images s @ ms))" "inj_on m_cmd (set (s_images s @ ms))"
    using assms(4,5) by (simp_all only: distinct_map)
  have same: "m = m'" if "m \<in> set (s_images s)" "m' \<in> set (s_images s @ ms)" "m_fence m = m_fence m' \<or> m_cmd m = m_cmd m'" for m m'
    using that inj_onD [OF inj(1), of m m'] inj_onD [OF inj(2), of m m'] by auto
  have waited: "vk_lost v1 \<or> vk_fence v1 f \<noteq> Pending c" if "m \<in> set (s_images s)" "m_fence m = f \<or> m_cmd m = c" for m f c
  proof (rule ccontr)
    assume a: "\<not> (vk_lost v1 \<or> vk_fence v1 f \<noteq> Pending c)"
    have old: "vk_fence v f = Pending c"
    proof (cases "\<exists>k \<in> set (s_images s). m_in_flight k \<and> m_fence k = f")
      case True
      then show ?thesis using W a by fastforce
    next
      case False
      then show ?thesis using W a by auto
    qed
    then obtain m' where m': "m' \<in> set (s_images s @ ms)" "m_fence m' = f" "m_cmd m' = c" "m_in_flight m'"
      using assms(3) W a unfolding only_ours_def by blast
    then have "m' = m" using same [OF that(1) m'(1)] that(2) by auto
    then show False using W a that(1) m' by fastforce
  qed
  have cmds: "vk_pool_cmds v1 (s_pool s1) = map m_cmd (s_images s)" and pl: "s_pool s1 \<noteq> 0" "s_pool s1 \<le> vk_next v1"
    using W b by (auto simp: s1 built_def)
  have idle: "list_all (idle v1) (vk_pool_cmds v1 (s_pool s1))"
    unfolding cmds using waited by (fastforce simp: list_all_iff idle_def)
  have np: "\<not> pending v1 (m_fence m)" if "m \<in> set (s_images s1)" for m
  proof -
    have "m_fence m \<in> m_fence ` set (s_images s)" using that by (auto simp: s1 ms1)
    then obtain k where k: "k \<in> set (s_images s)" "m_fence k = m_fence m" by auto
    show ?thesis using waited [OF k(1)] k(2) by (auto simp: pending_def split: fence_state.splits)
  qed
  have fb: "f \<le> vk_next v1" if "f \<in> m_fence ` set (s_images s1)" for f
    using that b W by (auto simp: s1 ms1 built_def list_all_iff)
  have o1: "overlay_ok s1" using o by (simp add: s1 overlay_ok_def)
  have a1: "accounts B (state_objs s1 @ xs) v1" using W so by simp
  have D: "accounts B xs v2 \<and> empty_state s2 \<and> \<not> s_ok s2 \<and> s_key s2 = s_key s1"
    by (rule destroy_state_accounts [OF a1 o1 nd _ _ pl(2) _ assms(6,8)]) (use np idle fb in auto)
  have q: "quiet (vk_next v) v1 v2" using quiet_destroy_state [OF assms(8)] .
  have n: "vk_next v1 = vk_next v" "vk_signaled v1 = vk_signaled v" "vk_pool_cmds v1 = vk_pool_cmds v" using W by simp_all
  have ours: "only_ours ms v2"
    unfolding only_ours_def
  proof (intro allI impI)
    fix f c assume "vk_fence v2 f = Pending c"
    then have "vk_lost v2 \<or> vk_fence v1 f = Pending c" using q by (auto simp: quiet_def)
    then consider "vk_lost v2" | "\<not> vk_lost v1" "vk_fence v1 f = Pending c" using q by (auto simp: quiet_def)
    then show "vk_lost v2 \<or> (\<exists>m \<in> set ms. m_fence m = f \<and> m_cmd m = c \<and> m_in_flight m)"
    proof cases
      case 2
      then have nf: "\<forall>k \<in> set (s_images s). m_fence k \<noteq> f" using waited by blast
      then have "vk_fence v f = Pending c" using W 2 by auto
      then show ?thesis using assms(3) W 2 nf unfolding only_ours_def by auto
    qed simp
  qed
  have other: "built dd v2 t" if "built dd v t" "set (s_images t) \<subseteq> set ms" for dd t
  proof -
    have "vk_fence v1 (m_fence k) = vk_fence v (m_fence k)" if "k \<in> set ms" for k
    proof -
      have "\<forall>m \<in> set (s_images s). m_fence m \<noteq> m_fence k" using that assms(4) by fastforce
      then show ?thesis using W by blast
    qed
    then have "built dd v1 t" using that n W by (auto simp: built_def list_all_iff)
    then show ?thesis by (rule built_quiet [OF _ q]) (simp add: n(1))
  qed
  show ?thesis using D ours other q n by (auto simp: quiet_def)
qed

text \<open>The invariant with one swapchain singled out, and with it taken away or replaced.\<close>

lemma only_ours_front:
  "only_ours (xs @ zs @ ys) v \<longleftrightarrow> only_ours (zs @ xs @ ys) v"
  unfolding only_ours_def by (simp add: Un_left_commute)

lemma sc_inv_parts:
  assumes "sc_inv B w" and "w_chains w = xs @ (h, s) # ys"
  shows "accounts B (state_objs s @ all_objs (xs @ ys)) (w_vk w)" "chain_ok (w_layer w) (w_vk w) s"
    "only_ours (s_images s @ all_images (xs @ ys)) (w_vk w)"
    "distinct (map m_fence (s_images s @ all_images (xs @ ys)))"
    "distinct (map m_cmd (s_images s @ all_images (xs @ ys)))"
    "distinct (map m_done (s_images s @ all_images (xs @ ys)))"
    "list_all (\<lambda>(h, t). chain_ok (w_layer w) (w_vk w) t \<and> h \<le> vk_next (w_vk w)) (xs @ ys)"
    "distinct (map fst ((h, s) # xs @ ys))" "h \<le> vk_next (w_vk w)"
  using assms
  by (auto simp: sc_inv_def accounts_front [of B "all_objs xs" "state_objs s" "all_objs ys"]
      only_ours_front [of "all_images xs" "s_images s" "all_images ys"])

lemma sc_inv_join:
  assumes "accounts B (state_objs s @ all_objs (xs @ ys)) v" "chain_ok l v s"
    and "only_ours (s_images s @ all_images (xs @ ys)) v"
    and "distinct (map m_fence (s_images s @ all_images (xs @ ys)))"
    and "distinct (map m_cmd (s_images s @ all_images (xs @ ys)))"
    and "distinct (map m_done (s_images s @ all_images (xs @ ys)))"
    and "list_all (\<lambda>(h, t). chain_ok l v t \<and> h \<le> vk_next v) (xs @ ys)"
    and "distinct (map fst ((h, s) # xs @ ys))" "h \<le> vk_next v"
  shows "sc_inv B \<lparr>w_layer = l, w_chains = xs @ (h, s) # ys, w_vk = v\<rparr>"
  using assms
  by (auto simp: sc_inv_def accounts_front [of B "all_objs xs" "state_objs s" "all_objs ys"]
      only_ours_front [of "all_images xs" "s_images s" "all_images ys"])

lemma sc_inv_drop:
  assumes "accounts B (all_objs cs) v" "only_ours (all_images cs) v"
    and "distinct (map m_fence (all_images cs))" "distinct (map m_cmd (all_images cs))" "distinct (map m_done (all_images cs))"
    and "list_all (\<lambda>(h, t). chain_ok l v t \<and> h \<le> vk_next v) cs" and "distinct (map fst cs)"
  shows "sc_inv B \<lparr>w_layer = l, w_chains = cs, w_vk = v\<rparr>"
  using assms by (simp add: sc_inv_def)

lemma images_sub: "(h, t) \<in> set cs \<Longrightarrow> set (s_images t) \<subseteq> set (all_images cs)"
  by (auto simp: all_images_def)

lemma retire_inv:
  assumes "sc_inv B w" and "se_gdpa e ''vkDestroyPipeline''" and "w' = retire e h w"
  shows "sc_inv B w' \<and> w_layer w' = w_layer w \<and> h \<notin> fst ` set (w_chains w') \<and> set (w_chains w') \<subseteq> set (w_chains w) \<and>
    vk_next (w_vk w) \<le> vk_next (w_vk w') \<and>
    set (vk_signaled (w_vk w')) \<inter> {..vk_next (w_vk w)} = set (vk_signaled (w_vk w)) \<inter> {..vk_next (w_vk w)}"
proof (cases "chain_at w h")
  case None
  then have "w' = w" using assms(3) by (simp add: retire_def)
  moreover have "h \<notin> fst ` set (w_chains w)" using None by (simp add: chain_at_def map_of_eq_None_iff)
  ultimately show ?thesis using assms(1) by simp
next
  case (Some s)
  then obtain xs ys where cs: "w_chains w = xs @ (h, s) # ys" "drop_chain h (w_chains w) = xs @ ys"
    using chain_split [of "w_chains w" h s] by (auto simp: chain_at_def)
  note P = sc_inv_parts [OF assms(1) cs(1)]
  let ?dd = "device_of (w_layer w) (s_key s)"
  obtain s1 v1 where 1: "wait_overlay_idle ?dd s (w_vk w) = (s1, v1)" by fastforce
  obtain s2 v2 where 2: "destroy_state e ?dd s1 v1 = (s2, v2)" by fastforce
  have w': "w' = w\<lparr>w_chains := xs @ ys, w_vk := v2\<rparr>"
    using assms(3) Some 1 2 cs(2) by (simp add: retire_def)
  note T = torn_down [OF P(1-5) assms(2) 1 2]
  have n: "vk_next (w_vk w) \<le> vk_next v2" using T by blast
  have "chain_ok (w_layer w) v2 t \<and> k \<le> vk_next v2" if "(k, t) \<in> set (xs @ ys)" for k t
  proof -
    have c: "chain_ok (w_layer w) (w_vk w) t" "k \<le> vk_next (w_vk w)" using P(7) that by (auto simp: list_all_iff)
    have "built (device_of (w_layer w) (s_key t)) (w_vk w) t \<Longrightarrow> built (device_of (w_layer w) (s_key t)) v2 t"
      using T images_sub [OF that] by blast
    then show ?thesis using c n by (simp add: chain_ok_def)
  qed
  then have L: "list_all (\<lambda>(h, t). chain_ok (w_layer w) v2 t \<and> h \<le> vk_next v2) (xs @ ys)"
    by (auto simp only: list_all_iff)
  have "sc_inv B \<lparr>w_layer = w_layer w, w_chains = xs @ ys, w_vk = v2\<rparr>"
    by (rule sc_inv_drop) (use T P(4-6,8) L in auto)
  moreover have "w' = \<lparr>w_layer = w_layer w, w_chains = xs @ ys, w_vk = v2\<rparr>" unfolding w' by (cases w) simp
  ultimately show ?thesis using T P(8) cs(1) by auto
qed

section \<open>Creating and destroying\<close>

lemma sc_inv_quiet:
  assumes "sc_inv B w" and "quiet (vk_next (w_vk w)) (w_vk w) v" and "accounts B (all_objs (w_chains w)) v"
  shows "sc_inv B (w\<lparr>w_vk := v\<rparr>)"
proof -
  have n: "vk_next (w_vk w) \<le> vk_next v" using assms(2) by (simp add: quiet_def)
  have "list_all (\<lambda>(h, s). chain_ok (w_layer w) v s \<and> h \<le> vk_next v) (w_chains w)"
    using assms(1) chain_ok_quiet [OF _ assms(2)] n unfolding sc_inv_def list_all_iff by fastforce
  then show ?thesis using assms only_ours_quiet [OF _ assms(2)] by (simp add: sc_inv_def)
qed

lemma driver_swapchain_keeps:
  assumes "driver_swapchain usage v = (res, v')" and "accounts B xs v"
  shows "accounts B xs v'" "quiet (vk_next v) v v'" "vk_signaled v' = vk_signaled v"
    "res = Some h \<Longrightarrow> h = Suc (vk_next v) \<and> vk_next v' = h"
    "vk_log v' = vk_log v @ [Create_swapchain usage]"
proof -
  obtain ok w where a: "ask (v\<lparr>vk_log := vk_log v @ [Create_swapchain usage]\<rparr>) = (ok, w)" by fastforce
  note k = ask_keeps [OF a]
  have e: "res = (if ok then Some (Suc (vk_next w)) else None)" "v' = (if ok then w\<lparr>vk_next := Suc (vk_next w)\<rparr> else w)"
    using assms(1) a by (auto simp: driver_swapchain_def)
  have w: "accounts B xs w" using accounts_ask [OF a] assms(2) by (simp add: accounts_upds)
  then have "accounts B xs (w\<lparr>vk_next := Suc (vk_next w)\<rparr>)"
    by (auto simp: accounts_def vk_wf_def live_def le_SucI)
  then show "accounts B xs v'" using w e by simp
  show "quiet (vk_next v) v v'" "vk_signaled v' = vk_signaled v" "res = Some h \<Longrightarrow> h = Suc (vk_next v) \<and> vk_next v' = h"
    "vk_log v' = vk_log v @ [Create_swapchain usage]"
    using k e by (auto simp: quiet_def)
qed

text \<open>Adding a swapchain under a new handle.\<close>

lemma sc_inv_add:
  assumes "sc_inv B w" and "accounts B (state_objs s @ all_objs (w_chains w)) v" and "quiet (vk_next (w_vk w)) (w_vk w) v"
    and "chain_ok (w_layer w) v s" and "h \<notin> fst ` set (w_chains w)" and "h \<le> vk_next v"
    and "distinct (map m_fence (s_images s))" "distinct (map m_done (s_images s))" "distinct (map m_cmd (s_images s))"
    and "list_all (\<lambda>m. vk_next (w_vk w) < m_fence m \<and> vk_next (w_vk w) < m_done m \<and> vk_next (w_vk w) < m_cmd m) (s_images s)"
  shows "sc_inv B (w\<lparr>w_chains := put_chain h s (w_chains w), w_vk := v\<rparr>)"
proof -
  let ?n = "vk_next (w_vk w)"
  have low: "m_fence m \<le> ?n \<and> m_done m \<le> ?n \<and> m_cmd m \<le> ?n" if m: "m \<in> set (all_images (w_chains w))" for m
  proof -
    obtain k t where t: "(k, t) \<in> set (w_chains w)" "m \<in> set (s_images t)" using m by (auto simp: all_images_def)
    then have "chain_ok (w_layer w) (w_vk w) t" using assms(1) by (auto simp: sc_inv_def list_all_iff)
    then show ?thesis using t(2) by (auto simp: chain_ok_def built_def empty_state_def list_all_iff split: if_splits)
  qed
  have apart: "m_fence m \<noteq> m_fence k \<and> m_done m \<noteq> m_done k \<and> m_cmd m \<noteq> m_cmd k"
    if "m \<in> set (s_images s)" "k \<in> set (all_images (w_chains w))" for m k
    using low [OF that(2)] that(1) assms(10) by (fastforce simp: list_all_iff)
  have n: "?n \<le> vk_next v" using assms(3) by (simp add: quiet_def)
  have c: "list_all (\<lambda>(h, t). chain_ok (w_layer w) v t \<and> h \<le> vk_next v) (w_chains w)"
    using assms(1) chain_ok_quiet [OF _ assms(3)] n unfolding sc_inv_def list_all_iff by fastforce
  have o: "only_ours (all_images (w_chains w) @ s_images s) v"
    using only_ours_quiet [OF _ assms(3)] assms(1) unfolding sc_inv_def only_ours_def by fastforce
  have a: "accounts B (all_objs (w_chains w) @ state_objs s) v"
    using assms(2) accounts_perm [of "state_objs s @ all_objs (w_chains w)" "all_objs (w_chains w) @ state_objs s" B v] by simp
  have d: "distinct (map m_fence (all_images (w_chains w) @ s_images s))" "distinct (map m_done (all_images (w_chains w) @ s_images s))"
    "distinct (map m_cmd (all_images (w_chains w) @ s_images s))"
    using assms(1,7-9) apart by (force simp: sc_inv_def)+
  show ?thesis
    using a o d c assms(1,4-6) by (simp add: put_chain_new sc_inv_def)
qed

text \<open>The hooks keep the invariant, and the signals of semaphores handed out before.\<close>

definition keeps :: "obj multiset \<Rightarrow> sc_world \<Rightarrow> sc_world \<Rightarrow> bool" where
  "keeps B w w' \<longleftrightarrow> sc_inv B w' \<and> vk_next (w_vk w) \<le> vk_next (w_vk w') \<and>
     set (vk_signaled (w_vk w')) \<inter> {..vk_next (w_vk w)} = set (vk_signaled (w_vk w)) \<inter> {..vk_next (w_vk w)}"

lemma keeps_trans: "keeps B w1 w2 \<Longrightarrow> keeps B w2 w3 \<Longrightarrow> keeps B w1 w3"
  unfolding keeps_def by (intro conjI) (simp, simp, blast intro: order_trans)

lemma quiet_keeps_signaled:
  "quiet (vk_next v) v v' \<Longrightarrow> set (vk_signaled v') \<inter> {..vk_next v} = set (vk_signaled v) \<inter> {..vk_next v}"
  by (auto simp: quiet_def)

text \<open>Creating, with the driver's two possible answers named.\<close>

lemma create_run:
  assumes "l_devices (w_layer w) key = Some dd" "has dd ''CreateSwapchainKHR''"
    and "driver_swapchain (overlay_swapchain_usage (rq_usage rq)) (w_vk w) = (r1, v1)"
    and "(if r1 = None \<and> overlay_swapchain_usage (rq_usage rq) \<noteq> rq_usage rq then driver_swapchain (rq_usage rq) v1 else (r1, v1)) = (r2, v2)"
  shows "r2 = None \<Longrightarrow> CreateSwapchainKHR e key rq w = (None, w\<lparr>w_vk := v2\<rparr>)"
    and "r2 = Some h \<Longrightarrow> w3 = (if rq_old rq \<noteq> 0 then retire e (rq_old rq) (w\<lparr>w_vk := v2\<rparr>) else w\<lparr>w_vk := v2\<rparr>) \<Longrightarrow>
      (if r1 \<noteq> None \<and> overlay_swapchain_usage (rq_usage rq) AND COLOR_ATTACHMENT_BIT \<noteq> 0
       then snd (build_state e dd (se_images e h) (new_swapchain key (rq_format rq) (rq_space rq) (rq_extent rq)) (w_vk w3))
       else (new_swapchain key (rq_format rq) (rq_space rq) (rq_extent rq), w_vk w3)) = (s, v4) \<Longrightarrow>
      CreateSwapchainKHR e key rq w =
        (Some h, if dd_overlay_disabled dd then w3 else w3\<lparr>w_chains := put_chain h s (w_chains w3), w_vk := v4\<rparr>)"
proof -
  show "CreateSwapchainKHR e key rq w = (None, w\<lparr>w_vk := v2\<rparr>)" if "r2 = None"
  proof (cases "r1 = None \<and> overlay_swapchain_usage (rq_usage rq) \<noteq> rq_usage rq")
    case True
    then show ?thesis using assms that by (simp add: CreateSwapchainKHR_def Let_def)
  next
    case False
    then have "r1 = None" "v1 = v2" using assms(4) that by auto
    then show ?thesis using assms(1-3) False by (simp add: CreateSwapchainKHR_def Let_def)
  qed
  assume h: "r2 = Some h"
    and w3: "w3 = (if rq_old rq \<noteq> 0 then retire e (rq_old rq) (w\<lparr>w_vk := v2\<rparr>) else w\<lparr>w_vk := v2\<rparr>)"
    and s: "(if r1 \<noteq> None \<and> overlay_swapchain_usage (rq_usage rq) AND COLOR_ATTACHMENT_BIT \<noteq> 0
       then snd (build_state e dd (se_images e h) (new_swapchain key (rq_format rq) (rq_space rq) (rq_extent rq)) (w_vk w3))
       else (new_swapchain key (rq_format rq) (rq_space rq) (rq_extent rq), w_vk w3)) = (s, v4)"
  show "CreateSwapchainKHR e key rq w =
        (Some h, if dd_overlay_disabled dd then w3 else w3\<lparr>w_chains := put_chain h s (w_chains w3), w_vk := v4\<rparr>)"
  proof (cases "r1 = None \<and> overlay_swapchain_usage (rq_usage rq) \<noteq> rq_usage rq")
    case True
    then show ?thesis using assms h s w3 by (cases "rq_old rq = 0") (auto simp: CreateSwapchainKHR_def Let_def)
  next
    case False
    then have "r2 = r1" "v2 = v1" using assms(4) by auto
    then show ?thesis using assms(1-3) h s False w3 by (cases "rq_old rq = 0") (auto simp: CreateSwapchainKHR_def Let_def)
  qed
qed

text \<open>What is tracked for a new swapchain: complete, or nothing.\<close>

lemma fresh_chain:
  assumes "accounts B xs v" and "se_gdpa e ''vkDestroyPipeline''" and "device_of l key = dd"
    and "(if capable then snd (build_state e dd images (new_swapchain key fmt space extent) v)
          else (new_swapchain key fmt space extent, v)) = (s, v')"
  shows "accounts B (state_objs s @ xs) v' \<and> quiet (vk_next v) v v' \<and> chain_ok l v' s \<and>
    distinct (map m_fence (s_images s)) \<and> distinct (map m_done (s_images s)) \<and> distinct (map m_cmd (s_images s)) \<and>
    list_all (\<lambda>m. vk_next v < m_fence m \<and> vk_next v < m_done m \<and> vk_next v < m_cmd m) (s_images s)"
proof -
  let ?s = "new_swapchain key fmt space extent"
  have e0: "empty_state ?s" "\<not> s_ok ?s" "s_key ?s = key" by (simp_all add: empty_state_def new_swapchain_def)
  have empty: ?thesis if "empty_state s" "\<not> s_ok s" "accounts B xs v'" "quiet (vk_next v) v v'"
    using that empty_state_objs [OF that(1)]
    by (simp add: chain_ok_def overlay_ok_def) (simp add: empty_state_def)
  show ?thesis
  proof (cases capable)
    case False
    then show ?thesis using empty e0 assms(1,4) by simp
  next
    case True
    obtain ok where b: "build_state e dd images ?s v = (ok, s, v')"
      using assms(4) True by (cases "build_state e dd images ?s v") simp
    note S = build_state_spec [OF assms(1) b e0(1,2) assms(2)]
    show ?thesis
    proof (cases ok)
      case False
      then show ?thesis using empty S by simp
    next
      case True
      then show ?thesis using S e0(3) assms(3) by (simp add: chain_ok_def overlay_ok_def)
    qed
  qed
qed

lemma create_inv:
  assumes "sc_inv B w" and "se_gdpa e ''vkDestroyPipeline''" and "CreateSwapchainKHR e key rq w = (res, w')"
  shows "keeps B w w' \<and> dom (l_devices (w_layer w')) = dom (l_devices (w_layer w))"
proof (cases "\<exists>dd. l_devices (w_layer w) key = Some dd \<and> has dd ''CreateSwapchainKHR''")
  case False
  then have "w' = w" using assms(3) by (auto simp: CreateSwapchainKHR_def split: option.splits)
  then show ?thesis using assms(1) by (simp add: keeps_def)
next
  case True
  then obtain dd where dd: "l_devices (w_layer w) key = Some dd" "has dd ''CreateSwapchainKHR''" by blast
  let ?u = "overlay_swapchain_usage (rq_usage rq)"
  obtain r1 v1 where 1: "driver_swapchain ?u (w_vk w) = (r1, v1)" by fastforce
  obtain r2 v2 where 2: "(if r1 = None \<and> ?u \<noteq> rq_usage rq then driver_swapchain (rq_usage rq) v1 else (r1, v1)) = (r2, v2)" by fastforce
  have acc: "accounts B (all_objs (w_chains w)) (w_vk w)" using assms(1) by (simp add: sc_inv_def)
  note k1 = driver_swapchain_keeps [OF 1 acc]
  have k2: "accounts B (all_objs (w_chains w)) v2 \<and> quiet (vk_next (w_vk w)) (w_vk w) v2 \<and> vk_signaled v2 = vk_signaled (w_vk w) \<and>
     (\<forall>h. r2 = Some h \<longrightarrow> vk_next (w_vk w) < h \<and> h \<le> vk_next v2)"
  proof (cases "r1 = None \<and> ?u \<noteq> rq_usage rq")
    case True
    then have "driver_swapchain (rq_usage rq) v1 = (r2, v2)" using 2 by simp
    note k = driver_swapchain_keeps [OF this k1(1)]
    have n: "vk_next (w_vk w) \<le> vk_next v1" using k1(2) by (simp add: quiet_def)
    have "\<forall>h. r2 = Some h \<longrightarrow> vk_next (w_vk w) < h \<and> h \<le> vk_next v2" using k(4) n by auto
    then show ?thesis using k(1,3) k1(3) quiet_trans [OF k1(2) quiet_mono [OF k(2) n]] by simp
  next
    case False
    then have "r2 = r1" "v2 = v1" using 2 by auto
    then show ?thesis using k1(1-4) by auto
  qed
  have w2: "sc_inv B (w\<lparr>w_vk := v2\<rparr>)" using sc_inv_quiet [OF assms(1)] k2 by blast
  have K2: "keeps B w (w\<lparr>w_vk := v2\<rparr>)" using w2 k2 by (simp add: keeps_def quiet_def)
  show ?thesis
  proof (cases r2)
    case None
    then have "w' = w\<lparr>w_vk := v2\<rparr>" using assms(3) create_run(1) [OF dd 1 2] by simp
    then show ?thesis using K2 by simp
  next
    case (Some h)
    define w3 where "w3 = (if rq_old rq \<noteq> 0 then retire e (rq_old rq) (w\<lparr>w_vk := v2\<rparr>) else w\<lparr>w_vk := v2\<rparr>)"
    have r: "sc_inv B w3 \<and> w_layer w3 = w_layer w \<and> set (w_chains w3) \<subseteq> set (w_chains w) \<and> vk_next v2 \<le> vk_next (w_vk w3) \<and>
        set (vk_signaled (w_vk w3)) \<inter> {..vk_next v2} = set (vk_signaled v2) \<inter> {..vk_next v2}"
    proof (cases "rq_old rq = 0")
      case True
      then show ?thesis using w2 by (simp add: w3_def)
    next
      case False
      then have "w3 = retire e (rq_old rq) (w\<lparr>w_vk := v2\<rparr>)" by (simp add: w3_def)
      from retire_inv [OF w2 assms(2) this] show ?thesis by simp
    qed
    have K3: "keeps B w w3" by (rule keeps_trans [OF K2]) (use r in \<open>simp add: keeps_def\<close>)
    let ?s = "new_swapchain key (rq_format rq) (rq_space rq) (rq_extent rq)"
    obtain s v4 where 4: "(if r1 \<noteq> None \<and> ?u AND COLOR_ATTACHMENT_BIT \<noteq> 0 then snd (build_state e dd (se_images e h) ?s (w_vk w3)) else (?s, w_vk w3)) = (s, v4)" by fastforce
    have w': "w' = (if dd_overlay_disabled dd then w3 else w3\<lparr>w_chains := put_chain h s (w_chains w3), w_vk := v4\<rparr>)"
      using assms(3) create_run(2) [OF dd 1 2 Some w3_def 4] by simp
    show ?thesis
    proof (cases "dd_overlay_disabled dd")
      case True
      then show ?thesis using w' K3 r by simp
    next
      case False
      have a3: "accounts B (all_objs (w_chains w3)) (w_vk w3)" using r by (simp add: sc_inv_def)
      have dv: "device_of (w_layer w3) key = dd" using dd r by (simp add: device_of_def)
      note S = fresh_chain [OF a3 assms(2) dv 4]
      have hn: "h \<notin> fst ` set (w_chains w3)"
      proof
        assume "h \<in> fst ` set (w_chains w3)"
        then have "h \<in> fst ` set (w_chains w)" using r by blast
        then have "h \<le> vk_next (w_vk w)" using assms(1) by (auto simp: sc_inv_def list_all_iff)
        then show False using k2 Some by auto
      qed
      have h4: "h \<le> vk_next v4" using k2 Some r S by (auto simp: quiet_def)
      have L: "w_layer w3 = w_layer w" using r by blast
      have i3: "sc_inv B w3" using r by blast
      have I: "sc_inv B (w3\<lparr>w_chains := put_chain h s (w_chains w3), w_vk := v4\<rparr>)"
        using sc_inv_add [OF i3 _ _ _ hn h4, of s] S by blast
      have q4: "vk_next (w_vk w3) \<le> vk_next v4" using S by (simp add: quiet_def)
      have "keeps B w3 (w3\<lparr>w_chains := put_chain h s (w_chains w3), w_vk := v4\<rparr>)"
        unfolding keeps_def using I q4 quiet_keeps_signaled [of "w_vk w3" v4] S by simp
      then show ?thesis using keeps_trans [OF K3] w' L False by simp
    qed
  qed
qed

lemma hook_destroy_inv:
  assumes "sc_inv B w" and "se_gdpa e ''vkDestroyPipeline''" and "w' = DestroySwapchainKHR e key h w"
  shows "keeps B w w' \<and> w_layer w' = w_layer w"
proof -
  obtain w1 where w1: "w1 = retire e h w" by simp
  note r = retire_inv [OF assms(1,2) w1]
  have l: "sc_inv B (w1\<lparr>w_vk := (w_vk w1)\<lparr>vk_log := k\<rparr>\<rparr>)" for k
  proof (rule sc_inv_quiet)
    show "sc_inv B w1" using r by blast
    then show "accounts B (all_objs (w_chains w1)) ((w_vk w1)\<lparr>vk_log := k\<rparr>)" by (simp add: sc_inv_def accounts_upds)
  qed (simp add: quiet_def)
  have "w' = w1 \<or> (\<exists>k. w' = w1\<lparr>w_vk := (w_vk w1)\<lparr>vk_log := k\<rparr>\<rparr>)"
    using assms(3) w1 by (auto simp: DestroySwapchainKHR_def Let_def split: option.splits)
  then show ?thesis using r l by (elim disjE exE) (simp_all add: keeps_def)
qed

end
