(* ===== verification/SwapchainPresent.thy ===== *)
theory SwapchainPresent
  imports SwapchainLife
begin

text \<open>
  Presenting (\<^verbatim>\<open>src/layer/swapchain.cpp\<close>): recording an overlay, submitting it between the game's
  rendering and the present, and what a game's whole life of calls amounts to.
\<close>

section \<open>Steps that only let fences settle\<close>

text \<open>As \<open>quiet\<close>, but a fence that was not unsignaled may have been waited for.\<close>

definition settles :: "vk \<Rightarrow> vk \<Rightarrow> bool" where
  "settles v v' \<longleftrightarrow> vk_next v \<le> vk_next v' \<and>
     (\<forall>f \<le> vk_next v. vk_fence v' f = vk_fence v f \<or> vk_fence v' f = Signaled) \<and>
     (\<forall>f c. vk_fence v' f = Pending c \<longrightarrow> vk_lost v' \<or> vk_fence v f = Pending c) \<and>
     (\<forall>x \<le> vk_next v. x \<in> set (vk_signaled v') \<longleftrightarrow> x \<in> set (vk_signaled v)) \<and>
     (\<forall>p \<le> vk_next v. vk_pool_cmds v' p = vk_pool_cmds v p) \<and> (vk_lost v \<longrightarrow> vk_lost v')"

lemma settles_refl [simp]: "settles v v"
  by (simp add: settles_def)

lemma quiet_settles: "quiet (vk_next v) v v' \<Longrightarrow> settles v v'"
  by (simp add: quiet_def settles_def)

lemma settlesD:
  "settles v v' \<Longrightarrow> vk_next v \<le> vk_next v'"
  "settles v v' \<Longrightarrow> f \<le> vk_next v \<Longrightarrow> vk_fence v' f = vk_fence v f \<or> vk_fence v' f = Signaled"
  "settles v v' \<Longrightarrow> vk_fence v' f = Pending c \<Longrightarrow> vk_lost v' \<or> vk_fence v f = Pending c"
  "settles v v' \<Longrightarrow> x \<le> vk_next v \<Longrightarrow> x \<in> set (vk_signaled v') \<longleftrightarrow> x \<in> set (vk_signaled v)"
  "settles v v' \<Longrightarrow> x \<le> vk_next v \<Longrightarrow> vk_pool_cmds v' x = vk_pool_cmds v x"
  "settles v v' \<Longrightarrow> vk_lost v \<Longrightarrow> vk_lost v'"
  by (simp_all add: settles_def)

lemma settles_trans [trans]:
  assumes a: "settles v1 v2" and b: "settles v2 v3"
  shows "settles v1 v3"
  unfolding settles_def
proof (intro conjI allI impI)
  have u: "x \<le> vk_next v2" if "x \<le> vk_next v1" for x using settlesD(1) [OF a] that by simp
  show "vk_next v1 \<le> vk_next v3" using settlesD(1) [OF a] settlesD(1) [OF b] by simp
  show "vk_fence v3 f = vk_fence v1 f \<or> vk_fence v3 f = Signaled" if "f \<le> vk_next v1" for f
    using settlesD(2) [OF a that] settlesD(2) [OF b u [OF that]] by metis
  show "vk_lost v3 \<or> vk_fence v1 f = Pending c" if "vk_fence v3 f = Pending c" for f c
    using settlesD(3) [OF b that] settlesD(3) [OF a, of f c] settlesD(6) [OF b] by blast
  show "x \<in> set (vk_signaled v3) \<longleftrightarrow> x \<in> set (vk_signaled v1)" if "x \<le> vk_next v1" for x
    using settlesD(4) [OF a that] settlesD(4) [OF b u [OF that]] by simp
  show "vk_pool_cmds v3 x = vk_pool_cmds v1 x" if "x \<le> vk_next v1" for x
    using settlesD(5) [OF a that] settlesD(5) [OF b u [OF that]] by simp
  show "vk_lost v3" if "vk_lost v1" using settlesD(6) [OF b settlesD(6) [OF a that]] .
qed

lemma settles_wait:
  assumes "wait_fence f v = (ok, v')" and "accounts B xs v" and "vk_fence v f \<noteq> Unsignaled \<or> vk_lost v"
  shows "settles v v'"
  using accounts_wait [OF assms(2,1,3)] by (auto simp: settles_def)

lemma built_settles: "built dd v s \<Longrightarrow> settles v v' \<Longrightarrow> built dd v' s"
  unfolding built_def settles_def list_all_iff by (auto dest: le_trans)

lemma chain_ok_settles: "chain_ok l v s \<Longrightarrow> settles v v' \<Longrightarrow> chain_ok l v' s"
  by (auto simp: chain_ok_def intro: built_settles)

lemma only_ours_settles: "only_ours ms v \<Longrightarrow> settles v v' \<Longrightarrow> only_ours ms v'"
  unfolding only_ours_def settles_def by blast

section \<open>Drawing a frame\<close>

lemma frame_started_upd [simp]:
  "renderer_objs (r\<lparr>r_frame_started := b\<rparr>) = renderer_objs r" "renderer_ok (r\<lparr>r_frame_started := b\<rparr>) = renderer_ok r"
  "ready (r\<lparr>r_frame_started := b\<rparr>) = ready r"
  by (simp_all add: renderer_objs_def renderer_ok_def ready_def)

definition same_renderer :: "renderer \<Rightarrow> renderer \<Rightarrow> bool" where
  "same_renderer r r' \<longleftrightarrow> renderer_objs r' = renderer_objs r \<and> renderer_ok r' = renderer_ok r \<and> ready r' = ready r"

lemma same_renderer_trans [trans]: "same_renderer r1 r2 \<Longrightarrow> same_renderer r2 r3 \<Longrightarrow> same_renderer r1 r3"
  by (simp add: same_renderer_def)

lemma frame_same:
  "begin_frame b r = (ok, r') \<Longrightarrow> same_renderer r r'" "end_frame c t r = (ok, r') \<Longrightarrow> same_renderer r r'"
  by (auto simp: begin_frame_def end_frame_def same_renderer_def split: if_splits option.splits)

lemma lazy_init_spec:
  assumes "accounts B (state_objs s @ xs) v" and "overlay_ok s" and "se_gdpa e ''vkDestroyPipeline''"
    and "lazy_init e dd client s v = (s', v')"
  shows "accounts B (state_objs s' @ xs) v' \<and> overlay_ok s' \<and> quiet n v v' \<and>
    s' = s\<lparr>s_tried := s_tried s', s_imgui := s_imgui s'\<rparr>"
proof (cases "in_voice client \<and> \<not> s_tried s")
  case False
  then show ?thesis using assms by (auto simp: lazy_init_def)
next
  case True
  let ?A = "case s_avatars s of Some a \<Rightarrow> cache_objs (a_textures a) | None \<Rightarrow> []"
  let ?F = "concat (map image_objs (s_images s)) @ [(K_command_pool, s_pool s), (K_render_pass, s_render_pass s)]"
  have none: "s_imgui s = None" using True assms(2) by (auto simp: overlay_ok_def)
  then have a: "accounts B (?A @ ?F @ xs) v" using assms(1) by (simp add: state_objs_def)
  obtain ok r v1 where 1: "renderer_init dd (s_render_pass s) (length (s_images s))
      (transfer_for_swapchain (se_env e) (s_format s) (s_space s))
      (hdr_nits (se_parse e) (se_env e) (snapshot_nits client)) new_renderer v = (ok, r, v1)" by (metis prod.exhaust)
  have new: "\<not> r_init_done new_renderer" by (simp add: new_renderer_def)
  note R = renderer_init_accounts [OF a new_renderer_ok 1 new]
  note q1 = quiet_renderer_init [OF 1, of n]
  show ?thesis
  proof (cases ok)
    case True
    have "accounts B (?A @ renderer_objs r @ ?F @ xs) v1" using R accounts_front [of B "renderer_objs r" ?A "?F @ xs"] by blast
    then show ?thesis
      using R q1 1 True \<open>in_voice client \<and> \<not> s_tried s\<close> assms(2,4) by (auto simp: lazy_init_def state_objs_def overlay_ok_def)
  next
    case False
    obtain r2 v2 where 2: "renderer_shutdown (se_gdpa e) r v1 = (r2, v2)" by fastforce
    have "accounts B (?A @ ?F @ xs) v2" using renderer_shutdown_accounts [OF _ _ 2] R assms(3) by blast
    then show ?thesis
      using quiet_trans [OF q1 quiet_renderer_shutdown [OF 2]] 1 2 False \<open>in_voice client \<and> \<not> s_tried s\<close> assms(2,4) none
      by (auto simp: lazy_init_def state_objs_def overlay_ok_def)
  qed
qed

lemma resolve_all_accounts:
  assumes "resolve_all lookup (get_or_load dev mem files) client hs (a, v) = (icons, a', v')"
    and "accounts B (cache_objs (a_textures a) @ xs) v" and "cache_ok a"
  shows "accounts B (cache_objs (a_textures a') @ xs) v' \<and> cache_ok a'"
  by (rule resolve_all_invariant [where P = "\<lambda>a v. accounts B (cache_objs (a_textures a) @ xs) v \<and> cache_ok a", OF _ _ assms(1)])
    (use get_or_load_accounts assms(2,3) in blast)+

lemma build_frame_spec:
  assumes "accounts B (cache_objs (a_textures a) @ xs) v" and "cache_ok a"
    and "build_frame e dd client fr r a v = (ok, r', a', v')" and "n \<le> vk_next v"
  shows "accounts B (cache_objs (a_textures a') @ xs) v' \<and> cache_ok a' \<and> same_renderer r r' \<and> quiet n v v'"
proof -
  obtain icons a1 v1 where 1: "resolve_all lookup (get_or_load (Some dd) (se_mem e) (se_files e)) client (f_icons fr) (a, v) = (icons, a1, v1)"
    by (metis prod.exhaust)
  have "(a' = a \<and> v' = v) \<or> (a' = a1 \<and> v' = v1)" "begin_frame (if in_voice client then f_vertices fr else Some 0) r = (ok, r')"
    using assms(3) 1 by (auto simp: build_frame_def Let_def split: if_splits prod.splits)
  then show ?thesis
    using resolve_all_accounts [OF 1 assms(1,2)] quiet_resolve_all [OF 1 assms(4)] assms(1,2) frame_same(1) by auto
qed

section \<open>Recording one swapchain\<close>

definition same_tables :: "layer \<Rightarrow> layer \<Rightarrow> bool" where
  "same_tables l l' \<longleftrightarrow> (\<forall>k. has (device_of l' k) = has (device_of l k))"

lemma same_tables_refl [simp]: "same_tables l l"
  by (simp add: same_tables_def)

lemma same_tables_trans [trans]: "same_tables l1 l2 \<Longrightarrow> same_tables l2 l3 \<Longrightarrow> same_tables l1 l3"
  by (simp add: same_tables_def)

lemma mark_same_tables [simp]: "same_tables l (mark_overlay_failed key reason l)"
  by (auto simp: same_tables_def mark_overlay_failed_def device_of_def has_def Let_def split: option.splits)

lemma built_tables: "has dd' = has dd \<Longrightarrow> built dd' v s \<longleftrightarrow> built dd v s"
  by (simp add: built_def)

text \<open>What drawing may change of a swapchain: its renderer and its avatars.\<close>

definition same_frame :: "swapchain_state \<Rightarrow> swapchain_state \<Rightarrow> bool" where
  "same_frame s s' \<longleftrightarrow> s_images s' = s_images s \<and> s_key s' = s_key s \<and> s_ok s' = s_ok s \<and> s_pool s' = s_pool s \<and>
     s_render_pass s' = s_render_pass s"

lemma same_frame_built: "same_frame s s' \<Longrightarrow> built dd v s' \<longleftrightarrow> built dd v s"
  by (simp add: same_frame_def built_def)

text \<open>An image that is not in flight, or was waited for, is idle.\<close>

lemma image_idle:
  assumes "only_ours ms v" and "m \<in> set ms" "distinct (map m_fence ms)" "distinct (map m_cmd ms)"
    and "m_in_flight m \<Longrightarrow> vk_fence v (m_fence m) = Signaled"
  shows "idle v (m_cmd m) \<and> \<not> pending v (m_fence m)"
proof -
  have inj: "inj_on m_fence (set ms)" "inj_on m_cmd (set ms)" using assms(3,4) by (simp_all only: distinct_map)
  have ours: "vk_lost v \<or> (\<exists>k \<in> set ms. m_fence k = f \<and> m_cmd k = c \<and> m_in_flight k)" if "vk_fence v f = Pending c" for f c
    using assms(1) that by (simp add: only_ours_def)
  have "vk_lost v" if p: "vk_fence v f = Pending c" and "f = m_fence m \<or> c = m_cmd m" for f c
  proof (rule ccontr)
    assume "\<not> vk_lost v"
    then obtain k where k: "k \<in> set ms" "m_fence k = f" "m_cmd k = c" "m_in_flight k" using ours [OF p] by blast
    then have "k = m" using that(2) inj_onD [OF inj(1), of k m] inj_onD [OF inj(2), of k m] assms(2) by auto
    then show False using assms(5) k p by simp
  qed
  then show ?thesis by (auto simp: idle_def pending_def split: fence_state.splits)
qed

definition record_post ::
    "obj multiset \<Rightarrow> obj list \<Rightarrow> nat \<Rightarrow> swapchain_state \<Rightarrow> layer \<Rightarrow> vk \<Rightarrow> record_result \<times> swapchain_state \<times> layer \<times> vk \<Rightarrow> bool" where
  "record_post B xs idx s l v = (\<lambda>(r, s', l', v').
     accounts B (state_objs s' @ xs) v' \<and> overlay_ok s' \<and> settles v v' \<and> same_frame s s' \<and> same_tables l l' \<and>
     (r = Drawn \<longrightarrow> s_ok s \<and> idx < length (s_images s) \<and> idle v' (m_cmd (s_images s ! idx)) \<and>
        \<not> pending v' (m_fence (s_images s ! idx))))"

text \<open>From a built frame on: every way out keeps the account.\<close>

lemma record_tail:
  assumes "accounts B (state_objs s2 @ xs) v2" and "settles v v2" and "same_frame s s2" and "same_tables l l2"
    and "s_imgui s2 = Some r" "renderer_ok r" "ready r" "overlay_ok s2" and "same_renderer r r'"
    and "accounts B (state_objs s2 @ xs) v'" and "settles v2 v'"
    and "res = Drawn \<longrightarrow> s_ok s \<and> idx < length (s_images s) \<and> idle v' (m_cmd (s_images s ! idx)) \<and>
        \<not> pending v' (m_fence (s_images s ! idx))"
  shows "record_post B xs idx s l v (res, s2\<lparr>s_imgui := Some r'\<rparr>, l2, v')"
proof -
  have o: "state_objs (s2\<lparr>s_imgui := Some r'\<rparr>) = state_objs s2" using assms(5,9) by (simp add: state_objs_def same_renderer_def)
  have "overlay_ok (s2\<lparr>s_imgui := Some r'\<rparr>)" using assms(5-9) by (auto simp: overlay_ok_def same_renderer_def)
  then show ?thesis
    using assms(3,4,10,12) settles_trans [OF assms(2,11)] o by (simp add: record_post_def same_frame_def)
qed

lemma record_built_spec:
  assumes "accounts B (state_objs s2 @ xs) v2" and "settles v v2" and "same_frame s s2"
    and "s_imgui s2 = Some r" "renderer_ok r" "ready r" "overlay_ok s2" and "same_renderer r r'"
    and "s_ok s" "idx < length (s_images s)" "chain_ok l v s" and "only_ours (s_images s @ ms) v"
    and "distinct (map m_fence (s_images s @ ms))" "distinct (map m_cmd (s_images s @ ms))"
  shows "record_post B xs idx s l v (record_built idx vertices throws ok s2 r' l v2)"
proof -
  let ?m = "s_images s ! idx"
  have m: "s_images s2 ! idx = ?m" using assms(3) by (simp add: same_frame_def)
  have bt: "built (device_of l (s_key s)) v2 s" using assms(2,9,11) built_settles by (auto simp: chain_ok_def)
  have mem: "?m \<in> set (s_images s @ ms)" using assms(10) by simp
  have flown: "m_in_flight ?m \<Longrightarrow> vk_fence v2 (m_fence ?m) \<noteq> Unsignaled \<or> vk_lost v2"
    using bt assms(10) by (auto simp: built_def list_all_length)
  note out = record_tail [OF assms(1-3) _ assms(4-7)]
  have dis: "discard_frame s2 r' = s2\<lparr>s_imgui := Some (snd (end_frame 0 False r'))\<rparr>" by (simp add: discard_frame_def)
  have sd: "same_renderer r (snd (end_frame 0 False r'))"
    using assms(8) same_renderer_trans frame_same(2) by (metis surjective_pairing)
  have stay: "record_post B xs idx s l v (res, discard_frame s2 r', l2, v')"
    if "res \<noteq> Drawn" "same_tables l l2" "accounts B (state_objs s2 @ xs) v'" "settles v2 v'" for res l2 v'
    unfolding dis by (rule out [OF that(2) sd that(3,4)]) (use that(1) in simp)
  obtain w v3 where w: "(if m_in_flight ?m then wait_fence (m_fence ?m) v2 else (True, v2)) = (w, v3)" by fastforce
  have W: "accounts B (state_objs s2 @ xs) v3 \<and> settles v2 v3 \<and> (w \<longrightarrow> m_in_flight ?m \<longrightarrow> vk_fence v3 (m_fence ?m) = Signaled)"
  proof (cases "m_in_flight ?m")
    case True
    then have "wait_fence (m_fence ?m) v2 = (w, v3)" using w by simp
    from accounts_wait [OF assms(1) this flown [OF True]] settles_wait [OF this assms(1) flown [OF True]]
    show ?thesis by simp
  next
    case False
    then show ?thesis using w assms(1) by auto
  qed
  obtain begun v4 where 4: "begin_command (m_cmd ?m) v3 = (begun, v4)" by fastforce
  obtain recorded r5 where 5: "end_frame (m_cmd ?m) throws r' = (recorded, r5)" by fastforce
  obtain ended v6 where 6: "ask v4 = (ended, v6)" by fastforce
  have sr: "same_renderer r r5" using assms(8) frame_same(2) [OF 5] by (rule same_renderer_trans)
  have I: "idle v3 (m_cmd ?m) \<and> \<not> pending v3 (m_fence ?m)" if w
    by (rule image_idle [OF only_ours_settles [OF assms(12) settles_trans [OF assms(2)]] mem assms(13,14)]) (use W that in auto)
  have B4: "accounts B (state_objs s2 @ xs) v6 \<and> settles v2 v6 \<and> accounts B (state_objs s2 @ xs) v4 \<and> settles v2 v4 \<and>
      idle v6 (m_cmd ?m) \<and> \<not> pending v6 (m_fence ?m)" if w
  proof -
    note b = accounts_begin [OF _ conjunct1 [OF I [OF that]] 4, of B "state_objs s2 @ xs"]
    have s4: "settles v2 v4" using W settles_trans quiet_settles [OF quiet_begin [OF 4]] by blast
    have s6: "settles v2 v6" using settles_trans [OF s4 quiet_settles [OF quiet_ask [OF 6]]] .
    show ?thesis using b W s4 s6 accounts_ask [OF 6] I [OF that] ask_keeps [OF 6] by (simp add: idle_def pending_def)
  qed
  have key: "s_key s2 = s_key s" using assms(3) by (simp add: same_frame_def)
  consider (unbuilt) "\<not> ok" | (empty) "ok" "\<not> frame_has_content vertices r'" | (lost) "ok" "frame_has_content vertices r'" "\<not> w"
    | (unbegun) "ok" "frame_has_content vertices r'" "w" "\<not> begun" | (rest) "ok" "frame_has_content vertices r'" "w" "begun"
    by blast
  then show ?thesis
  proof cases
    case unbuilt
    then show ?thesis using stay [OF _ mark_same_tables assms(1) settles_refl] by (simp add: record_built_def)
  next
    case empty
    then show ?thesis using stay [OF _ same_tables_refl assms(1) settles_refl] by (simp add: record_built_def)
  next
    case lost
    then show ?thesis using stay [OF _ same_tables_refl, of Failed v3] W w m by (simp add: record_built_def)
  next
    case unbegun
    then show ?thesis using stay [OF _ same_tables_refl, of Failed v4] B4 w m 4 by (simp add: record_built_def)
  next
    case rest
    have fin: "record_post B xs idx s l v (res, s2\<lparr>s_imgui := Some r5\<rparr>, l2, v6)" if "same_tables l l2" for res l2
      by (rule out [OF that sr]) (use B4 rest assms(9,10) in auto)
    show ?thesis
      using rest fin [OF mark_same_tables] fin [OF same_tables_refl] w m 4 5 6
      by (cases recorded; cases ended) (simp_all add: record_built_def)
  qed
qed

lemma record_one_spec:
  assumes "accounts B (state_objs s @ xs) v" and "chain_ok l v s" and "only_ours (s_images s @ ms) v"
    and "distinct (map m_fence (s_images s @ ms))" "distinct (map m_cmd (s_images s @ ms))"
    and "se_gdpa e ''vkDestroyPipeline''"
  shows "record_post B xs idx s l v (record_one e dd idx client fr s l v)"
proof -
  have ov: "overlay_ok s" using assms(2) by (simp add: chain_ok_def)
  have same: "record_post B xs idx s l v (r, s, l, v)" if "r \<noteq> Drawn" for r
    using that assms(1) ov by (simp add: record_post_def same_frame_def)
  consider (no) "\<not> s_ok s \<or> idx \<ge> length (s_images s)" | (off) "s_ok s" "idx < length (s_images s)" "disabled client"
    | (on) "s_ok s" "idx < length (s_images s)" "\<not> disabled client" by linarith
  then show ?thesis
  proof cases
    case no
    then show ?thesis using same by (simp add: record_one_def)
  next
    case off
    then show ?thesis using same by (simp add: record_one_def)
  next
    case on
    obtain s1 v1 where 1: "lazy_init e dd client s v = (s1, v1)" by fastforce
    note L = lazy_init_spec [OF assms(1) ov assms(6) 1, of "vk_next v"]
    have st1: "settles v v1" using quiet_settles L by blast
    have "same_frame s (s\<lparr>s_tried := t, s_imgui := i\<rparr>)" for t i by (simp add: same_frame_def)
    moreover have "s1 = s\<lparr>s_tried := s_tried s1, s_imgui := s_imgui s1\<rparr>" using L by blast
    ultimately have sf1: "same_frame s s1" by metis
    have early: "record_post B xs idx s l v (Skipped, s1, l, v1)"
      using L st1 sf1 by (simp add: record_post_def)
    show ?thesis
    proof (cases "\<exists>r. s_imgui s1 = Some r \<and> ready r")
      case False
      then show ?thesis using early on 1 by (auto simp: record_one_def split: option.splits)
    next
      case True
      then obtain r where r: "s_imgui s1 = Some r" "ready r" by blast
      have rok: "renderer_ok r" using L r by (simp add: overlay_ok_def)
      define a where "a = (case s_avatars s1 of Some a \<Rightarrow> a | None \<Rightarrow> new_avatar_textures\<lparr>a_renderer := Some r\<rparr>)"
      obtain ok r' a' v2 where 2: "build_frame e dd client fr r a v1 = (ok, r', a', v2)" by (metis prod.exhaust)
      let ?F = "concat (map image_objs (s_images s1)) @ [(K_command_pool, s_pool s1), (K_render_pass, s_render_pass s1)]"
      let ?s2 = "s1\<lparr>s_avatars := Some a'\<rparr>"
      have "accounts B (cache_objs (a_textures a) @ renderer_objs r @ ?F @ xs) v1" "cache_ok a"
        using L r(1) by (auto simp: a_def state_objs_def new_avatar_textures_def cache_ok_def textures_inv_def overlay_ok_def split: option.splits)
      note b = build_frame_spec [OF this 2 order_refl]
      have A2: "accounts B (state_objs ?s2 @ xs) v2" using b r(1) by (simp add: state_objs_def)
      have st2: "settles v v2" using settles_trans [OF st1 quiet_settles] b by blast
      have sf2: "same_frame s ?s2" using sf1 by (simp add: same_frame_def)
      have ov2: "overlay_ok ?s2" using L b by (simp add: overlay_ok_def)
      have r2: "s_imgui ?s2 = Some r" using r by simp
      show ?thesis
        using record_built_spec [OF A2 st2 sf2 r2 rok r(2) ov2 _ on(1,2) assms(2-5), of r' "if in_voice client then f_vertices fr else Some 0" "f_record_throws fr" ok]
          b 1 2 r on by (simp add: record_one_def a_def)
    qed
  qed
qed

section \<open>Recording them all\<close>

lemma chain_ok_frame:
  assumes "chain_ok l v s" and "overlay_ok s'" "same_frame s s'" "same_tables l l'" "settles v v'"
    and "\<not> s_ok s \<Longrightarrow> s' = s"
  shows "chain_ok l' v' s'"
proof (cases "s_ok s")
  case True
  have h: "has (device_of l' (s_key s)) = has (device_of l (s_key s))" using assms(4) by (simp add: same_tables_def)
  have "built (device_of l (s_key s)) v' s" using assms(1,5) True built_settles by (auto simp: chain_ok_def)
  then have "built (device_of l' (s_key s)) v' s'" using built_tables [OF h] same_frame_built [OF assms(3)] by simp
  then show ?thesis using assms(2,3) True by (simp add: chain_ok_def same_frame_def)
next
  case False
  then show ?thesis using assms(1,6) by (simp add: chain_ok_def)
qed

lemma record_not_ok: "\<not> s_ok s \<Longrightarrow> record_one e dd idx client fr s l v = (Failed, s, l, v)"
  by (simp add: record_one_def)

text \<open>One swapchain replaced by what recording makes of it.\<close>

definition ready_image :: "sc_world \<Rightarrow> nat \<times> nat \<Rightarrow> bool" where
  "ready_image w p \<longleftrightarrow> (\<exists>s. chain_at w (fst p) = Some s \<and> s_ok s \<and> snd p < length (s_images s) \<and>
     idle (w_vk w) (m_cmd (s_images s ! snd p)) \<and> \<not> pending (w_vk w) (m_fence (s_images s ! snd p)))"

text \<open>Between two worlds only drawing happened.\<close>

definition drawn :: "sc_world \<Rightarrow> sc_world \<Rightarrow> bool" where
  "drawn w w' \<longleftrightarrow> settles (w_vk w) (w_vk w') \<and> same_tables (w_layer w) (w_layer w') \<and>
     (\<forall>h s. chain_at w h = Some s \<longrightarrow> (\<exists>s'. chain_at w' h = Some s' \<and> same_frame s s'))"

lemma drawn_refl [simp]: "drawn w w"
  by (simp add: drawn_def same_frame_def)

lemma drawn_trans [trans]: "drawn w1 w2 \<Longrightarrow> drawn w2 w3 \<Longrightarrow> drawn w1 w3"
  unfolding drawn_def using settles_trans same_tables_trans
  by (smt (verit, best) same_frame_def)

lemma settles_idle: "settles v v' \<Longrightarrow> idle v c \<Longrightarrow> idle v' c"
  unfolding settles_def idle_def by blast

lemma settles_pending: "settles v v' \<Longrightarrow> \<not> pending v f \<Longrightarrow> \<not> pending v' f"
  by (auto simp: pending_def split: fence_state.splits dest: settlesD(3) settlesD(6))

lemma ready_image_drawn: "ready_image w p \<Longrightarrow> drawn w w' \<Longrightarrow> ready_image w' p"
proof -
  assume a: "ready_image w p" and d: "drawn w w'"
  then obtain s where s: "chain_at w (fst p) = Some s" "s_ok s" "snd p < length (s_images s)"
    "idle (w_vk w) (m_cmd (s_images s ! snd p))" "\<not> pending (w_vk w) (m_fence (s_images s ! snd p))"
    unfolding ready_image_def by blast
  then obtain s' where s': "chain_at w' (fst p) = Some s'" "same_frame s s'" using d unfolding drawn_def by blast
  have st: "settles (w_vk w) (w_vk w')" using d by (simp add: drawn_def)
  show ?thesis
    unfolding ready_image_def
    using s s' settles_idle [OF st s(4)] settles_pending [OF st s(5)] by (intro exI [of _ s']) (simp add: same_frame_def)
qed

lemma put_chain_get: "map_of (put_chain h s cs) k = (if k = h then Some s else map_of cs k)"
  by (induction cs) auto

lemma record_step:
  assumes "sc_inv B w" and "chain_at w h = Some s" and "se_gdpa e ''vkDestroyPipeline''"
    and "record_one e dd idx client fr s (w_layer w) (w_vk w) = (r, s', l', v')"
    and "w' = \<lparr>w_layer = l', w_chains = put_chain h s' (w_chains w), w_vk = v'\<rparr>"
  shows "sc_inv B w' \<and> drawn w w' \<and> (r = Drawn \<longrightarrow> ready_image w' (h, idx))"
proof -
  obtain xs ys where cs: "w_chains w = xs @ (h, s) # ys" "\<And>t. put_chain h t (w_chains w) = xs @ (h, t) # ys"
    using chain_split [of "w_chains w" h s] assms(2) by (auto simp: chain_at_def)
  note P = sc_inv_parts [OF assms(1) cs(1)]
  have R: "record_post B (all_objs (xs @ ys)) idx s (w_layer w) (w_vk w) (r, s', l', v')"
    using record_one_spec [OF P(1,2,3,4,5) assms(3), of idx dd client fr] assms(4) by simp
  then have st: "settles (w_vk w) v'" and sf: "same_frame s s'" and tb: "same_tables (w_layer w) l'" and ov: "overlay_ok s'"
    by (simp_all add: record_post_def)
  have c: "chain_ok l' v' s'"
    by (rule chain_ok_frame [OF P(2) ov sf tb st]) (use record_not_ok assms(4) in fastforce)
  have n: "vk_next (w_vk w) \<le> vk_next v'" using settlesD(1) [OF st] .
  have others: "list_all (\<lambda>(h, t). chain_ok l' v' t \<and> h \<le> vk_next v') (xs @ ys)"
  proof -
    have "chain_ok l' v' t \<and> k \<le> vk_next v'" if "(k, t) \<in> set (xs @ ys)" for k t
    proof -
      have t: "chain_ok (w_layer w) (w_vk w) t" "k \<le> vk_next (w_vk w)" using P(7) that by (auto simp: list_all_iff)
      have "chain_ok l' v' t"
        by (rule chain_ok_frame [OF t(1) _ _ tb st]) (use t(1) in \<open>auto simp: chain_ok_def same_frame_def\<close>)
      then show ?thesis using t(2) n by simp
    qed
    then show ?thesis by (auto simp only: list_all_iff)
  qed
  have im: "s_images s' = s_images s" using sf by (simp add: same_frame_def)
  have "sc_inv B \<lparr>w_layer = l', w_chains = xs @ (h, s') # ys, w_vk = v'\<rparr>"
  proof (rule sc_inv_join)
    show "accounts B (state_objs s' @ all_objs (xs @ ys)) v'" using R by (simp add: record_post_def)
    show "only_ours (s_images s' @ all_images (xs @ ys)) v'" unfolding im by (rule only_ours_settles [OF P(3) st])
    show "h \<le> vk_next v'" using P(9) n by simp
  qed (use c others P im in simp_all)
  moreover have "drawn w w'"
    using st tb sf assms(2,5) by (auto simp: drawn_def chain_at_def put_chain_get same_frame_def)
  moreover have "r = Drawn \<longrightarrow> ready_image w' (h, idx)"
    using R sf assms(5) by (auto simp: record_post_def ready_image_def chain_at_def put_chain_get same_frame_def)
  ultimately show ?thesis using assms(5) cs(2) by simp
qed

lemma record_all_inv:
  "sc_inv B w \<Longrightarrow> se_gdpa e ''vkDestroyPipeline'' \<Longrightarrow> record_all e client xs w = (bad, recorded, w') \<Longrightarrow>
     sc_inv B w' \<and> drawn w w' \<and> list_all (ready_image w') recorded \<and> length recorded \<le> length xs"
proof (induction xs arbitrary: w bad recorded w')
  case (Cons x xs)
  obtain h idx fr where x: "x = (h, idx, fr)" by (metis prod.exhaust)
  show ?case
  proof (cases "chain_at w h")
    case None
    then show ?thesis using Cons.prems x by auto
  next
    case (Some s)
    obtain r s1 l1 v1 where 1: "record_one e (device_of (w_layer w) (s_key s)) idx client fr s (w_layer w) (w_vk w) = (r, s1, l1, v1)"
      by (metis prod.exhaust)
    define w1 where "w1 = \<lparr>w_layer = l1, w_chains = put_chain h s1 (w_chains w), w_vk = v1\<rparr>"
    note S = record_step [OF Cons.prems(1) Some Cons.prems(2) 1 w1_def]
    show ?thesis
    proof (cases "r = Failed")
      case True
      then show ?thesis using Cons.prems(3) x Some 1 S by (auto simp: w1_def)
    next
      case False
      obtain f2 rec2 w2 where 2: "record_all e client xs w1 = (f2, rec2, w2)" by (metis prod.exhaust)
      have e: "w' = w2" "recorded = (if r = Drawn then (h, idx) # rec2 else rec2)"
        using Cons.prems(3) x Some 1 2 False by (auto simp: w1_def)
      note I = Cons.IH [OF conjunct1 [OF S] Cons.prems(2) 2]
      have "r = Drawn \<longrightarrow> ready_image w2 (h, idx)" using S I ready_image_drawn by blast
      then show ?thesis using S I e drawn_trans [of w w1 w2] by (auto simp: le_SucI)
    qed
  qed
qed simp

end
