(* ===== verification/SwapchainTrace.thy ===== *)
theory SwapchainTrace
  imports SwapchainPresent
begin

text \<open>
  Submitting a recorded overlay, presenting (\<^verbatim>\<open>src/layer/swapchain.cpp\<close>, \<open>QueuePresentKHR\<close>), and a
  game's whole life: every order of creating, presenting and destroying swapchains.
\<close>

section \<open>One image submitted\<close>

text \<open>What submitting image \<open>m\<close> may change; \<open>b\<close> says whether it is in flight afterwards.\<close>

definition flies :: "image_state \<Rightarrow> bool \<Rightarrow> vk \<Rightarrow> vk \<Rightarrow> bool" where
  "flies m b v v' \<longleftrightarrow> vk_next v' = vk_next v \<and> (\<forall>f. f \<noteq> m_fence m \<longrightarrow> vk_fence v' f = vk_fence v f) \<and>
     set (vk_signaled v') \<subseteq> set (vk_signaled v) \<and> vk_pool_cmds v' = vk_pool_cmds v \<and> vk_lost v' = vk_lost v \<and>
     (if b then vk_fence v' (m_fence m) = Pending (m_cmd m) else vk_lost v' \<or> (\<forall>c. vk_fence v' (m_fence m) \<noteq> Pending c))"

lemma other_image:
  assumes "distinct (map m_fence ms)" "idx < length ms" "k \<in> set (ms[idx := m'])" "k \<noteq> m'"
  shows "k \<in> set ms \<and> m_fence k \<noteq> m_fence (ms ! idx)"
proof -
  obtain j where j: "j < length ms" "ms[idx := m'] ! j = k" using assms(3) by (auto simp: in_set_conv_nth)
  then have "j \<noteq> idx" using assms(2,4) by (cases "j = idx") auto
  then have "k = ms ! j" using j by simp
  then show ?thesis using j(1) assms(1,2) \<open>j \<noteq> idx\<close> by (auto simp: distinct_conv_nth)
qed

lemma map_update_same: "f m' = f (ms ! i) \<Longrightarrow> map f (ms[i := m']) = map f ms"
  by (cases "i < length ms") (metis list_update_id map_update nth_map, simp add: list_update_beyond)

lemma sc_inv_image:
  assumes "sc_inv B w" and "chain_at w h = Some s" "s_ok s" "idx < length (s_images s)"
    and "m = s_images s ! idx" and "accounts B (all_objs (w_chains w)) v'" and "flies m b (w_vk w) v'"
    and "s' = s\<lparr>s_images := (s_images s)[idx := m\<lparr>m_in_flight := b\<rparr>]\<rparr>" and "same_tables (w_layer w) l'"
  shows "sc_inv B \<lparr>w_layer = l', w_chains = put_chain h s' (w_chains w), w_vk = v'\<rparr>"
proof -
  obtain xs ys where cs: "w_chains w = xs @ (h, s) # ys" "\<And>t. put_chain h t (w_chains w) = xs @ (h, t) # ys"
    using chain_split [of "w_chains w" h s] assms(2) by (auto simp: chain_at_def)
  note P = sc_inv_parts [OF assms(1) cs(1)]
  let ?v = "w_vk w" and ?m = "m\<lparr>m_in_flight := b\<rparr>"
  let ?ms = "(s_images s)[idx := ?m]"
  have mem: "m \<in> set (s_images s)" using assms(4,5) by simp
  have maps: "map f ?ms = map f (s_images s)" if "\<And>b. f (m\<lparr>m_in_flight := b\<rparr>) = f m" for f :: "image_state \<Rightarrow> 'a"
    by (rule map_update_same) (use that assms(5) in simp)
  have objs: "state_objs s' = state_objs s"
    using maps [of image_objs] by (simp add: state_objs_def assms(8))
  have fl: "vk_next v' = vk_next ?v" "\<And>f. f \<noteq> m_fence m \<Longrightarrow> vk_fence v' f = vk_fence ?v f"
    "set (vk_signaled v') \<subseteq> set (vk_signaled ?v)" "vk_pool_cmds v' = vk_pool_cmds ?v" "vk_lost v' = vk_lost ?v"
    "b \<Longrightarrow> vk_fence v' (m_fence m) = Pending (m_cmd m)" "\<not> b \<Longrightarrow> vk_lost v' \<or> (\<forall>c. vk_fence v' (m_fence m) \<noteq> Pending c)"
    using assms(7) by (auto simp: flies_def split: if_splits)
  have df: "distinct (map m_fence (s_images s))" using P(4) by simp
  have old: "k \<in> set (s_images s) \<and> m_fence k \<noteq> m_fence m" if "k \<in> set ?ms" "k \<noteq> ?m" for k
    using other_image [OF df assms(4) that] assms(5) by simp
  have T: "has (device_of l' k) = has (device_of (w_layer w) k)" for k using assms(9) by (simp add: same_tables_def)
  have bs: "built (device_of (w_layer w) (s_key s)) ?v s" and ov: "overlay_ok s"
    using P(2) assms(3) by (simp_all add: chain_ok_def)
  have img: "m_fence k \<noteq> 0 \<and> m_done k \<noteq> 0 \<and> m_fence k \<le> vk_next ?v \<and> m_done k \<le> vk_next ?v \<and> m_cmd k \<le> vk_next ?v \<and>
      m_done k \<notin> set (vk_signaled ?v) \<and> (m_in_flight k \<longrightarrow> vk_fence ?v (m_fence k) \<noteq> Unsignaled \<or> vk_lost ?v)"
    if "k \<in> set (s_images s)" for k using bs that by (simp add: built_def list_all_iff)
  have "m_fence k \<noteq> 0 \<and> m_done k \<noteq> 0 \<and> m_fence k \<le> vk_next v' \<and> m_done k \<le> vk_next v' \<and> m_cmd k \<le> vk_next v' \<and>
      m_done k \<notin> set (vk_signaled v') \<and> (m_in_flight k \<longrightarrow> vk_fence v' (m_fence k) \<noteq> Unsignaled \<or> vk_lost v')"
    if k: "k \<in> set ?ms" for k
  proof (cases "k = ?m")
    case True
    then show ?thesis using img [OF mem] fl(1,3,6) by auto
  next
    case False
    then show ?thesis using img [of k] old [OF k] fl(1,2,3,5) by auto
  qed
  then have "built (device_of (w_layer w) (s_key s)) v' s'"
    using bs fl(1,4) maps [of m_cmd] assms(8) by (simp add: built_def list_all_iff)
  then have c: "chain_ok l' v' s'"
    using ov assms(3,8) built_tables [OF T] by (simp add: chain_ok_def overlay_ok_def)
  have others: "list_all (\<lambda>(h, t). chain_ok l' v' t \<and> h \<le> vk_next v') (xs @ ys)"
  proof -
    have "chain_ok l' v' t \<and> k \<le> vk_next v'" if t: "(k, t) \<in> set (xs @ ys)" for k t
    proof -
      have ct: "chain_ok (w_layer w) ?v t" "k \<le> vk_next ?v" using P(7) t by (auto simp: list_all_iff)
      have "m_fence i \<noteq> m_fence m" if "i \<in> set (s_images t)" for i
        using images_sub [OF t] that mem P(4) by fastforce
      then have "built (device_of (w_layer w) (s_key t)) ?v t \<Longrightarrow> built (device_of (w_layer w) (s_key t)) v' t"
        using fl(1-5) by (auto simp: built_def list_all_iff)
      then show ?thesis using ct fl(1) built_tables [OF T] by (simp add: chain_ok_def)
    qed
    then show ?thesis by (auto simp only: list_all_iff)
  qed
  have ours: "only_ours (?ms @ all_images (xs @ ys)) v'"
    unfolding only_ours_def
  proof (intro allI impI)
    fix f c assume p: "vk_fence v' f = Pending c"
    show "vk_lost v' \<or> (\<exists>k \<in> set (?ms @ all_images (xs @ ys)). m_fence k = f \<and> m_cmd k = c \<and> m_in_flight k)"
    proof (cases "f = m_fence m")
      case True
      show ?thesis
      proof (cases b)
        case b: True
        then have "?m \<in> set ?ms" "m_fence ?m = f" "m_cmd ?m = c" "m_in_flight ?m"
          using fl(6) p True assms(4) by (simp_all add: set_update_memI)
        then show ?thesis by (metis Un_iff set_append)
      next
        case False
        then show ?thesis using fl(7) p True by blast
      qed
    next
      case False
      then have "vk_fence ?v f = Pending c" using fl(2) p by simp
      then have "vk_lost ?v \<or> (\<exists>k \<in> set (s_images s @ all_images (xs @ ys)). m_fence k = f \<and> m_cmd k = c \<and> m_in_flight k)"
        using P(3) unfolding only_ours_def by blast
      then show ?thesis
      proof
        assume "vk_lost ?v"
        then show ?thesis using fl(5) by simp
      next
        assume "\<exists>k \<in> set (s_images s @ all_images (xs @ ys)). m_fence k = f \<and> m_cmd k = c \<and> m_in_flight k"
        then obtain k where k: "k \<in> set (s_images s @ all_images (xs @ ys))" "m_fence k = f" "m_cmd k = c" "m_in_flight k" by blast
        have "k \<in> set ?ms" if ks: "k \<in> set (s_images s)"
        proof -
          obtain j where j: "j < length (s_images s)" "s_images s ! j = k" using ks by (auto simp: in_set_conv_nth)
          then have "j \<noteq> idx" using k(2) False assms(5) by auto
          then show ?thesis using j by (metis length_list_update nth_list_update_neq nth_mem)
        qed
        then show ?thesis using k by auto
      qed
    qed
  qed
  have im: "s_images s' = ?ms" using assms(8) by simp
  have "accounts B (state_objs s @ all_objs (xs @ ys)) v'"
    using assms(6) cs(1) accounts_front [of B "all_objs xs" "state_objs s" "all_objs ys" v'] by simp
  then have "sc_inv B \<lparr>w_layer = l', w_chains = xs @ (h, s') # ys, w_vk = v'\<rparr>"
    by (intro sc_inv_join)
      (use c others P ours im objs maps [of m_fence] maps [of m_cmd] maps [of m_done] fl(1) in simp_all)
  then show ?thesis using cs(2) by simp
qed

section \<open>Submitting and presenting\<close>

lemma accounts_present:
  assumes "accounts B xs v" and "present q ws v = (ok, v')" and "all_signaled ws v"
  shows "accounts B xs v' \<and> vk_fence v' = vk_fence v \<and> vk_lost v' = vk_lost v \<and> vk_next v' = vk_next v \<and>
    vk_pool_cmds v' = vk_pool_cmds v \<and> vk_signaled v' = filter (\<lambda>x. x \<notin> set ws) (vk_signaled v) \<and>
    vk_log v' = vk_log v @ [Present q ws]"
proof -
  obtain ok' v1 where a: "ask v = (ok', v1)" by fastforce
  have "legal (all_signaled ws v) v = v" using assms(3) by simp
  then have "v' = (consume ws v1)\<lparr>vk_log := vk_log v1 @ [Present q ws]\<rparr>" using assms(2) a by (simp add: present_def)
  then show ?thesis using accounts_ask [OF a] ask_keeps [OF a] assms(1) by (simp add: accounts_upds) (simp add: consume_def)
qed

lemma put_chain_twice [simp]: "put_chain h t (put_chain h s cs) = put_chain h t cs"
  by (induction cs) auto

lemma put_chain_same: "map_of cs h = Some s \<Longrightarrow> put_chain h s cs = cs"
  by (induction cs) auto

definition flown :: "bool \<Rightarrow> nat \<times> nat \<Rightarrow> swapchain_state \<Rightarrow> swapchain_state" where
  "flown b p s = s\<lparr>s_images := (s_images s)[snd p := (s_images s ! snd p)\<lparr>m_in_flight := b\<rparr>]\<rparr>"

lemma set_in_flight_eq:
  "chain_at w (fst p) = Some s \<Longrightarrow> set_in_flight b p w = w\<lparr>w_chains := put_chain (fst p) (flown b p s) (w_chains w)\<rparr>"
  by (simp add: set_in_flight_def flown_def)

lemma flown_twice: "snd p < length (s_images s) \<Longrightarrow> flown b p (flown c p s) = flown b p s"
  by (simp add: flown_def)

text \<open>What becomes of one recorded image.\<close>

lemma submit_one:
  assumes "chain_at w h = Some s" and "idx < length (s_images s)" and "m = s_images s ! idx"
    and "reset_fence (m_fence m) (w_vk w) = (reset, v1)" and "submit queue waits (m_cmd m) [m_done m] (m_fence m) v1 = (sub, v2)"
    and "submit_all key queue waits [(h, idx)] [] w = (fwd, sems, w')"
  shows "if reset \<and> sub then \<not> fwd \<and> sems = [m_done m] \<and>
           w' = \<lparr>w_layer = w_layer w, w_chains = put_chain h (flown True (h, idx) s) (w_chains w), w_vk = v2\<rparr>
         else fwd \<and> (\<exists>reason. w' = \<lparr>w_layer = mark_overlay_failed key reason (w_layer w),
           w_chains = put_chain h (flown False (h, idx) s) (w_chains w), w_vk = (if reset then v2 else v1)\<rparr>)"
proof -
  have im: "image_at w (h, idx) = m" using assms(1,3) by (simp add: image_at_def)
  have f: "set_in_flight False (h, idx) w = w\<lparr>w_chains := put_chain h (flown False (h, idx) s) (w_chains w)\<rparr>"
    using set_in_flight_eq [of w "(h, idx)" s] assms(1) by simp
  let ?w = "w\<lparr>w_chains := put_chain h (flown False (h, idx) s) (w_chains w), w_vk := v2\<rparr>"
  have "chain_at ?w (fst (h, idx)) = Some (flown False (h, idx) s)" by (simp add: chain_at_def put_chain_get)
  from set_in_flight_eq [OF this, of True] flown_twice [of "(h, idx)" s True False] assms(2)
  have t: "set_in_flight True (h, idx) ?w = w\<lparr>w_chains := put_chain h (flown True (h, idx) s) (w_chains w), w_vk := v2\<rparr>"
    by simp
  show ?thesis
    using assms(4-6) im f t
    by (cases w; cases reset; cases sub) (auto simp: Let_def)
qed

text \<open>Fewer signals: what a present alone does.\<close>

lemma sc_inv_fewer:
  assumes "sc_inv B w" and "accounts B (all_objs (w_chains w)) v" and "vk_next v = vk_next (w_vk w)" "vk_fence v = vk_fence (w_vk w)"
    and "set (vk_signaled v) \<subseteq> set (vk_signaled (w_vk w))" "vk_pool_cmds v = vk_pool_cmds (w_vk w)" "vk_lost v = vk_lost (w_vk w)"
  shows "sc_inv B (w\<lparr>w_vk := v\<rparr>)"
proof -
  have "chain_ok l (w_vk w) s \<Longrightarrow> chain_ok l v s" for l s
    using assms(3-7) by (auto simp: chain_ok_def built_def list_all_iff)
  then have "list_all (\<lambda>(h, s). chain_ok (w_layer w) v s \<and> h \<le> vk_next v) (w_chains w)"
    using assms(1,3) unfolding sc_inv_def list_all_iff by fastforce
  moreover have "only_ours (all_images (w_chains w)) v"
    using assms(1,4,7) by (simp add: sc_inv_def only_ours_def)
  ultimately show ?thesis using assms(1,2) by (simp add: sc_inv_def)
qed

text \<open>Presenting with \<open>waits\<close> takes these signals and no other.\<close>

definition consumes :: "obj multiset \<Rightarrow> nat list \<Rightarrow> sc_world \<Rightarrow> sc_world \<Rightarrow> bool" where
  "consumes B waits w w' \<longleftrightarrow> sc_inv B w' \<and> vk_next (w_vk w) \<le> vk_next (w_vk w') \<and>
     (\<forall>x \<le> vk_next (w_vk w). x \<in> set (vk_signaled (w_vk w')) \<longleftrightarrow> x \<in> set (vk_signaled (w_vk w)) \<and> x \<notin> set waits)"

lemma real_present_consumes:
  assumes "sc_inv B w" and "all_signaled waits (w_vk w)" and "real_present queue waits w = (r, w')"
  shows "consumes B waits w w'"
proof -
  obtain ok v where p: "present queue waits (w_vk w) = (ok, v)" by fastforce
  have w': "w' = w\<lparr>w_vk := v\<rparr>" using assms(3) p by (simp add: real_present_def)
  have "accounts B (all_objs (w_chains w)) (w_vk w)" using assms(1) by (simp add: sc_inv_def)
  note a = accounts_present [OF this p assms(2)]
  have "sc_inv B w'" unfolding w' by (rule sc_inv_fewer [OF assms(1)]) (use a in auto)
  then show ?thesis using a w' by (simp add: consumes_def)
qed

lemma present_one:
  assumes "sc_inv B w" and "ready_image w (h, idx)" and "all_signaled waits (w_vk w)"
    and "submit_all key queue waits [(h, idx)] [] w = (fwd, sems, w1)"
    and "real_present queue (if fwd then waits else sems) w1 = (r, w2)"
  shows "consumes B waits w w2"
proof -
  let ?v = "w_vk w" and ?A = "all_objs (w_chains w)"
  obtain s where s: "chain_at w h = Some s" "s_ok s" "idx < length (s_images s)"
    and ready: "idle ?v (m_cmd (s_images s ! idx))" "\<not> pending ?v (m_fence (s_images s ! idx))"
    using assms(2) by (auto simp: ready_image_def)
  define m where "m = s_images s ! idx"
  have "(h, s) \<in> set (w_chains w)" using s(1) map_of_SomeD by (simp add: chain_at_def)
  then have "chain_ok (w_layer w) ?v s" using assms(1) unfolding sc_inv_def list_all_iff by fastforce
  then have "built (device_of (w_layer w) (s_key s)) ?v s" using s(2) by (simp add: chain_ok_def)
  then have md: "m_done m \<notin> set (vk_signaled ?v)" "m_cmd m \<le> vk_next ?v"
    using s(3) unfolding m_def built_def list_all_length by blast+
  have acc: "accounts B ?A ?v" using assms(1) by (simp add: sc_inv_def)
  have ready: "idle ?v (m_cmd m)" "\<not> pending ?v (m_fence m)" using ready by (simp_all add: m_def)
  obtain reset v1 where 1: "reset_fence (m_fence m) ?v = (reset, v1)" by fastforce
  obtain sub v2 where 2: "submit queue waits (m_cmd m) [m_done m] (m_fence m) v1 = (sub, v2)" by fastforce
  note a1 = accounts_reset [OF acc 1 ready(2)]
  note S = submit_one [OF s(1,3) m_def 1 2 assms(4)]
  have after: "sc_inv B \<lparr>w_layer = l', w_chains = put_chain h (flown b (h, idx) s) (w_chains w), w_vk = v'\<rparr>"
    if "accounts B ?A v'" "flies m b ?v v'" "same_tables (w_layer w) l'" for b v' l'
    by (rule sc_inv_image [OF assms(1) s(1-3) m_def that(1,2) _ that(3)]) (simp add: flown_def m_def)
  have a2: "accounts B ?A v2 \<and> vk_fence v2 = (if sub then (vk_fence v1)(m_fence m := Pending (m_cmd m)) else vk_fence v1) \<and>
      vk_lost v2 = vk_lost v1 \<and> vk_next v2 = vk_next v1 \<and> vk_pool_cmds v2 = vk_pool_cmds v1 \<and>
      vk_signaled v2 = (if sub then [m_done m] @ filter (\<lambda>x. x \<notin> set waits) (vk_signaled v1) else vk_signaled v1)" if reset
  proof -
    have "all_signaled waits v1" "list_all (\<lambda>x. x \<notin> set (vk_signaled v1) \<or> x \<in> set waits) [m_done m]" "m_cmd m \<le> vk_next v1"
      using assms(3) a1(6,4) md by (simp_all add: all_signaled_def)
    moreover have "vk_fence v1 (m_fence m) = Unsignaled" using a1(2) that by simp
    moreover have "idle v1 (m_cmd m)" using ready(1) a1(2,3) that by (auto simp: idle_def)
    ultimately show ?thesis using accounts_submit [OF a1(1) 2] by simp
  qed
  have np: "vk_lost ?v \<or> (\<forall>c. vk_fence ?v (m_fence m) \<noteq> Pending c)"
    using ready(2) by (auto simp: pending_def split: fence_state.splits)
  show ?thesis
  proof (cases "reset \<and> sub")
    case False
    define v3 where "v3 = (if reset then v2 else v1)"
    obtain reason where w1: "fwd" "w1 = \<lparr>w_layer = mark_overlay_failed key reason (w_layer w),
        w_chains = put_chain h (flown False (h, idx) s) (w_chains w), w_vk = v3\<rparr>"
      using S False by (auto simp: v3_def)
    have a3: "accounts B ?A v3" "vk_next v3 = vk_next ?v" "vk_signaled v3 = vk_signaled ?v"
      using a1 a2 False by (auto simp: v3_def)
    have "flies m False ?v v3" using a1 a2 False np by (auto simp: flies_def v3_def)
    then have "sc_inv B w1" unfolding w1(2) by (rule after [OF a3(1)]) simp
    from real_present_consumes [OF this] assms(3,5) w1 a3(2,3) show ?thesis by (simp add: consumes_def all_signaled_def)
  next
    case True
    have w1: "\<not> fwd" "sems = [m_done m]" "w1 = \<lparr>w_layer = w_layer w, w_chains = put_chain h (flown True (h, idx) s) (w_chains w), w_vk = v2\<rparr>"
      using S True by auto
    obtain ok v3 where 3: "present queue [m_done m] v2 = (ok, v3)" by fastforce
    have "all_signaled [m_done m] v2" using a2 True by (simp add: all_signaled_def)
    note a3 = accounts_present [OF conjunct1 [OF a2] 3 this]
    have sig: "set (vk_signaled v3) = set (vk_signaled ?v) - set waits" using a1(6) a2 a3 True md(1) by auto
    have fl: "flies m True ?v v3" using a1 a2 a3 True sig by (auto simp: flies_def)
    have w2: "w2 = \<lparr>w_layer = w_layer w, w_chains = put_chain h (flown True (h, idx) s) (w_chains w), w_vk = v3\<rparr>"
      using assms(5) w1 3 by (simp add: real_present_def)
    have "sc_inv B w2" unfolding w2 by (rule after [OF _ fl]) (use a3 True in simp_all)
    then show ?thesis using a1(4) a2 a3 True sig w2 by (simp add: consumes_def)
  qed
qed

text \<open>The whole hook, for a present of at most one swapchain.\<close>

lemma all_signaled_drawn:
  "all_signaled ws v \<Longrightarrow> settles v v' \<Longrightarrow> list_all (\<lambda>x. x \<le> vk_next v) ws \<Longrightarrow> all_signaled ws v'"
  by (auto simp: all_signaled_def list_all_iff settles_def)

lemma consumes_drawn:
  assumes "drawn w w1" and "consumes B waits w1 w2"
  shows "consumes B waits w w2"
proof -
  have st: "settles (w_vk w) (w_vk w1)" using assms(1) by (simp add: drawn_def)
  show ?thesis using assms(2) settlesD(1) [OF st] settlesD(4) [OF st] by (auto simp: consumes_def)
qed

lemma QueuePresent_inv:
  assumes "sc_inv B w" and "se_gdpa e ''vkDestroyPipeline''" and "length (pr_chains p) \<le> 1"
    and "all_signaled (pr_waits p) (w_vk w)" and "list_all (\<lambda>x. x \<le> vk_next (w_vk w)) (pr_waits p)"
    and "QueuePresentKHR e key queue client (Some p) w = (res, w')"
  shows "if res = None then w' = w else consumes B (pr_waits p) w w'"
proof -
  let ?dd = "l_devices (w_layer w) key"
  have fw: "if r = None then w2 = w1 else consumes B (pr_waits p) w1 w2"
    if "sc_inv B w1" "all_signaled (pr_waits p) (w_vk w1)" "forward ?dd queue (Some p) w1 = (r, w2)" for w1 w2 r
  proof (cases "\<exists>d. ?dd = Some d \<and> has d ''QueuePresentKHR''")
    case True
    then have "real_present queue (pr_waits p) w1 = (r, w2)" using that(3) by (auto simp: forward_def)
    moreover from this have "r \<noteq> None" by (auto simp: real_present_def split: prod.splits)
    ultimately show ?thesis using real_present_consumes [OF that(1,2)] by auto
  next
    case False
    then show ?thesis using that(3) by (auto simp: forward_def split: option.splits if_splits)
  qed
  have nofw: "consumes B (pr_waits p) w1 w2"
    if "sc_inv B w1" "all_signaled (pr_waits p) (w_vk w1)" "forward ?dd queue (Some p) w1 = (r, w2)"
      "?dd = Some d" "has d ''QueuePresentKHR''" for w1 w2 r d
    using that real_present_consumes [OF that(1,2)] by (simp add: forward_def)
  show ?thesis
  proof (cases "\<exists>d. ?dd = Some d \<and> has d ''QueuePresentKHR'' \<and> QueuePresentKHR e key queue client (Some p) w \<noteq> forward ?dd queue (Some p) w")
    case False
    then have "(\<forall>d. ?dd = Some d \<longrightarrow> \<not> has d ''QueuePresentKHR'') \<or> QueuePresentKHR e key queue client (Some p) w = forward ?dd queue (Some p) w"
      by blast
    then have "forward ?dd queue (Some p) w = (res, w')"
      using assms(6) by (auto simp: QueuePresentKHR_def Let_def split: option.splits)
    from fw [OF assms(1,4) this] show ?thesis by simp
  next
    case True
    then obtain d where d: "?dd = Some d" "has d ''QueuePresentKHR''" by blast
    obtain bad rec w1 where 1: "record_all e client (pr_chains p) w = (bad, rec, w1)" by (metis prod.exhaust)
    obtain fwd sems w2 where 2: "submit_all key queue (pr_waits p) rec [] w1 = (fwd, sems, w2)" by (metis prod.exhaust)
    note R = record_all_inv [OF assms(1,2) 1]
    have st: "settles (w_vk w) (w_vk w1)" using R by (simp add: drawn_def)
    have sg: "all_signaled (pr_waits p) (w_vk w1)" using all_signaled_drawn [OF assms(4) st assms(5)] .
    have e: "(res, w') = (if bad \<or> rec = [] then forward ?dd queue (Some p) w1
        else if fwd then forward ?dd queue (Some p) w2 else real_present queue sems w2)"
      using assms(6) True d 1 2 unfolding QueuePresentKHR_def by (auto simp: Let_def split: if_splits)
    have some: "res \<noteq> None" using e d by (auto simp: forward_def real_present_def split: if_splits prod.splits)
    have "consumes B (pr_waits p) w1 w'"
    proof (cases "bad \<or> rec = []")
      case True
      then have "forward ?dd queue (Some p) w1 = (res, w')" using e by simp
      from nofw [OF conjunct1 [OF R] sg this d] show ?thesis .
    next
      case False
      have "length rec \<le> 1" using R assms(3) by (blast intro: order_trans)
      then have "length rec = 1" using False by (cases rec) auto
      then obtain h idx where rec: "rec = [(h, idx)]" by (auto simp: length_Suc_conv)
      have ri: "ready_image w1 (h, idx)" using R rec by simp
      have rp: "real_present queue (if fwd then pr_waits p else sems) w2 = (res, w')"
        using e False d by (cases fwd) (simp_all add: forward_def)
      show ?thesis by (rule present_one [OF conjunct1 [OF R] ri sg 2 [unfolded rec] rp])
    qed
    then have "consumes B (pr_waits p) w w'" using consumes_drawn R by blast
    then show ?thesis using some by auto
  qed
qed

section \<open>A game's life\<close>

text \<open>
  What may happen, in any order: the game creates, destroys and presents swapchains, makes objects
  of its own (\<open>B\<close> counts them) and has its rendering signal its semaphores; the GPU finishes work,
  the driver decides on its next answers, and the device may be lost. A present names at most one
  swapchain and waits for semaphores that are signaled.
\<close>

inductive game_step :: "sc_env \<Rightarrow> obj multiset \<times> sc_world \<Rightarrow> obj multiset \<times> sc_world \<Rightarrow> bool" for e where
  creates: "CreateSwapchainKHR e key crq w = (made, w') \<Longrightarrow> game_step e (B, w) (B, w')"
| destroys: "game_step e (B, w) (B, DestroySwapchainKHR e key h w)"
| presents: "QueuePresentKHR e key queue client (Some p) w = (res, w') \<Longrightarrow> length (pr_chains p) \<le> 1 \<Longrightarrow>
    all_signaled (pr_waits p) (w_vk w) \<Longrightarrow> list_all (\<lambda>x. x \<le> vk_next (w_vk w)) (pr_waits p) \<Longrightarrow> game_step e (B, w) (B, w')"
| makes: "create k (w_vk w) = (h, v) \<Longrightarrow> game_step e (B, w) (B + held [(k, h)], w\<lparr>w_vk := v\<rparr>)"
| signals: "x \<notin> m_done ` set (all_images (w_chains w)) \<Longrightarrow>
    game_step e (B, w) (B, w\<lparr>w_vk := (w_vk w)\<lparr>vk_signaled := x # vk_signaled (w_vk w)\<rparr>\<rparr>)"
| finishes: "vk_fence (w_vk w) f = Pending c \<Longrightarrow>
    game_step e (B, w) (B, w\<lparr>w_vk := (w_vk w)\<lparr>vk_fence := (vk_fence (w_vk w))(f := Signaled)\<rparr>\<rparr>)"
| answers: "game_step e (B, w) (B, w\<lparr>w_vk := (w_vk w)\<lparr>vk_answers := bs\<rparr>\<rparr>)"
| loses: "game_step e (B, w) (B, w\<lparr>w_vk := (w_vk w)\<lparr>vk_lost := True\<rparr>\<rparr>)"

inductive_cases game_stepE: "game_step e s s'"

text \<open>Steps of the GPU alone let fences settle.\<close>

lemma sc_inv_settles:
  assumes "sc_inv B w" and "settles (w_vk w) v" and "accounts B (all_objs (w_chains w)) v"
  shows "sc_inv B (w\<lparr>w_vk := v\<rparr>)"
proof -
  have n: "vk_next (w_vk w) \<le> vk_next v" using settlesD(1) [OF assms(2)] .
  have "list_all (\<lambda>(h, s). chain_ok (w_layer w) v s \<and> h \<le> vk_next v) (w_chains w)"
    using assms(1) chain_ok_settles [OF _ assms(2)] n unfolding sc_inv_def list_all_iff by fastforce
  then show ?thesis using assms(1,3) only_ours_settles [OF _ assms(2)] by (simp add: sc_inv_def)
qed

lemma sc_inv_signal:
  assumes "sc_inv B w" and "x \<notin> m_done ` set (all_images (w_chains w))"
  shows "sc_inv B (w\<lparr>w_vk := (w_vk w)\<lparr>vk_signaled := x # vk_signaled (w_vk w)\<rparr>\<rparr>)"
proof -
  let ?v = "(w_vk w)\<lparr>vk_signaled := x # vk_signaled (w_vk w)\<rparr>"
  have "chain_ok (w_layer w) ?v s" if s: "(h, s) \<in> set (w_chains w)" "chain_ok (w_layer w) (w_vk w) s" for h s
  proof -
    have "m_done m \<noteq> x" if "m \<in> set (s_images s)" for m using images_sub [OF s(1)] that assms(2) by blast
    then have "built dd (w_vk w) s \<Longrightarrow> built dd ?v s" for dd by (simp add: built_def list_all_iff)
    then show ?thesis using s(2) by (simp add: chain_ok_def)
  qed
  then have "list_all (\<lambda>(h, s). chain_ok (w_layer w) ?v s \<and> h \<le> vk_next ?v) (w_chains w)"
    using assms(1) unfolding sc_inv_def list_all_iff by fastforce
  then show ?thesis using assms(1) by (simp add: sc_inv_def accounts_upds only_ours_def)
qed

lemma accounts_made: "accounts B ((k, h) # xs) v \<Longrightarrow> accounts (B + held [(k, h)]) xs v"
  by (simp add: accounts_def held_Cons)

lemma game_step_inv:
  assumes "game_step e (B, w) (B', w')" and "sc_inv B w" and "se_gdpa e ''vkDestroyPipeline''"
  shows "sc_inv B' w'"
  using assms(1)
proof cases
  case (creates key crq made)
  then show ?thesis using create_inv [OF assms(2,3) creates(2)] by (simp add: keeps_def)
next
  case (destroys key h)
  then show ?thesis using hook_destroy_inv [OF assms(2,3) refl] by (simp add: keeps_def)
next
  case (presents key queue client p res)
  then show ?thesis using QueuePresent_inv [OF assms(2,3) presents(3-5,2)] assms(2) by (auto simp: consumes_def split: if_splits)
next
  case (makes k h v)
  have a: "accounts B (all_objs (w_chains w)) (w_vk w)" using assms(2) by (simp add: sc_inv_def)
  have "accounts B' (all_objs (w_chains w)) v" using accounts_made [OF accounts_create [OF a makes(3)]] makes(1) by simp
  moreover have "settles (w_vk w) v" by (rule quiet_settles [OF quiet_create [OF makes(3)]])
  moreover have "sc_inv B' (w\<lparr>w_vk := v\<rparr>) \<longleftrightarrow> sc_inv B' (w\<lparr>w_vk := v\<rparr>)" ..
  moreover have "chain_ok (w_layer w) (w_vk w) s \<Longrightarrow> chain_ok (w_layer w) v s" for s
    using chain_ok_settles \<open>settles (w_vk w) v\<close> by blast
  ultimately show ?thesis
    using assms(2) makes(2) only_ours_settles [of _ "w_vk w" v] settlesD(1) [of "w_vk w" v]
    unfolding sc_inv_def list_all_iff by fastforce
next
  case (signals x)
  then show ?thesis using sc_inv_signal assms(2) by simp
next
  case (finishes f c)
  let ?v = "(w_vk w)\<lparr>vk_fence := (vk_fence (w_vk w))(f := Signaled)\<rparr>"
  have "settles (w_vk w) ?v" by (auto simp: settles_def)
  moreover have "accounts B (all_objs (w_chains w)) ?v"
    using assms(2) by (intro accounts_fence_upd) (auto simp: sc_inv_def)
  ultimately show ?thesis using sc_inv_settles [OF assms(2)] finishes by simp
next
  case (answers bs)
  have "settles (w_vk w) ((w_vk w)\<lparr>vk_answers := bs\<rparr>)" by (simp add: settles_def)
  moreover have "accounts B (all_objs (w_chains w)) ((w_vk w)\<lparr>vk_answers := bs\<rparr>)" using assms(2) by (simp add: sc_inv_def accounts_upds)
  ultimately show ?thesis using sc_inv_settles [OF assms(2)] answers by simp
next
  case loses
  have "settles (w_vk w) ((w_vk w)\<lparr>vk_lost := True\<rparr>)" by (simp add: settles_def)
  moreover have "accounts B (all_objs (w_chains w)) ((w_vk w)\<lparr>vk_lost := True\<rparr>)" using assms(2) by (simp add: sc_inv_def accounts_upds)
  ultimately show ?thesis using sc_inv_settles [OF assms(2)] loses by simp
qed

definition fresh_world :: "obj multiset \<Rightarrow> sc_world \<Rightarrow> bool" where
  "fresh_world B w \<longleftrightarrow> w_chains w = [] \<and> accounts B [] (w_vk w) \<and> (\<forall>f c. vk_fence (w_vk w) f \<noteq> Pending c)"

lemma life_inv:
  assumes "rtranclp (game_step e) s s'" and "se_gdpa e ''vkDestroyPipeline''" and "sc_inv (fst s) (snd s)"
  shows "sc_inv (fst s') (snd s')"
  using assms(1,3) by (induction rule: rtranclp_induct) (use game_step_inv assms(2) in \<open>auto elim: game_step_inv\<close>)

lemma fresh_inv: "fresh_world B w \<Longrightarrow> sc_inv B w"
  by (simp add: fresh_world_def sc_inv_def all_objs_def all_images_def only_ours_def)

section \<open>What holds over a life\<close>



text \<open>
  C38: Destroying gives back. At any time of a life, destroying a swapchain frees exactly the
  objects the layer made for it, legally, whatever the driver answers.
\<close>

theorem destroy_gives_back:
  assumes "fresh_world B0 w0" and "se_gdpa e ''vkDestroyPipeline''" and "rtranclp (game_step e) (B0, w0) (B, w)"
    and "chain_at w h = Some s" and "w' = DestroySwapchainKHR e key h w"
  shows "vk_ok (w_vk w') \<and> live (w_vk w') = live (w_vk w) - held (state_objs s) \<and> chain_at w' h = None"
proof -
  have i: "sc_inv B w" using life_inv [OF assms(3,2)] fresh_inv [OF assms(1)] by simp
  obtain xs ys where cs: "w_chains w = xs @ (h, s) # ys" "drop_chain h (w_chains w) = xs @ ys"
    using chain_split [of "w_chains w" h s] assms(4) by (auto simp: chain_at_def)
  have "w_chains w' = drop_chain h (w_chains w)"
    using assms(4,5) by (auto simp: DestroySwapchainKHR_def retire_def Let_def split: option.splits prod.splits)
  then have c: "w_chains w' = xs @ ys" using cs(2) by simp
  have i': "sc_inv B w'" using hook_destroy_inv [OF i assms(2,5)] by (simp add: keeps_def)
  have "live (w_vk w) = live (w_vk w') + held (state_objs s)"
    using i i' cs(1) c by (simp add: sc_inv_def accounts_def)
  moreover have "h \<notin> fst ` set (xs @ ys)" using i cs(1) by (auto simp: sc_inv_def)
  ultimately show ?thesis using i' c by (auto simp: sc_inv_def accounts_def chain_at_def map_of_eq_None_iff)
qed

end
