(* ===== verification/SwapchainCalls.thy ===== *)
theory SwapchainCalls
  imports SwapchainTrace
begin

text \<open>
  Which calls reach the driver from the swapchain hooks (\<^verbatim>\<open>src/layer/swapchain.cpp\<close>): the log of
  swapchain creations, submits and presents.
\<close>

section \<open>Steps that log nothing\<close>

definition logged :: "(vk_call \<Rightarrow> bool) \<Rightarrow> vk \<Rightarrow> vk \<Rightarrow> bool" where
  "logged P v v' \<longleftrightarrow> (\<exists>ks. vk_log v' = vk_log v @ ks \<and> list_all P ks)"

lemma logged_same: "vk_log v' = vk_log v \<Longrightarrow> logged P v v'"
  by (simp add: logged_def)

lemma logged_trans [trans]: "logged P v1 v2 \<Longrightarrow> logged P v2 v3 \<Longrightarrow> logged P v1 v3"
  unfolding logged_def by (metis append.assoc list_all_append)

named_theorems log

lemma log_calls [log]:
  "ask v = (b, v') \<Longrightarrow> vk_log v' = vk_log v" "create k v = (h, v') \<Longrightarrow> vk_log v' = vk_log v"
  "begin_command c v = (b, v') \<Longrightarrow> vk_log v' = vk_log v"
  "wait_fence f v = (b, v') \<Longrightarrow> vk_log v' = vk_log v" "reset_fence f v = (b, v') \<Longrightarrow> vk_log v' = vk_log v"
  by (auto simp: ask_def create_def fresh_def begin_command_def wait_fence_def reset_fence_def legal_def
      split: list.splits prod.splits if_splits)

lemma log_objects [log]:
  "create_fence st v = (h, v') \<Longrightarrow> vk_log v' = vk_log v" "create_semaphore v = (h, v') \<Longrightarrow> vk_log v' = vk_log v"
  "create_pool v = (h, v') \<Longrightarrow> vk_log v' = vk_log v" "allocate_commands p n v = (cs, v') \<Longrightarrow> vk_log v' = vk_log v"
  by (auto simp: create_fence_def create_semaphore_def create_pool_def allocate_commands_def Let_def
      split: prod.splits if_splits dest!: log)

lemma log_destroy [simp]: "vk_log (destroy k h v) = vk_log v"
  by (simp add: destroy_def legal_def)

lemma log_texture [log]:
  "make_image mem t v = (ok, t', v') \<Longrightarrow> vk_log v' = vk_log v" "make_staging mem v = (ok, sb, sm, v') \<Longrightarrow> vk_log v' = vk_log v"
  "make_view t v = (ok, t', v') \<Longrightarrow> vk_log v' = vk_log v" "add_texture r v = (d, v') \<Longrightarrow> vk_log v' = vk_log v"
  by (auto simp: make_image_def make_staging_def make_view_def add_texture_def Let_def
      split: prod.splits if_splits option.splits dest!: log)

lemma log_frees [simp]:
  "vk_log (free_staging sb sm v) = vk_log v" "vk_log (snd (destroy_texture ro t v)) = vk_log v"
  "vk_log (remove_texture d r v) = vk_log v"
  by (simp_all add: free_staging_def destroy_texture_def remove_texture_def split: option.splits)

lemma log_drop_textures [simp]: "vk_log (drop_textures ro ts v) = vk_log v"
  by (induction ts arbitrary: v) (auto split: option.splits)

lemma log_textures_shutdown [simp]: "vk_log (snd (textures_shutdown a v)) = vk_log v"
  by (simp add: textures_shutdown_def)

lemma log_pipeline [log]:
  "create_hdr_pipeline v = (p, v') \<Longrightarrow> vk_log v' = vk_log v" "backend_init c v = (ok, v') \<Longrightarrow> vk_log v' = vk_log v"
  by (auto simp: create_hdr_pipeline_def backend_init_def split: prod.splits if_splits dest!: log)

lemma log_renderer_init [log]: "renderer_init dd rp n tf nits r v = (ok, r', v') \<Longrightarrow> vk_log v' = vk_log v"
  by (auto simp: renderer_init_def Let_def split: prod.splits if_splits dest!: log)

lemma log_renderer_shutdown [log]: "renderer_shutdown gdpa r v = (r', v') \<Longrightarrow> vk_log v' = vk_log v"
proof -
  define v1 where "v1 = (case r_disp r of
      Some dd \<Rightarrow> if r_pipeline r \<noteq> 0 \<and> has dd ''GetDeviceProcAddr'' \<and> r_device r \<noteq> 0 \<and> gdpa ''vkDestroyPipeline''
                 then destroy K_pipeline (r_pipeline r) v else v
    | None \<Rightarrow> v)"
  define v2 where "v2 = (if r_init_done r then destroy K_backend (r_ctx r) v1 else v)"
  define v3 where "v3 = (if r_ctx r \<noteq> 0 then destroy K_context (r_ctx r) v2 else v2)"
  assume "renderer_shutdown gdpa r v = (r', v')"
  then have "v' = v3 \<or> (\<exists>p. v' = destroy K_descriptor_pool p v3)"
    by (auto simp: renderer_shutdown_def Let_def v3_def v2_def v1_def split: option.splits if_splits)
  moreover have "vk_log v3 = vk_log v" by (auto simp: v3_def v2_def v1_def split: option.splits)
  ultimately show ?thesis by auto
qed

lemma log_destroy_images [simp]: "vk_log (destroy_images dd ms v) = vk_log v"
  by (induction ms arbitrary: v) simp_all

lemma log_destroy_state [log]: "destroy_state e dd s v = (s', v') \<Longrightarrow> vk_log v' = vk_log v"
  using log_renderer_shutdown [OF surjective_pairing] by (auto simp: destroy_state_def Let_def split: option.splits)

lemma log_wait_images [log]: "wait_images ms v = (ms', v') \<Longrightarrow> vk_log v' = vk_log v"
proof (induction ms arbitrary: v ms' v')
  case (Cons m ms)
  obtain ok w where w: "wait_fence (m_fence m) v = (ok, w)" by fastforce
  have "vk_log w = vk_log v" using w by (rule log)
  then show ?case using Cons w by (auto simp: Let_def split: prod.splits if_splits)
qed simp

lemma log_wait_overlay [log]: "wait_overlay_idle dd s v = (s', v') \<Longrightarrow> vk_log v' = vk_log v"
  by (auto simp: wait_overlay_idle_def split: prod.splits if_splits dest!: log)

lemma log_build_image [log]: "build_image img c v = (ok, m, v') \<Longrightarrow> vk_log v' = vk_log v"
  by (auto simp: build_image_def Let_def split: prod.splits if_splits dest!: log)

lemma log_build_images [log]: "build_images ps v = (ok, ms, v') \<Longrightarrow> vk_log v' = vk_log v"
proof (induction ps arbitrary: v ok ms v')
  case (Cons p ps)
  then show ?case by (cases p) (auto split: prod.splits if_splits dest!: log)
qed simp

lemma log_build_state [log]: "build_state e dd images s v = (ok, s', v') \<Longrightarrow> vk_log v' = vk_log v"
  by (auto simp: build_state_def Let_def split: prod.splits if_splits option.splits dest!: log)

lemma log_retire [simp]: "vk_log (w_vk (retire e h w)) = vk_log (w_vk w)"
  by (auto simp: retire_def Let_def split: option.splits prod.splits dest!: log)

section \<open>Where overlay work goes\<close>

text \<open>An upload: a submit of its own, waiting for nothing and signalling nobody.\<close>

fun upload_on :: "nat \<Rightarrow> vk_call \<Rightarrow> bool" where
  "upload_on q (Submit q' ws c sigs f) \<longleftrightarrow> q' = q \<and> ws = [] \<and> sigs = []"
| "upload_on q _ \<longleftrightarrow> False"

lemma log_submit:
  "submit q ws c sigs f v = (b, v') \<Longrightarrow> vk_log v' = vk_log v @ (if b then [Submit q ws c sigs f] else [])"
  by (auto simp: submit_def Let_def consume_def legal_def split: prod.splits if_splits dest!: log)

lemma logged_upload: "upload q v = (ok, v') \<Longrightarrow> logged (upload_on q) v v'"
  by (auto simp: upload_def Let_def logged_def split: prod.splits if_splits option.splits dest!: log log_submit)

lemma logged_create_texture:
  assumes "create_texture (Some dd) mem ro v = (ok, t, v')"
  shows "logged (upload_on (dd_graphics_queue dd)) v v'"
proof (cases "\<exists>r dp. ro = Some r \<and> r_disp r = Some dp \<and> r_device r \<noteq> 0 \<and> list_all (has dp) create_texture_needs \<and>
    dd_has_graphics_queue_family dd \<and> dd_graphics_queue dd \<noteq> 0 \<and> dd_get_phys_mem_props dd \<and> dd_physical_device dd \<noteq> 0")
  case False
  then have "v' = v" using assms by (auto simp: create_texture_def Let_def split: option.splits if_splits)
  then show ?thesis by (simp add: logged_same)
next
  case True
  then obtain r dp where r: "ro = Some r" "r_disp r = Some dp" "r_device r \<noteq> 0" "list_all (has dp) create_texture_needs"
    and dd: "dd_has_graphics_queue_family dd" "dd_graphics_queue dd \<noteq> 0" "dd_get_phys_mem_props dd" "dd_physical_device dd \<noteq> 0"
    by blast
  obtain ok1 t1 v1 where 1: "make_image mem no_texture v = (ok1, t1, v1)" by (metis prod.exhaust)
  obtain ok2 b m v2 where 2: "make_staging mem v1 = (ok2, b, m, v2)" by (metis prod.exhaust)
  obtain ok3 v3 where 3: "upload (dd_graphics_queue dd) v2 = (ok3, v3)" by fastforce
  define v4 where "v4 = free_staging b m v3"
  obtain ok5 t5 v5 where 5: "make_view t1 v4 = (ok5, t5, v5)" by (metis prod.exhaust)
  have l: "vk_log v1 = vk_log v" "vk_log v2 = vk_log v" "vk_log v5 = vk_log v3" "vk_log v4 = vk_log v3"
    using log_texture(1) [OF 1] log_texture(2) [OF 2] log_texture(3) [OF 5] by (simp_all add: v4_def)
  have d: "(t'', w') = destroy_texture ro t' w \<Longrightarrow> vk_log w' = vk_log w" for t' w t'' w'
    using log_frees(2) [of ro t' w] by (metis snd_conv)
  have "create_texture (Some dd) mem ro v =
      (if \<not> ok1 then (False, destroy_texture ro t1 v1)
       else if \<not> ok2 then (False, destroy_texture ro t1 (free_staging b m v2))
       else if \<not> ok3 then (False, destroy_texture ro t1 v4)
       else if \<not> ok5 then (False, destroy_texture ro t5 v5) else (True, t5, v5))"
    using r dd 1 2 3 5 by (simp add: create_texture_def v4_def)
  then have "vk_log v' = vk_log v \<or> vk_log v' = vk_log v3"
    using assms l by (auto split: if_splits dest!: d)
  then show ?thesis using logged_upload [OF 3] l(2) by (auto simp: logged_def)
qed

lemma logged_get_or_load:
  assumes "get_or_load (Some dd) mem files req a v = (i, a', v')"
  shows "logged (upload_on (dd_graphics_queue dd)) v v'"
proof (cases "v' = v")
  case False
  then obtain r where r: "a_renderer a = Some r" "ready r" "q_hash req \<noteq> []" "map_of (a_textures a) (q_hash req) = None"
    using assms(1) by (auto simp: get_or_load_def split: if_splits option.splits)
  obtain ok t v1 where 1: "create_texture (Some dd) mem (Some r) v = (ok, t, v1)" by (metis prod.exhaust)
  obtain d v2 where 2: "add_texture r v1 = (d, v2)" by fastforce
  have "v' = v1 \<or> v' = v2 \<or> v' = snd (destroy_texture (Some r) (t\<lparr>x_descriptor := d\<rparr>) v2)"
    using assms(1) False r 1 2 by (auto simp: get_or_load_def Let_def split: if_splits option.splits)
  then have "vk_log v' = vk_log v1" using log_texture(4) [OF 2] by auto
  then show ?thesis using logged_create_texture [OF 1] by (simp add: logged_def)
qed (simp add: logged_same)

lemma logged_build_frame:
  assumes "build_frame e dd client fr r a v = (ok, r', a', v')"
  shows "logged (upload_on (dd_graphics_queue dd)) v v'"
proof -
  obtain icons a1 v1 where 1: "resolve_all lookup (get_or_load (Some dd) (se_mem e) (se_files e)) client (f_icons fr) (a, v) = (icons, a1, v1)"
    by (metis prod.exhaust)
  have "logged (upload_on (dd_graphics_queue dd)) v v1"
    by (rule resolve_all_invariant [where P = "\<lambda>_ w. logged (upload_on (dd_graphics_queue dd)) v w", OF _ _ 1])
      (rule logged_trans, assumption, rule logged_get_or_load, assumption, simp add: logged_same)
  moreover have "v' = v \<or> v' = v1"
    using assms 1 by (auto simp: build_frame_def Let_def split: if_splits prod.splits)
  ultimately show ?thesis by (auto simp: logged_same)
qed

lemma log_lazy_init [log]: "lazy_init e dd client s v = (s', v') \<Longrightarrow> vk_log v' = vk_log v"
  using log_renderer_shutdown [OF surjective_pairing]
  by (auto simp: lazy_init_def Let_def split: prod.splits if_splits dest!: log)

lemma log_record_built: "record_built idx n t ok s r l v = (res, s', l', v') \<Longrightarrow> vk_log v' = vk_log v"
  by (auto simp: record_built_def Let_def split: prod.splits if_splits dest!: log)

lemma logged_record_one:
  assumes "record_one e dd idx client fr s l v = (res, s', l', v')"
  shows "logged (upload_on (dd_graphics_queue dd)) v v'"
proof (cases "\<not> s_ok s \<or> idx \<ge> length (s_images s) \<or> disabled client")
  case True
  then have "v' = v" using assms by (auto simp: record_one_def split: if_splits)
  then show ?thesis by (simp add: logged_same)
next
  case False
  obtain s1 v1 where 1: "lazy_init e dd client s v = (s1, v1)" by fastforce
  have l1: "vk_log v1 = vk_log v" using 1 by (rule log)
  show ?thesis
  proof (cases "\<exists>r. s_imgui s1 = Some r \<and> ready r")
    case no: False
    then have "v' = v1" using assms False 1 by (auto simp: record_one_def split: option.splits if_splits)
    then show ?thesis using l1 by (simp add: logged_same)
  next
    case True
    then obtain r where r: "s_imgui s1 = Some r" "ready r" by blast
    define a where "a = (case s_avatars s1 of Some a \<Rightarrow> a | None \<Rightarrow> new_avatar_textures\<lparr>a_renderer := Some r\<rparr>)"
    obtain ok r' a' v2 where 2: "build_frame e dd client fr r a v1 = (ok, r', a', v2)" by (metis prod.exhaust)
    have "record_built idx (if in_voice client then f_vertices fr else Some 0) (f_record_throws fr) ok
        (s1\<lparr>s_avatars := Some a'\<rparr>) r' l v2 = (res, s', l', v')"
      using assms False 1 r 2 by (simp add: record_one_def a_def)
    then have "vk_log v' = vk_log v2" by (rule log_record_built)
    then show ?thesis using logged_build_frame [OF 2] l1 by (simp add: logged_def)
  qed
qed

definition uploads :: "layer \<Rightarrow> vk_call \<Rightarrow> bool" where
  "uploads l k \<longleftrightarrow> (\<exists>key. upload_on (dd_graphics_queue (device_of l key)) k)"

definition overlay_work :: "layer \<Rightarrow> nat \<Rightarrow> vk_call \<Rightarrow> bool" where
  "overlay_work l queue k \<longleftrightarrow> uploads l k \<or>
     (\<exists>ws c sigs f. k = Submit queue ws c sigs f) \<or> (\<exists>ws. k = Present queue ws)"

definition same_queues :: "layer \<Rightarrow> layer \<Rightarrow> bool" where
  "same_queues l l' \<longleftrightarrow> (\<forall>k. dd_graphics_queue (device_of l' k) = dd_graphics_queue (device_of l k))"

lemma mark_same_queues: "same_queues l (mark_overlay_failed key reason l)"
  by (auto simp: same_queues_def mark_overlay_failed_def device_of_def Let_def split: option.splits)

lemma record_built_layer:
  "record_built idx n t ok s r l v = (res, s', l', v') \<Longrightarrow> l' = l \<or> (\<exists>key reason. l' = mark_overlay_failed key reason l)"
  by (auto simp: record_built_def Let_def split: prod.splits if_splits)

lemma record_one_layer:
  assumes "record_one e dd idx client fr s l v = (res, s', l', v')"
  shows "same_queues l l'"
proof -
  have "l' = l \<or> (\<exists>key reason. l' = mark_overlay_failed key reason l)"
    using assms record_built_layer by (auto simp: record_one_def Let_def split: prod.splits if_splits option.splits)
  then show ?thesis using mark_same_queues by (auto simp: same_queues_def)
qed

lemma logged_uploads: "logged (uploads l) v v' \<Longrightarrow> logged (overlay_work l queue) v v'"
  unfolding logged_def overlay_work_def by (metis (mono_tags, lifting) list.pred_mono_strong)

lemma logged_record_all:
  "record_all e client xs w = (bad, recorded, w') \<Longrightarrow>
     logged (uploads (w_layer w)) (w_vk w) (w_vk w') \<and> same_queues (w_layer w) (w_layer w')"
proof (induction xs arbitrary: w bad recorded w')
  case Nil
  then show ?case by (simp add: logged_same same_queues_def)
next
  case (Cons x xs)
  obtain h idx fr where x: "x = (h, idx, fr)" by (metis prod.exhaust)
  show ?case
  proof (cases "chain_at w h")
    case None
    then show ?thesis using Cons.prems x by (auto simp: logged_same same_queues_def)
  next
    case (Some s)
    let ?dd = "device_of (w_layer w) (s_key s)"
    obtain r s1 l1 v1 where 1: "record_one e ?dd idx client fr s (w_layer w) (w_vk w) = (r, s1, l1, v1)" by (metis prod.exhaust)
    define w1 where "w1 = \<lparr>w_layer = l1, w_chains = put_chain h s1 (w_chains w), w_vk = v1\<rparr>"
    have q1: "same_queues (w_layer w) l1" using record_one_layer [OF 1] .
    have g1: "logged (uploads (w_layer w)) (w_vk w) v1"
      using logged_record_one [OF 1] unfolding logged_def by (metis (mono_tags, lifting) list.pred_mono_strong uploads_def)
    show ?thesis
    proof (cases "r = Failed")
      case True
      then show ?thesis using Cons.prems x Some 1 g1 q1 by auto
    next
      case False
      obtain f2 rec2 w2 where 2: "record_all e client xs w1 = (f2, rec2, w2)" by (metis prod.exhaust)
      have e: "w' = w2" using Cons.prems x Some 1 2 False by (auto simp: w1_def)
      have "uploads l1 = uploads (w_layer w)" using q1 by (auto simp: uploads_def same_queues_def fun_eq_iff)
      then show ?thesis using Cons.IH [OF 2] e logged_trans [OF g1] q1 by (auto simp: w1_def same_queues_def)
    qed
  qed
qed

lemma set_in_flight_fields [simp]: "w_vk (set_in_flight b p w) = w_vk w" "w_layer (set_in_flight b p w) = w_layer w"
  by (simp_all add: set_in_flight_def split: option.splits)

lemma logged_submit_all:
  "submit_all key queue waits ps sems w = (fwd, sems', w') \<Longrightarrow> logged (overlay_work l queue) (w_vk w) (w_vk w')"
proof (induction ps arbitrary: waits sems w)
  case Nil
  then show ?case by (simp add: logged_same)
next
  case (Cons p ps)
  let ?m = "image_at w p" and ?w = "set_in_flight False p w"
  obtain reset v1 where 1: "reset_fence (m_fence ?m) (w_vk w) = (reset, v1)" by fastforce
  obtain sub v2 where 2: "submit queue waits (m_cmd ?m) [m_done ?m] (m_fence ?m) v1 = (sub, v2)" by fastforce
  have l1: "vk_log v1 = vk_log (w_vk w)" using 1 by (rule log)
  have g2: "logged (overlay_work l queue) (w_vk w) v2" using log_submit [OF 2] l1 by (auto simp: logged_def overlay_work_def)
  show ?case
  proof (cases "reset \<and> sub")
    case True
    then have "submit_all key queue [m_done ?m] ps (sems @ [m_done ?m]) (set_in_flight True p (?w\<lparr>w_vk := v2\<rparr>)) = (fwd, sems', w')"
      using Cons.prems 1 2 by (simp add: Let_def)
    from Cons.IH [OF this] show ?thesis using logged_trans [OF g2] by simp
  next
    case False
    then have "w_vk w' = v1 \<or> w_vk w' = v2" using Cons.prems 1 2 by (auto simp: Let_def split: if_splits)
    then show ?thesis using g2 l1 by (auto simp: logged_same)
  qed
qed

lemma logged_present: "real_present queue ws w = (r, w') \<Longrightarrow> logged (overlay_work l queue) (w_vk w) (w_vk w')"
  by (auto simp: real_present_def present_def logged_def overlay_work_def consume_def legal_def
      split: prod.splits dest!: log)

lemma forward_cases: "forward dd queue rq w = (r, w') \<Longrightarrow> w' = w \<or> (\<exists>ws. real_present queue ws w = (r, w'))"
  by (auto simp: forward_def split: option.splits if_splits)

lemma forwarded_log:
  assumes "forward dd queue rq w = (res, w')"
  shows "\<exists>ws. vk_log (w_vk w') \<in> {vk_log (w_vk w), vk_log (w_vk w) @ [Present queue ws]}"
proof -
  consider "w' = w" | ws where "real_present queue ws w = (res, w')" using forward_cases [OF assms] by blast
  then show ?thesis
  proof cases
    case (2 ws)
    then have "vk_log (w_vk w') = vk_log (w_vk w) @ [Present queue ws]"
      by (auto simp: real_present_def present_def consume_def legal_def split: prod.splits dest!: log)
    then show ?thesis by blast
  qed simp
qed

lemma logged_queue_present:
  assumes "QueuePresentKHR e key queue client rq w = (res, w')" and "l_devices (w_layer w) key \<noteq> None"
  shows "logged (overlay_work (w_layer w) queue) (w_vk w) (w_vk w')"
proof (cases "QueuePresentKHR e key queue client rq w = forward (l_devices (w_layer w) key) queue rq w")
  case True
  then show ?thesis using assms(1) forward_cases logged_present logged_same by metis
next
  case False
  let ?dd = "l_devices (w_layer w) key"
  have "rq \<noteq> None" using False by (cases "?dd"; cases rq) (simp_all add: QueuePresentKHR_def Let_def)
  then obtain p d where p: "rq = Some p" "?dd = Some d" using assms(2) by blast
  obtain bad rec w1 where 1: "record_all e client (pr_chains p) w = (bad, rec, w1)" by (metis prod.exhaust)
  obtain fwd sems w2 where 2: "submit_all key queue (pr_waits p) rec [] w1 = (fwd, sems, w2)" by (metis prod.exhaust)
  have e: "(res, w') = (if bad \<or> rec = [] then forward ?dd queue rq w1
      else if fwd then forward ?dd queue rq w2 else real_present queue sems w2)"
    using assms(1) False p 1 2 unfolding QueuePresentKHR_def by (auto simp: Let_def split: if_splits)
  have g1: "logged (overlay_work (w_layer w) queue) (w_vk w) (w_vk w1)" using logged_record_all [OF 1] logged_uploads by blast
  have g2: "logged (overlay_work (w_layer w) queue) (w_vk w) (w_vk w2)" using logged_trans [OF g1 logged_submit_all [OF 2]] .
  have fin: "logged (overlay_work (w_layer w) queue) (w_vk w) (w_vk w')"
    if "logged (overlay_work (w_layer w) queue) (w_vk w) (w_vk w3)" "forward ?dd queue rq w3 = (res, w') \<or> real_present queue sems w3 = (res, w')" for w3
    using that(2) forward_cases [of ?dd queue rq w3 res w'] logged_present that(1) logged_trans by metis
  show ?thesis using e fin [OF g1] fin [OF g2] by (auto split: if_splits)
qed

text \<open>
  C39: Overlay work runs on graphics queues only. Every submit that a present makes is an avatar
  upload on a device's graphics queue, or goes to the presenting queue, and then the application
  created that queue on the very family the overlay's command buffers were made for: a compositor
  that presents on a compute-only queue is left alone.
\<close>

theorem overlay_work_stays_on_graphics_queues:
  assumes "QueuePresentKHR e key queue client rq w = (res, w')" and "vk_log (w_vk w') = vk_log (w_vk w) @ ks"
    and "Submit q ws c sigs f \<in> set ks"
  shows "(\<exists>k. q = dd_graphics_queue (device_of (w_layer w) k) \<and> ws = [] \<and> sigs = []) \<or>
    (q = queue \<and> (\<exists>d. l_devices (w_layer w) key = Some d \<and> dd_has_graphics_queue_family d \<and>
       queue_family_for (Some d) queue = dd_graphics_queue_family d))"
proof (cases "\<exists>d. l_devices (w_layer w) key = Some d \<and> dd_has_graphics_queue_family d \<and> queue_family_for (Some d) queue = dd_graphics_queue_family d")
  case False
  then have "QueuePresentKHR e key queue client rq w = forward (l_devices (w_layer w) key) queue rq w"
    by (auto simp: QueuePresentKHR_def Let_def split: option.splits)
  then have "forward (l_devices (w_layer w) key) queue rq w = (res, w')" using assms(1) by simp
  then show ?thesis using forwarded_log assms(2,3) by fastforce
next
  case True
  then obtain ks' where "vk_log (w_vk w') = vk_log (w_vk w) @ ks'" "list_all (overlay_work (w_layer w) queue) ks'"
    using logged_queue_present [OF assms(1)] by (auto simp: logged_def)
  then have "overlay_work (w_layer w) queue (Submit q ws c sigs f)" using assms(2,3) by (simp add: list_all_iff)
  then show ?thesis using True by (auto simp: overlay_work_def uploads_def)
qed

end
