(* ===== verification/SwapchainFrames.thy ===== *)
theory SwapchainFrames
  imports SwapchainCalls "HOL-Library.Sublist"
begin

text \<open>
  What presents and swapchain creation amount to at the Vulkan boundary (\<^verbatim>\<open>src/layer/swapchain.cpp\<close>):
  nothing for an idle overlay, a chain of submits for a drawn one, the request and its retry for a
  new swapchain; and a game's short life as the concrete case.
\<close>

section \<open>Nothing to draw\<close>

definition silent :: "client_state \<Rightarrow> bool" where
  "silent client \<longleftrightarrow> disabled client \<or> \<not> in_voice client"

lemma silent_begin: "begin_frame (Some n) r = (True, snd (begin_frame (Some n) r))"
  by (simp add: begin_frame_def)

lemma silent_record_one:
  assumes "silent client" and "record_one e dd idx client fr s l v = (r, s', l', v')"
  shows "r \<noteq> Drawn \<and> l' = l \<and> v' = v"
proof (cases "\<not> s_ok s \<or> idx \<ge> length (s_images s) \<or> disabled client")
  case True
  then show ?thesis using assms(2) by (auto simp: record_one_def split: if_splits)
next
  case False
  then have q: "\<not> in_voice client" using assms(1) by (simp add: silent_def)
  then have 1: "lazy_init e dd client s v = (s, v)" by (simp add: lazy_init_def)
  have 2: "build_frame e dd client fr r a v = (True, snd (begin_frame (Some 0) r), a, v)" for r a
    using q by (simp add: build_frame_def) (subst silent_begin, simp)
  have 3: "record_built idx (Some 0) t True s r l v = (Skipped, discard_frame s r, l, v)" for t s r
    by (simp add: record_built_def frame_has_content_def)
  show ?thesis
    using assms(2) False q 1 2 3 by (auto simp: record_one_def split: option.splits if_splits)
qed

lemma silent_record_all:
  "silent client \<Longrightarrow> record_all e client xs w = (bad, recorded, w') \<Longrightarrow>
     recorded = [] \<and> w_layer w' = w_layer w \<and> w_vk w' = w_vk w"
proof (induction xs arbitrary: w bad recorded w')
  case (Cons x xs)
  obtain h idx fr where x: "x = (h, idx, fr)" by (metis prod.exhaust)
  show ?case
  proof (cases "chain_at w h")
    case None
    then show ?thesis using Cons.prems x by auto
  next
    case (Some s)
    obtain r s1 l1 v1 where 1: "record_one e (device_of (w_layer w) (s_key s)) idx client fr s (w_layer w) (w_vk w) = (r, s1, l1, v1)"
      by (metis prod.exhaust)
    define w1 where "w1 = \<lparr>w_layer = l1, w_chains = put_chain h s1 (w_chains w), w_vk = v1\<rparr>"
    obtain f2 rec2 w2 where 2: "record_all e client xs w1 = (f2, rec2, w2)" by (metis prod.exhaust)
    note S = silent_record_one [OF Cons.prems(1) 1]
    have "(bad, recorded, w') = (if r = Failed then (True, [], w1) else (f2, rec2, w2))"
      using Cons.prems(2) x Some 1 2 S by (auto simp: w1_def)
    then show ?thesis using Cons.IH [OF Cons.prems(1) 2] S by (auto simp: w1_def split: if_splits)
  qed
qed simp

lemma QueuePresent_run:
  assumes "QueuePresentKHR e key queue client (Some p) w = (res, w')" and "l_devices (w_layer w) key = Some d" "has d ''QueuePresentKHR''"
  obtains (plain) "real_present queue (pr_waits p) w = (res, w')"
  | (undrawn) bad recorded w1 where "record_all e client (pr_chains p) w = (bad, recorded, w1)" "bad \<or> recorded = []"
      "real_present queue (pr_waits p) w1 = (res, w')"
  | (overlay) recorded w1 fwd sems w2 where "record_all e client (pr_chains p) w = (False, recorded, w1)" "recorded \<noteq> []"
      "submit_all key queue (pr_waits p) recorded [] w1 = (fwd, sems, w2)"
      "real_present queue (if fwd then pr_waits p else sems) w2 = (res, w')"
proof -
  obtain bad recorded w1 where ra: "record_all e client (pr_chains p) w = (bad, recorded, w1)" by (metis prod.exhaust)
  obtain fwd sems w2 where sa: "submit_all key queue (pr_waits p) recorded [] w1 = (fwd, sems, w2)" by (metis prod.exhaust)
  have "forward (Some d) queue (Some p) u = real_present queue (pr_waits p) u" for u using assms(3) by (simp add: forward_def)
  from this [of w] this [of w1] this [of w2] have "real_present queue (pr_waits p) w = (res, w') \<or>
      (if bad \<or> recorded = [] then real_present queue (pr_waits p) w1
       else real_present queue (if fwd then pr_waits p else sems) w2) = (res, w')"
    using assms(1) by (auto simp add: QueuePresentKHR_def assms(2,3) Let_def ra sa split: if_splits)
  then consider "real_present queue (pr_waits p) w = (res, w')"
    | "bad \<or> recorded = []" "real_present queue (pr_waits p) w1 = (res, w')"
    | "\<not> bad" "recorded \<noteq> []" "real_present queue (if fwd then pr_waits p else sems) w2 = (res, w')"
    by (auto split: if_splits)
  then show thesis
  proof cases
    case 1
    then show thesis by (rule plain)
  next
    case 2
    then show thesis by (rule undrawn [OF ra])
  next
    case 3
    then show thesis using overlay [of recorded w1 fwd sems w2] ra sa by simp
  qed
qed

text \<open>
  C40: An idle overlay is invisible. While the user is not in voice, or the host has disabled this
  process, a present does to Vulkan exactly what the application asked: its own present with its
  own semaphores and nothing before it, whatever was drawn earlier, and the layer keeps its state.
\<close>

theorem idle_overlay_is_invisible:
  assumes "disabled client \<or> \<not> in_voice client" and "QueuePresentKHR e key queue client (Some p) w = (res, w')"
    and "l_devices (w_layer w) key = Some d" "has d ''QueuePresentKHR''"
  shows "res = Some (fst (present queue (pr_waits p) (w_vk w))) \<and> w_vk w' = snd (present queue (pr_waits p) (w_vk w)) \<and>
    w_layer w' = w_layer w"
proof -
  have plain: ?thesis if "real_present queue (pr_waits p) u = (res, w')" "w_vk u = w_vk w" "w_layer u = w_layer w" for u
    using that by (auto simp: real_present_def split: prod.splits)
  note S = silent_record_all [OF assms(1) [folded silent_def]]
  show ?thesis
    using assms(2-4) by (cases rule: QueuePresent_run) (use plain S in blast)+
qed

section \<open>A drawn frame\<close>

text \<open>The specification: one submit per image, each waiting for the one before.\<close>

fun chained :: "nat \<Rightarrow> nat list \<Rightarrow> image_state list \<Rightarrow> vk_call list" where
  "chained queue waits [] = []"
| "chained queue waits (m # ms) = Submit queue waits (m_cmd m) [m_done m] (m_fence m) # chained queue [m_done m] ms"

definition same_handles :: "image_state \<Rightarrow> image_state \<Rightarrow> bool" where
  "same_handles m k \<longleftrightarrow> m_cmd k = m_cmd m \<and> m_done k = m_done m \<and> m_fence k = m_fence m"

lemma chained_same: "list_all2 same_handles ms ks \<Longrightarrow> chained q ws ks = chained q ws ms \<and> map m_done ks = map m_done ms"
  by (induction ms ks arbitrary: ws rule: list_all2_induct) (auto simp: same_handles_def)

lemma image_at_flight: "same_handles (image_at w p) (image_at (set_in_flight b q w) p)"
proof (cases "chain_at w (fst q)")
  case (Some s)
  show ?thesis
  proof (cases "fst p = fst q")
    case True
    then show ?thesis using Some
      by (cases "snd p = snd q \<and> snd q < length (s_images s)")
        (auto simp: image_at_def set_in_flight_def chain_at_def put_chain_get same_handles_def nth_list_update list_update_beyond)
  next
    case False
    then have "chain_at (set_in_flight b q w) (fst p) = chain_at w (fst p)"
      using Some by (simp add: set_in_flight_def chain_at_def put_chain_get)
    then show ?thesis by (simp add: image_at_def same_handles_def)
  qed
qed (simp add: set_in_flight_def same_handles_def)

lemma submit_all_log:
  "submit_all key queue waits ps sems w = (fwd, sems', w') \<Longrightarrow>
     \<exists>n \<le> length ps. sems' = sems @ map (\<lambda>p. m_done (image_at w p)) (take n ps) \<and> (fwd \<longleftrightarrow> sems' = [] \<and> ps \<noteq> []) \<and>
       vk_log (w_vk w') = vk_log (w_vk w) @ chained queue waits (map (image_at w) (take n ps))"
proof (induction ps arbitrary: waits sems w)
  case Nil
  then show ?case by simp
next
  case (Cons p ps)
  let ?m = "image_at w p" and ?w = "set_in_flight False p w"
  obtain reset v1 where 1: "reset_fence (m_fence ?m) (w_vk w) = (reset, v1)" by fastforce
  obtain sub v2 where 2: "submit queue waits (m_cmd ?m) [m_done ?m] (m_fence ?m) v1 = (sub, v2)" by fastforce
  have l1: "vk_log v1 = vk_log (w_vk w)" using 1 by (rule log)
  have l2: "vk_log v2 = vk_log (w_vk w) @ (if sub then [Submit queue waits (m_cmd ?m) [m_done ?m] (m_fence ?m)] else [])"
    using log_submit [OF 2] l1 by simp
  show ?case
  proof (cases "reset \<and> sub")
    case True
    let ?w3 = "set_in_flight True p (?w\<lparr>w_vk := v2\<rparr>)"
    have "submit_all key queue [m_done ?m] ps (sems @ [m_done ?m]) ?w3 = (fwd, sems', w')"
      using Cons.prems 1 2 True by (simp add: Let_def)
    from Cons.IH [OF this] obtain n where n: "n \<le> length ps"
      "sems' = (sems @ [m_done ?m]) @ map (\<lambda>p. m_done (image_at ?w3 p)) (take n ps)" "fwd \<longleftrightarrow> sems' = [] \<and> ps \<noteq> []"
      "vk_log (w_vk w') = vk_log v2 @ chained queue [m_done ?m] (map (image_at ?w3) (take n ps))" by auto
    have "same_handles (image_at w q) (image_at ?w3 q)" for q
    proof -
      have "image_at (?w\<lparr>w_vk := v2\<rparr>) q = image_at ?w q" by (simp add: image_at_def chain_at_def)
      then show ?thesis using image_at_flight [of w q False p] image_at_flight [of "?w\<lparr>w_vk := v2\<rparr>" q True p]
        by (simp add: same_handles_def)
    qed
    then have "list_all2 same_handles (map (image_at w) (take n ps)) (map (image_at ?w3) (take n ps))"
      by (simp add: list_all2_conv_all_nth)
    from chained_same [OF this, of queue "[m_done ?m]"] have "chained queue [m_done ?m] (map (image_at ?w3) (take n ps)) = chained queue [m_done ?m] (map (image_at w) (take n ps))"
      "map (\<lambda>p. m_done (image_at ?w3 p)) (take n ps) = map (\<lambda>p. m_done (image_at w p)) (take n ps)" by simp_all
    then show ?thesis using n l2 True by (intro exI [of _ "Suc n"]) auto
  next
    case False
    then have "sems' = sems" "fwd \<longleftrightarrow> sems = []" "vk_log (w_vk w') = vk_log (w_vk w)"
      using Cons.prems 1 2 l1 l2 by (auto simp: Let_def split: if_splits)
    then show ?thesis by (intro exI [of _ 0]) auto
  qed
qed

lemma record_one_images: "record_one e dd idx client fr s l v = (r, s', l', v') \<Longrightarrow> s_images s' = s_images s"
  by (auto simp: record_one_def record_built_def lazy_init_def discard_frame_def Let_def
      split: prod.splits if_splits option.splits)

definition named :: "nat \<times> nat \<times> frame_input \<Rightarrow> nat \<times> nat" where
  "named x = (fst x, fst (snd x))"

lemma record_all_images:
  "record_all e client xs w = (bad, recorded, w') \<Longrightarrow> subseq recorded (map named xs) \<and> image_at w' = image_at w"
proof (induction xs arbitrary: w bad recorded w')
  case (Cons x xs)
  obtain h idx fr where x: "x = (h, idx, fr)" by (metis prod.exhaust)
  show ?case
  proof (cases "chain_at w h")
    case None
    then show ?thesis using Cons.prems x by auto
  next
    case (Some s)
    obtain r s1 l1 v1 where 1: "record_one e (device_of (w_layer w) (s_key s)) idx client fr s (w_layer w) (w_vk w) = (r, s1, l1, v1)"
      by (metis prod.exhaust)
    define w1 where "w1 = \<lparr>w_layer = l1, w_chains = put_chain h s1 (w_chains w), w_vk = v1\<rparr>"
    obtain f2 rec2 w2 where 2: "record_all e client xs w1 = (f2, rec2, w2)" by (metis prod.exhaust)
    have i1: "image_at w1 = image_at w"
      using Some record_one_images [OF 1] by (auto simp: fun_eq_iff image_at_def chain_at_def w1_def put_chain_get)
    have "(bad, recorded, w') = (if r = Failed then (True, [], w1) else (f2, if r = Drawn then (h, idx) # rec2 else rec2, w2))"
      using Cons.prems x Some 1 2 by (auto simp: w1_def)
    moreover have "named x = (h, idx)" by (simp add: x named_def)
    ultimately show ?thesis using Cons.IH [OF 2] i1 by (auto split: if_splits)
  qed
qed simp

lemma logged_split: "logged P v v' \<Longrightarrow> \<exists>ks. vk_log v' = vk_log v @ ks \<and> list_all P ks"
  by (auto simp: logged_def)

lemma present_log: "real_present queue ws w = (r, w') \<Longrightarrow> vk_log (w_vk w') = vk_log (w_vk w) @ [Present queue ws]"
  by (auto simp: real_present_def present_def consume_def legal_def split: prod.splits dest!: log)

text \<open>
  A drawn frame is chained between rendering and present. What a present gives the driver is:
  uploads of avatars, then one submit per swapchain drawn (some of those the present names, in its
  order), the first waiting for the application's semaphores and each other for the one before it,
  then the present, which waits for every overlay submitted, or for the application's own
  semaphores when there is none. So nothing the application rendered is presented early, its
  semaphores are waited for once, and no submit is left out of the chain whatever fails.
\<close>

theorem drawn_frame_is_chained:
  assumes "QueuePresentKHR e key queue client (Some p) w = (res, w')"
    and "l_devices (w_layer w) key = Some d" "has d ''QueuePresentKHR''"
  shows "\<exists>ups ps. list_all (uploads (w_layer w)) ups \<and> subseq ps (map named (pr_chains p)) \<and>
    vk_log (w_vk w') = vk_log (w_vk w) @ ups @ chained queue (pr_waits p) (map (image_at w) ps) @
      [Present queue (if ps = [] then pr_waits p else map (m_done \<circ> image_at w) ps)]"
  using assms
proof (cases rule: QueuePresent_run)
  case plain
  then show ?thesis using present_log by (intro exI [of _ "[]"]) auto
next
  case (undrawn bad recorded w1)
  obtain ups where "vk_log (w_vk w1) = vk_log (w_vk w) @ ups" "list_all (uploads (w_layer w)) ups"
    using logged_record_all [OF undrawn(1)] logged_split by blast
  then show ?thesis using present_log [OF undrawn(3)] by (intro exI [of _ ups] exI [of _ "[]"]) simp
next
  case (overlay recorded w1 fwd sems w2)
  obtain ups where u: "vk_log (w_vk w1) = vk_log (w_vk w) @ ups" "list_all (uploads (w_layer w)) ups"
    using logged_record_all [OF overlay(1)] logged_split by blast
  have i: "subseq recorded (map named (pr_chains p))" "image_at w1 = image_at w" using record_all_images [OF overlay(1)] by auto
  obtain n where n: "n \<le> length recorded" "sems = map (\<lambda>p. m_done (image_at w p)) (take n recorded)" "fwd \<longleftrightarrow> sems = [] \<and> recorded \<noteq> []"
    "vk_log (w_vk w2) = vk_log (w_vk w1) @ chained queue (pr_waits p) (map (image_at w) (take n recorded))"
    using submit_all_log [OF overlay(3)] unfolding i(2) append_Nil by blast
  have "subseq (take n recorded) (map named (pr_chains p))"
    using i(1) prefix_imp_subseq [OF take_is_prefix] subseq_order.trans by blast
  moreover have "(if fwd then pr_waits p else sems) = (if take n recorded = [] then pr_waits p else map (m_done \<circ> image_at w) (take n recorded))"
    using n(2,3) overlay(2) by auto
  ultimately show ?thesis using present_log [OF overlay(4)] n(4) u
    by (intro exI [of _ ups] exI [of _ "take n recorded"]) simp
qed

section \<open>Two windows at once\<close>

lemma submit_all_signals:
  "submit_all key queue waits ps sems w = (fwd, sems @ new, w') \<Longrightarrow>
     set (vk_signaled (w_vk w')) \<subseteq> set (vk_signaled (w_vk w)) \<union> set new \<and>
     (new \<noteq> [] \<longrightarrow> (\<forall>x \<in> set waits. x \<notin> set new \<longrightarrow> x \<notin> set (vk_signaled (w_vk w'))))"
proof (induction ps arbitrary: waits sems w new)
  case Nil
  then show ?case by simp
next
  case (Cons p ps)
  let ?m = "image_at w p" and ?w = "set_in_flight False p w"
  obtain reset v1 where 1: "reset_fence (m_fence ?m) (w_vk w) = (reset, v1)" by fastforce
  obtain sub v2 where 2: "submit queue waits (m_cmd ?m) [m_done ?m] (m_fence ?m) v1 = (sub, v2)" by fastforce
  have s1: "vk_signaled v1 = vk_signaled (w_vk w)"
    using 1 by (auto simp: reset_fence_def legal_def split: prod.splits if_splits dest!: ask_keeps)
  have s2: "vk_signaled v2 = (if sub then m_done ?m # filter (\<lambda>x. x \<notin> set waits) (vk_signaled v1) else vk_signaled v1)"
    using 2 by (auto simp: submit_def consume_def legal_def Let_def split: prod.splits if_splits dest!: ask_keeps)
  show ?case
  proof (cases "reset \<and> sub")
    case True
    let ?w3 = "set_in_flight True p (?w\<lparr>w_vk := v2\<rparr>)"
    have r: "submit_all key queue [m_done ?m] ps (sems @ [m_done ?m]) ?w3 = (fwd, sems @ new, w')"
      using Cons.prems 1 2 True by (simp add: Let_def)
    obtain n where n: "sems @ new = (sems @ [m_done ?m]) @ n" using submit_all_log [OF r] by blast
    then have new: "new = m_done ?m # n" by simp
    from Cons.IH [OF r [unfolded n]] show ?thesis using s1 s2 True new by auto
  next
    case False
    then have "new = []" "w_vk w' = v1 \<or> w_vk w' = v2 \<and> \<not> sub" using Cons.prems 1 2 by (auto simp: Let_def split: if_splits)
    then show ?thesis using s1 s2 by auto
  qed
qed

text \<open>
  Two windows in one present break the chain. When two or more overlays are submitted for one
  present, the second submit has already waited for the first one's semaphore, and the present
  waits for it again: no signal is left for that wait, which makes the call an illegal one. (A
  binary semaphore can be waited for once per signal; only the last semaphore should be passed.)
\<close>

theorem two_windows_wait_twice:
  assumes "submit_all key queue waits ps [] w = (False, sems, w1)" and "2 \<le> length sems" and "distinct sems"
    and "real_present queue sems w1 = (r, w2)"
  shows "\<not> vk_ok (w_vk w2)"
proof -
  obtain x y ys where s: "sems = x # y # ys" using assms(2) by (metis Suc_le_length_iff numeral_2_eq_2)
  obtain p qs where ps: "ps = p # qs" using assms(1) s by (cases ps) auto
  let ?m = "image_at w p" and ?w = "set_in_flight False p w"
  obtain reset v1 where 1: "reset_fence (m_fence ?m) (w_vk w) = (reset, v1)" by fastforce
  obtain sub v2 where 2: "submit queue waits (m_cmd ?m) [m_done ?m] (m_fence ?m) v1 = (sub, v2)" by fastforce
  have ok: "reset \<and> sub" using assms(1) ps 1 2 by (auto simp: Let_def split: if_splits)
  then have r: "submit_all key queue [m_done ?m] qs [m_done ?m] (set_in_flight True p (?w\<lparr>w_vk := v2\<rparr>)) = (False, sems, w1)"
    using assms(1) ps 1 2 by (simp add: Let_def)
  moreover have "x = m_done ?m" using submit_all_log [OF r] s by auto
  ultimately have "submit_all key queue [x] qs [x] (set_in_flight True p (?w\<lparr>w_vk := v2\<rparr>)) = (False, [x] @ y # ys, w1)" using s by simp
  from submit_all_signals [OF this] have "x \<notin> set (vk_signaled (w_vk w1))" using assms(3) s by auto
  then have "\<not> all_signaled sems (w_vk w1)" using s by (simp add: all_signaled_def)
  then show ?thesis using assms(4)
    by (auto simp: real_present_def present_def consume_def legal_def split: prod.splits dest!: ask_keeps)
qed

section \<open>Creating a swapchain\<close>

lemma driver_swapchain_run:
  "driver_swapchain u v = (r, v') \<Longrightarrow> vk_log v' = vk_log v @ [Create_swapchain u] \<and> (r = None \<longleftrightarrow> \<not> fst (ask v)) \<and>
     vk_answers v' = vk_answers (snd (ask v)) \<and> live v' = live v"
  by (auto simp: driver_swapchain_def ask_def live_def split: prod.splits if_splits list.splits)

lemma ask_answers: "vk_answers v = vk_answers u \<Longrightarrow> fst (ask v) = fst (ask u)"
  by (simp add: ask_def split: list.splits)

lemma built_ok_needs: "build_state e dd images s v = (ok, s', v') \<Longrightarrow> \<not> s_ok s \<Longrightarrow> s_ok s' = ok"
  by (auto simp: build_state_def Let_def destroy_state_def split: prod.splits if_splits option.splits)

text \<open>
  Creation follows the request. The driver is asked for the application's swapchain with the
  color-attachment usage added, and, if it refuses that and the application had not asked for this
  usage itself, once more for exactly what the application asked. Creation fails only if the last
  of these fails, and then nothing changes hands; an overlay is built only where the usage was granted.
\<close>

theorem creation_follows_the_request:
  assumes "CreateSwapchainKHR e key rq w = (made, w')"
    and "l_devices (w_layer w) key = Some d" "has d ''CreateSwapchainKHR''"
    and "asked = overlay_swapchain_usage (rq_usage rq)"
  shows "vk_log (w_vk w') = vk_log (w_vk w) @ Create_swapchain asked #
      (if fst (ask (w_vk w)) \<or> asked = rq_usage rq then [] else [Create_swapchain (rq_usage rq)]) \<and>
    (case made of
       None \<Rightarrow> \<not> fst (ask (w_vk w)) \<and> (asked = rq_usage rq \<or> \<not> fst (ask (snd (ask (w_vk w))))) \<and>
         w_chains w' = w_chains w \<and> live (w_vk w') = live (w_vk w)
     | Some h \<Rightarrow> dd_overlay_disabled d \<or> (\<exists>s. chain_at w' h = Some s \<and> (s_ok s \<longrightarrow> fst (ask (w_vk w)))))"
proof -
  obtain r1 v1 where 1: "driver_swapchain asked (w_vk w) = (r1, v1)" by fastforce
  obtain r2 v2 where 2: "driver_swapchain (rq_usage rq) v1 = (r2, v2)" by fastforce
  define same where "same \<longleftrightarrow> asked = rq_usage rq"
  define again where "again \<longleftrightarrow> r1 = None \<and> \<not> same"
  define r where "r = (if again then r2 else r1)"
  define v where "v = (if again then v2 else v1)"
  define ok where "ok \<longleftrightarrow> r1 \<noteq> None \<and> asked AND COLOR_ATTACHMENT_BIT \<noteq> 0 \<and> \<not> again"
  define w1 where "w1 = (if rq_old rq \<noteq> 0 then retire e (rq_old rq) (w\<lparr>w_vk := v\<rparr>) else w\<lparr>w_vk := v\<rparr>)"
  define sv where "sv h = (if ok then snd (build_state e d (se_images e h)
      (new_swapchain key (rq_format rq) (rq_space rq) (rq_extent rq)) (w_vk w1))
    else (new_swapchain key (rq_format rq) (rq_space rq) (rq_extent rq), w_vk w1))" for h
  have "CreateSwapchainKHR e key rq w = (case r of None \<Rightarrow> (None, w\<lparr>w_vk := v\<rparr>)
      | Some h \<Rightarrow> if dd_overlay_disabled d then (Some h, w1)
          else (Some h, w1\<lparr>w_chains := put_chain h (fst (sv h)) (w_chains w1), w_vk := snd (sv h)\<rparr>))"
    unfolding CreateSwapchainKHR_def Let_def assms(2) option.case assms(4) [symmetric] 1 prod.case 2 same_def [symmetric]
    by (cases r1; cases r2; cases same; cases "rq_old rq = 0"; cases "dd_overlay_disabled d")
      (simp_all add: assms(3) split_beta r_def v_def ok_def w1_def sv_def again_def)
  note run = assms(1) [symmetric, unfolded this]
  note D = driver_swapchain_run [OF 1] driver_swapchain_run [OF 2]
  have a2: "fst (ask v1) = fst (ask (snd (ask (w_vk w))))" using D ask_answers by blast
  have lv: "vk_log v = vk_log (w_vk w) @ Create_swapchain asked #
      (if fst (ask (w_vk w)) \<or> asked = rq_usage rq then [] else [Create_swapchain (rq_usage rq)])"
    using D by (simp add: v_def again_def same_def)
  have l1: "vk_log (w_vk w1) = vk_log v" by (simp add: w1_def)
  have s0: "\<not> s_ok (new_swapchain key (rq_format rq) (rq_space rq) (rq_extent rq))" by (simp add: new_swapchain_def)
  have sv: "vk_log (snd (sv h)) = vk_log v \<and> (s_ok (fst (sv h)) \<longrightarrow> ok)" for h
  proof -
    obtain b s u where b: "build_state e d (se_images e h) (new_swapchain key (rq_format rq) (rq_space rq) (rq_extent rq)) (w_vk w1) = (b, s, u)"
      by (metis prod.exhaust)
    show ?thesis using log_build_state [OF b] l1 b s0 by (simp add: sv_def)
  qed
  have okd: "ok \<Longrightarrow> fst (ask (w_vk w))" using D by (simp add: ok_def)
  show ?thesis
  proof (cases r)
    case None
    then show ?thesis
      using run lv D a2 by (auto simp: r_def v_def again_def same_def split: if_splits)
  next
    case (Some h)
    then show ?thesis
      using run lv l1 sv [of h] okd by (auto simp: chain_at_def put_chain_get split: if_splits)
  qed
qed

section \<open>A short game\<close>

text \<open>
  A game with one device, whose driver grants everything, a semaphore of its own that its rendering
  has signaled, and one swapchain of two images; a user in voice with something to draw.
\<close>

definition game_env :: sc_env where
  "game_env = \<lparr>se_env = Map.empty, se_parse = (\<lambda>_. 0), se_mem = one_memory, se_files = (\<lambda>_. Some pixel_file),
     se_gdpa = (\<lambda>_. True), se_images = (\<lambda>_. [101, 102])\<rparr>"

definition game_start :: sc_world where
  "game_start = \<lparr>w_layer = empty_layer\<lparr>l_devices := [1 \<mapsto> full_device]\<rparr>, w_chains = [],
     w_vk = empty_vk\<lparr>vk_next := 1, vk_live := [(K_semaphore, 1)], vk_signaled := [1]\<rparr>\<rparr>"

definition game_swapchain :: swapchain_request where
  "game_swapchain = \<lparr>rq_usage = 1, rq_format = Other_format 44, rq_space = SRGB_NONLINEAR, rq_extent = (640, 480), rq_old = 0\<rparr>"

definition voice_client :: client_state where
  "voice_client = new_client_state\<lparr>latest := Some (new_snapshot\<lparr>s_in_voice := True\<rparr>)\<rparr>"

definition game_frame :: frame_input where
  "game_frame = \<lparr>f_vertices = Some 6, f_icons = [], f_record_throws = False\<rparr>"

definition game_created :: "nat option \<times> sc_world" where
  "game_created = CreateSwapchainKHR game_env 1 game_swapchain game_start"

definition game_present :: present_request where
  "game_present = \<lparr>pr_waits = [1], pr_chains = [(2, 0, game_frame)]\<rparr>"

definition game_drawn :: "bool option \<times> sc_world" where
  "game_drawn = QueuePresentKHR game_env 1 7 voice_client (Some game_present) (snd game_created)"

lemma game_created_value:
  "fst game_created = Some 2 \<and> vk_log (w_vk (snd game_created)) = [Create_swapchain 17] \<and>
   map (\<lambda>(h, s). (h, s_ok s, length (s_images s))) (w_chains (snd game_created)) = [(2, True, 2)] \<and>
   vk_next (w_vk (snd game_created)) = 14 \<and> vk_signaled (w_vk (snd game_created)) = [1] \<and>
   dd_overlay_disabled (device_of (w_layer (snd game_created)) 1) = False"
  by code_simp

lemma game_drawn_value:
  "fst game_drawn = Some True \<and> map fst (w_chains (snd game_drawn)) = [2] \<and>
   vk_log (w_vk (snd game_drawn)) = [Create_swapchain 17, Submit 7 [1] 5 [10] 9, Present 7 [10]]"
  by code_simp

lemma game_device: "l_devices (w_layer (snd game_created)) 1 = Some full_device \<and> has full_device ''QueuePresentKHR'' \<and>
   has full_device ''CreateSwapchainKHR''"
  by code_simp

lemma game_fresh: "fresh_world {#(K_semaphore, 1)#} game_start"
  by (simp add: fresh_world_def game_start_def accounts_def vk_wf_def empty_vk_def live_def)

lemma game_life:
  "rtranclp (game_step game_env) ({#(K_semaphore, 1)#}, game_start) ({#(K_semaphore, 1)#}, snd game_drawn)"
proof -
  obtain r w where c: "CreateSwapchainKHR game_env 1 game_swapchain game_start = (r, w)" by fastforce
  then have w: "snd game_created = w" by (simp add: game_created_def)
  obtain q w' where d: "QueuePresentKHR game_env 1 7 voice_client (Some game_present) w = (q, w')" by fastforce
  then have w': "snd game_drawn = w'" by (simp add: game_drawn_def w)
  have "game_step game_env ({#(K_semaphore, 1)#}, w) ({#(K_semaphore, 1)#}, w')"
    by (rule presents [OF d])
      (use game_created_value [unfolded w] in \<open>simp_all add: game_present_def all_signaled_def\<close>)
  then show ?thesis unfolding w' using creates [OF c, of "{#(K_semaphore, 1)#}"] by (blast intro: converse_rtranclp_into_rtranclp)
qed

lemma game_resolves: "se_gdpa game_env ''vkDestroyPipeline''"
  by (simp add: game_env_def)


lemma game_chain: "\<exists>s. chain_at (snd game_drawn) 2 = Some s"
proof -
  obtain s where "w_chains (snd game_drawn) = [(2, s)]" using game_drawn_value by auto
  then show ?thesis by (simp add: chain_at_def)
qed


theorem destroy_gives_back_witness:
  "\<exists>s. chain_at (snd game_drawn) 2 = Some s \<and> vk_ok (w_vk (DestroySwapchainKHR game_env 1 2 (snd game_drawn))) \<and>
     chain_at (DestroySwapchainKHR game_env 1 2 (snd game_drawn)) 2 = None"
  using game_chain destroy_gives_back [OF game_fresh game_resolves game_life _ refl] by blast

lemma game_present_run:
  "QueuePresentKHR game_env 1 7 voice_client (Some game_present) (snd game_created) = (Some True, snd game_drawn)"
  using game_drawn_value by (metis game_drawn_def prod.collapse)

theorem overlay_work_stays_on_graphics_queues_witness:
  "(\<exists>k. (7::nat) = dd_graphics_queue (device_of (w_layer (snd game_created)) k) \<and> [1::nat] = [] \<and> [10::nat] = []) \<or>
   ((7::nat) = 7 \<and> (\<exists>d. l_devices (w_layer (snd game_created)) 1 = Some d \<and> dd_has_graphics_queue_family d \<and>
      queue_family_for (Some d) 7 = dd_graphics_queue_family d))"
  by (rule overlay_work_stays_on_graphics_queues [OF game_present_run, of "[Submit 7 [1] 5 [10] 9, Present 7 [10]]" 7 "[1]" 5 "[10]" 9])
    (use game_created_value game_drawn_value in simp_all)

theorem idle_overlay_is_invisible_witness:
  "\<exists>res w'. QueuePresentKHR game_env 1 7 new_client_state (Some game_present) (snd game_created) = (res, w') \<and>
     res = Some (fst (present 7 [1] (w_vk (snd game_created)))) \<and> w_vk w' = snd (present 7 [1] (w_vk (snd game_created)))"
proof -
  obtain res w' where r: "QueuePresentKHR game_env 1 7 new_client_state (Some game_present) (snd game_created) = (res, w')" by fastforce
  have "\<not> in_voice new_client_state" by (simp add: in_voice_def new_client_state_def)
  then show ?thesis using idle_overlay_is_invisible [OF _ r] game_device r by (simp add: game_present_def)
qed

theorem drawn_frame_is_chained_witness:
  "\<exists>ups ps. list_all (uploads (w_layer (snd game_created))) ups \<and> subseq ps (map named (pr_chains game_present)) \<and>
    vk_log (w_vk (snd game_drawn)) = vk_log (w_vk (snd game_created)) @ ups @
      chained 7 (pr_waits game_present) (map (image_at (snd game_created)) ps) @
      [Present 7 (if ps = [] then pr_waits game_present else map (m_done \<circ> image_at (snd game_created)) ps)]"
  by (rule drawn_frame_is_chained [OF game_present_run]) (use game_device in blast)+

theorem creation_follows_the_request_witness:
  "vk_log (w_vk (snd game_created)) = [Create_swapchain 17] \<and>
   (\<exists>s. chain_at (snd game_created) 2 = Some s \<and> (s_ok s \<longrightarrow> fst (ask (w_vk game_start))))"
proof -
  have r: "CreateSwapchainKHR game_env 1 game_swapchain game_start = (Some 2, snd game_created)"
    using game_created_value by (metis game_created_def prod.collapse)
  have d: "l_devices (w_layer game_start) 1 = Some full_device" by (simp add: game_start_def)
  have n: "\<not> dd_overlay_disabled full_device" by (simp add: full_device_def new_device_data_def)
  from creation_follows_the_request [OF r d _ refl] game_device n game_created_value
  show ?thesis by simp
qed

text \<open>Two swapchains with one drawn image each.\<close>

definition window :: "nat \<Rightarrow> swapchain_state" where
  "window n = (new_swapchain 1 (Other_format 44) SRGB_NONLINEAR (640, 480))\<lparr>s_images :=
     [null_image\<lparr>m_cmd := n + 1, m_fence := n + 2, m_done := n + 3\<rparr>], s_ok := True\<rparr>"

definition two_windows :: sc_world where
  "two_windows = \<lparr>w_layer = empty_layer, w_chains = [(1, window 10), (2, window 20)], w_vk = empty_vk\<lparr>vk_next := 30, vk_signaled := [1]\<rparr>\<rparr>"

theorem two_windows_wait_twice_witness:
  "case submit_all 1 7 [1] [(1, 0), (2, 0)] [] two_windows of (fwd, sems, w1) \<Rightarrow>
     \<not> fwd \<and> sems = [13, 23] \<and> vk_ok (w_vk w1) \<and> \<not> vk_ok (w_vk (snd (real_present 7 sems w1)))"
proof -
  obtain fwd sems w1 where 1: "submit_all 1 7 [1] [(1, 0), (2, 0)] [] two_windows = (fwd, sems, w1)" by (metis prod.exhaust)
  have v: "case submit_all 1 7 [1] [(1, 0), (2, 0)] [] two_windows of (fwd, sems, w1) \<Rightarrow> \<not> fwd \<and> sems = [13, 23] \<and> vk_ok (w_vk w1)"
    by code_simp
  obtain r w2 where 2: "real_present 7 sems w1 = (r, w2)" by fastforce
  have f: "fwd = False" "sems = [13, 23]" using v 1 by simp_all
  from two_windows_wait_twice [OF 1 [unfolded f(1)] _ _ 2] f(2) v 1 2 show ?thesis by simp
qed

end
