(* ===== verification/OpenGl.thy ===== *)
theory OpenGl
  imports Prelude
begin

text \<open>
  OpenGL as the interposer uses it: the context current on the thread, the pixel-unpack state and
  texture binding of each context (which belong to the game), the textures and ImGui objects the
  overlay creates, and what each texture holds. \<open>gl_ok\<close> records whether every call so far was safe:
  made with a context current, and on an object of that context.
\<close>

record pixel_state =
  u_binding :: nat
  u_pbo :: nat
  u_align :: int
  u_row :: int
  u_skip_rows :: int
  u_skip_pixels :: int
  u_viewport :: "int \<times> int"

record gl =
  gl_current :: nat
  gl_next :: nat
  gl_state :: "nat \<Rightarrow> pixel_state"
  gl_textures :: "(nat \<times> nat) list"
  gl_images :: "nat \<times> nat \<Rightarrow> (nat \<times> nat \<times> bytes) option"
  gl_backends :: "(nat \<times> nat) list"
  gl_imgui :: "nat list"
  gl_answers :: "bool list"
  gl_ok :: bool

text \<open>
  \<open>gl_textures\<close> and \<open>gl_backends\<close> pair a context with the name made in it. What the fallible
  library calls answer is read from \<open>gl_answers\<close>, success once it is exhausted.
\<close>

definition gl_ask :: "gl \<Rightarrow> bool \<times> gl" where
  "gl_ask g = (case gl_answers g of [] \<Rightarrow> (True, g) | b # bs \<Rightarrow> (b, g\<lparr>gl_answers := bs\<rparr>))"

definition need :: "bool \<Rightarrow> gl \<Rightarrow> gl" where
  "need b g = g\<lparr>gl_ok := gl_ok g \<and> gl_current g \<noteq> 0 \<and> b\<rparr>"

definition pixels :: "gl \<Rightarrow> pixel_state" where
  "pixels g = gl_state g (gl_current g)"

definition set_pixels :: "pixel_state \<Rightarrow> gl \<Rightarrow> gl" where
  "set_pixels s g = need True g\<lparr>gl_state := (gl_state g)(gl_current g := s)\<rparr>"

definition gen_texture :: "gl \<Rightarrow> nat \<times> gl" where
  "gen_texture g = (case gl_ask (need True g) of (ok, g1) \<Rightarrow>
     if ok then (Suc (gl_next g1), g1\<lparr>gl_next := Suc (gl_next g1),
                   gl_textures := (gl_current g1, Suc (gl_next g1)) # gl_textures g1\<rparr>)
     else (0, g1))"

definition bind_texture :: "nat \<Rightarrow> gl \<Rightarrow> gl" where
  "bind_texture t g = set_pixels (pixels g\<lparr>u_binding := t\<rparr>) g"

definition unpack_alignment :: "int \<Rightarrow> gl \<Rightarrow> gl" where
  "unpack_alignment a g = set_pixels (pixels g\<lparr>u_align := a\<rparr>) g"

text \<open>
  An upload reads the client's bytes row by row only if no unpack buffer is bound and no row
  length, skip or row alignment gets in the way; anything else fills the texture with other data,
  given here as \<^term>\<open>None\<close>. Rows of RGBA8 pixels are aligned to 4 bytes by themselves.
\<close>

definition plain_unpack :: "pixel_state \<Rightarrow> bool" where
  "plain_unpack s \<longleftrightarrow> u_pbo s = 0 \<and> u_row s = 0 \<and> u_skip_rows s = 0 \<and> u_skip_pixels s = 0 \<and> u_align s \<in> {1, 2, 4}"

definition tex_image :: "nat \<Rightarrow> nat \<Rightarrow> bytes \<Rightarrow> gl \<Rightarrow> gl" where
  "tex_image w h rgba g =
     (let t = u_binding (pixels g) in
      need (t \<noteq> 0 \<and> w * h * 4 \<le> length rgba)
        (g\<lparr>gl_images := (gl_images g)((gl_current g, t) :=
             if plain_unpack (pixels g) then Some (w, h, take (w * h * 4) rgba) else None)\<rparr>))"

definition delete_texture :: "nat \<Rightarrow> gl \<Rightarrow> gl" where
  "delete_texture t g =
     need ((gl_current g, t) \<in> set (gl_textures g)) (g\<lparr>gl_textures := remove1 (gl_current g, t) (gl_textures g)\<rparr>)"

text \<open>The ImGui context and its OpenGL backend.\<close>

definition imgui_create :: "gl \<Rightarrow> nat \<times> gl" where
  "imgui_create g = (case gl_ask g of (ok, g1) \<Rightarrow>
     if ok then (Suc (gl_next g1), g1\<lparr>gl_next := Suc (gl_next g1), gl_imgui := Suc (gl_next g1) # gl_imgui g1\<rparr>)
     else (0, g1))"

definition imgui_destroy :: "nat \<Rightarrow> gl \<Rightarrow> gl" where
  "imgui_destroy c g = g\<lparr>gl_imgui := remove1 c (gl_imgui g), gl_ok := gl_ok g \<and> c \<in> set (gl_imgui g)\<rparr>"

definition imgui_backend_init :: "nat \<Rightarrow> gl \<Rightarrow> bool \<times> gl" where
  "imgui_backend_init c g = (case gl_ask (need True g) of (ok, g1) \<Rightarrow>
     (ok, if ok then g1\<lparr>gl_backends := (gl_current g1, c) # gl_backends g1\<rparr> else g1))"

definition imgui_backend_shutdown :: "nat \<Rightarrow> gl \<Rightarrow> gl" where
  "imgui_backend_shutdown c g =
     need ((gl_current g, c) \<in> set (gl_backends g)) (g\<lparr>gl_backends := remove1 (gl_current g, c) (gl_backends g)\<rparr>)"

text \<open>The driver frees what a context holds when the context goes.\<close>

definition driver_destroys :: "nat \<Rightarrow> gl \<Rightarrow> gl" where
  "driver_destroys c g = g\<lparr>gl_textures := filter (\<lambda>(c', _). c' \<noteq> c) (gl_textures g),
     gl_backends := filter (\<lambda>(c', _). c' \<noteq> c) (gl_backends g),
     gl_current := if gl_current g = c then 0 else gl_current g\<rparr>"

section \<open>What the calls keep\<close>

named_theorems gl_calls

lemma need_fields [simp]:
  "gl_current (need b g) = gl_current g" "gl_next (need b g) = gl_next g" "gl_state (need b g) = gl_state g"
  "gl_textures (need b g) = gl_textures g" "gl_images (need b g) = gl_images g" "gl_backends (need b g) = gl_backends g"
  "gl_imgui (need b g) = gl_imgui g" "gl_answers (need b g) = gl_answers g"
  "gl_ok (need b g) \<longleftrightarrow> gl_ok g \<and> gl_current g \<noteq> 0 \<and> b" "pixels (need b g) = pixels g"
  by (simp_all add: need_def pixels_def)

lemma set_pixels_fields [simp]:
  "gl_current (set_pixels s g) = gl_current g" "gl_next (set_pixels s g) = gl_next g"
  "gl_state (set_pixels s g) = (gl_state g)(gl_current g := s)"
  "gl_textures (set_pixels s g) = gl_textures g" "gl_images (set_pixels s g) = gl_images g"
  "gl_backends (set_pixels s g) = gl_backends g" "gl_imgui (set_pixels s g) = gl_imgui g"
  "gl_ok (set_pixels s g) \<longleftrightarrow> gl_ok g \<and> gl_current g \<noteq> 0" "pixels (set_pixels s g) = s"
  by (simp_all add: set_pixels_def pixels_def)

lemma gl_ask_fields:
  "gl_ask g = (b, g1) \<Longrightarrow> gl_current g1 = gl_current g \<and> gl_next g1 = gl_next g \<and> gl_state g1 = gl_state g \<and>
     gl_textures g1 = gl_textures g \<and> gl_images g1 = gl_images g \<and> gl_backends g1 = gl_backends g \<and>
     gl_imgui g1 = gl_imgui g \<and> gl_ok g1 = gl_ok g"
  by (auto simp: gl_ask_def split: list.splits)

lemma gen_texture_fields:
  assumes "gen_texture g = (t, g1)"
  shows "gl_current g1 = gl_current g" "gl_state g1 = gl_state g" "gl_images g1 = gl_images g"
    "gl_backends g1 = gl_backends g" "gl_imgui g1 = gl_imgui g" "gl_ok g1 \<longleftrightarrow> gl_ok g \<and> gl_current g \<noteq> 0"
    "gl_textures g1 = (if t = 0 then gl_textures g else (gl_current g, t) # gl_textures g)"
    "gl_next g1 = (if t = 0 then gl_next g else t)" "t \<noteq> 0 \<Longrightarrow> t = Suc (gl_next g)"
  using assms by (auto simp: gen_texture_def split: prod.splits if_splits dest!: gl_ask_fields)

end
