(* ===== verification/GlOverlay.thy ===== *)
theory GlOverlay
  imports OpenGl TextureCache AvatarFile
begin

text \<open>
  The overlay of one OpenGL context: its texture cache (\<^verbatim>\<open>src/gl/gl_avatar_textures.cpp\<close>) and its
  ImGui renderer (\<^verbatim>\<open>src/gl/gl_renderer.cpp\<close>). Both run inside the game's swap call, so what
  they change of the game's state they put back. Which entry points resolve is the parameter
  \<open>procs\<close>; sampling parameters of a texture are not modelled.
\<close>

section \<open>Textures\<close>

type_synonym gl_cache = "(string \<times> nat) list"

definition texture_procs :: "string list" where
  "texture_procs = [''glGenTextures'', ''glBindTexture'', ''glTexParameteri'', ''glTexImage2D'', ''glDeleteTextures'',
     ''glPixelStorei'', ''glGetIntegerv'']"

definition gl_lookup :: "string \<Rightarrow> gl_cache \<Rightarrow> nat" where
  "gl_lookup hash c = (case map_of c hash of None \<Rightarrow> 0 | Some t \<Rightarrow> t)"

definition gl_get_or_load ::
    "(string \<Rightarrow> bool) \<Rightarrow> (string \<Rightarrow> bytes option) \<Rightarrow> avatar_req \<Rightarrow> gl_cache \<Rightarrow> gl \<Rightarrow> nat \<times> gl_cache \<times> gl" where
  "gl_get_or_load procs files req c g =
     (case map_of c (q_hash req) of
        Some t \<Rightarrow> (t, c, g)
      | None \<Rightarrow>
          if \<not> list_all procs texture_procs then (0, c, g)
          else case read_avatar_rgba (files (q_path req)) of
            None \<Rightarrow> (0, c, g)
          | Some (w, h, rgba) \<Rightarrow>
              if w = 0 \<or> h = 0 \<or> length rgba < unat w * unat h * 4 then (0, c, g)
              else
                let (tex, g) = gen_texture g in
                if tex = 0 then (0, c, g)
                else
                  let prev_tex = u_binding (pixels g);
                      prev_align = u_align (pixels g);
                      g = bind_texture tex g;
                      g = unpack_alignment 1 g;
                      g = tex_image (unat w) (unat h) rgba g;
                      g = bind_texture prev_tex g;
                      g = unpack_alignment prev_align g
                  in (tex, (q_hash req, tex) # c, g))"

definition gl_textures_shutdown :: "(string \<Rightarrow> bool) \<Rightarrow> gl_cache \<Rightarrow> gl \<Rightarrow> gl_cache \<times> gl" where
  "gl_textures_shutdown procs c g =
     (if c = [] then (c, g)
      else ([], if list_all procs texture_procs then fold (\<lambda>(_, t). delete_texture t) c g else g))"

section \<open>The renderer\<close>

record gl_renderer =
  gr_init_done :: bool
  gr_ctx :: nat

definition new_gl_renderer :: gl_renderer where
  "new_gl_renderer = \<lparr>gr_init_done = False, gr_ctx = 0\<rparr>"

definition gr_init :: "gl_renderer \<Rightarrow> gl \<Rightarrow> bool \<times> gl_renderer \<times> gl" where
  "gr_init r g =
     (if gr_init_done r then (True, r, g)
      else
        let (ctx, g) = imgui_create g; r = r\<lparr>gr_ctx := ctx\<rparr> in
        if ctx = 0 then (False, r, g)
        else
          let (ok, g) = imgui_backend_init ctx g in
          if \<not> ok then (False, r\<lparr>gr_ctx := 0\<rparr>, imgui_destroy ctx g)
          else (True, r\<lparr>gr_init_done := True\<rparr>, g))"

definition unpack_procs :: "string list" where
  "unpack_procs = [''glGetIntegerv'', ''glPixelStorei'', ''glBindBuffer'']"

text \<open>\<open>ScopedCleanUnpack\<close>: what its constructor saves, and what its destructor restores.\<close>

definition clean_unpack :: "(string \<Rightarrow> bool) \<Rightarrow> gl \<Rightarrow> pixel_state option \<times> gl" where
  "clean_unpack procs g =
     (if \<not> list_all procs unpack_procs then (None, g)
      else
        let saved = pixels g;
            g = (if u_pbo saved \<noteq> 0 then set_pixels (pixels g\<lparr>u_pbo := 0\<rparr>) g else g);
            g = unpack_alignment 4 g;
            g = set_pixels (pixels g\<lparr>u_row := 0\<rparr>) g;
            g = set_pixels (pixels g\<lparr>u_skip_rows := 0\<rparr>) g;
            g = set_pixels (pixels g\<lparr>u_skip_pixels := 0\<rparr>) g
        in (Some saved, g))"

definition restore_unpack :: "pixel_state option \<Rightarrow> gl \<Rightarrow> gl" where
  "restore_unpack saved g =
     (case saved of
        None \<Rightarrow> g
      | Some s \<Rightarrow>
          let g = (if u_pbo s \<noteq> 0 then set_pixels (pixels g\<lparr>u_pbo := u_pbo s\<rparr>) g else g);
              g = unpack_alignment (u_align s) g;
              g = set_pixels (pixels g\<lparr>u_row := u_row s\<rparr>) g;
              g = set_pixels (pixels g\<lparr>u_skip_rows := u_skip_rows s\<rparr>) g
          in set_pixels (pixels g\<lparr>u_skip_pixels := u_skip_pixels s\<rparr>) g)"

text \<open>
  The library's own drawing, and which icons the overlay asks for, in order
  (\<open>draw_overlay\<close> touches OpenGL only through the texture cache). A frame starts with the display
  size, clamped like the Vulkan renderer's.
\<close>

definition gl_sane :: "u32 \<Rightarrow> nat" where
  "gl_sane v = (if v = 0 then 1 else if v > 16384 then 16384 else unat v)"

record ui_lib =
  ui_new_frame :: "nat \<times> nat \<Rightarrow> gl \<Rightarrow> gl"
  ui_render :: "gl \<Rightarrow> gl"
  ui_icons :: "snapshot \<Rightarrow> u32 \<times> u32 \<Rightarrow> int \<Rightarrow> string list"

definition gr_draw ::
    "ui_lib \<Rightarrow> (string \<Rightarrow> bool) \<Rightarrow> (string \<Rightarrow> bytes option) \<Rightarrow> client_state \<Rightarrow> snapshot option \<Rightarrow>
       u32 \<times> u32 \<Rightarrow> int \<Rightarrow> gl_renderer \<Rightarrow> gl_cache \<Rightarrow> gl \<Rightarrow> gl_cache \<times> gl" where
  "gr_draw ui procs files client snap extent now r c g =
     (if \<not> gr_init_done r then (c, g)
      else
        let (saved, g) = clean_unpack procs g;
            g = ui_new_frame ui (gl_sane (fst extent), gl_sane (snd extent)) g;
            (c, g) = (case snap of
                        None \<Rightarrow> (c, g)
                      | Some s \<Rightarrow> snd (resolve_all gl_lookup (gl_get_or_load procs files) client (ui_icons ui s extent now) (c, g)));
            g = ui_render ui g
        in (c, restore_unpack saved g))"

definition gr_shutdown :: "gl_renderer \<Rightarrow> gl \<Rightarrow> gl_renderer \<times> gl" where
  "gr_shutdown r g =
     (if \<not> gr_init_done r \<and> gr_ctx r = 0 then (r, g)
      else
        let g = (if gr_init_done r then imgui_backend_shutdown (gr_ctx r) g else g);
            r = r\<lparr>gr_init_done := False\<rparr>;
            g = (if gr_ctx r \<noteq> 0 then imgui_destroy (gr_ctx r) g else g)
        in (r\<lparr>gr_ctx := 0\<rparr>, g))"

section \<open>Loading a texture\<close>

definition objects :: "gl \<Rightarrow> nat \<times> (nat \<times> nat) list \<times> nat list" where
  "objects g = (gl_current g, gl_backends g, gl_imgui g)"

text \<open>What one load does to the game's state and to the overlay's objects.\<close>

lemma gl_load_cases:
  assumes "gl_get_or_load procs files req c g = (i, c', g')"
  obtains (same) "c' = c" "objects g' = objects g" "gl_state g' = gl_state g" "gl_textures g' = gl_textures g" "gl_images g' = gl_images g"
      "gl_ok g' \<longleftrightarrow> gl_ok g \<and> (gl_current g \<noteq> 0 \<or> g' = g)" "gl_next g' = gl_next g"
    | (new) w h rgba where "objects g' = objects g" "i = Suc (gl_next g)" "gl_next g' = i" "c' = (q_hash req, i) # c" "map_of c (q_hash req) = None"
      "read_avatar_rgba (files (q_path req)) = Some (w, h, rgba)"
      "gl_state g' = gl_state g" "gl_textures g' = (gl_current g, i) # gl_textures g"
      "gl_images g' = (gl_images g)((gl_current g, i) :=
         if plain_unpack (pixels g\<lparr>u_align := 1\<rparr>) then Some (unat w, unat h, take (unat w * unat h * 4) rgba) else None)"
      "gl_ok g' \<longleftrightarrow> gl_ok g \<and> gl_current g \<noteq> 0"
proof (cases "map_of c (q_hash req) = None \<and> list_all procs texture_procs \<and>
    (\<exists>w h rgba. read_avatar_rgba (files (q_path req)) = Some (w, h, rgba) \<and> w \<noteq> 0 \<and> h \<noteq> 0 \<and>
       unat w * unat h * 4 \<le> length rgba)")
  case False
  then have "c' = c" "g' = g"
    using assms by (auto simp: gl_get_or_load_def not_less split: option.splits if_splits)
  then show thesis by (intro same) simp_all
next
  case True
  then obtain w h rgba where r: "read_avatar_rgba (files (q_path req)) = Some (w, h, rgba)" "w \<noteq> 0" "h \<noteq> 0"
    "unat w * unat h * 4 \<le> length rgba" by blast
  obtain t g1 where 1: "gen_texture g = (t, g1)" by fastforce
  note f = gen_texture_fields [OF 1]
  have p: "pixels g1 = pixels g" using f(1,2) by (simp add: pixels_def)
  show thesis
  proof (cases "t = 0")
    case t: True
    then have "c' = c" "g' = g1" using assms True r 1 by (auto simp: gl_get_or_load_def)
    then show thesis by (intro same) (use f(1-8) t in \<open>auto simp: objects_def\<close>)
  next
    case t: False
    have e: "i = t" "c' = (q_hash req, t) # c"
      "g' = unpack_alignment (u_align (pixels g)) (bind_texture (u_binding (pixels g))
         (tex_image (unat w) (unat h) rgba (unpack_alignment 1 (bind_texture t g1))))"
      using assms True r 1 t p by (auto simp: gl_get_or_load_def Let_def)
    have "gl_state g' = gl_state g"
      unfolding e(3) using f(1,2) by (simp add: unpack_alignment_def bind_texture_def tex_image_def Let_def pixels_def)
    moreover have "gl_textures g' = (gl_current g, t) # gl_textures g" "gl_next g' = t"
      "gl_ok g' \<longleftrightarrow> gl_ok g \<and> gl_current g \<noteq> 0"
      unfolding e(3) using f t r(4)
      by (simp_all add: unpack_alignment_def bind_texture_def tex_image_def Let_def)
    moreover have "gl_images g' = (gl_images g)((gl_current g, t) :=
         if plain_unpack (pixels g\<lparr>u_align := 1\<rparr>) then Some (unat w, unat h, take (unat w * unat h * 4) rgba) else None)"
      unfolding e(3) using f(1-3) p
      by (simp add: unpack_alignment_def bind_texture_def tex_image_def Let_def plain_unpack_def)
    moreover have "objects g' = objects g"
      unfolding e(3) using f by (simp add: unpack_alignment_def bind_texture_def tex_image_def Let_def objects_def)
    ultimately show thesis by (intro new [of w h rgba]) (use e(1,2) r(1) True f(9) t in simp_all)
  qed
qed

text \<open>The OpenGL cache keeps what the drawing code relies on, like the Vulkan one.\<close>

definition gl_cache_inv :: "gl_cache \<Rightarrow> bool" where
  "gl_cache_inv c \<longleftrightarrow> list_all (\<lambda>(h, t). t \<noteq> 0) c"

lemma gl_lookup_inv: "gl_cache_inv c \<Longrightarrow> map_of c h = Some t \<Longrightarrow> t \<noteq> 0"
  by (fastforce simp: gl_cache_inv_def list_all_iff dest: map_of_SomeD)

lemma gl_load_result:
  assumes "gl_get_or_load procs files req c g = (i, c', g')"
  shows "(i = 0 \<and> c' = c \<and> map_of c (q_hash req) = None) \<or>
     (c' = c \<and> g' = g \<and> map_of c (q_hash req) = Some i) \<or> (i \<noteq> 0 \<and> c' = (q_hash req, i) # c)"
  using assms by (auto simp: gl_get_or_load_def Let_def split: if_splits option.splits prod.splits)

interpretation opengl_cache: texture_cache gl_lookup "gl_get_or_load procs files" gl_cache_inv
proof unfold_locales
  fix c c' :: gl_cache and req and g g' and i h
  assume inv: "gl_cache_inv c"
  show "gl_lookup (q_hash req) c \<noteq> 0 \<Longrightarrow> gl_get_or_load procs files req c g = (gl_lookup (q_hash req) c, c, g)"
    by (auto simp: gl_lookup_def gl_get_or_load_def split: option.splits)
  assume load: "gl_get_or_load procs files req c g = (i, c', g')"
  show "gl_cache_inv c'" using gl_load_result [OF load] inv by (auto simp: gl_cache_inv_def)
  show "gl_lookup (q_hash req) c' = i"
    using gl_load_result [OF load] by (auto simp: gl_lookup_def)
  show "h \<noteq> q_hash req \<Longrightarrow> gl_lookup h c' = gl_lookup h c"
    using gl_load_result [OF load] by (auto simp: gl_lookup_def)
qed

section \<open>Drawing\<close>

text \<open>
  What holds between the icons of a frame: a context \<open>x\<close> has the textures its cache \<open>c\<close> names,
  and they hold the pixels of the files announced for their hashes.
\<close>

definition gl_wf :: "gl \<Rightarrow> bool" where
  "gl_wf g \<longleftrightarrow> (\<forall>x t. (x, t) \<in> set (gl_textures g) \<longrightarrow> t \<le> gl_next g) \<and> distinct (gl_textures g)"

definition owns :: "nat \<Rightarrow> gl_cache \<Rightarrow> gl \<Rightarrow> bool" where
  "owns x c g \<longleftrightarrow> gl_cache_inv c \<and> distinct (map snd c) \<and>
     (\<forall>t. t \<in> snd ` set c \<longleftrightarrow> (x, t) \<in> set (gl_textures g))"

definition exact :: "(string \<Rightarrow> bytes option) \<Rightarrow> client_state \<Rightarrow> nat \<Rightarrow> gl_cache \<Rightarrow> gl \<Rightarrow> bool" where
  "exact files client x c g \<longleftrightarrow>
     (\<forall>h t. (h, t) \<in> set c \<longrightarrow>
        (\<exists>k req w ht rgba. avatar_for client k = Some req \<and> q_hash req = h \<and>
           read_avatar_rgba (files (q_path req)) = Some (w, ht, rgba) \<and>
           gl_images g (x, t) = Some (unat w, unat ht, take (unat w * unat ht * 4) rgba)))"

lemma load_owns:
  assumes "gl_get_or_load procs files req c g = (i, c', g')" and "gl_wf g"
  shows "gl_wf g'" and "owns (gl_current g) c g \<Longrightarrow> owns (gl_current g) c' g'"
    and "x \<noteq> gl_current g \<Longrightarrow> ((x, d) \<in> set (gl_textures g') \<longleftrightarrow> (x, d) \<in> set (gl_textures g))"
proof -
  show "gl_wf g'"
    using assms(1)
  proof (cases rule: gl_load_cases)
    case (new w h rgba)
    then show ?thesis using assms(2) by (fastforce simp: gl_wf_def le_Suc_eq)
  qed (use assms(2) in \<open>simp add: gl_wf_def\<close>)
  show "owns (gl_current g) c g \<Longrightarrow> owns (gl_current g) c' g'"
    using assms(1)
  proof (cases rule: gl_load_cases)
    case (new w h rgba)
    assume o: "owns (gl_current g) c g"
    have "(gl_current g, i) \<notin> set (gl_textures g)" using assms(2) new(2) by (fastforce simp: gl_wf_def)
    then have "i \<notin> snd ` set c" using o by (simp add: owns_def)
    then show ?thesis using o new(2-4,8) by (auto simp: owns_def gl_cache_inv_def)
  qed (simp add: owns_def)
  show "x \<noteq> gl_current g \<Longrightarrow> ((x, d) \<in> set (gl_textures g') \<longleftrightarrow> (x, d) \<in> set (gl_textures g))"
    using assms(1) by (cases rule: gl_load_cases) (simp_all add: owns_def)
qed

lemma load_exact:
  assumes "gl_get_or_load procs files req c g = (i, c', g')" and "avatar_for client k = Some req"
    and "exact files client (gl_current g) c g" and "owns (gl_current g) c g" and "gl_wf g"
    and "plain_unpack (pixels g\<lparr>u_align := 1\<rparr>)"
  shows "exact files client (gl_current g) c' g'"
  using assms(1)
proof (cases rule: gl_load_cases)
  case same
  then show ?thesis using assms(3) by (simp add: exact_def objects_def)
next
  case (new w ht rgba)
  have old: "t \<noteq> i" if "(h, t) \<in> set c" for h t
  proof -
    have "t \<in> snd ` set c" using that by force
    then have "t \<le> gl_next g" using assms(4,5) by (auto simp: owns_def gl_wf_def)
    then show "t \<noteq> i" using new(2) by simp
  qed
  show ?thesis
    unfolding exact_def
  proof (intro allI impI)
    fix h t assume "(h, t) \<in> set c'"
    then consider "h = q_hash req" "t = i" | "(h, t) \<in> set c" "t \<noteq> i" using new(4) old by auto
    then show "\<exists>k req w ht rgba. avatar_for client k = Some req \<and> q_hash req = h \<and>
        read_avatar_rgba (files (q_path req)) = Some (w, ht, rgba) \<and>
        gl_images g' (gl_current g, t) = Some (unat w, unat ht, take (unat w * unat ht * 4) rgba)"
    proof cases
      case 1
      then show ?thesis
        by (intro exI [of _ k] exI [of _ req] exI [of _ w] exI [of _ ht] exI [of _ rgba]) (simp add: assms(2,6) new(6,9))
    next
      case 2
      then show ?thesis using assms(3) new(9) unfolding exact_def by fastforce
    qed
  qed
qed

text \<open>The library's frame calls leave the game's state and the overlay's textures alone.\<close>

definition leaves :: "(gl \<Rightarrow> gl) \<Rightarrow> bool" where
  "leaves f \<longleftrightarrow> (\<forall>g. gl_state (f g) = gl_state g \<and> gl_textures (f g) = gl_textures g \<and> gl_images (f g) = gl_images g \<and>
     objects (f g) = objects g \<and> gl_next (f g) = gl_next g \<and> (gl_ok (f g) \<longleftrightarrow> gl_ok g \<and> gl_current g \<noteq> 0))"

definition ui_leaves :: "ui_lib \<Rightarrow> bool" where
  "ui_leaves ui \<longleftrightarrow> (\<forall>size. leaves (ui_new_frame ui size)) \<and> leaves (ui_render ui)"

lemma leavesD:
  "leaves f \<Longrightarrow> gl_state (f g) = gl_state g \<and> gl_textures (f g) = gl_textures g \<and> gl_images (f g) = gl_images g \<and>
     objects (f g) = objects g \<and> gl_next (f g) = gl_next g \<and> (gl_ok (f g) \<longleftrightarrow> gl_ok g \<and> gl_current g \<noteq> 0)"
  by (simp add: leaves_def)

lemma clean_unpack_fields:
  assumes "clean_unpack procs g = (saved, g1)"
  shows "objects g1 = objects g" "gl_textures g1 = gl_textures g" "gl_images g1 = gl_images g" "gl_next g1 = gl_next g"
    "gl_current g \<noteq> 0 \<Longrightarrow> gl_ok g1 = gl_ok g" "list_all procs unpack_procs \<Longrightarrow> plain_unpack (pixels g1\<lparr>u_align := 1\<rparr>)"
  using assms
  by (auto simp: clean_unpack_def Let_def unpack_alignment_def objects_def plain_unpack_def split: if_splits)

lemma restore_unpack_fields [simp]:
  "objects (restore_unpack s g) = objects g" "gl_textures (restore_unpack s g) = gl_textures g"
  "gl_images (restore_unpack s g) = gl_images g" "gl_next (restore_unpack s g) = gl_next g"
  "gl_current g \<noteq> 0 \<Longrightarrow> gl_ok (restore_unpack s g) = gl_ok g"
  by (auto simp: restore_unpack_def Let_def unpack_alignment_def objects_def split: option.splits)

text \<open>What the scope saved it restores, whatever ran inside it, as long as that left the state alone.\<close>

lemma restore_clean:
  assumes "clean_unpack procs g = (saved, g1)" and "gl_state g2 = gl_state g1" "gl_current g2 = gl_current g1"
  shows "gl_state (restore_unpack saved g2) = gl_state g"
proof (cases "list_all procs unpack_procs")
  case False
  then show ?thesis using assms by (auto simp: clean_unpack_def restore_unpack_def)
next
  case True
  have p: "pixels g2 = pixels g1" using assms(2,3) by (simp add: pixels_def)
  have s: "saved = Some (pixels g)" using assms(1) True by (simp add: clean_unpack_def Let_def)
  have 1: "gl_current g1 = gl_current g" "gl_state g1 = (gl_state g)(gl_current g := pixels g1)"
    using assms(1) True by (auto simp: clean_unpack_def Let_def unpack_alignment_def pixels_def)
  have 2: "pixels g1 = pixels g\<lparr>u_pbo := 0, u_align := 4, u_row := 0, u_skip_rows := 0, u_skip_pixels := 0\<rparr>"
    using assms(1) True
    by (cases "pixels g"; cases "u_pbo (pixels g) = 0") (auto simp: clean_unpack_def Let_def unpack_alignment_def)
  have "gl_state (restore_unpack saved g2) = (gl_state g2)(gl_current g2 := pixels g)"
    unfolding s using p 2
    by (cases "pixels g"; cases "u_pbo (pixels g) = 0") (simp_all add: restore_unpack_def Let_def unpack_alignment_def)
  then have "gl_state (restore_unpack saved g2) = (gl_state g)(gl_current g := pixels g)"
    using assms(2,3) 1 by simp
  then show ?thesis by (simp add: pixels_def)
qed

lemma icons_drawn:
  assumes "resolve_all gl_lookup (gl_get_or_load procs files) client hs (c, g) = (is, c', g')"
  shows "gl_state g' = gl_state g \<and> objects g' = objects g \<and> gl_next g \<le> gl_next g' \<and>
      (gl_current g \<noteq> 0 \<longrightarrow> gl_ok g' = gl_ok g)"
    and "gl_wf g \<Longrightarrow> gl_wf g' \<and> (owns (gl_current g) c g \<longrightarrow> owns (gl_current g) c' g') \<and>
      (x \<noteq> gl_current g \<longrightarrow> ((x, d) \<in> set (gl_textures g') \<longleftrightarrow> (x, d) \<in> set (gl_textures g)))"
    and "gl_wf g \<Longrightarrow> owns (gl_current g) c g \<Longrightarrow> exact files client (gl_current g) c g \<Longrightarrow>
      plain_unpack (pixels g\<lparr>u_align := 1\<rparr>) \<Longrightarrow> exact files client (gl_current g) c' g'"
proof -
  have cur: "objects y = objects z \<Longrightarrow> gl_current y = gl_current z" for y z by (simp add: objects_def)
  have load_cur: "gl_get_or_load procs files req c0 g0 = (i, c1, g1) \<Longrightarrow> gl_current g1 = gl_current g0 \<and> pixels g1 = pixels g0"
    for req c0 g0 i c1 g1 by (auto elim!: gl_load_cases simp: pixels_def objects_def)
  let ?P = "\<lambda>(c :: gl_cache) h. gl_state h = gl_state g \<and> objects h = objects g \<and> gl_next g \<le> gl_next h \<and>
      (gl_current g \<noteq> 0 \<longrightarrow> gl_ok h = gl_ok g)"
  show "gl_state g' = gl_state g \<and> objects g' = objects g \<and> gl_next g \<le> gl_next g' \<and>
      (gl_current g \<noteq> 0 \<longrightarrow> gl_ok g' = gl_ok g)"
    by (rule resolve_all_invariant [where P = ?P, OF _ _ assms]) (auto elim!: gl_load_cases dest: cur)
  let ?O = "\<lambda>c' h. gl_current h = gl_current g \<and> gl_wf h \<and> (owns (gl_current g) c g \<longrightarrow> owns (gl_current g) c' h) \<and>
      (x \<noteq> gl_current g \<longrightarrow> ((x, d) \<in> set (gl_textures h) \<longleftrightarrow> (x, d) \<in> set (gl_textures g)))"
  have own: "?O c1 g1" if "avatar_for client k = Some req" "?O c0 g0" "gl_get_or_load procs files req c0 g0 = (i, c1, g1)"
    for k req c0 g0 i c1 g1
    using that(2) load_owns [OF that(3)] load_cur [OF that(3)] by auto
  have "?O c g \<Longrightarrow> ?O c' g'"
    by (rule resolve_all_invariant [where P = ?O, OF _ _ assms]) (rule own, assumption+)
  then show "gl_wf g \<Longrightarrow> gl_wf g' \<and> (owns (gl_current g) c g \<longrightarrow> owns (gl_current g) c' g') \<and>
      (x \<noteq> gl_current g \<longrightarrow> ((x, d) \<in> set (gl_textures g') \<longleftrightarrow> (x, d) \<in> set (gl_textures g)))" by blast
  let ?Q = "\<lambda>c h. gl_current h = gl_current g \<and> gl_wf h \<and> owns (gl_current g) c h \<and> exact files client (gl_current g) c h \<and>
      plain_unpack (pixels h\<lparr>u_align := 1\<rparr>)"
  have step: "?Q c1 g1" if "avatar_for client k = Some req" "?Q c0 g0" "gl_get_or_load procs files req c0 g0 = (i, c1, g1)"
    for k req c0 g0 i c1 g1
    using that load_owns [OF that(3)] load_exact [OF that(3,1)] load_cur [OF that(3)] by auto
  have "?Q c g \<Longrightarrow> ?Q c' g'"
    by (rule resolve_all_invariant [where P = ?Q, OF _ _ assms]) (rule step, assumption+)
  then show "gl_wf g \<Longrightarrow> owns (gl_current g) c g \<Longrightarrow> exact files client (gl_current g) c g \<Longrightarrow>
      plain_unpack (pixels g\<lparr>u_align := 1\<rparr>) \<Longrightarrow> exact files client (gl_current g) c' g'" by blast
qed

lemma gr_draw_fields:
  assumes "gr_draw ui procs files client snap extent now r c g = (c', g')" and "ui_leaves ui" and "gl_current g \<noteq> 0"
  shows "gl_state g' = gl_state g" "objects g' = objects g" "gl_ok g' = gl_ok g" "gl_next g \<le> gl_next g'"
    and "gl_wf g \<Longrightarrow> gl_wf g' \<and> (owns (gl_current g) c g \<longrightarrow> owns (gl_current g) c' g') \<and>
      (x \<noteq> gl_current g \<longrightarrow> ((x, d) \<in> set (gl_textures g') \<longleftrightarrow> (x, d) \<in> set (gl_textures g)))"
    and "list_all procs unpack_procs \<Longrightarrow> gl_wf g \<Longrightarrow> owns (gl_current g) c g \<Longrightarrow> exact files client (gl_current g) c g \<Longrightarrow>
      exact files client (gl_current g) c' g'"
proof -
  obtain saved g1 where 1: "clean_unpack procs g = (saved, g1)" by fastforce
  define g2 where "g2 = ui_new_frame ui (gl_sane (fst extent), gl_sane (snd extent)) g1"
  obtain c3 g3 where 3: "(case snap of None \<Rightarrow> (c, g2)
      | Some s \<Rightarrow> snd (resolve_all gl_lookup (gl_get_or_load procs files) client (ui_icons ui s extent now) (c, g2))) = (c3, g3)" by fastforce
  define g4 where "g4 = ui_render ui g3"
  have l: "leaves (ui_new_frame ui (gl_sane (fst extent), gl_sane (snd extent)))" "leaves (ui_render ui)" using assms(2) by (simp_all add: ui_leaves_def)
  note f1 = clean_unpack_fields [OF 1] and f2 = leavesD [OF l(1), of g1, folded g2_def] and f4 = leavesD [OF l(2), of g3, folded g4_def]
  have "\<exists>hs is. resolve_all gl_lookup (gl_get_or_load procs files) client hs (c, g2) = (is, c3, g3)"
  proof (cases snap)
    case None
    then have "resolve_all gl_lookup (gl_get_or_load procs files) client [] (c, g2) = ([], c3, g3)" using 3 by simp
    then show ?thesis by blast
  next
    case (Some s)
    then have "snd (resolve_all gl_lookup (gl_get_or_load procs files) client (ui_icons ui s extent now) (c, g2)) = (c3, g3)" using 3 by simp
    then show ?thesis by (metis prod.collapse)
  qed
  then obtain hs "is" where h: "resolve_all gl_lookup (gl_get_or_load procs files) client hs (c, g2) = (is, c3, g3)" by blast
  note f3 = icons_drawn [OF h]
  have cur: "gl_current g1 = gl_current g" "gl_current g2 = gl_current g" "gl_current g3 = gl_current g" "gl_current g4 = gl_current g"
    using f1(1) f2 f3(1) f4 by (simp_all add: objects_def)
  have px: "pixels g2 = pixels g1" using f2 cur by (simp add: pixels_def)
  have wf2: "gl_wf g2 = gl_wf g" "owns y d g2 = owns y d g" "exact files client y d g2 = exact files client y d g" for y d
    using f1 f2 by (simp_all add: gl_wf_def owns_def exact_def)
  have wf4: "gl_wf (restore_unpack saved g4) = gl_wf g3" "owns y d (restore_unpack saved g4) = owns y d g3"
    "exact files client y d (restore_unpack saved g4) = exact files client y d g3" for y d
    using f4 by (simp_all add: gl_wf_def owns_def exact_def)
  have e: "c' = (if gr_init_done r then c3 else c)" "g' = (if gr_init_done r then restore_unpack saved g4 else g)"
    using assms(1) 1 3 [unfolded g2_def] by (auto simp: gr_draw_def Let_def g4_def split: if_splits)
  have st: "gl_state (restore_unpack saved g4) = gl_state g"
    by (rule restore_clean [OF 1]) (use f2 f3(1) f4 cur in simp_all)
  show "gl_state g' = gl_state g" using e st by simp
  show "objects g' = objects g" using e f1(1) f2 f3(1) f4 by simp
  show "gl_ok g' = gl_ok g" using e f1(5) f2 f3(1) f4 cur assms(3) by simp
  show "gl_next g \<le> gl_next g'" using e f1(4) f2 f3(1) f4 by simp
  show "gl_wf g \<Longrightarrow> gl_wf g' \<and> (owns (gl_current g) c g \<longrightarrow> owns (gl_current g) c' g') \<and>
      (x \<noteq> gl_current g \<longrightarrow> ((x, d) \<in> set (gl_textures g') \<longleftrightarrow> (x, d) \<in> set (gl_textures g)))"
    using e f1(2) f2 f3(2) f4 wf2 wf4 cur by simp
  show "list_all procs unpack_procs \<Longrightarrow> gl_wf g \<Longrightarrow> owns (gl_current g) c g \<Longrightarrow> exact files client (gl_current g) c g \<Longrightarrow>
      exact files client (gl_current g) c' g'"
    using e f1(6) f3(3) wf2 wf4 cur px by simp
qed

end
