(* ===== verification/Interposer.thy ===== *)
theory Interposer
  imports GlOverlay Dispatch "HOL-Library.Sublist"
begin

text \<open>
  The OpenGL interposer (\<^verbatim>\<open>src/gl/interposer.cpp\<close>, symbol lookup of \<^verbatim>\<open>src/gl/gl_api.cpp\<close>): the
  swap functions it shadows, the state it keeps per GL context, and how names resolve. The dynamic
  linker, the real functions and the game's own OpenGL calls are parameters and events.
\<close>

section \<open>Resolving names\<close>

text \<open>
  An address is null, one of our own exported hooks, or foreign. \<open>ln_sym\<close> is the real \<open>dlsym\<close>,
  found through \<open>dlvsym\<close> if at all; \<open>ln_call\<close> is what a resolver at an address answers.
\<close>

datatype addr = Null | Hook string | Addr nat

datatype handle = RTLD_NEXT | Lib string | Handle nat

record linker =
  ln_dlvsym :: bool
  ln_sym :: "handle \<Rightarrow> string \<Rightarrow> addr"
  ln_mapped :: "string \<Rightarrow> bool"
  ln_call :: "nat \<Rightarrow> string \<Rightarrow> addr"

definition real_dlsym :: "linker \<Rightarrow> (handle \<Rightarrow> string \<Rightarrow> addr) option" where
  "real_dlsym lk = (if ln_dlvsym lk then Some (ln_sym lk) else None)"

fun search_libs :: "linker \<Rightarrow> (handle \<Rightarrow> string \<Rightarrow> addr) \<Rightarrow> string list \<Rightarrow> string \<Rightarrow> addr" where
  "search_libs lk rd [] name = Null"
| "search_libs lk rd (lib # libs) name =
     (if ln_mapped lk lib \<and> rd (Lib lib) name \<noteq> Null then rd (Lib lib) name else search_libs lk rd libs name)"

definition real_gl_proc :: "linker \<Rightarrow> string \<Rightarrow> addr" where
  "real_gl_proc lk name =
     (case real_dlsym lk of
        None \<Rightarrow> Null
      | Some rd \<Rightarrow>
          if rd RTLD_NEXT name \<noteq> Null then rd RTLD_NEXT name
          else search_libs lk rd [''libGLX.so.0'', ''libGL.so.1'', ''libEGL.so.1'', ''libOpenGL.so.0''] name)"

definition vendor_sym :: "linker \<Rightarrow> string \<Rightarrow> addr" where
  "vendor_sym lk name =
     (case real_dlsym lk of
        None \<Rightarrow> Null
      | Some rd \<Rightarrow>
          if rd RTLD_NEXT name \<noteq> Null then rd RTLD_NEXT name
          else search_libs lk rd
            [''libGLX.so.0'', ''libGL.so.1'', ''libEGL.so.1'', ''libOpenGL.so.0'', ''libGLESv2.so.2''] name)"

definition call_addr :: "linker \<Rightarrow> addr \<Rightarrow> string \<Rightarrow> addr" where
  "call_addr lk a name = (case a of Addr n \<Rightarrow> ln_call lk n name | _ \<Rightarrow> Null)"

definition get_proc :: "linker \<Rightarrow> string \<Rightarrow> addr" where
  "get_proc lk name =
     (let egl = vendor_sym lk ''eglGetProcAddress'';
          glx = vendor_sym lk ''glXGetProcAddressARB'' in
      if egl \<noteq> Null \<and> call_addr lk egl name \<noteq> Null then call_addr lk egl name
      else if glx \<noteq> Null \<and> call_addr lk glx name \<noteq> Null then call_addr lk glx name
      else vendor_sym lk name)"

definition hook_for :: "string option \<Rightarrow> addr" where
  "hook_for name =
     (case name of
        None \<Rightarrow> Null
      | Some n \<Rightarrow>
          if n = ''eglSwapBuffers'' then Hook ''eglSwapBuffers''
          else if n = ''eglSwapBuffersWithDamageKHR'' then Hook ''eglSwapBuffersWithDamageKHR''
          else if n = ''eglSwapBuffersWithDamageEXT'' then Hook ''eglSwapBuffersWithDamageEXT''
          else if n = ''glXSwapBuffers'' then Hook ''glXSwapBuffers''
          else Null)"

section \<open>Logging\<close>

datatype gate = Drawing | Env_disabled | Host_disabled | No_snapshot | Not_in_voice | Null_ctx

datatype log_line =
    L_loaded string
  | L_first_swap string string
  | L_resolved string string
  | L_verbose string
  | L_gate gate
  | L_new_context nat
  | L_init_failed nat
  | L_drawing nat u32 u32

record ctx_state =
  cs_renderer :: gl_renderer
  cs_textures :: gl_cache
  cs_skip :: bool

definition new_ctx_state :: ctx_state where
  "new_ctx_state = \<lparr>cs_renderer = new_gl_renderer, cs_textures = [], cs_skip = False\<rparr>"

record interposer =
  ip_ctxs :: "nat \<Rightarrow> ctx_state option"
  ip_last_gate :: "gate option"
  ip_banner :: bool
  ip_drew :: bool
  ip_log :: "log_line list"

definition new_interposer :: interposer where
  "new_interposer = \<lparr>ip_ctxs = Map.empty, ip_last_gate = None, ip_banner = False, ip_drew = False, ip_log = []\<rparr>"

text \<open>\<^verbatim>\<open>CHOIR_GL_DEBUG\<close> as a number: 1 logs, 2 traces the resolvers too.\<close>

definition gl_debug :: "int \<Rightarrow> bool" where
  "gl_debug level \<longleftrightarrow> level \<ge> 1"

definition gl_verbose :: "int \<Rightarrow> bool" where
  "gl_verbose level \<longleftrightarrow> level \<ge> 2"

definition gl_log :: "int \<Rightarrow> log_line \<Rightarrow> interposer \<Rightarrow> interposer" where
  "gl_log level line ip = (if gl_debug level then ip\<lparr>ip_log := ip_log ip @ [line]\<rparr> else ip)"

definition gl_vlog :: "int \<Rightarrow> log_line \<Rightarrow> interposer \<Rightarrow> interposer" where
  "gl_vlog level line ip = (if gl_verbose level then ip\<lparr>ip_log := ip_log ip @ [line]\<rparr> else ip)"

definition is_gl_name :: "string option \<Rightarrow> bool" where
  "is_gl_name name =
     (case name of
        None \<Rightarrow> False
      | Some n \<Rightarrow> sublist ''SwapBuffers'' n \<or> sublist ''GetProcAddress'' n \<or> prefix ''glX'' n \<or> prefix ''egl'' n)"

text \<open>One line of \<^verbatim>\<open>/proc/self/comm\<close>, into a buffer of \<open>n\<close> bytes.\<close>

definition read_comm :: "string option \<Rightarrow> nat \<Rightarrow> string" where
  "read_comm file n =
     (case file of None \<Rightarrow> [] | Some s \<Rightarrow> takeWhile (\<lambda>c. byte_of c \<noteq> 10 \<and> byte_of c \<noteq> 0) (take (n - 1) s))"

definition on_load :: "int \<Rightarrow> string option \<Rightarrow> interposer \<Rightarrow> interposer" where
  "on_load level comm ip = (if \<not> gl_verbose level then ip else gl_vlog level (L_loaded (read_comm comm 64)) ip)"

definition log_banner_once :: "int \<Rightarrow> string option \<Rightarrow> string \<Rightarrow> interposer \<Rightarrow> interposer" where
  "log_banner_once level comm api ip =
     (if \<not> gl_debug level then ip
      else if ip_banner ip then ip
      else gl_log level (L_first_swap api (read_comm comm 64)) (ip\<lparr>ip_banner := True\<rparr>))"

definition log_resolve :: "int \<Rightarrow> string \<Rightarrow> string \<Rightarrow> interposer \<Rightarrow> interposer" where
  "log_resolve level via name ip = gl_log level (L_resolved name via) ip"

definition log_gate :: "int \<Rightarrow> gate \<Rightarrow> interposer \<Rightarrow> interposer" where
  "log_gate level g ip =
     (if \<not> gl_debug level then ip
      else if ip_last_gate ip = Some g then ip
      else gl_log level (L_gate g) (ip\<lparr>ip_last_gate := Some g\<rparr>))"

section \<open>Drawing\<close>

text \<open>
  What stays the same while the program runs. \<open>ge_real\<close> gives what the real function of a name
  returns, and \<open>ge_is_egl\<close> which contexts were made through EGL.
\<close>

record gl_env =
  ge_env :: environment
  ge_level :: int
  ge_comm :: "string option"
  ge_linker :: linker
  ge_real :: "string \<Rightarrow> int list \<Rightarrow> int"
  ge_is_egl :: "nat \<Rightarrow> bool"
  ge_ui :: ui_lib
  ge_files :: "string \<Rightarrow> bytes option"

definition procs :: "gl_env \<Rightarrow> string \<Rightarrow> bool" where
  "procs e name \<longleftrightarrow> get_proc (ge_linker e) name \<noteq> Null"

definition has_real :: "gl_env \<Rightarrow> string \<Rightarrow> bool" where
  "has_real e name \<longleftrightarrow> real_gl_proc (ge_linker e) name \<noteq> Null"

definition viewport_extent :: "gl_env \<Rightarrow> gl \<Rightarrow> u32 \<times> u32 \<Rightarrow> u32 \<times> u32" where
  "viewport_extent e g wh =
     (if \<not> procs e ''glGetIntegerv'' then wh
      else case u_viewport (pixels g) of (vw, vh) \<Rightarrow>
        if vw > 0 \<and> vh > 0 then (word_of_int vw, word_of_int vh) else wh)"

text \<open>\<open>q\<close> is what \<open>eglQuerySurface\<close> writes for width and height (0 where it fails).\<close>

definition egl_extent :: "gl_env \<Rightarrow> gl \<Rightarrow> int \<times> int \<Rightarrow> u32 \<times> u32" where
  "egl_extent e g q =
     (let (ww, hh) = (if has_real e ''eglQuerySurface'' then q else (0, 0));
          w = (if ww > 0 then word_of_int ww else 0);
          h = (if hh > 0 then word_of_int hh else 0)
      in if w = 0 \<or> h = 0 then viewport_extent e g (w, h) else (w, h))"

definition glx_extent :: "gl_env \<Rightarrow> gl \<Rightarrow> u32 \<times> u32 \<Rightarrow> u32 \<times> u32" where
  "glx_extent e g q =
     (let (w, h) = (if has_real e ''glXQueryDrawable'' then q else (0, 0))
      in if w = 0 \<or> h = 0 then viewport_extent e g (w, h) else (w, h))"

definition egl_current_ctx :: "gl_env \<Rightarrow> gl \<Rightarrow> nat" where
  "egl_current_ctx e g =
     (if has_real e ''eglGetCurrentContext'' \<and> ge_is_egl e (gl_current g) then gl_current g else 0)"

definition glx_current_ctx :: "gl_env \<Rightarrow> gl \<Rightarrow> nat" where
  "glx_current_ctx e g =
     (if has_real e ''glXGetCurrentContext'' \<and> \<not> ge_is_egl e (gl_current g) then gl_current g else 0)"

definition draw_overlay_for ::
    "gl_env \<Rightarrow> client_state \<Rightarrow> int \<Rightarrow> nat \<Rightarrow> u32 \<times> u32 \<Rightarrow> interposer \<times> gl \<Rightarrow> interposer \<times> gl" where
  "draw_overlay_for e client now key wh s =
     (let (ip, g) = s; gate = (\<lambda>x. log_gate (ge_level e) x ip) in
      if key = 0 then (gate Null_ctx, g)
      else if overlay_disabled (ge_env e) then (gate Env_disabled, g)
      else if disabled client then (gate Host_disabled, g)
      else case latest client of
        None \<Rightarrow> (gate No_snapshot, g)
      | Some snap \<Rightarrow>
          if \<not> s_in_voice snap then (gate Not_in_voice, g)
          else
            let ip = gate Drawing;
                (st, ip) =
                  (case ip_ctxs ip key of
                     Some st \<Rightarrow> (st, ip)
                   | None \<Rightarrow>
                       (new_ctx_state,
                        gl_log (ge_level e) (L_new_context key) (ip\<lparr>ip_ctxs := (ip_ctxs ip)(key \<mapsto> new_ctx_state)\<rparr>))) in
            if cs_skip st then (ip, g)
            else
              let (ok, r, g) =
                    (if gr_init_done (cs_renderer st) then (True, cs_renderer st, g) else gr_init (cs_renderer st) g);
                  st = st\<lparr>cs_renderer := r\<rparr> in
              if \<not> ok
              then (gl_log (ge_level e) (L_init_failed key)
                      (ip\<lparr>ip_ctxs := (ip_ctxs ip)(key \<mapsto> st\<lparr>cs_skip := True\<rparr>)\<rparr>), g)
              else
                let ip = (if ip_drew ip then ip
                          else gl_log (ge_level e) (L_drawing key (fst wh) (snd wh)) (ip\<lparr>ip_drew := True\<rparr>));
                    (c, g) = gr_draw (ge_ui e) (procs e) (ge_files e) client (Some snap) wh now r (cs_textures st) g
                in (ip\<lparr>ip_ctxs := (ip_ctxs ip)(key \<mapsto> st\<lparr>cs_textures := c\<rparr>)\<rparr>, g))"

definition destroy_ctx :: "gl_env \<Rightarrow> nat \<Rightarrow> interposer \<times> gl \<Rightarrow> interposer \<times> gl" where
  "destroy_ctx e key s =
     (let (ip, g) = s in
      case ip_ctxs ip key of
        None \<Rightarrow> (ip, g)
      | Some st \<Rightarrow>
          let ip = ip\<lparr>ip_ctxs := (ip_ctxs ip)(key := None)\<rparr>;
              is_current = (has_real e ''eglGetCurrentContext'' \<and> egl_current_ctx e g = key \<or>
                            has_real e ''glXGetCurrentContext'' \<and> glx_current_ctx e g = key) in
          if \<not> is_current then (ip, g)
          else
            let (c, g) = gl_textures_shutdown (procs e) (cs_textures st) g;
                (r, g) = gr_shutdown (cs_renderer st) g
            in (ip, g))"

section \<open>The exported functions\<close>

text \<open>The process: the interposer, OpenGL, and the calls that reached the real functions.\<close>

record gl_world =
  gw_ip :: interposer
  gw_gl :: gl
  gw_calls :: "(string \<times> int list) list"

definition call_real :: "gl_env \<Rightarrow> string \<Rightarrow> int list \<Rightarrow> gl_world \<Rightarrow> int \<times> gl_world" where
  "call_real e name args w =
     (if has_real e name then (ge_real e name args, w\<lparr>gw_calls := gw_calls w @ [(name, args)]\<rparr>) else (0, w))"

definition egl_draw :: "gl_env \<Rightarrow> string \<Rightarrow> client_state \<Rightarrow> int \<Rightarrow> int \<times> int \<Rightarrow> gl_world \<Rightarrow> gl_world" where
  "egl_draw e api client now q w =
     (let ip = log_banner_once (ge_level e) (ge_comm e) api (gw_ip w);
          wh = egl_extent e (gw_gl w) q;
          (ip, g) = draw_overlay_for e client now (egl_current_ctx e (gw_gl w)) wh (ip, gw_gl w)
      in w\<lparr>gw_ip := ip, gw_gl := g\<rparr>)"

definition eglSwapBuffers :: "gl_env \<Rightarrow> client_state \<Rightarrow> int \<Rightarrow> int \<times> int \<Rightarrow> int list \<Rightarrow> gl_world \<Rightarrow> int \<times> gl_world" where
  "eglSwapBuffers e client now q args w =
     call_real e ''eglSwapBuffers'' args (egl_draw e ''eglSwapBuffers'' client now q w)"

definition eglSwapBuffersWithDamageKHR ::
    "gl_env \<Rightarrow> client_state \<Rightarrow> int \<Rightarrow> int \<times> int \<Rightarrow> int list \<Rightarrow> gl_world \<Rightarrow> int \<times> gl_world" where
  "eglSwapBuffersWithDamageKHR e client now q args w =
     call_real e ''eglSwapBuffersWithDamageKHR'' args (egl_draw e ''eglSwapBuffersWithDamageKHR'' client now q w)"

definition eglSwapBuffersWithDamageEXT ::
    "gl_env \<Rightarrow> client_state \<Rightarrow> int \<Rightarrow> int \<times> int \<Rightarrow> int list \<Rightarrow> gl_world \<Rightarrow> int \<times> gl_world" where
  "eglSwapBuffersWithDamageEXT e client now q args w =
     call_real e ''eglSwapBuffersWithDamageEXT'' args (egl_draw e ''eglSwapBuffersWithDamageEXT'' client now q w)"

definition glXSwapBuffers :: "gl_env \<Rightarrow> client_state \<Rightarrow> int \<Rightarrow> u32 \<times> u32 \<Rightarrow> int list \<Rightarrow> gl_world \<Rightarrow> gl_world" where
  "glXSwapBuffers e client now q args w =
     (let ip = log_banner_once (ge_level e) (ge_comm e) ''glXSwapBuffers'' (gw_ip w);
          wh = glx_extent e (gw_gl w) q;
          (ip, g) = draw_overlay_for e client now (glx_current_ctx e (gw_gl w)) wh (ip, gw_gl w)
      in snd (call_real e ''glXSwapBuffers'' args (w\<lparr>gw_ip := ip, gw_gl := g\<rparr>)))"

definition destroy_with :: "gl_env \<Rightarrow> nat \<Rightarrow> gl_world \<Rightarrow> gl_world" where
  "destroy_with e ctx w = (case destroy_ctx e ctx (gw_ip w, gw_gl w) of (ip, g) \<Rightarrow> w\<lparr>gw_ip := ip, gw_gl := g\<rparr>)"

definition eglDestroyContext :: "gl_env \<Rightarrow> int \<Rightarrow> nat \<Rightarrow> gl_world \<Rightarrow> int \<times> gl_world" where
  "eglDestroyContext e dpy ctx w = call_real e ''eglDestroyContext'' [dpy, int ctx] (destroy_with e ctx w)"

definition glXDestroyContext :: "gl_env \<Rightarrow> int \<Rightarrow> nat \<Rightarrow> gl_world \<Rightarrow> gl_world" where
  "glXDestroyContext e dpy ctx w = snd (call_real e ''glXDestroyContext'' [dpy, int ctx] (destroy_with e ctx w))"

text \<open>The resolvers; what they log goes through the state.\<close>

definition get_proc_address :: "gl_env \<Rightarrow> string \<Rightarrow> string option \<Rightarrow> interposer \<Rightarrow> addr \<times> interposer" where
  "get_proc_address e via name ip =
     (let ip = gl_vlog (ge_level e) (L_verbose (case name of Some n \<Rightarrow> n | None \<Rightarrow> ''(null)'')) ip;
          h = hook_for name in
      if h \<noteq> Null then (h, log_resolve (ge_level e) via (the name) ip)
      else (case name of
              Some n \<Rightarrow> call_addr (ge_linker e) (real_gl_proc (ge_linker e) via) n
            | None \<Rightarrow> Null, ip))"

definition eglGetProcAddress :: "gl_env \<Rightarrow> string option \<Rightarrow> interposer \<Rightarrow> addr \<times> interposer" where
  "eglGetProcAddress e = get_proc_address e ''eglGetProcAddress''"

definition glXGetProcAddressARB :: "gl_env \<Rightarrow> string option \<Rightarrow> interposer \<Rightarrow> addr \<times> interposer" where
  "glXGetProcAddressARB e = get_proc_address e ''glXGetProcAddressARB''"

definition glXGetProcAddress :: "gl_env \<Rightarrow> string option \<Rightarrow> interposer \<Rightarrow> addr \<times> interposer" where
  "glXGetProcAddress e = get_proc_address e ''glXGetProcAddress''"

definition dlsym :: "gl_env \<Rightarrow> handle \<Rightarrow> string \<Rightarrow> interposer \<Rightarrow> addr \<times> interposer" where
  "dlsym e handle name ip =
     (let h = hook_for (Some name) in
      if h \<noteq> Null then (h, log_resolve (ge_level e) ''dlsym'' name ip)
      else
        let ip = (if gl_verbose (ge_level e) \<and> is_gl_name (Some name) then gl_vlog (ge_level e) (L_verbose name) ip else ip)
        in (case real_dlsym (ge_linker e) of Some rd \<Rightarrow> rd handle name | None \<Rightarrow> Null, ip))"

section \<open>What the interposer keeps\<close>

text \<open>
  Per tracked context: its cache names exactly its textures, and its renderer has its ImGui
  context and backend. Untracked contexts have nothing of the overlay's.
\<close>

definition renderer_inv :: "nat \<Rightarrow> gl_renderer \<Rightarrow> gl \<Rightarrow> bool" where
  "renderer_inv x r g \<longleftrightarrow>
     (if gr_init_done r then gr_ctx r \<noteq> 0 \<and> (x, gr_ctx r) \<in> set (gl_backends g) \<and> gr_ctx r \<in> set (gl_imgui g)
      else gr_ctx r = 0)"

definition objects_wf :: "gl \<Rightarrow> bool" where
  "objects_wf g \<longleftrightarrow> gl_wf g \<and> (\<forall>i \<in> set (gl_imgui g). i \<le> gl_next g) \<and> (\<forall>x i. (x, i) \<in> set (gl_backends g) \<longrightarrow> i \<le> gl_next g) \<and>
     (\<forall>x y i. (x, i) \<in> set (gl_backends g) \<longrightarrow> (y, i) \<in> set (gl_backends g) \<longrightarrow> x = y)"

definition world_inv :: "interposer \<Rightarrow> gl \<Rightarrow> bool" where
  "world_inv ip g \<longleftrightarrow> gl_ok g \<and> objects_wf g \<and> ip_ctxs ip 0 = None \<and>
     (\<forall>x st. ip_ctxs ip x = Some st \<longrightarrow> owns x (cs_textures st) g \<and> renderer_inv x (cs_renderer st) g) \<and>
     (\<forall>x t. (x, t) \<in> set (gl_textures g) \<longrightarrow> ip_ctxs ip x \<noteq> None)"

lemma log_ctxs [simp]:
  "ip_ctxs (gl_log l x ip) = ip_ctxs ip" "ip_ctxs (log_gate l gt ip) = ip_ctxs ip"
  "ip_ctxs (log_banner_once l c api ip) = ip_ctxs ip"
  by (simp_all add: gl_log_def log_gate_def log_banner_once_def)

lemma init_fields:
  assumes "gr_init r g = (ok, r', g')" and "renderer_inv x r g" and "gl_current g = x" and "x \<noteq> 0" and "objects_wf g"
  shows "renderer_inv x r' g'" "ok \<longleftrightarrow> gr_init_done r'" "gl_state g' = gl_state g" "gl_current g' = x" "gl_ok g' = gl_ok g"
    "objects_wf g'" "gl_textures g' = gl_textures g" "gl_images g' = gl_images g" "\<And>y s. y \<noteq> x \<Longrightarrow> renderer_inv y s g \<Longrightarrow> renderer_inv y s g'"
proof -
  obtain ctx g1 where 1: "imgui_create g = (ctx, g1)" by fastforce
  obtain b g2 where 2: "imgui_backend_init ctx g1 = (b, g2)" by fastforce
  have f1: "gl_current g1 = x" "gl_state g1 = gl_state g" "gl_ok g1 = gl_ok g" "gl_textures g1 = gl_textures g"
    "gl_images g1 = gl_images g" "gl_backends g1 = gl_backends g"
    "gl_imgui g1 = (if ctx = 0 then gl_imgui g else ctx # gl_imgui g)" "gl_next g1 = (if ctx = 0 then gl_next g else ctx)"
    "ctx \<noteq> 0 \<Longrightarrow> ctx = Suc (gl_next g)"
    using 1 assms(3) by (auto simp: imgui_create_def split: prod.splits if_splits dest!: gl_ask_fields)
  have f2: "gl_current g2 = x" "gl_state g2 = gl_state g1" "gl_ok g2 = gl_ok g1" "gl_textures g2 = gl_textures g1"
    "gl_images g2 = gl_images g1" "gl_backends g2 = (if b then (x, ctx) # gl_backends g1 else gl_backends g1)"
    "gl_imgui g2 = gl_imgui g1" "gl_next g2 = gl_next g1"
    using 2 assms(4) f1(1) by (auto simp: imgui_backend_init_def split: prod.splits if_splits dest!: gl_ask_fields)
  consider "gr_init_done r" "ok" "r' = r" "g' = g"
    | "\<not> gr_init_done r" "ctx = 0" "\<not> ok" "r' = r\<lparr>gr_ctx := 0\<rparr>" "g' = g1"
    | "\<not> gr_init_done r" "ctx \<noteq> 0" "\<not> b" "\<not> ok" "r' = r\<lparr>gr_ctx := 0\<rparr>" "g' = imgui_destroy ctx g2"
    | "\<not> gr_init_done r" "ctx \<noteq> 0" "b" "ok" "r' = r\<lparr>gr_ctx := ctx, gr_init_done := True\<rparr>" "g' = g2"
    using assms(1) 1 2 by (auto simp: gr_init_def Let_def split: if_splits)
  note cases = this
  show "renderer_inv x r' g'" "ok \<longleftrightarrow> gr_init_done r'" "gl_state g' = gl_state g" "gl_current g' = x" "gl_ok g' = gl_ok g"
    "gl_textures g' = gl_textures g" "gl_images g' = gl_images g"
    using cases by (cases; use assms f1(1-8) f2 in \<open>simp add: renderer_inv_def imgui_destroy_def\<close>)+
  show "objects_wf g'"
    using cases by (cases; use assms f1 f2 in \<open>fastforce simp: objects_wf_def gl_wf_def imgui_destroy_def\<close>)
  show "\<And>y s. y \<noteq> x \<Longrightarrow> renderer_inv y s g \<Longrightarrow> renderer_inv y s g'"
    using cases by (cases; use f1(1-8) f2 in \<open>auto simp: renderer_inv_def imgui_destroy_def\<close>)
qed

lemma owns_same: "gl_textures g' = gl_textures g \<Longrightarrow> owns x c g' = owns x c g"
  by (simp add: owns_def)

lemma world_inv_log:
  "ip_ctxs ip' = ip_ctxs ip \<Longrightarrow> world_inv ip' g = world_inv ip g"
  by (simp add: world_inv_def)

definition entry :: "interposer \<Rightarrow> nat \<Rightarrow> ctx_state" where
  "entry ip key = (case ip_ctxs ip key of Some st \<Rightarrow> st | None \<Rightarrow> new_ctx_state)"

definition start_renderer :: "ctx_state \<Rightarrow> gl \<Rightarrow> bool \<times> gl_renderer \<times> gl" where
  "start_renderer st g =
     (if gr_init_done (cs_renderer st) then (True, cs_renderer st, g) else gr_init (cs_renderer st) g)"

lemma draw_for_drawing:
  assumes "key \<noteq> 0" "\<not> overlay_disabled (ge_env e)" "\<not> disabled client" "latest client = Some snap" "s_in_voice snap"
    and "start_renderer (entry ip key) g = (ok, r, g1)"
    and "gr_draw (ge_ui e) (procs e) (ge_files e) client (Some snap) wh now r (cs_textures (entry ip key)) g1 = (c, g2)"
    and "draw_overlay_for e client now key wh (ip, g) = (ip', g')"
  shows "g' = (if cs_skip (entry ip key) then g else if ok then g2 else g1)"
    and "ip_ctxs ip' = (ip_ctxs ip)(key \<mapsto>
       if cs_skip (entry ip key) then entry ip key
       else if ok then entry ip key\<lparr>cs_renderer := r, cs_textures := c\<rparr>
       else entry ip key\<lparr>cs_renderer := r, cs_skip := True\<rparr>)"
proof -
  have "g' = (if cs_skip (entry ip key) then g else if ok then g2 else g1) \<and>
    ip_ctxs ip' = (ip_ctxs ip)(key \<mapsto>
       if cs_skip (entry ip key) then entry ip key
       else if ok then entry ip key\<lparr>cs_renderer := r, cs_textures := c\<rparr>
       else entry ip key\<lparr>cs_renderer := r, cs_skip := True\<rparr>)"
  proof (cases "ip_ctxs ip key")
    case None
    then show ?thesis
      using assms(8) assms(1-7)
      by (cases "cs_skip (entry ip key)"; cases ok; simp add: draw_overlay_for_def entry_def start_renderer_def Let_def; auto)
  next
    case (Some st)
    then show ?thesis
      using assms(8) assms(1-7)
      by (cases "cs_skip (entry ip key)"; cases ok; simp add: draw_overlay_for_def entry_def start_renderer_def Let_def; auto)
  qed
  then show "g' = (if cs_skip (entry ip key) then g else if ok then g2 else g1)"
    and "ip_ctxs ip' = (ip_ctxs ip)(key \<mapsto>
       if cs_skip (entry ip key) then entry ip key
       else if ok then entry ip key\<lparr>cs_renderer := r, cs_textures := c\<rparr>
       else entry ip key\<lparr>cs_renderer := r, cs_skip := True\<rparr>)" by blast+
qed

lemma draw_for_inv:
  assumes "world_inv ip g" and "draw_overlay_for e client now key wh (ip, g) = (ip', g')" and "ui_leaves (ge_ui e)"
    and "key = 0 \<or> key = gl_current g"
  shows "world_inv ip' g' \<and> gl_state g' = gl_state g \<and> gl_current g' = gl_current g"
proof (cases "key = 0 \<or> overlay_disabled (ge_env e) \<or> disabled client \<or> latest client = None \<or>
    \<not> s_in_voice (the (latest client))")
  case True
  then have "g' = g" "ip_ctxs ip' = ip_ctxs ip"
    using assms(2) by (auto simp: draw_overlay_for_def Let_def split: option.splits if_splits)
  then show ?thesis using assms(1) world_inv_log by metis
next
  case False
  then obtain snap where snap: "latest client = Some snap" "s_in_voice snap" by auto
  define st where "st = entry ip key"
  have on: "\<not> overlay_disabled (ge_env e)" "\<not> disabled client" using False by auto
  have cur: "key = gl_current g" "key \<noteq> 0" using False assms(4) by auto
  have st_inv: "owns key (cs_textures st) g" "renderer_inv key (cs_renderer st) g"
    unfolding st_def entry_def using assms(1)
    by (cases "ip_ctxs ip key"; fastforce simp: world_inv_def new_ctx_state_def new_gl_renderer_def owns_def renderer_inv_def
        gl_cache_inv_def)+
  have wf: "gl_ok g" "objects_wf g" using assms(1) by (simp_all add: world_inv_def)
  text \<open>All that is needed of a result: the key's entry is right, the others are untouched.\<close>
  have fin: "world_inv jp h"
    if "gl_ok h" "objects_wf h" "ip_ctxs jp = (ip_ctxs ip)(key \<mapsto> st')" "owns key (cs_textures st') h"
      "renderer_inv key (cs_renderer st') h" "\<And>y d. y \<noteq> key \<Longrightarrow> owns y d h = owns y d g"
      "\<And>y s. y \<noteq> key \<Longrightarrow> renderer_inv y s g \<Longrightarrow> renderer_inv y s h"
      "\<And>y t. y \<noteq> key \<Longrightarrow> (y, t) \<in> set (gl_textures h) \<Longrightarrow> (y, t) \<in> set (gl_textures g)" for jp h st'
    using assms(1) that cur(2) unfolding world_inv_def by auto blast
  obtain ok r g1 where 1: "start_renderer st g = (ok, r, g1)" by (metis prod.exhaust)
  obtain c g2 where 2: "gr_draw (ge_ui e) (procs e) (ge_files e) client (Some snap) wh now r (cs_textures st) g1 = (c, g2)"
    by fastforce
  note draw = draw_for_drawing [OF cur(2) on snap 1 [unfolded st_def] 2 [unfolded st_def] assms(2), folded st_def]
  show ?thesis
  proof (cases "cs_skip st")
    case True
    then have e: "g' = g" "ip_ctxs ip' = (ip_ctxs ip)(key \<mapsto> st)" using draw by simp_all
    have "world_inv ip' g" by (rule fin [OF wf e(2)]) (use st_inv in auto)
    then show ?thesis using e(1) by simp
  next
    case noskip: False
    have f: "renderer_inv key r g1" "ok \<longleftrightarrow> gr_init_done r" "gl_state g1 = gl_state g" "gl_current g1 = key" "gl_ok g1 = gl_ok g"
      "objects_wf g1" "gl_textures g1 = gl_textures g" "\<And>y s. y \<noteq> key \<Longrightarrow> renderer_inv y s g \<Longrightarrow> renderer_inv y s g1"
    proof -
      have "(ok, r, g1) = (True, cs_renderer st, g) \<and> gr_init_done r \<or> gr_init (cs_renderer st) g = (ok, r, g1)"
        using 1 by (auto simp: start_renderer_def split: if_splits)
      then show "renderer_inv key r g1" "ok \<longleftrightarrow> gr_init_done r" "gl_state g1 = gl_state g" "gl_current g1 = key" "gl_ok g1 = gl_ok g"
        "objects_wf g1" "gl_textures g1 = gl_textures g" "\<And>y s. y \<noteq> key \<Longrightarrow> renderer_inv y s g \<Longrightarrow> renderer_inv y s g1"
        using st_inv(2) cur(1) [symmetric] wf(2) init_fields [OF _ st_inv(2) cur(1) [symmetric] cur(2) wf(2), of ok r g1]
        by blast+
    qed
    have e: "g' = (if ok then g2 else g1)" "ip_ctxs ip' = (ip_ctxs ip)(key \<mapsto>
        (if ok then st\<lparr>cs_renderer := r, cs_textures := c\<rparr> else st\<lparr>cs_renderer := r, cs_skip := True\<rparr>))"
      using draw noskip by simp_all
    show ?thesis
    proof (cases ok)
      case False
      then have "world_inv ip' g1"
        by (intro fin [OF _ _ e(2)]) (use f st_inv wf owns_same [OF f(7)] in auto)
      then show ?thesis using e(1) False f(3,4) cur by simp
    next
      case True
      have "gl_current g1 \<noteq> 0" using f(4) cur by simp
      note d = gr_draw_fields [OF 2 assms(3) this]
      have o: "gl_current g2 = key" "gl_backends g2 = gl_backends g1" "gl_imgui g2 = gl_imgui g1"
        using d(2) f(4) by (simp_all add: objects_def)
      have w1: "gl_wf g1" using f(6) by (simp add: objects_wf_def)
      have w2: "gl_wf g2" "owns key c g2" "\<And>y t. y \<noteq> key \<Longrightarrow> (y, t) \<in> set (gl_textures g2) \<longleftrightarrow> (y, t) \<in> set (gl_textures g)"
        using d(5) [OF w1] f(4,7) st_inv(1) owns_same [OF f(7)] by auto
      then have w3: "\<And>y d. y \<noteq> key \<Longrightarrow> owns y d g2 = owns y d g" by (simp add: owns_def)
      have "gl_imgui g2 = gl_imgui g1 \<and> objects_wf g2"
        using f(6) o w2(1) d(4) by (fastforce simp: objects_wf_def)
      then have "world_inv ip' g2"
        by (intro fin [OF _ _ e(2)]) (use f o w2 w3 True d(3) wf in \<open>auto simp: renderer_inv_def split: if_splits\<close>)
      then show ?thesis using e(1) True d(1) f(3,4) o(1) cur by simp
    qed
  qed
qed

text \<open>Deleting the textures of the current context, all its own.\<close>

lemma delete_all:
  "distinct (map snd c) \<Longrightarrow> (\<And>t. t \<in> snd ` set c \<Longrightarrow> (gl_current g, t) \<in> set (gl_textures g)) \<Longrightarrow>
     gl_current g \<noteq> 0 \<Longrightarrow> g' = fold (\<lambda>(_, t). delete_texture t) c g \<Longrightarrow> distinct (gl_textures g) \<Longrightarrow>
     gl_ok g' = gl_ok g \<and> objects g' = objects g \<and> gl_state g' = gl_state g \<and> gl_next g' = gl_next g \<and> distinct (gl_textures g') \<and>
     set (gl_textures g') = set (gl_textures g) - Pair (gl_current g) ` snd ` set c"
proof (induction c arbitrary: g)
  case (Cons p c)
  obtain h t where p: "p = (h, t)" by fastforce
  let ?g = "delete_texture t g"
  have f: "gl_current ?g = gl_current g" "gl_ok ?g = gl_ok g" "objects ?g = objects g" "gl_state ?g = gl_state g"
    "gl_next ?g = gl_next g" "set (gl_textures ?g) = set (gl_textures g) - {(gl_current g, t)}" "distinct (gl_textures ?g)"
    using Cons.prems p by (auto simp: delete_texture_def objects_def)
  have "gl_ok g' = gl_ok ?g \<and> objects g' = objects ?g \<and> gl_state g' = gl_state ?g \<and> gl_next g' = gl_next ?g \<and>
      distinct (gl_textures g') \<and> set (gl_textures g') = set (gl_textures ?g) - Pair (gl_current ?g) ` snd ` set c"
    by (rule Cons.IH) (use Cons.prems p f in auto)
  then show ?case using f p by auto
qed simp

lemma destroy_fields:
  assumes "world_inv ip g" and "destroy_ctx e key (ip, g) = (ip', g')"
  shows "ip_ctxs ip' = (ip_ctxs ip)(key := None)" "gl_ok g'" "objects_wf g'" "gl_state g' = gl_state g" "gl_current g' = gl_current g"
    "\<And>y t. y \<noteq> key \<Longrightarrow> (y, t) \<in> set (gl_textures g') \<longleftrightarrow> (y, t) \<in> set (gl_textures g)"
    "\<And>y s. y \<noteq> key \<Longrightarrow> renderer_inv y s g \<Longrightarrow> renderer_inv y s g'"
proof -
  have inv: "gl_ok g" "objects_wf g" "ip_ctxs ip 0 = None" using assms(1) by (simp_all add: world_inv_def)
  define current where "current \<longleftrightarrow> has_real e ''eglGetCurrentContext'' \<and> egl_current_ctx e g = key \<or>
      has_real e ''glXGetCurrentContext'' \<and> glx_current_ctx e g = key"
  show 0: "ip_ctxs ip' = (ip_ctxs ip)(key := None)"
    using assms(2) by (auto simp: destroy_ctx_def Let_def split: option.splits if_splits prod.splits)
  have "gl_ok g' \<and> objects_wf g' \<and> gl_state g' = gl_state g \<and> gl_current g' = gl_current g \<and>
    (\<forall>y t. y \<noteq> key \<longrightarrow> (y, t) \<in> set (gl_textures g') \<longleftrightarrow> (y, t) \<in> set (gl_textures g)) \<and>
    (\<forall>y s. y \<noteq> key \<longrightarrow> renderer_inv y s g \<longrightarrow> renderer_inv y s g')"
  proof (cases "\<exists>st. ip_ctxs ip key = Some st \<and> current")
    case False
    then have "g' = g" using assms(2) by (auto simp: destroy_ctx_def current_def Let_def split: option.splits if_splits)
    then show ?thesis using inv by simp
  next
    case True
    then obtain st where st: "ip_ctxs ip key = Some st" and cur: "current" by blast
    have key: "key \<noteq> 0" using st inv(3) by (cases "key = 0") auto
    then have k: "gl_current g = key" using cur by (auto simp: current_def egl_current_ctx_def glx_current_ctx_def split: if_splits)
    have s: "owns key (cs_textures st) g" "renderer_inv key (cs_renderer st) g" using assms(1) st by (auto simp: world_inv_def)
    obtain c g1 where 1: "gl_textures_shutdown (procs e) (cs_textures st) g = (c, g1)" by fastforce
    obtain r g2 where 2: "gr_shutdown (cs_renderer st) g1 = (r, g2)" by fastforce
    have g': "g' = g2" using assms(2) st cur 1 2 by (auto simp: destroy_ctx_def current_def Let_def)
    have wf: "distinct (gl_textures g)" using inv(2) by (simp add: objects_wf_def gl_wf_def)
    have d: "gl_ok g1 = gl_ok g \<and> objects g1 = objects g \<and> gl_state g1 = gl_state g \<and> gl_next g1 = gl_next g \<and>
        distinct (gl_textures g1) \<and> set (gl_textures g1) \<subseteq> set (gl_textures g) \<and>
        (\<forall>y t. y \<noteq> key \<longrightarrow> (y, t) \<in> set (gl_textures g1) \<longleftrightarrow> (y, t) \<in> set (gl_textures g))"
    proof (cases "cs_textures st = [] \<or> \<not> list_all (procs e) texture_procs")
      case True
      then have "g1 = g" using 1 by (auto simp: gl_textures_shutdown_def split: if_splits)
      then show ?thesis using wf by simp
    next
      case False
      then have "g1 = fold (\<lambda>(_, t). delete_texture t) (cs_textures st) g" using 1 by (auto simp: gl_textures_shutdown_def)
      from delete_all [OF _ _ _ this wf] s(1) k key show ?thesis by (auto simp: owns_def)
    qed
    have o1: "gl_current g1 = key" "gl_backends g1 = gl_backends g" "gl_imgui g1 = gl_imgui g" using d k by (simp_all add: objects_def)
    have e: "gl_ok g2" "gl_current g2 = key" "gl_state g2 = gl_state g1" "gl_textures g2 = gl_textures g1" "gl_next g2 = gl_next g1"
      "gl_backends g2 = (if gr_init_done (cs_renderer st) then remove1 (key, gr_ctx (cs_renderer st)) (gl_backends g) else gl_backends g)"
      "gl_imgui g2 = (if gr_init_done (cs_renderer st) then remove1 (gr_ctx (cs_renderer st)) (gl_imgui g) else gl_imgui g)"
      using 2 o1 s(2) inv(1) d key
      by (auto simp: gr_shutdown_def Let_def imgui_backend_shutdown_def imgui_destroy_def renderer_inv_def split: if_splits)
    have sub: "set (gl_backends g2) \<subseteq> set (gl_backends g)" "set (gl_imgui g2) \<subseteq> set (gl_imgui g)"
      unfolding e(6,7) by (simp_all add: set_remove1_subset)
    have "objects_wf g2"
    proof -
      have n: "gl_next g2 = gl_next g" "set (gl_textures g2) \<subseteq> set (gl_textures g)" "distinct (gl_textures g2)"
        using d e(4,5) by simp_all
      from inv(2) n(2,3) sub show ?thesis unfolding objects_wf_def gl_wf_def n(1) by blast
    qed
    moreover have "renderer_inv y s g2" if "y \<noteq> key" "renderer_inv y s g" for y s
    proof (cases "gr_init_done s \<and> gr_init_done (cs_renderer st)")
      case True
      then have "gr_ctx s \<noteq> gr_ctx (cs_renderer st)"
        using that s(2) inv(2) by (auto simp: renderer_inv_def objects_wf_def)
      then show ?thesis using that e(6,7) True by (simp add: renderer_inv_def)
    qed (use that e(6,7) in \<open>auto simp: renderer_inv_def\<close>)
    ultimately show ?thesis using g' e d k by simp
  qed
  then show "gl_ok g'" "objects_wf g'" "gl_state g' = gl_state g" "gl_current g' = gl_current g"
    "\<And>y t. y \<noteq> key \<Longrightarrow> (y, t) \<in> set (gl_textures g') \<longleftrightarrow> (y, t) \<in> set (gl_textures g)"
    "\<And>y s. y \<noteq> key \<Longrightarrow> renderer_inv y s g \<Longrightarrow> renderer_inv y s g'" by blast+
qed

section \<open>A game's life\<close>

text \<open>
  What a game does: makes contexts current, changes their pixel state as it likes, swaps through
  any of the four functions, destroys contexts (which the driver then frees, with what is in them).
\<close>

datatype gl_event =
    Make_current nat
  | Game_sets pixel_state
  | Swap_egl client_state int "int \<times> int" "int list"
  | Swap_khr client_state int "int \<times> int" "int list"
  | Swap_ext client_state int "int \<times> int" "int list"
  | Swap_glx client_state int "u32 \<times> u32" "int list"
  | Destroy_egl int nat
  | Destroy_glx int nat

definition driver_done :: "gl_env \<Rightarrow> string \<Rightarrow> nat \<Rightarrow> gl_world \<Rightarrow> gl_world" where
  "driver_done e name x w = (if has_real e name then w\<lparr>gw_gl := driver_destroys x (gw_gl w)\<rparr> else w)"

fun gl_step :: "gl_env \<Rightarrow> gl_event \<Rightarrow> gl_world \<Rightarrow> gl_world" where
  "gl_step e (Make_current x) w = w\<lparr>gw_gl := (gw_gl w)\<lparr>gl_current := x\<rparr>\<rparr>"
| "gl_step e (Game_sets p) w = w\<lparr>gw_gl := (gw_gl w)\<lparr>gl_state := (gl_state (gw_gl w))(gl_current (gw_gl w) := p)\<rparr>\<rparr>"
| "gl_step e (Swap_egl client now q args) w = snd (eglSwapBuffers e client now q args w)"
| "gl_step e (Swap_khr client now q args) w = snd (eglSwapBuffersWithDamageKHR e client now q args w)"
| "gl_step e (Swap_ext client now q args) w = snd (eglSwapBuffersWithDamageEXT e client now q args w)"
| "gl_step e (Swap_glx client now q args) w = glXSwapBuffers e client now q args w"
| "gl_step e (Destroy_egl dpy x) w = driver_done e ''eglDestroyContext'' x (snd (eglDestroyContext e dpy x w))"
| "gl_step e (Destroy_glx dpy x) w = driver_done e ''glXDestroyContext'' x (glXDestroyContext e dpy x w)"

definition gl_run :: "gl_env \<Rightarrow> gl_event list \<Rightarrow> gl_world \<Rightarrow> gl_world" where
  "gl_run e evs w = fold (gl_step e) evs w"

definition gw_inv :: "gl_world \<Rightarrow> bool" where
  "gw_inv w \<longleftrightarrow> world_inv (gw_ip w) (gw_gl w)"

lemma call_real_fields [simp]:
  "gw_ip (snd (call_real e n a w)) = gw_ip w" "gw_gl (snd (call_real e n a w)) = gw_gl w"
  "gw_calls (snd (call_real e n a w)) = gw_calls w @ (if has_real e n then [(n, a)] else [])"
  "fst (call_real e n a w) = (if has_real e n then ge_real e n a else 0)"
  by (simp_all add: call_real_def)

lemma egl_draw_inv:
  assumes "gw_inv w" and "ui_leaves (ge_ui e)"
  shows "gw_inv (egl_draw e api client now q w)" "gl_state (gw_gl (egl_draw e api client now q w)) = gl_state (gw_gl w)"
    "gw_calls (egl_draw e api client now q w) = gw_calls w"
proof -
  let ?ip = "log_banner_once (ge_level e) (ge_comm e) api (gw_ip w)"
  obtain ip g where d: "draw_overlay_for e client now (egl_current_ctx e (gw_gl w)) (egl_extent e (gw_gl w) q) (?ip, gw_gl w) = (ip, g)"
    by fastforce
  have i: "world_inv ?ip (gw_gl w)" using assms(1) world_inv_log [of ?ip "gw_ip w"] by (simp add: gw_inv_def)
  have k: "egl_current_ctx e (gw_gl w) = 0 \<or> egl_current_ctx e (gw_gl w) = gl_current (gw_gl w)" by (simp add: egl_current_ctx_def)
  from draw_for_inv [OF i d assms(2) k]
  show "gw_inv (egl_draw e api client now q w)" "gl_state (gw_gl (egl_draw e api client now q w)) = gl_state (gw_gl w)"
    "gw_calls (egl_draw e api client now q w) = gw_calls w"
    using d by (simp_all add: egl_draw_def gw_inv_def)
qed

lemma glx_swap_inv:
  assumes "gw_inv w" and "ui_leaves (ge_ui e)"
  shows "gw_inv (glXSwapBuffers e client now q args w)" "gl_state (gw_gl (glXSwapBuffers e client now q args w)) = gl_state (gw_gl w)"
    "gw_calls (glXSwapBuffers e client now q args w) =
       gw_calls w @ (if has_real e ''glXSwapBuffers'' then [(''glXSwapBuffers'', args)] else [])"
proof -
  let ?ip = "log_banner_once (ge_level e) (ge_comm e) ''glXSwapBuffers'' (gw_ip w)"
  obtain ip g where d: "draw_overlay_for e client now (glx_current_ctx e (gw_gl w)) (glx_extent e (gw_gl w) q) (?ip, gw_gl w) = (ip, g)"
    by fastforce
  have i: "world_inv ?ip (gw_gl w)" using assms(1) world_inv_log [of ?ip "gw_ip w"] by (simp add: gw_inv_def)
  have k: "glx_current_ctx e (gw_gl w) = 0 \<or> glx_current_ctx e (gw_gl w) = gl_current (gw_gl w)" by (simp add: glx_current_ctx_def)
  from draw_for_inv [OF i d assms(2) k]
  show "gw_inv (glXSwapBuffers e client now q args w)" "gl_state (gw_gl (glXSwapBuffers e client now q args w)) = gl_state (gw_gl w)"
    "gw_calls (glXSwapBuffers e client now q args w) =
       gw_calls w @ (if has_real e ''glXSwapBuffers'' then [(''glXSwapBuffers'', args)] else [])"
    using d by (simp_all add: glXSwapBuffers_def gw_inv_def)
qed

lemma destroy_inv:
  assumes "gw_inv w"
  shows "world_inv (gw_ip (destroy_with e x w)) (driver_destroys x (gw_gl (destroy_with e x w)))"
proof -
  obtain ip g where d: "destroy_ctx e x (gw_ip w, gw_gl w) = (ip, g)" by fastforce
  have w: "world_inv (gw_ip w) (gw_gl w)" using assms by (simp add: gw_inv_def)
  note f = destroy_fields [OF w d]
  let ?g = "driver_destroys x g"
  have 1: "gl_ok ?g" "objects_wf ?g"
    using f(2,3) by (auto simp: driver_destroys_def objects_wf_def gl_wf_def)
  have t: "(y, t) \<in> set (gl_textures ?g) \<longleftrightarrow> y \<noteq> x \<and> (y, t) \<in> set (gl_textures (gw_gl w))" for y t
    using f(6) by (auto simp: driver_destroys_def)
  have o: "owns y c ?g = owns y c (gw_gl w)" if "y \<noteq> x" for y c using that t by (simp add: owns_def)
  have r: "renderer_inv y s ?g" if "y \<noteq> x" "renderer_inv y s (gw_gl w)" for y s
    using f(7) [OF that] that(1) by (auto simp: renderer_inv_def driver_destroys_def split: if_splits)
  have "world_inv ip ?g" using w 1 t o r f(1) unfolding world_inv_def by auto
  then show ?thesis using d by (simp add: destroy_with_def)
qed

lemma gl_step_inv:
  assumes "gw_inv w" and "ui_leaves (ge_ui e)" and "has_real e ''eglDestroyContext''" "has_real e ''glXDestroyContext''"
  shows "gw_inv (gl_step e ev w)"
proof (cases ev)
  case (Make_current x)
  then show ?thesis
    using assms(1) by (simp add: gw_inv_def world_inv_def objects_wf_def gl_wf_def owns_def renderer_inv_def)
next
  case (Game_sets p)
  then show ?thesis
    using assms(1) by (simp add: gw_inv_def world_inv_def objects_wf_def gl_wf_def owns_def renderer_inv_def)
next
  case (Destroy_egl dpy x)
  then show ?thesis
    using destroy_inv [OF assms(1), of e x] assms(3) by (simp add: driver_done_def eglDestroyContext_def gw_inv_def)
next
  case (Destroy_glx dpy x)
  then show ?thesis
    using destroy_inv [OF assms(1), of e x] assms(4) by (simp add: driver_done_def glXDestroyContext_def gw_inv_def)
qed (use egl_draw_inv(1) [OF assms(1,2)] glx_swap_inv(1) [OF assms(1,2)] in
      \<open>simp_all add: eglSwapBuffers_def eglSwapBuffersWithDamageKHR_def eglSwapBuffersWithDamageEXT_def gw_inv_def\<close>)

lemma gl_run_inv:
  "gw_inv w \<Longrightarrow> ui_leaves (ge_ui e) \<Longrightarrow> has_real e ''eglDestroyContext'' \<Longrightarrow> has_real e ''glXDestroyContext'' \<Longrightarrow>
     gw_inv (gl_run e evs w)"
  unfolding gl_run_def by (induction evs arbitrary: w) (simp_all add: gl_step_inv)

text \<open>The process as the library is loaded: the game's pixel state is arbitrary.\<close>

definition new_gl_world :: "(nat \<Rightarrow> pixel_state) \<Rightarrow> bool list \<Rightarrow> gl_world" where
  "new_gl_world st answers = \<lparr>gw_ip = new_interposer,
     gw_gl = \<lparr>gl_current = 0, gl_next = 0, gl_state = st, gl_textures = [], gl_images = Map.empty, gl_backends = [],
       gl_imgui = [], gl_answers = answers, gl_ok = True\<rparr>, gw_calls = []\<rparr>"

lemma new_gl_world_inv [simp]: "gw_inv (new_gl_world st answers)"
  by (simp add: gw_inv_def world_inv_def new_gl_world_def new_interposer_def objects_wf_def gl_wf_def)

section \<open>Properties\<close>



text \<open>A linker that knows nothing of the hooks.\<close>

definition foreign :: "linker \<Rightarrow> bool" where
  "foreign lk \<longleftrightarrow> (\<forall>h n m. ln_sym lk h n \<noteq> Hook m) \<and> (\<forall>a n m. ln_call lk a n \<noteq> Hook m)"

lemma search_libs_foreign: "foreign lk \<Longrightarrow> search_libs lk (ln_sym lk) libs name \<noteq> Hook m"
  by (induction libs) (auto simp: foreign_def)

text \<open>
  Names resolve to the right function. The overlay's own lookups never find its own hooks,
  however deep they search, if the real \<open>dlsym\<close> and the drivers' resolvers do not hand them out;
  and the exported \<open>dlsym\<close> answers the four swap names with the hooks and every other name as the
  real one does.
\<close>

theorem names_resolve:
  assumes "foreign (ge_linker e)" and "ln_dlvsym (ge_linker e)"
  shows "real_gl_proc (ge_linker e) name \<noteq> Hook m \<and> get_proc (ge_linker e) name \<noteq> Hook m \<and>
    fst (dlsym e h name ip) =
      (if name = ''eglSwapBuffers'' \<or> name = ''eglSwapBuffersWithDamageKHR'' \<or> name = ''eglSwapBuffersWithDamageEXT'' \<or>
          name = ''glXSwapBuffers''
       then Hook name else ln_sym (ge_linker e) h name)"
proof -
  have f: "ln_sym (ge_linker e) h n \<noteq> Hook m" "ln_call (ge_linker e) a n \<noteq> Hook m" for h a n m
    using assms(1) by (simp_all add: foreign_def)
  have s: "search_libs (ge_linker e) (ln_sym (ge_linker e)) libs n \<noteq> Hook m" for libs n m
    by (rule search_libs_foreign [OF assms(1)])
  have v: "vendor_sym (ge_linker e) n \<noteq> Hook m" for n m
    using f s by (simp add: vendor_sym_def real_dlsym_def assms(2))
  have r: "real_gl_proc (ge_linker e) name \<noteq> Hook m"
    using f s by (simp add: real_gl_proc_def real_dlsym_def assms(2))
  have "call_addr (ge_linker e) a name \<noteq> Hook m" for a using f by (simp add: call_addr_def split: addr.splits)
  then have "get_proc (ge_linker e) name \<noteq> Hook m" using v by (simp add: get_proc_def Let_def)
  then show ?thesis using r by (simp add: dlsym_def hook_for_def real_dlsym_def assms(2))
qed


section \<open>Witnesses\<close>

definition demo_linker :: linker where
  "demo_linker = \<lparr>ln_dlvsym = True, ln_sym = (\<lambda>_ _. Addr 1), ln_mapped = (\<lambda>_. True), ln_call = (\<lambda>_ _. Addr 2)\<rparr>"

definition demo_ui :: ui_lib where
  "demo_ui = \<lparr>ui_new_frame = (\<lambda>_. need True), ui_render = need True,
     ui_icons = (\<lambda>s _ _. map p_avatar_hash (s_participants s))\<rparr>"

definition demo_env :: gl_env where
  "demo_env = \<lparr>ge_env = Map.empty, ge_level = 1, ge_comm = None, ge_linker = demo_linker, ge_real = (\<lambda>_ _. 1),
     ge_is_egl = (\<lambda>_. True), ge_ui = demo_ui,
     ge_files = (\<lambda>_. Some (map byte_of ''CHAV'' @ [1, 0, 0, 0, 1, 0, 0, 0, 255, 0, 0, 255]))\<rparr>"

text \<open>A client in a channel with one member, whose avatar was announced.\<close>

definition demo_client :: client_state where
  "demo_client = enqueue_avatar \<lparr>q_hash = ''a'', q_path = ''/a'', q_w = 1, q_h = 1\<rparr>
     (publish (new_snapshot\<lparr>s_in_voice := True, s_participants := [new_participant\<lparr>p_avatar_hash := ''a''\<rparr>]\<rparr>) new_client_state)"

text \<open>A game that keeps an unpack buffer bound.\<close>

definition game_pixels :: "nat \<Rightarrow> pixel_state" where
  "game_pixels x = \<lparr>u_binding = 9, u_pbo = 5, u_align = 8, u_row = 64, u_skip_rows = 1, u_skip_pixels = 2, u_viewport = (640, 480)\<rparr>"

lemma demo_facts:
  "ui_leaves (ge_ui demo_env)" "has_real demo_env n" "procs demo_env n"
  by (simp_all add: demo_env_def demo_ui_def ui_leaves_def leaves_def objects_def has_real_def real_gl_proc_def
      real_dlsym_def demo_linker_def procs_def get_proc_def vendor_sym_def call_addr_def)

definition demo_gl :: gl where
  "demo_gl = \<lparr>gl_current = 1, gl_next = 1, gl_state = game_pixels, gl_textures = [], gl_images = Map.empty,
     gl_backends = [(1, 1)], gl_imgui = [1], gl_answers = [], gl_ok = True\<rparr>"

lemma demo_client_facts:
  "\<not> disabled demo_client" "\<exists>sn. latest demo_client = Some sn \<and> s_in_voice sn \<and> ui_icons (ge_ui demo_env) sn wh now = [''a'']"
  "avatar_for demo_client ''a'' = Some \<lparr>q_hash = ''a'', q_path = ''/a'', q_w = 1, q_h = 1\<rparr>"
  by (simp_all add: demo_client_def enqueue_avatar_def publish_def new_client_state_def demo_env_def demo_ui_def avatar_for_def)

lemma demo_read: "read_avatar_rgba (ge_files demo_env p) = Some (1, 1, [255, 0, 0, 255])"
  unfolding demo_env_def by code_simp

lemma demo_drawn:
  "fst (gr_draw (ge_ui demo_env) (procs demo_env) (ge_files demo_env) demo_client (latest demo_client) (640, 480) 5
     \<lparr>gr_init_done = True, gr_ctx = 1\<rparr> [] demo_gl) = [(''a'', 2)]"
  using demo_client_facts(2) [of "(640,480)" 5]
  apply (elim exE conjE)
  apply (simp add: gr_draw_def clean_unpack_def demo_facts demo_gl_def game_pixels_def pixels_def set_pixels_def
      unpack_alignment_def need_def unpack_procs_def)
  apply (simp add: Let_def resolve_icon_def gl_lookup_def demo_client_facts gl_get_or_load_def demo_read demo_facts
      texture_procs_def split_def)
  apply (simp add: gen_texture_def gl_ask_def need_def demo_env_def demo_ui_def)
  done


definition demo_events :: "gl_event list" where
  "demo_events = [Make_current 1, Game_sets (game_pixels 0), Swap_egl demo_client 5 (640, 480) [7, 8], Make_current 2,
     Swap_glx demo_client 6 (0, 0) [7, 9], Destroy_egl 7 1, Swap_egl demo_client 7 (640, 480) [7, 8], Destroy_glx 7 2]"



theorem names_resolve_witness:
  "foreign demo_linker \<and> real_gl_proc demo_linker ''glXSwapBuffers'' = Addr 1 \<and>
     fst (dlsym demo_env (Handle 3) ''glXSwapBuffers'' new_interposer) = Hook ''glXSwapBuffers'' \<and>
     fst (dlsym demo_env (Handle 3) ''malloc'' new_interposer) = Addr 1"
proof -
  have f: "foreign demo_linker" "ge_linker demo_env = demo_linker" "ln_dlvsym demo_linker"
    by (simp_all add: foreign_def demo_linker_def demo_env_def)
  from names_resolve [of demo_env "''glXSwapBuffers''" "''x''" "Handle 3" new_interposer, unfolded f(2), OF f(1,3)]
    names_resolve [of demo_env "''malloc''" "''x''" "Handle 3" new_interposer, unfolded f(2), OF f(1,3)] f(1)
  show ?thesis by (simp add: real_gl_proc_def real_dlsym_def demo_linker_def)
qed

end
