(* ===== verification/HostFiles.thy ===== *)
theory HostFiles
  imports Prelude "HOL-Library.AList"
begin

text \<open>
  The file system as the host uses it: files with contents and mode, and a script of what the
  kernel answers (whether the next fallible call succeeds, how much the next write takes; success
  once a script is exhausted). Every change is also kept in \<open>fs_past\<close>, so that a theorem can speak
  of every moment, as another process or a crash would see it.
\<close>

type_synonym files = "(string \<times> string \<times> nat) list"

datatype write_answer = Took nat | Interrupted | Write_error

record fs =
  fs_files :: files
  fs_dirs :: "string list"
  fs_answers :: "bool list"
  fs_writes :: "write_answer list"
  fs_past :: "files list"

definition content_of :: "files \<Rightarrow> string \<Rightarrow> string option" where
  "content_of fl path = map_option fst (map_of fl path)"

definition mode_of :: "files \<Rightarrow> string \<Rightarrow> nat option" where
  "mode_of fl path = map_option snd (map_of fl path)"

definition fs_ask :: "fs \<Rightarrow> bool \<times> fs" where
  "fs_ask s = (case fs_answers s of [] \<Rightarrow> (True, s) | b # bs \<Rightarrow> (b, s\<lparr>fs_answers := bs\<rparr>))"

definition fs_set :: "files \<Rightarrow> fs \<Rightarrow> fs" where
  "fs_set fl s = s\<lparr>fs_files := fl, fs_past := fl # fs_past s\<rparr>"

text \<open>Reading a whole file: \<^term>\<open>None\<close> when it is absent or cannot be read.\<close>

definition read_file :: "string \<Rightarrow> fs \<Rightarrow> string option \<times> fs" where
  "read_file path s = (let (ok, s) = fs_ask s in (if ok then content_of (fs_files s) path else None, s))"

text \<open>
  \<^verbatim>\<open>open(path, O_CREAT | O_WRONLY | O_TRUNC, mode)\<close>: a new file gets the mode (the umask takes
  nothing from the modes used here that matters), one that exists keeps its own.
\<close>

definition open_trunc :: "string \<Rightarrow> nat \<Rightarrow> fs \<Rightarrow> bool \<times> fs" where
  "open_trunc path mode s =
     (let (ok, s) = fs_ask s in
      if \<not> ok then (False, s)
      else (True, fs_set (AList.update path ([], case mode_of (fs_files s) path of Some m \<Rightarrow> m | None \<Rightarrow> mode) (fs_files s)) s))"

text \<open>\<^verbatim>\<open>fchmod\<close>, whose result the program does not look at.\<close>

definition fchmod :: "string \<Rightarrow> nat \<Rightarrow> fs \<Rightarrow> fs" where
  "fchmod path mode s =
     (let (ok, s) = fs_ask s in
      case content_of (fs_files s) path of
        Some c \<Rightarrow> if ok then fs_set (AList.update path (c, mode) (fs_files s)) s else s
      | None \<Rightarrow> s)"

definition append_to :: "string \<Rightarrow> string \<Rightarrow> fs \<Rightarrow> fs" where
  "append_to path d s =
     (case map_of (fs_files s) path of
        Some (c, m) \<Rightarrow> fs_set (AList.update path (c @ d, m) (fs_files s)) s
      | None \<Rightarrow> s)"

text \<open>The loop around \<^verbatim>\<open>write\<close>, over the kernel's answers.\<close>

fun write_loop :: "write_answer list \<Rightarrow> string \<Rightarrow> string \<Rightarrow> fs \<Rightarrow> bool \<times> fs" where
  "write_loop ws path [] s = (True, s\<lparr>fs_writes := ws\<rparr>)"
| "write_loop [] path left s = (True, append_to path left s)"
| "write_loop (Interrupted # ws) path left s = write_loop ws path left s"
| "write_loop (Write_error # ws) path left s = (False, s\<lparr>fs_writes := ws\<rparr>)"
| "write_loop (Took n # ws) path left s = write_loop ws path (drop n left) (append_to path (take n left) s)"

definition write_all :: "string \<Rightarrow> string \<Rightarrow> fs \<Rightarrow> bool \<times> fs" where
  "write_all path data s = (let ws = fs_writes s in write_loop ws path data (s\<lparr>fs_writes := []\<rparr>))"

definition rename_file :: "string \<Rightarrow> string \<Rightarrow> fs \<Rightarrow> bool \<times> fs" where
  "rename_file from to s =
     (let (ok, s) = fs_ask s in
      case map_of (fs_files s) from of
        Some f \<Rightarrow> if ok then (True, fs_set (AList.update to f (AList.delete from (fs_files s))) s) else (False, s)
      | None \<Rightarrow> (False, s))"

text \<open>\<^verbatim>\<open>fs::remove(path, ec)\<close>: an absent file is no error.\<close>

definition remove_file :: "string \<Rightarrow> fs \<Rightarrow> bool \<times> fs" where
  "remove_file path s =
     (if map_of (fs_files s) path = None then (True, s)
      else let (ok, s) = fs_ask s in if ok then (True, fs_set (AList.delete path (fs_files s)) s) else (False, s))"

text \<open>Directories: \<^verbatim>\<open>mkdir\<close> and \<^verbatim>\<open>create_directories\<close>, and removing an empty one.\<close>

definition make_dir :: "string \<Rightarrow> fs \<Rightarrow> bool \<times> fs" where
  "make_dir d s =
     (let (ok, s) = fs_ask s in (ok, if ok then s\<lparr>fs_dirs := List.insert d (fs_dirs s)\<rparr> else s))"

definition remove_dir :: "string \<Rightarrow> fs \<Rightarrow> fs" where
  "remove_dir d s =
     (if list_ex (\<lambda>f. take (length d + 1) (fst f) = d @ ''/'') (fs_files s) then s
      else let (ok, s) = fs_ask s in if ok then s\<lparr>fs_dirs := removeAll d (fs_dirs s)\<rparr> else s)"

definition dirname :: "string \<Rightarrow> string" where
  "dirname p = (if CHR ''/'' \<in> set p then rev (tl (dropWhile (\<lambda>c. c \<noteq> CHR ''/'') (rev p))) else [])"

text \<open>\<^verbatim>\<open>fs::path::operator/\<close>\<close>

definition path_append :: "string \<Rightarrow> string \<Rightarrow> string" where
  "path_append a b =
     (if b \<noteq> [] \<and> hd b = CHR ''/'' then b
      else if a = [] \<or> last a = CHR ''/'' then a @ b else a @ ''/'' @ b)"

section \<open>Lemmas\<close>

named_theorems files_simps

lemma content_of_update [files_simps]:
  "content_of (AList.update p (c, m) fl) q = (if q = p then Some c else content_of fl q)"
  "mode_of (AList.update p (c, m) fl) q = (if q = p then Some m else mode_of fl q)"
  by (simp_all add: content_of_def mode_of_def update_conv')

lemma content_of_delete [files_simps]:
  "content_of (AList.delete p fl) q = (if q = p then None else content_of fl q)"
  "mode_of (AList.delete p fl) q = (if q = p then None else mode_of fl q)"
  by (simp_all add: content_of_def mode_of_def delete_conv')

lemma fs_set_fields [simp]:
  "fs_files (fs_set fl s) = fl" "fs_past (fs_set fl s) = fl # fs_past s" "fs_answers (fs_set fl s) = fs_answers s"
  "fs_writes (fs_set fl s) = fs_writes s"
  by (simp_all add: fs_set_def)

lemma fs_ask_files: "fs_ask s = (b, s') \<Longrightarrow> fs_files s' = fs_files s \<and> fs_past s' = fs_past s \<and> fs_writes s' = fs_writes s"
  by (auto simp: fs_ask_def split: list.splits)

text \<open>
  An operation that touches \<open>paths\<close> only: at every moment since, all other files are what they
  were; \<open>I\<close> says what else held at each moment.
\<close>

definition touches :: "string set \<Rightarrow> fs \<Rightarrow> fs \<Rightarrow> bool" where
  "touches ps s s' \<longleftrightarrow> (\<forall>q. q \<notin> ps \<longrightarrow> map_of (fs_files s') q = map_of (fs_files s) q) \<and>
     (\<exists>new. fs_past s' = new @ fs_past s \<and> (\<forall>fl \<in> set new. \<forall>q. q \<notin> ps \<longrightarrow> map_of fl q = map_of (fs_files s) q))"

lemma touches_refl [simp]: "touches ps s s"
  by (simp add: touches_def)

lemma touches_same: "fs_files s' = fs_files s \<Longrightarrow> fs_past s' = fs_past s \<Longrightarrow> touches ps s s'"
  by (simp add: touches_def)

lemma touches_trans [trans]: "touches ps s1 s2 \<Longrightarrow> touches ps s2 s3 \<Longrightarrow> touches ps s1 s3"
  unfolding touches_def by fastforce

lemma touches_mono: "touches ps s s' \<Longrightarrow> ps \<subseteq> qs \<Longrightarrow> touches qs s s'"
  unfolding touches_def by (meson subsetD)

lemma touches_set: "(\<And>q. q \<notin> ps \<Longrightarrow> map_of fl q = map_of (fs_files s) q) \<Longrightarrow> touches ps s (fs_set fl s)"
  unfolding touches_def by (auto intro!: exI [of _ "[fl]"])

lemma touches_asked: "fs_ask s = (b, s1) \<Longrightarrow> touches ps s s1"
  using touches_same fs_ask_files by metis

lemma touches_ask_set:
  "fs_ask s = (b, s1) \<Longrightarrow> (\<And>q. q \<notin> ps \<Longrightarrow> map_of fl q = map_of (fs_files s1) q) \<Longrightarrow> touches ps s (fs_set fl s1)"
  using touches_trans [OF touches_asked touches_set] by blast

lemma touches_update:
  "touches {p} s (fs_set (AList.update p f (fs_files s)) s)"
  "fs_ask s = (b, s1) \<Longrightarrow> touches {p} s (fs_set (AList.update p f (fs_files s1)) s1)"
  by (rule touches_set touches_ask_set; simp add: update_conv')+

lemma touches_open: "open_trunc p m s = (ok, s') \<Longrightarrow> touches {p} s s'"
  by (auto simp: open_trunc_def Let_def intro: touches_asked touches_update split: prod.splits if_splits)

lemma touches_append: "touches {p} s (append_to p d s)"
  by (auto simp: append_to_def intro: touches_update split: option.splits)

lemma touches_fchmod: "touches {p} s (fchmod p m s)"
  by (cases "fs_ask s") (auto simp: fchmod_def Let_def intro: touches_asked touches_update split: option.splits)

lemma touches_write_loop: "write_loop ws p d s = (ok, s') \<Longrightarrow> touches {p} s s'"
proof (induction ws p d s rule: write_loop.induct)
  case (5 n ws path v va s)
  then show ?case using touches_trans [OF touches_append] by simp
qed (auto intro: touches_append touches_same)

lemma touches_write_all: "write_all p d s = (ok, s') \<Longrightarrow> touches {p} s s'"
  using touches_trans [OF touches_same [of "s\<lparr>fs_writes := []\<rparr>" s] touches_write_loop] by (simp add: write_all_def)

lemma touches_rename: "rename_file p q s = (ok, s') \<Longrightarrow> touches {p, q} s s'"
  by (cases "fs_ask s")
    (auto simp: rename_file_def Let_def update_conv' delete_conv' intro: touches_asked touches_ask_set split: option.splits if_splits)

lemma touches_remove: "remove_file p s = (ok, s') \<Longrightarrow> touches {p} s s'"
  by (cases "fs_ask s")
    (auto simp: remove_file_def Let_def delete_conv' intro: touches_asked touches_ask_set split: if_splits)

lemma make_dir_files: "make_dir d s = (ok, s') \<Longrightarrow> fs_files s' = fs_files s \<and> fs_past s' = fs_past s \<and> fs_writes s' = fs_writes s"
  by (auto simp: make_dir_def split: prod.splits if_splits dest: fs_ask_files)

lemma touches_make_dir: "make_dir d s = (ok, s') \<Longrightarrow> touches ps s s'"
  using touches_same make_dir_files by metis

lemma remove_dir_files [simp]: "fs_files (remove_dir d s) = fs_files s" "fs_past (remove_dir d s) = fs_past s"
  by (auto simp: remove_dir_def split: prod.splits dest: fs_ask_files)

text \<open>A write loop that succeeds has written everything.\<close>

lemma write_loop_content:
  "write_loop ws p d s = (True, s') \<Longrightarrow> map_of (fs_files s) p = Some (c, m) \<Longrightarrow>
     map_of (fs_files s') p = Some (c @ d, m)"
proof (induction ws p d s arbitrary: c rule: write_loop.induct)
  case (5 n ws path v va s)
  let ?s = "append_to path (take n (v # va)) s"
  have "map_of (fs_files ?s) path = Some (c @ take n (v # va), m)" using 5(3) by (simp add: append_to_def update_conv')
  with 5 show ?case by fastforce
qed (auto simp: append_to_def update_conv')

lemma write_all_content:
  "write_all p d s = (True, s') \<Longrightarrow> map_of (fs_files s) p = Some (c, m) \<Longrightarrow> map_of (fs_files s') p = Some (c @ d, m)"
  by (auto simp: write_all_def Let_def dest!: write_loop_content)

text \<open>What held at every moment between two states, the last one included.\<close>

definition since :: "(files \<Rightarrow> bool) \<Rightarrow> fs \<Rightarrow> fs \<Rightarrow> bool" where
  "since P s s' \<longleftrightarrow> (\<exists>new. fs_past s' = new @ fs_past s \<and> list_all P (fs_files s' # new))"

lemma since_trans: "since P s1 s2 \<Longrightarrow> since P s2 s3 \<Longrightarrow> since P s1 s3"
  by (fastforce simp: since_def)

lemma since_mono: "since P s s' \<Longrightarrow> (\<And>fl. P fl \<Longrightarrow> Q fl) \<Longrightarrow> since Q s s'"
  unfolding since_def by (metis (mono_tags, lifting) list.pred_mono_strong)

lemma since_now: "since P s s' \<Longrightarrow> P (fs_files s')"
  by (auto simp: since_def)

lemma since_same: "fs_files s' = fs_files s \<Longrightarrow> fs_past s' = fs_past s \<Longrightarrow> P (fs_files s) \<Longrightarrow> since P s s'"
  by (auto simp: since_def)

lemma since_mode_append:
  "mode_of (fs_files s) p = Some m \<Longrightarrow> since (\<lambda>fl. mode_of fl p = Some m) s (append_to p d s)"
  by (auto simp: append_to_def since_def mode_of_def update_conv' split: option.splits)

lemma since_mode_write:
  "write_loop ws p d s = (ok, s') \<Longrightarrow> mode_of (fs_files s) p = Some m \<Longrightarrow> since (\<lambda>fl. mode_of fl p = Some m) s s'"
proof (induction ws p d s rule: write_loop.induct)
  case (5 n ws path v va s)
  have a: "since (\<lambda>fl. mode_of fl path = Some m) s (append_to path (take n (v # va)) s)" using since_mode_append 5(3) .
  then show ?case using 5 since_trans [OF a] since_now [OF a] by simp
qed (auto intro: since_mode_append since_same)

lemma since_mode_write_all:
  "write_all p d s = (ok, s') \<Longrightarrow> mode_of (fs_files s) p = Some m \<Longrightarrow> since (\<lambda>fl. mode_of fl p = Some m) s s'"
  using since_mode_write [of "fs_writes s" p d "s\<lparr>fs_writes := []\<rparr>" ok s' m] by (simp add: write_all_def since_def)

text \<open>A kernel that refuses nothing.\<close>

definition granted :: "fs \<Rightarrow> bool" where
  "granted s \<longleftrightarrow> list_all id (fs_answers s)"

lemma granted_ask: "granted s \<Longrightarrow> fs_ask s = (b, s') \<Longrightarrow> b \<and> granted s'"
  by (auto simp: granted_def fs_ask_def split: list.splits)

lemma open_trunc_map:
  "open_trunc p m s = (True, s') \<Longrightarrow> \<exists>k. map_of (fs_files s') p = Some ([], k)"
  by (auto simp: open_trunc_def Let_def update_conv' split: prod.splits if_splits)

lemma fchmod_map: "map_of (fs_files s) p = Some (c, m) \<Longrightarrow> \<exists>k. map_of (fs_files (fchmod p n s)) p = Some (c, k)"
  by (cases "fs_ask s")
    (auto simp: fchmod_def Let_def content_of_def update_conv' dest!: fs_ask_files split: option.splits)

end
