(* ===== verification/Backends.thy ===== *)
theory Backends
  imports HostFiles Json Paths
begin

text \<open>
  Installing the two injected libraries from an AppImage (\<^verbatim>\<open>src/host/config/backends.cpp\<close>): files
  replaced by renaming, the manifest written last and removed first, and the generated launch
  script.
\<close>

section \<open>Definitions\<close>

definition kLayerLib :: string where "kLayerLib = ''libchoir_overlay.so''"
definition kGlLib :: string where "kGlLib = ''libchoir_gl.so''"

text \<open>The directories above the path are asked for; the write goes to a sibling and is renamed.\<close>

definition tmp_of :: "string \<Rightarrow> string" where
  "tmp_of path = path @ ''.choir-tmp''"

definition write_atomic :: "string \<Rightarrow> string \<Rightarrow> nat \<Rightarrow> fs \<Rightarrow> bool \<times> fs" where
  "write_atomic path data mode s =
     (let (made, s) = make_dir (dirname path) s in
      if \<not> made then (False, s)
      else
        let tmp = tmp_of path; (opened, s) = open_trunc tmp mode s in
        if \<not> opened then (False, s)
        else
          let s = fchmod tmp mode s;
              (ok, s) = write_all tmp data s;
              (closed, s) = fs_ask s;
              ok = (ok \<and> closed);
              (ok, s) = (if ok then rename_file tmp path s else (False, s))
          in if \<not> ok then (False, snd (remove_file tmp s)) else (True, s))"

fun quote_chars :: "string \<Rightarrow> string" where
  "quote_chars [] = []"
| "quote_chars (c # cs) = (if c = CHR 0x27 then [CHR 0x27, CHR 0x5C, CHR 0x27, CHR 0x27] else [c]) @ quote_chars cs"

definition shell_quote :: "string \<Rightarrow> string" where
  "shell_quote s = [CHR 0x27] @ quote_chars s @ [CHR 0x27]"

text \<open>\<^verbatim>\<open>dump\<close> throws on a path that is not UTF-8: \<^term>\<open>None\<close>.\<close>

definition layer_manifest :: "json_lib \<Rightarrow> string \<Rightarrow> string option" where
  "layer_manifest lib lib_path =
     map_option (\<lambda>t. t @ [CHR 0x0A])
       (lib_dump lib (jobj
          [(''file_format_version'', JStr ''1.2.0''),
           (''layer'', jobj
              [(''name'', JStr ''VK_LAYER_choir_overlay_x86_64''),
               (''type'', JStr ''GLOBAL''),
               (''library_path'', JStr lib_path),
               (''api_version'', JStr ''1.1.0''),
               (''implementation_version'', JStr ''1''),
               (''description'', JStr (''Choir '' @ [CHR 0xE2, CHR 0x80, CHR 0x94] @ '' an overlay for Discord'')),
               (''disable_environment'', jobj [(''DISABLE_CHOIR_OVERLAY'', JStr ''1'')])])]))"

definition unlines :: "string list \<Rightarrow> string" where
  "unlines ls = concat (map (\<lambda>l. l @ [CHR 0x0A]) ls)"

definition gl_wrapper_script :: "string \<Rightarrow> string" where
  \<open>gl_wrapper_script gl_lib = unlines
     [''#!/bin/sh'',
      ''# Inject the Choir GL overlay into an OpenGL game:'',
      ''#   choir-run <game'' @ [CHR 0xE2, CHR 0x80, CHR 0xA6] @ ''>            # direct'',
      ''#   choir-run %command%          # Steam launch option'',
      ''# Generated by the Choir host for this AppImage install; regenerated whenever the'',
      ''# payload changes. Override the lib path with CHOIR_GL_LIB if needed.'',
      ''default_lib='' @ shell_quote gl_lib,
      ''lib="${CHOIR_GL_LIB:-$default_lib}"'',
      ''if [ -e "$lib" ]; then'',
      ''  # PREPEND (not append) to any existing LD_PRELOAD so Choir loads FIRST. If another'',
      ''  # GL overlay is already injected (e.g. MangoHud), the first interposer wins the hook'',
      ''  # and chains down to the rest; appending would put Choir last, where the earlier'',
      ''  # overlay can resolve the real swap directly and bypass us.'',
      ''  export LD_PRELOAD="$lib${LD_PRELOAD:+:$LD_PRELOAD}"'',
      ''else'',
      ''  # Don't preload a missing path: the loader would warn for the game AND every child'',
      ''  # process it spawns. Launch anyway '' @ [CHR 0xE2, CHR 0x80, CHR 0x94] @ '' a broken overlay must never stop you playing.'',
      ''  echo "choir-run: GL overlay library not found: $lib" >&2'',
      ''  echo "           launching without the overlay; set CHOIR_GL_LIB or reinstall Choir." >&2'',
      ''fi'',
      ''exec "$@"'']\<close>

definition appimage_dir :: "environment \<Rightarrow> string" where
  "appimage_dir env = env_or env ''APPDIR'' []"

definition appimage_payload_dir :: "environment \<Rightarrow> string" where
  "appimage_payload_dir env =
     (let dir = appimage_dir env in if dir = [] then [] else dir @ ''/usr/lib/choir'')"

definition backend_lib_dir :: "environment \<Rightarrow> string" where
  "backend_lib_dir env = env_or env ''HOME'' [] @ ''/.local/lib/choir''"

definition gl_wrapper_path :: "environment \<Rightarrow> string" where
  "gl_wrapper_path env = env_or env ''HOME'' [] @ ''/.local/bin/choir-run''"

fun same_files :: "string list \<Rightarrow> string \<Rightarrow> string \<Rightarrow> fs \<Rightarrow> bool \<times> fs" where
  "same_files [] src_dir dst_dir s = (True, s)"
| "same_files (name # names) src_dir dst_dir s =
     (let (src, s) = read_file (path_append src_dir name) s in
      if src = None then (False, s)
      else
        let (dst, s) = read_file (path_append dst_dir name) s in
        if dst = None then (False, s)
        else if src \<noteq> dst then (False, s) else same_files names src_dir dst_dir s)"

definition backends_up_to_date :: "string \<Rightarrow> string \<Rightarrow> fs \<Rightarrow> bool \<times> fs" where
  "backends_up_to_date = same_files [kLayerLib, kGlLib]"

definition layer_lib :: "environment \<Rightarrow> string" where
  "layer_lib env = path_append (backend_lib_dir env) kLayerLib"

definition gl_lib :: "environment \<Rightarrow> string" where
  "gl_lib env = path_append (backend_lib_dir env) kGlLib"

text \<open>\<^term>\<open>None\<close>: the manifest could not be printed, and the exception leaves.\<close>

definition install_backends :: "json_lib \<Rightarrow> environment \<Rightarrow> string \<Rightarrow> fs \<Rightarrow> bool option \<times> fs" where
  "install_backends lib env src_dir s =
     (let (layer_bytes, s) = read_file (path_append src_dir kLayerLib) s in
      case layer_bytes of None \<Rightarrow> (Some False, s) | Some layer_bytes \<Rightarrow>
      let (gl_bytes, s) = read_file (path_append src_dir kGlLib) s in
      case gl_bytes of None \<Rightarrow> (Some False, s) | Some gl_bytes \<Rightarrow>
      let (ok, s) = write_atomic (layer_lib env) layer_bytes 493 s in
      if \<not> ok then (Some False, s) else
      let (ok, s) = write_atomic (gl_lib env) gl_bytes 493 s in
      if \<not> ok then (Some False, s) else
      let (ok, s) = write_atomic (gl_wrapper_path env) (gl_wrapper_script (gl_lib env)) 493 s in
      if \<not> ok then (Some False, s) else
      case layer_manifest lib (layer_lib env) of None \<Rightarrow> (None, s) | Some manifest \<Rightarrow>
      let (ok, s) = write_atomic (vulkan_manifest_path env) manifest 420 s in (Some ok, s))"

fun remove_each :: "string list \<Rightarrow> fs \<Rightarrow> bool \<times> fs" where
  "remove_each [] s = (True, s)"
| "remove_each (p # ps) s =
     (let (removed, s) = remove_file p s; (ok, s) = remove_each ps s in (removed \<and> ok, s))"

definition uninstall_backends :: "environment \<Rightarrow> fs \<Rightarrow> bool \<times> fs" where
  "uninstall_backends env s =
     (let (ok, s) = remove_each [vulkan_manifest_path env, gl_wrapper_path env, layer_lib env, gl_lib env] s
      in (ok, remove_dir (backend_lib_dir env) s))"

section \<open>Replacing a file\<close>

text \<open>
  Since \<open>s\<close>, whatever another process saw: files outside \<open>ps\<close> as they were, and of \<open>path\<close> the old
  file or \<open>data\<close> in full.
\<close>

definition replaces :: "string \<Rightarrow> string \<Rightarrow> fs \<Rightarrow> files \<Rightarrow> bool" where
  "replaces path data s fl \<longleftrightarrow>
     (\<forall>q. q \<noteq> path \<and> q \<noteq> tmp_of path \<longrightarrow> map_of fl q = map_of (fs_files s) q) \<and>
     (map_of fl path = map_of (fs_files s) path \<or> content_of fl path = Some data)"

lemma tmp_of_neq [simp]: "tmp_of path \<noteq> path" "path \<noteq> tmp_of path"
  by (simp_all add: tmp_of_def)

lemma touches_since: "touches {tmp_of path} s s' \<Longrightarrow> since (replaces path data s) s s'"
  by (auto simp: touches_def since_def replaces_def list_all_iff)

lemma rename_spec:
  assumes "rename_file tmp p s = (ok, s')" and "map_of (fs_files s) tmp = Some (c, m)" and "tmp \<noteq> p"
  shows "if ok then (\<forall>q. map_of (fs_files s') q = (if q = p then Some (c, m) else if q = tmp then None else map_of (fs_files s) q)) \<and>
      fs_past s' = fs_files s' # fs_past s
    else fs_files s' = fs_files s \<and> fs_past s' = fs_past s"
  using assms by (cases "fs_ask s") (auto simp: rename_file_def Let_def update_conv' delete_conv' dest!: fs_ask_files split: if_splits)

lemma write_atomic_spec:
  assumes "write_atomic path data mode s = (ok, s')"
  shows "since (replaces path data s) s s' \<and>
    (if ok then content_of (fs_files s') path = Some data else map_of (fs_files s') path = map_of (fs_files s) path)"
proof -
  let ?t = "tmp_of path"
  obtain made s0 where 0: "make_dir (dirname path) s = (made, s0)" by fastforce
  obtain opened s1 where 1: "open_trunc ?t mode s0 = (opened, s1)" by fastforce
  obtain wrote s2 where 2: "write_all ?t data (fchmod ?t mode s1) = (wrote, s2)" by fastforce
  obtain closed s3 where 3: "fs_ask s2 = (closed, s3)" by fastforce
  obtain ren s4 where 4: "rename_file ?t path s3 = (ren, s4)" by fastforce
  have t0: "touches {?t} s s0" using touches_make_dir [OF 0] .
  have t1: "touches {?t} s s1" using touches_trans [OF t0 touches_open [OF 1]] .
  have t3: "touches {?t} s s3"
    using touches_trans [OF touches_trans [OF touches_trans [OF t1 touches_fchmod] touches_write_all [OF 2]] touches_asked [OF 3]] .
  have stay: ?thesis if "touches {?t} s s'" "\<not> ok"
    using that touches_since [OF that(1)] by (auto simp: touches_def)
  have fails: ?thesis if "touches {?t} s u" "(ok, s') = (False, snd (remove_file ?t u))" for u
  proof -
    have "touches {?t} s s'" using that touches_trans [OF that(1) touches_remove] by (metis prod.inject surjective_pairing)
    then show ?thesis using stay that(2) by simp
  qed
  show ?thesis
  proof (cases "made \<and> opened")
    case False
    then have "s' = s0 \<or> s' = s1" "\<not> ok" using assms 0 1 by (auto simp: write_atomic_def Let_def split: if_splits)
    then show ?thesis using stay t0 t1 by blast
  next
    case True
    show ?thesis
    proof (cases "wrote \<and> closed \<and> ren")
      case fin: True
      then have e: "ok" "s' = s4" using assms 0 1 2 3 4 True by (simp_all add: write_atomic_def Let_def)
      obtain k where k: "map_of (fs_files s1) ?t = Some ([], k)" using open_trunc_map [of ?t mode s0 s1] 1 True by auto
      obtain m where m: "map_of (fs_files (fchmod ?t mode s1)) ?t = Some ([], m)" using fchmod_map [OF k] by blast
      have "map_of (fs_files s2) ?t = Some (data, m)" using write_all_content [OF _ m, of data s2] 2 fin by simp
      then have "map_of (fs_files s3) ?t = Some (data, m)" using fs_ask_files [OF 3] by simp
      from rename_spec [OF 4 this tmp_of_neq(1)] fin
      have r: "\<And>q. map_of (fs_files s4) q = (if q = path then Some (data, m) else if q = ?t then None else map_of (fs_files s3) q)"
        "fs_past s4 = fs_files s4 # fs_past s3" by simp_all
      have "replaces path data s (fs_files s4)" using t3 r(1) by (auto simp: replaces_def touches_def content_of_def)
      moreover have "since (replaces path data s) s s3" using touches_since [OF t3] .
      ultimately have "since (replaces path data s) s s4" using r(2) by (auto simp: since_def)
      then show ?thesis using e r(1) by (simp add: content_of_def)
    next
      case no: False
      show ?thesis
      proof (cases "wrote \<and> closed")
        case True
        have "fs_files s4 = fs_files s3 \<and> fs_past s4 = fs_past s3"
          using 4 no True by (cases "fs_ask s3") (auto simp: rename_file_def Let_def dest!: fs_ask_files split: option.splits if_splits)
        then have "touches {?t} s s4" using t3 touches_trans touches_same by metis
        moreover have "(ok, s') = (False, snd (remove_file ?t s4))"
          using assms 0 1 2 3 4 \<open>made \<and> opened\<close> True no by (auto simp: write_atomic_def Let_def)
        ultimately show ?thesis by (rule fails)
      next
        case False
        then have "(ok, s') = (False, snd (remove_file ?t s3))"
          using assms 0 1 2 3 \<open>made \<and> opened\<close> by (auto simp: write_atomic_def Let_def)
        then show ?thesis by (rule fails [OF t3])
      qed
    qed
  qed
qed

section \<open>Installing\<close>

lemma paths_apart:
  "layer_lib env \<noteq> gl_lib env" "layer_lib env \<noteq> vulkan_manifest_path env" "gl_lib env \<noteq> vulkan_manifest_path env"
  "gl_wrapper_path env \<noteq> layer_lib env" "gl_wrapper_path env \<noteq> gl_lib env" "gl_wrapper_path env \<noteq> vulkan_manifest_path env"
  "tmp_of p \<noteq> layer_lib env" "tmp_of p \<noteq> gl_lib env" "tmp_of p \<noteq> vulkan_manifest_path env" "tmp_of p \<noteq> gl_wrapper_path env"
proof -
  have e: "p @ u \<noteq> q @ v" if "take 2 (rev u) \<noteq> take 2 (rev v)" "2 \<le> length u" "2 \<le> length v" for p q u v :: string
  proof
    assume "p @ u = q @ v"
    then have "rev u @ rev p = rev v @ rev q" by (metis rev_append)
    then have "take 2 (rev u @ rev p) = take 2 (rev v @ rev q)" by simp
    then show False using that by simp
  qed
  show "layer_lib env \<noteq> gl_lib env" by (simp add: layer_lib_def gl_lib_def path_append_def backend_lib_dir_def kLayerLib_def kGlLib_def)
  show "layer_lib env \<noteq> vulkan_manifest_path env" "gl_lib env \<noteq> vulkan_manifest_path env"
    "gl_wrapper_path env \<noteq> layer_lib env" "gl_wrapper_path env \<noteq> gl_lib env" "gl_wrapper_path env \<noteq> vulkan_manifest_path env"
    "tmp_of p \<noteq> layer_lib env" "tmp_of p \<noteq> gl_lib env" "tmp_of p \<noteq> vulkan_manifest_path env"
    "tmp_of p \<noteq> gl_wrapper_path env"
    by (simp_all add: layer_lib_def gl_lib_def path_append_def backend_lib_dir_def kLayerLib_def kGlLib_def
        vulkan_manifest_path_def gl_wrapper_path_def tmp_of_def e)
qed

lemmas apart [simp] = paths_apart paths_apart [symmetric]

text \<open>The manifest names the layer's library; the script, the other one.\<close>

definition no_dangling :: "environment \<Rightarrow> files \<Rightarrow> bool" where
  "no_dangling env fl \<longleftrightarrow> map_of fl (vulkan_manifest_path env) = None \<or>
     map_of fl (layer_lib env) \<noteq> None \<and> map_of fl (gl_lib env) \<noteq> None"

definition libs_there :: "environment \<Rightarrow> files \<Rightarrow> bool" where
  "libs_there env fl \<longleftrightarrow> map_of fl (layer_lib env) \<noteq> None \<and> map_of fl (gl_lib env) \<noteq> None"

lemma replaces_no_dangling:
  assumes "replaces p d s fl" and "no_dangling env (fs_files s)" and "p = vulkan_manifest_path env \<longrightarrow> libs_there env (fs_files s)"
  shows "no_dangling env fl"
proof -
  have same: "map_of fl q = map_of (fs_files s) q" if "q \<noteq> p" "q \<noteq> tmp_of p" for q using assms(1) that by (simp add: replaces_def)
  have grow: "map_of (fs_files s) q \<noteq> None \<Longrightarrow> map_of fl q \<noteq> None" if "q \<noteq> tmp_of p" for q
    using assms(1) same [OF _ that] by (cases "q = p") (auto simp: replaces_def content_of_def)
  show ?thesis
    using assms(2,3) grow [of "layer_lib env"] grow [of "gl_lib env"] same [of "vulkan_manifest_path env"]
    by (cases "p = vulkan_manifest_path env") (auto simp: no_dangling_def libs_there_def)
qed

lemma write_no_dangling:
  assumes "write_atomic p d m s = (ok, s')" and "no_dangling env (fs_files s)" and "p = vulkan_manifest_path env \<longrightarrow> libs_there env (fs_files s)"
  shows "since (no_dangling env) s s'"
  by (rule since_mono [OF conjunct1 [OF write_atomic_spec [OF assms(1)]]]) (use replaces_no_dangling assms(2,3) in blast)

lemma write_content:
  assumes "write_atomic p d m s = (True, s')" and "q \<noteq> tmp_of p"
  shows "content_of (fs_files s') q = (if q = p then Some d else content_of (fs_files s) q)"
proof -
  have "replaces p d s (fs_files s')" using since_now write_atomic_spec [OF assms(1)] by blast
  then show ?thesis using write_atomic_spec [OF assms(1)] assms(2) by (auto simp: replaces_def content_of_def)
qed

lemma read_file_spec: "read_file p s = (c, s1) \<Longrightarrow> fs_files s1 = fs_files s \<and> fs_past s1 = fs_past s \<and> (c = None \<or> c = content_of (fs_files s) p)"
  by (auto simp: read_file_def Let_def split: prod.splits if_splits dest!: fs_ask_files)

text \<open>How far an installation got.\<close>

lemma install_run:
  assumes "install_backends lib env src s = (r, s')"
  obtains (unread) "fs_files s' = fs_files s" "fs_past s' = fs_past s" "r = Some False"
  | (layer) s0 d1 where "fs_files s0 = fs_files s" "fs_past s0 = fs_past s" "write_atomic (layer_lib env) d1 493 s0 = (False, s')" "r = Some False"
  | (gl) s0 d1 d2 s1 where "fs_files s0 = fs_files s" "fs_past s0 = fs_past s" "write_atomic (layer_lib env) d1 493 s0 = (True, s1)"
      "write_atomic (gl_lib env) d2 493 s1 = (False, s')" "r = Some False"
  | (script) s0 d1 d2 s1 s2 ok s3 where "fs_files s0 = fs_files s" "fs_past s0 = fs_past s" "content_of (fs_files s) (path_append src kLayerLib) = Some d1"
      "content_of (fs_files s) (path_append src kGlLib) = Some d2" "write_atomic (layer_lib env) d1 493 s0 = (True, s1)"
      "write_atomic (gl_lib env) d2 493 s1 = (True, s2)"
      "write_atomic (gl_wrapper_path env) (gl_wrapper_script (gl_lib env)) 493 s2 = (ok, s3)"
      "if ok then case layer_manifest lib (layer_lib env) of None \<Rightarrow> r = None \<and> s' = s3
         | Some t \<Rightarrow> \<exists>ok. write_atomic (vulkan_manifest_path env) t 420 s3 = (ok, s') \<and> r = Some ok
       else r = Some False \<and> s' = s3"
proof -
  obtain c1 sa where a: "read_file (path_append src kLayerLib) s = (c1, sa)" by fastforce
  obtain c2 sb where b: "read_file (path_append src kGlLib) sa = (c2, sb)" by fastforce
  note A = read_file_spec [OF a] and B = read_file_spec [OF b]
  show thesis
  proof (cases "c1 = None \<or> c2 = None")
    case True
    then have "(s' = sa \<or> s' = sb) \<and> r = Some False" using assms a b by (auto simp: install_backends_def split: option.splits)
    then show thesis using unread A B by auto
  next
    case False
    then obtain d1 d2 where d: "c1 = Some d1" "c2 = Some d2" by auto
    obtain o1 s1 where w1: "write_atomic (layer_lib env) d1 493 sb = (o1, s1)" by fastforce
    obtain o2 s2 where w2: "write_atomic (gl_lib env) d2 493 s1 = (o2, s2)" by fastforce
    obtain o3 s3 where w3: "write_atomic (gl_wrapper_path env) (gl_wrapper_script (gl_lib env)) 493 s2 = (o3, s3)" by fastforce
    have run: "(r, s') = (if \<not> o1 then (Some False, s1) else if \<not> o2 then (Some False, s2) else if \<not> o3 then (Some False, s3)
        else case layer_manifest lib (layer_lib env) of None \<Rightarrow> (None, s3)
          | Some t \<Rightarrow> (let (ok, s) = write_atomic (vulkan_manifest_path env) t 420 s3 in (Some ok, s)))"
      using assms [symmetric] by (simp add: install_backends_def a b d w1 w2 w3)
    have S: "fs_files sb = fs_files s" "fs_past sb = fs_past s" using A B by simp_all
    consider "\<not> o1" | "o1" "\<not> o2" | "o1" "o2" by blast
    then show thesis
    proof cases
      case 1
      then show thesis using run layer [OF S, of d1] w1 by simp
    next
      case 2
      then show thesis using run gl [OF S, of d1 s1 d2] w1 w2 by simp
    next
      case 3
      show thesis
        by (rule script [OF S _ _ _ _ w3, of d1 d2 s1])
          (use run 3 w1 w2 A B d in \<open>auto split: option.splits prod.splits if_splits\<close>)
    qed
  qed
qed

text \<open>
  C11: The manifest never dangles. At every moment of an installation, however far it gets and
  whatever the kernel refuses, what the Vulkan loader can see is consistent: if the layer's manifest
  exists, so do both libraries, provided that this held before.
\<close>

theorem install_never_dangles:
  assumes "install_backends lib env src s = (r, s')" and "no_dangling env (fs_files s)"
  shows "since (no_dangling env) s s'"
  using assms(1)
proof (cases rule: install_run)
  case unread
  then show ?thesis using since_same assms(2) by blast
next
  case (layer s0 d1)
  have "since (no_dangling env) s0 s'" using write_no_dangling [OF layer(3)] layer(1) assms(2) by simp
  then show ?thesis using layer(1,2) by (simp add: since_def)
next
  case (gl s0 d1 d2 s1)
  have 1: "since (no_dangling env) s s1" using write_no_dangling [OF gl(3)] gl(1,2) assms(2) by (simp add: since_def)
  then show ?thesis using since_trans write_no_dangling [OF gl(4) since_now [OF 1]] by simp
next
  case (script s0 d1 d2 s1 s2 ok s3)
  have 1: "since (no_dangling env) s s1" using write_no_dangling [OF script(5)] script(1,2) assms(2) by (simp add: since_def)
  have 2: "since (no_dangling env) s s2" using since_trans [OF 1] write_no_dangling [OF script(6) since_now [OF 1]] by simp
  have 3: "since (no_dangling env) s s3" using since_trans [OF 2] write_no_dangling [OF script(7) since_now [OF 2]] by simp
  show ?thesis
  proof (cases "s' = s3")
    case True
    then show ?thesis using 3 by simp
  next
    case False
    then obtain t b where w: "ok = True" "write_atomic (vulkan_manifest_path env) t 420 s3 = (b, s')"
      using script(8) by (auto split: if_splits option.splits)
    have "content_of (fs_files s3) (layer_lib env) = Some d1" "content_of (fs_files s3) (gl_lib env) = Some d2"
      using write_content [OF script(5)] write_content [OF script(6)] write_content [OF script(7) [unfolded w(1)]] by simp_all
    then have "libs_there env (fs_files s3)" by (auto simp: libs_there_def content_of_def)
    then show ?thesis using since_trans [OF 3] write_no_dangling [OF w(2) since_now [OF 3]] by simp
  qed
qed

text \<open>
  A finished installation: both libraries are the payload's, the script and the manifest name them,
  and the check for updates agrees, as long as files can be read.
\<close>

theorem install_delivers:
  assumes "install_backends lib env src s = (Some True, s')"
  shows "content_of (fs_files s') (layer_lib env) = content_of (fs_files s) (path_append src kLayerLib) \<and>
    content_of (fs_files s') (gl_lib env) = content_of (fs_files s) (path_append src kGlLib) \<and>
    content_of (fs_files s') (gl_wrapper_path env) = Some (gl_wrapper_script (gl_lib env)) \<and>
    content_of (fs_files s') (vulkan_manifest_path env) = layer_manifest lib (layer_lib env)"
  using assms
proof (cases rule: install_run)
  case (script s0 d1 d2 s1 s2 ok s3)
  then obtain t where w: "ok = True" "layer_manifest lib (layer_lib env) = Some t"
    "write_atomic (vulkan_manifest_path env) t 420 s3 = (True, s')" by (auto split: if_splits option.splits)
  note W = write_content [OF script(5)] write_content [OF script(6)] write_content [OF script(7) [unfolded w(1)]] write_content [OF w(3)]
  show ?thesis using W script(3,4) w(2) by simp
qed simp_all

lemma remove_file_gone: "remove_file q s = (b, t) \<Longrightarrow> map_of (fs_files s) p = None \<Longrightarrow> map_of (fs_files t) p = None"
  by (auto simp: remove_file_def Let_def delete_conv' split: if_splits prod.splits dest!: fs_ask_files)

lemma remove_each_gone:
  "remove_each ps s = (ok, s') \<Longrightarrow> map_of (fs_files s) p = None \<Longrightarrow> map_of (fs_files s') p = None"
  by (induction ps arbitrary: s ok) (auto simp: Let_def split: prod.splits dest: remove_file_gone)

lemma remove_each_spec:
  "remove_each ps s = (ok, s') \<Longrightarrow> (\<forall>q. q \<notin> set ps \<longrightarrow> map_of (fs_files s') q = map_of (fs_files s) q) \<and>
     (ok \<longrightarrow> (\<forall>q \<in> set ps. map_of (fs_files s') q = None))"
proof (induction ps arbitrary: s ok s')
  case (Cons p ps)
  obtain b s1 where 1: "remove_file p s = (b, s1)" by fastforce
  obtain b2 s2 where 2: "remove_each ps s1 = (b2, s2)" by fastforce
  have o: "q \<noteq> p \<Longrightarrow> map_of (fs_files s1) q = map_of (fs_files s) q" for q using touches_remove [OF 1] by (simp add: touches_def)
  have "b \<Longrightarrow> map_of (fs_files s1) p = None"
    using 1 by (auto simp: remove_file_def Let_def delete_conv' split: if_splits prod.splits)
  then have "b \<Longrightarrow> map_of (fs_files s2) p = None" using remove_each_gone [OF 2] by blast
  then show ?case using Cons.IH [OF 2] Cons.prems 1 2 o by auto
qed simp

text \<open>
  Uninstalling that reports success has removed all four files and touched no other. One that
  cannot remove the manifest goes on and removes the libraries, and the manifest then names a
  library that is gone.
\<close>

theorem uninstall_removes:
  assumes "uninstall_backends env s = (True, s')"
  shows "map_of (fs_files s') q = (if q \<in> {vulkan_manifest_path env, gl_wrapper_path env, layer_lib env, gl_lib env}
    then None else map_of (fs_files s) q)"
proof -
  obtain s1 where 1: "remove_each [vulkan_manifest_path env, gl_wrapper_path env, layer_lib env, gl_lib env] s = (True, s1)"
    "fs_files s' = fs_files s1" using assms by (auto simp: uninstall_backends_def split: prod.splits)
  then show ?thesis using remove_each_spec [OF 1(1)] by auto
qed

definition installed :: fs where
  "installed = \<lparr>fs_files = [(vulkan_manifest_path Map.empty, ''m'', 420), (layer_lib Map.empty, ''l'', 493),
     (gl_lib Map.empty, ''g'', 493)], fs_dirs = [], fs_answers = [], fs_writes = [], fs_past = []\<rparr>"

theorem uninstall_can_dangle:
  "no_dangling Map.empty (fs_files installed) \<and>
   \<not> no_dangling Map.empty (fs_files (snd (uninstall_backends Map.empty (installed\<lparr>fs_answers := [False]\<rparr>))))"
  by code_simp

text \<open>
  The check for updates looks at the libraries alone: an installation that failed after them, with
  no manifest at all, passes for up to date.
\<close>

definition payload :: fs where
  "payload = \<lparr>fs_files = [(''/p/libchoir_overlay.so'', ''l'', 493), (''/p/libchoir_gl.so'', ''g'', 493)],
     fs_dirs = [], fs_answers = replicate 2 True @ replicate 5 True @ replicate 5 True @ [False], fs_writes = [], fs_past = []\<rparr>"

theorem half_install_passes_for_current:
  "case install_backends (one_doc JNull []) Map.empty ''/p'' payload of (r, s) \<Rightarrow>
     r = Some False \<and> map_of (fs_files s) (vulkan_manifest_path Map.empty) = None \<and>
     fst (backends_up_to_date ''/p'' (backend_lib_dir Map.empty) s)"
  by code_simp

section \<open>The shell's reading\<close>

text \<open>What a POSIX shell makes of a word of single-quoted parts and escaped characters.\<close>

fun sh_out :: "string \<Rightarrow> string option" and sh_in :: "string \<Rightarrow> string option" where
  "sh_out [] = Some []"
| "sh_out (c # cs) =
     (if c = CHR 0x27 then sh_in cs
      else if c = CHR 0x5C then (case cs of [] \<Rightarrow> None | d # ds \<Rightarrow> map_option ((#) d) (sh_out ds))
      else None)"
| "sh_in [] = None"
| "sh_in (c # cs) = (if c = CHR 0x27 then sh_out cs else map_option ((#) c) (sh_in cs))"

lemma sh_in_quoted: "sh_in (quote_chars s @ [CHR 0x27]) = Some s"
  by (induction s) simp_all

text \<open>
  A quoted path is read as itself. Whatever characters a path has, quotes, dollars and
  backslashes included, a shell reads the word in the generated launch script as exactly this path.
\<close>

theorem shell_reads_quoted_path: "sh_out (shell_quote path) = Some path"
  by (simp add: shell_quote_def sh_in_quoted)

theorem install_never_dangles_witness:
  "\<exists>r s'. install_backends (one_doc JNull []) Map.empty ''/p'' payload = (r, s') \<and> since (no_dangling Map.empty) payload s'"
proof -
  obtain r s' where 1: "install_backends (one_doc JNull []) Map.empty ''/p'' payload = (r, s')" by fastforce
  have "no_dangling Map.empty (fs_files payload)" by code_simp
  from install_never_dangles [OF 1 this] 1 show ?thesis by blast
qed

end
