(* ===== verification/HostConfig.thy ===== *)
theory HostConfig
  imports HostFiles State Denylist Paths
begin

text \<open>
  The host's configuration file (\<^verbatim>\<open>src/host/config/config.cpp\<close>): reading it whatever it holds, and
  writing it so that nobody else can read the token.
\<close>

section \<open>Definitions\<close>

record config =
  cfg_appearance :: appearance
  cfg_client_id :: string
  cfg_access_token :: string
  cfg_refresh_token :: string
  cfg_denylist :: "string list"
  cfg_consent :: int

definition kBackendUnasked :: int where "kBackendUnasked = 0"
definition kBackendGranted :: int where "kBackendGranted = 1"
definition kBackendDeclined :: int where "kBackendDeclined = 2"

definition new_config :: config where
  "new_config = \<lparr>cfg_appearance = default_appearance, cfg_client_id = ''207646673902501888'', cfg_access_token = [],
     cfg_refresh_token = [], cfg_denylist = [], cfg_consent = kBackendUnasked\<rparr>"

text \<open>The string under a key, if it is one.\<close>

definition string_at :: "json \<Rightarrow> string \<Rightarrow> string \<Rightarrow> string" where
  "string_at j k d = (case Option.bind (jfind j k) get_string of Some v \<Rightarrow> v | None \<Rightarrow> d)"

text \<open>\<^verbatim>\<open>is_number_integer\<close> and the cast of \<^verbatim>\<open>get<int>\<close>, which wraps.\<close>

fun is_integer :: "json \<Rightarrow> bool" where
  "is_integer (JInt n) = True" | "is_integer _ = False"

definition consent_at :: "json \<Rightarrow> int \<Rightarrow> int" where
  "consent_at j d =
     (case jfind j ''backend_consent'' of
        Some v \<Rightarrow>
          if is_integer v then
            case get_int32 v of
              Some n \<Rightarrow> if kBackendUnasked \<le> n \<and> n \<le> kBackendDeclined then n else d
            | None \<Rightarrow> d
          else d
      | None \<Rightarrow> d)"

definition denylist_at :: "json \<Rightarrow> string list \<Rightarrow> string list" where
  "denylist_at j d =
     (case Option.bind (jfind j ''denylist'') get_array of
        Some els \<Rightarrow> List.map_filter get_string els
      | None \<Rightarrow> d)"

definition appearance_at :: "json \<Rightarrow> appearance \<Rightarrow> appearance" where
  "appearance_at j d =
     (case jfind j ''appearance'' of
        Some v \<Rightarrow> if is_object v then (case appearance_from_json v of Some a \<Rightarrow> a | None \<Rightarrow> d) else d
      | None \<Rightarrow> d)"

definition config_of_json :: "json \<Rightarrow> config" where
  "config_of_json j =
     (let c = new_config;
          dl = denylist_at j (cfg_denylist c)
      in \<lparr>cfg_appearance = appearance_at j (cfg_appearance c),
          cfg_client_id = string_at j ''client_id'' (cfg_client_id c),
          cfg_access_token = string_at j ''access_token'' (cfg_access_token c),
          cfg_refresh_token = string_at j ''refresh_token'' (cfg_refresh_token c),
          cfg_denylist = (if dl = [] then default_patterns else dl),
          cfg_consent = consent_at j (cfg_consent c)\<rparr>)"

definition load_config :: "json_lib \<Rightarrow> string \<Rightarrow> fs \<Rightarrow> config \<times> fs" where
  "load_config lib path s =
     (let (data, s) = read_file path s in
      case data of
        None \<Rightarrow> (new_config\<lparr>cfg_denylist := default_patterns\<rparr>, s)
      | Some t \<Rightarrow>
          case lib_parse lib t of
            None \<Rightarrow> (new_config\<lparr>cfg_denylist := default_patterns\<rparr>, s)
          | Some j \<Rightarrow>
              if \<not> is_object j then (new_config\<lparr>cfg_denylist := default_patterns\<rparr>, s)
              else (config_of_json j, s))"

definition config_to_json :: "config \<Rightarrow> json" where
  "config_to_json c = jobj
     [(''appearance'', appearance_to_json (cfg_appearance c)),
      (''client_id'', JStr (cfg_client_id c)),
      (''access_token'', JStr (cfg_access_token c)),
      (''refresh_token'', JStr (cfg_refresh_token c)),
      (''denylist'', JArr (map JStr (cfg_denylist c))),
      (''backend_consent'', JInt (cfg_consent c))]"

text \<open>The prefixes of the directory that end before a slash or at its end, shortest first.\<close>

definition parent_dirs :: "string \<Rightarrow> string list" where
  "parent_dirs path =
     (let dir = dirname path in
      if CHR ''/'' \<notin> set path \<or> dir = [] then []
      else map (\<lambda>i. take i dir) (filter (\<lambda>i. i = length dir \<or> dir ! i = CHR ''/'') [1..<length dir + 1]))"

fun make_dirs :: "string list \<Rightarrow> fs \<Rightarrow> fs" where
  "make_dirs [] s = s"
| "make_dirs (d # ds) s = make_dirs ds (snd (make_dir d s))"

text \<open>\<^term>\<open>None\<close>: a string that is not UTF-8 makes \<^verbatim>\<open>dump\<close> throw, before anything is touched.\<close>

definition save_config :: "json_lib \<Rightarrow> string \<Rightarrow> config \<Rightarrow> fs \<Rightarrow> bool option \<times> fs" where
  "save_config lib path c s =
     (case lib_dump lib (config_to_json c) of
        None \<Rightarrow> (None, s)
      | Some t \<Rightarrow>
          let s = make_dirs (parent_dirs path) s;
              (opened, s) = open_trunc path 384 s in
          if \<not> opened then (Some False, s)
          else
            let s = fchmod path 384 s;
                (ok, s) = write_all path t s;
                (closed, s) = fs_ask s
            in (Some (ok \<and> closed), s))"

section \<open>Loading\<close>

definition sound_config :: "config \<Rightarrow> bool" where
  "sound_config c \<longleftrightarrow> cfg_denylist c \<noteq> [] \<and> cfg_consent c \<in> {kBackendUnasked, kBackendGranted, kBackendDeclined} \<and>
     in_int32 (c_toast_duration_ms (cfg_appearance c))"

lemma consent_range: "consent_at j kBackendUnasked \<in> {kBackendUnasked, kBackendGranted, kBackendDeclined}"
  by (auto simp: consent_at_def kBackendUnasked_def kBackendGranted_def kBackendDeclined_def split: option.splits)

lemma appearance_range: "in_int32 (c_toast_duration_ms (appearance_at j default_appearance))"
proof (cases "\<exists>v a. jfind j ''appearance'' = Some v \<and> is_object v \<and> appearance_from_json v = Some a")
  case True
  then show ?thesis using appearance_in_range by (auto simp: appearance_at_def)
next
  case False
  then have "appearance_at j default_appearance = default_appearance" by (auto simp: appearance_at_def split: option.splits)
  then show ?thesis using wf_default_appearance by (simp add: wf_appearance_def)
qed

text \<open>
  Loading never fails. Whatever the file holds, or if there is none, the configuration is
  usable: a denylist that protects something, an answer about the backends that is one of the three,
  numbers within their types.
\<close>

theorem load_config_sound: "sound_config (fst (load_config lib path s))"
proof -
  have "default_patterns \<noteq> []" by (simp add: default_patterns_def)
  moreover have "in_int32 (c_toast_duration_ms default_appearance)" using wf_default_appearance by (simp add: wf_appearance_def)
  moreover have "sound_config (config_of_json j)" for j
    using consent_range [of j] appearance_range [of j] calculation
    by (simp add: sound_config_def config_of_json_def new_config_def Let_def)
  ultimately show ?thesis
    by (auto simp: load_config_def Let_def sound_config_def new_config_def kBackendUnasked_def split: prod.splits option.splits)
qed

section \<open>Saving\<close>

lemma make_dirs_files: "fs_files (make_dirs ds s) = fs_files s \<and> fs_past (make_dirs ds s) = fs_past s \<and> fs_writes (make_dirs ds s) = fs_writes s"
proof (induction ds arbitrary: s)
  case (Cons d ds)
  obtain ok t where d: "make_dir d s = (ok, t)" by fastforce
  from make_dir_files [OF d] Cons.IH [of t] d show ?case by simp
qed simp

lemma make_dirs_granted: "granted s \<Longrightarrow> granted (make_dirs ds s)"
proof (induction ds arbitrary: s)
  case (Cons d ds)
  obtain ok s' where d: "make_dir d s = (ok, s')" by fastforce
  then have "granted s'" using Cons.prems granted_ask [of s] by (auto simp: make_dir_def granted_def split: prod.splits if_splits)
  then show ?case using Cons.IH d by simp
qed simp

lemma string_at_saved [simp]:
  "string_at (config_to_json c) ''client_id'' d = cfg_client_id c"
  "string_at (config_to_json c) ''access_token'' d = cfg_access_token c"
  "string_at (config_to_json c) ''refresh_token'' d = cfg_refresh_token c"
  by (simp_all add: string_at_def config_to_json_def)

lemma map_filter_strings: "List.map_filter get_string (map JStr xs) = xs"
  by (induction xs) (simp_all add: List.map_filter_simps)

lemma saved_json:
  assumes "wf_appearance (cfg_appearance c)" and "kBackendUnasked \<le> cfg_consent c" "cfg_consent c \<le> kBackendDeclined"
  shows "config_of_json (config_to_json c) = c\<lparr>cfg_denylist := if cfg_denylist c = [] then default_patterns else cfg_denylist c\<rparr>"
proof -
  have "is_object (appearance_to_json a)" for a by (simp add: appearance_to_json_def)
  then have "appearance_at (config_to_json c) d = cfg_appearance c" for d
    using appearance_form.from_to [OF assms(1)] by (simp add: appearance_at_def config_to_json_def)
  moreover have "consent_at (config_to_json c) d = cfg_consent c" for d
    using assms(2,3) get_int32_JInt [of "cfg_consent c"]
    by (simp add: consent_at_def config_to_json_def in_int32_def kBackendUnasked_def kBackendDeclined_def)
  moreover have "denylist_at (config_to_json c) d = cfg_denylist c" for d
    by (simp add: denylist_at_def config_to_json_def map_filter_strings)
  ultimately show ?thesis by (simp add: config_of_json_def Let_def)
qed

lemma save_run:
  assumes "save_config lib path c s = (Some ok, s')"
  obtains (unopened) "open_trunc path 384 (make_dirs (parent_dirs path) s) = (False, s')" "\<not> ok"
  | (written) t s1 w s2 closed where "lib_dump lib (config_to_json c) = Some t"
    "open_trunc path 384 (make_dirs (parent_dirs path) s) = (True, s1)" "write_all path t (fchmod path 384 s1) = (w, s2)"
    "fs_ask s2 = (closed, s')" "ok = (w \<and> closed)"
proof -
  obtain t where t: "lib_dump lib (config_to_json c) = Some t" using assms by (auto simp: save_config_def split: option.splits)
  obtain opened s1 where 1: "open_trunc path 384 (make_dirs (parent_dirs path) s) = (opened, s1)" by fastforce
  obtain w s2 where 2: "write_all path t (fchmod path 384 s1) = (w, s2)" by fastforce
  obtain closed s3 where 3: "fs_ask s2 = (closed, s3)" by fastforce
  have "(Some ok, s') = (if \<not> opened then (Some False, s1) else (Some (w \<and> closed), s3))"
    using assms [symmetric] by (simp add: save_config_def t 1 2 3)
  then show thesis using unopened written [OF t] 1 2 3 by (cases opened) auto
qed

lemma save_content:
  assumes "save_config lib path c s = (Some True, s')"
  shows "\<exists>t. lib_dump lib (config_to_json c) = Some t \<and> content_of (fs_files s') path = Some t"
  using assms
proof (cases rule: save_run)
  case (written t s1 w s2 closed)
  obtain k where k: "map_of (fs_files s1) path = Some ([], k)" using open_trunc_map [OF written(2)] by blast
  obtain m where m: "map_of (fs_files (fchmod path 384 s1)) path = Some ([], m)" using fchmod_map [OF k] by blast
  have "map_of (fs_files s2) path = Some (t, m)" using write_all_content [OF _ m, of t s2] written(3,5) by simp
  then show ?thesis using fs_ask_files [OF written(4)] written(1) by (simp add: content_of_def)
qed simp

lemma load_content:
  assumes "content_of (fs_files s) path = Some t" "lib_dump lib (config_to_json c) = Some t" "lib_ok lib" "fst (fs_ask s)"
    and "wf_appearance (cfg_appearance c)" "kBackendUnasked \<le> cfg_consent c" "cfg_consent c \<le> kBackendDeclined"
  shows "fst (load_config lib path s) = c\<lparr>cfg_denylist := if cfg_denylist c = [] then default_patterns else cfg_denylist c\<rparr>"
proof -
  obtain u where u: "fs_ask s = (True, u)" using assms(4) by (metis prod.collapse)
  have "read_file path s = (Some t, u)" using u assms(1) fs_ask_files [OF u] by (simp add: read_file_def)
  moreover have "lib_parse lib t = Some (config_to_json c)" using assms(2,3) by (simp add: lib_ok_def)
  moreover have "is_object (config_to_json c)" by (simp add: config_to_json_def)
  ultimately show ?thesis using saved_json [OF assms(5-7)] by (simp add: load_config_def)
qed

text \<open>
  What is saved is loaded. After a save that reports success, however the kernel cut up the
  writes, loading gives the same configuration back (an empty denylist excepted, which reads as the
  default one), if the file can be read.
\<close>

theorem saved_config_is_loaded:
  assumes "save_config lib path c s = (Some True, s')" and "lib_ok lib" and "fst (fs_ask s')"
    and "wf_appearance (cfg_appearance c)" and "kBackendUnasked \<le> cfg_consent c" "cfg_consent c \<le> kBackendDeclined"
  shows "fst (load_config lib path s') = c\<lparr>cfg_denylist := if cfg_denylist c = [] then default_patterns else cfg_denylist c\<rparr>"
  using save_content [OF assms(1)] load_content [OF _ _ assms(2-6)] by blast

definition unexposed :: "string \<Rightarrow> files \<Rightarrow> files \<Rightarrow> bool" where
  "unexposed path old fl \<longleftrightarrow> mode_of fl path = Some 384 \<or> content_of fl path = Some [] \<or> map_of fl path = map_of old path"

text \<open>
  C12: The token stays private. If the file is new or was private, or the kernel refuses nothing,
  then at every moment of a save the file is readable by its owner only, or it is empty, or it is
  still what it was.
\<close>

theorem saved_token_is_private:
  assumes "save_config lib path c s = (Some ok, s')" and "mode_of (fs_files s) path \<in> {None, Some 384} \<or> granted s"
  shows "since (unexposed path (fs_files s)) s s'"
  using assms(1)
proof (cases rule: save_run)
  case unopened
  then show ?thesis using make_dirs_files [of "parent_dirs path" s]
    by (auto simp: open_trunc_def Let_def unexposed_def split: prod.splits if_splits dest!: fs_ask_files intro!: since_same)
next
  case (written t s1 w s2 closed)
  let ?P = "unexposed path (fs_files s)" and ?f = "fchmod path 384 s1"
  note D = make_dirs_files [of "parent_dirs path" s]
  define s0 where "s0 = make_dirs (parent_dirs path) s"
  obtain u where u: "fs_ask s0 = (True, u)" "s1 = fs_set (AList.update path ([], case mode_of (fs_files s) path of Some m \<Rightarrow> m | None \<Rightarrow> 384) (fs_files s)) u"
    using written(2) D by (auto simp: open_trunc_def Let_def s0_def split: prod.splits if_splits dest: fs_ask_files)
  have p1: "fs_past s1 = fs_files s1 # fs_past s" "content_of (fs_files s1) path = Some []"
    using u fs_ask_files [OF u(1)] s0_def D by (simp_all add: files_simps)
  have a: "since ?P s s1" using p1 by (auto simp: since_def unexposed_def)
  have m: "mode_of (fs_files ?f) path = Some 384 \<and> since ?P s1 ?f"
  proof (cases "fs_ask s1")
    case (Pair b v)
    have ok: "b \<or> mode_of (fs_files s1) path = Some 384"
    proof (cases "granted s")
      case True
      then have "granted u" using make_dirs_granted granted_ask u(1) s0_def by blast
      then have "granted s1" using u(2) by (simp add: granted_def)
      then show ?thesis using granted_ask Pair by blast
    next
      case False
      then show ?thesis using assms(2) u(2) by (auto simp: files_simps)
    qed
    show ?thesis using ok Pair p1 fs_ask_files [OF Pair]
      by (auto simp: fchmod_def Let_def since_def unexposed_def files_simps)
  qed
  have "since ?P ?f s2" by (rule since_mono [OF since_mode_write_all [OF written(3) conjunct1 [OF m]]]) (simp add: unexposed_def)
  then have "since ?P s s2" using since_trans [OF since_trans [OF a conjunct2 [OF m]]] by blast
  then show ?thesis using fs_ask_files [OF written(4)] by (auto simp: since_def)
qed

text \<open>An answer out of range is meant to read as not asked; the cast comes first, and 2^32 + 1 grants.\<close>

theorem consent_wraps: "consent_at (jobj [(''backend_consent'', JInt 4294967297)]) kBackendUnasked = kBackendGranted"
  by code_simp

definition a_config :: config where
  "a_config = new_config\<lparr>cfg_access_token := ''secret'', cfg_denylist := [''obs''], cfg_consent := kBackendDeclined\<rparr>"

definition a_disk :: fs where
  "a_disk = \<lparr>fs_files = [], fs_dirs = [], fs_answers = [], fs_writes = [Took 3, Interrupted], fs_past = []\<rparr>"

lemma a_save: "fst (save_config (one_doc (config_to_json a_config) ''{json}'') ''/h/c.json'' a_config a_disk) = Some True \<and>
    fst (fs_ask (snd (save_config (one_doc (config_to_json a_config) ''{json}'') ''/h/c.json'' a_config a_disk)))"
  by (simp add: save_config_def one_doc_def) code_simp

theorem saved_config_is_loaded_witness:
  "\<exists>s'. save_config (one_doc (config_to_json a_config) ''{json}'') ''/h/c.json'' a_config a_disk = (Some True, s') \<and>
     fst (load_config (one_doc (config_to_json a_config) ''{json}'') ''/h/c.json'' s') = a_config"
proof -
  let ?lib = "one_doc (config_to_json a_config) ''{json}''"
  obtain s' where 1: "save_config ?lib ''/h/c.json'' a_config a_disk = (Some True, s')" "fst (fs_ask s')"
    using a_save by (metis prod.collapse)
  have a: "wf_appearance (cfg_appearance a_config)" using wf_default_appearance by (simp add: a_config_def new_config_def)
  have b: "kBackendUnasked \<le> cfg_consent a_config" "cfg_consent a_config \<le> kBackendDeclined" by code_simp+
  have d: "a_config\<lparr>cfg_denylist := if cfg_denylist a_config = [] then default_patterns else cfg_denylist a_config\<rparr> = a_config"
    by (simp add: a_config_def)
  from saved_config_is_loaded [OF 1(1) lib_ok_one_doc 1(2) a b] 1 d show ?thesis by auto
qed

theorem saved_token_is_private_witness:
  "\<exists>s'. save_config (one_doc (config_to_json a_config) ''{json}'') ''/h/c.json'' a_config a_disk = (Some True, s') \<and>
     since (unexposed ''/h/c.json'' []) a_disk s'"
proof -
  obtain s' where 1: "save_config (one_doc (config_to_json a_config) ''{json}'') ''/h/c.json'' a_config a_disk = (Some True, s')"
    using a_save by (metis prod.collapse)
  have "fs_files a_disk = []" "mode_of (fs_files a_disk) ''/h/c.json'' \<in> {None, Some 384}"
    by (simp_all add: a_disk_def mode_of_def)
  with saved_token_is_private [OF 1] 1 show ?thesis by auto
qed

end
