(* ===== verification/Autostart.thy ===== *)
theory Autostart
  imports HostFiles Paths Denylist
begin

text \<open>
  The autostart entry (\<^verbatim>\<open>src/host/config/autostart.cpp\<close>): the file is the state, so what is written
  has to read as enabled, and its command line as the path it was made from.
\<close>

section \<open>Definitions\<close>

definition exec_special :: "char \<Rightarrow> bool" where
  "exec_special c \<longleftrightarrow> c \<in> set [CHR '' '', CHR 0x09, CHR 0x22, CHR 0x27, CHR 0x5C, CHR ''$'', CHR 0x60]"

definition exec_escaped :: "char \<Rightarrow> bool" where
  "exec_escaped c \<longleftrightarrow> c \<in> set [CHR 0x22, CHR 0x5C, CHR ''$'', CHR 0x60]"

fun escape_exec :: "string \<Rightarrow> string" where
  "escape_exec [] = []"
| "escape_exec (c # cs) = (if exec_escaped c then [CHR 0x5C, c] else [c]) @ escape_exec cs"

definition quote_exec :: "string \<Rightarrow> string" where
  "quote_exec path =
     (if \<not> list_ex exec_special path then path else [CHR 0x22] @ escape_exec path @ [CHR 0x22])"

definition blank :: "char \<Rightarrow> bool" where
  "blank c \<longleftrightarrow> c = CHR '' '' \<or> c = CHR 0x09"

definition blank_cr :: "char \<Rightarrow> bool" where
  "blank_cr c \<longleftrightarrow> blank c \<or> c = CHR 0x0D"

definition trim_value :: "string \<Rightarrow> string" where
  "trim_value v = rev (dropWhile blank_cr (rev (dropWhile blank_cr v)))"

definition key_is_true :: "string \<Rightarrow> string \<Rightarrow> bool" where
  "key_is_true line key =
     (if take (length key) line \<noteq> key \<or> length line \<le> length key then False
      else
        let rest = dropWhile blank (drop (length key) line) in
        case rest of
          [] \<Rightarrow> False
        | c # v \<Rightarrow> c = CHR ''='' \<and> dropWhile blank_cr v \<noteq> [] \<and> to_lower (trim_value v) = ''true'')"

definition host_exec_path :: "environment \<Rightarrow> string \<Rightarrow> string" where
  "host_exec_path env app_path = env_or env ''APPIMAGE'' app_path"

text \<open>\<^verbatim>\<open>std::getline\<close>: a last line needs no newline, an empty rest is none.\<close>

function lines_of :: "string \<Rightarrow> string list" where
  "lines_of t =
     (if t = [] then []
      else takeWhile (\<lambda>c. c \<noteq> CHR 0x0A) t # lines_of (tl (dropWhile (\<lambda>c. c \<noteq> CHR 0x0A) t)))"
  by auto
termination lines_of
proof (relation "measure length")
  fix t :: string
  assume "t \<noteq> []"
  then have "0 < length t" by simp
  moreover have "length (dropWhile (\<lambda>c. c \<noteq> CHR 0x0A) t) \<le> length t" by (rule length_dropWhile_le)
  ultimately show "(tl (dropWhile (\<lambda>c. c \<noteq> CHR 0x0A) t), t) \<in> measure length"
    by (simp only: in_measure length_tl)
qed simp

declare lines_of.simps [simp del]

fun scan_lines :: "string list \<Rightarrow> bool" where
  "scan_lines [] = True"
| "scan_lines (l # ls) =
     (if key_is_true l ''Hidden'' then False
      else if take 26 l = ''X-GNOME-Autostart-enabled='' \<and> \<not> key_is_true l ''X-GNOME-Autostart-enabled'' then False
      else scan_lines ls)"

definition autostart_enabled :: "string \<Rightarrow> fs \<Rightarrow> bool \<times> fs" where
  "autostart_enabled path s =
     (let (data, s) = read_file path s in
      case data of None \<Rightarrow> (False, s) | Some t \<Rightarrow> (scan_lines (lines_of t), s))"

definition desktop_entry :: "string \<Rightarrow> string" where
  "desktop_entry exec_path =
     concat (map (\<lambda>l. l @ [CHR 0x0A])
       [''[Desktop Entry]'', ''Type=Application'', ''Name=Choir'',
        ''Comment=Discord voice overlay for Vulkan and OpenGL games (not affiliated with Discord Inc.)'',
        ''Exec='' @ quote_exec exec_path, ''Icon=choir'', ''Terminal=false'', ''X-GNOME-Autostart-enabled=true''])"

text \<open>The stream writes when it is closed; \<open>good\<close> then says whether it all went out.\<close>

definition set_autostart :: "string \<Rightarrow> bool \<Rightarrow> string \<Rightarrow> fs \<Rightarrow> bool \<times> fs" where
  "set_autostart path on exec_path s =
     (if \<not> on then remove_file path s
      else
        let dir = dirname path;
            (made, s) = (if dir \<noteq> [] then make_dir dir s else (True, s)) in
        if \<not> made then (False, s)
        else
          let (opened, s) = open_trunc path 420 s in
          if \<not> opened then (False, s)
          else
            let (ok, s) = write_all path (desktop_entry exec_path) s;
                (closed, s) = fs_ask s
            in (ok \<and> closed, s))"

section \<open>The entry that is written\<close>

lemma takeWhile_line: "CHR 0x0A \<notin> set l \<Longrightarrow> takeWhile (\<lambda>c. c \<noteq> CHR 0x0A) (l @ CHR 0x0A # t) = l \<and>
    dropWhile (\<lambda>c. c \<noteq> CHR 0x0A) (l @ CHR 0x0A # t) = CHR 0x0A # t"
  by (induction l) auto

lemma lines_of_line: "CHR 0x0A \<notin> set l \<Longrightarrow> lines_of (l @ CHR 0x0A # t) = l # lines_of t"
  by (subst lines_of.simps) (simp add: takeWhile_line)

lemma lines_of_lines:
  "list_all (\<lambda>l. CHR 0x0A \<notin> set l) ls \<Longrightarrow> lines_of (concat (map (\<lambda>l. l @ [CHR 0x0A]) ls)) = ls"
proof (induction ls)
  case Nil
  then show ?case by (simp add: lines_of.simps)
qed (simp add: lines_of_line)

lemma escape_exec_newline: "CHR 0x0A \<in> set (escape_exec p) \<longleftrightarrow> CHR 0x0A \<in> set p"
  by (induction p) auto

lemma exec_line_plain: "scan_lines ((''Exec='' @ e) # ls) = scan_lines ls"
  by (simp add: key_is_true_def)

lemma entry_enabled:
  assumes "CHR 0x0A \<notin> set exec_path"
  shows "scan_lines (lines_of (desktop_entry exec_path))"
proof -
  have q: "CHR 0x0A \<notin> set (quote_exec exec_path)" using assms by (simp add: quote_exec_def escape_exec_newline)
  have "lines_of (desktop_entry exec_path) = [''[Desktop Entry]'', ''Type=Application'', ''Name=Choir'',
        ''Comment=Discord voice overlay for Vulkan and OpenGL games (not affiliated with Discord Inc.)'',
        ''Exec='' @ quote_exec exec_path, ''Icon=choir'', ''Terminal=false'', ''X-GNOME-Autostart-enabled=true'']"
    unfolding desktop_entry_def by (rule lines_of_lines) (use q in simp)
  moreover have "scan_lines [''[Desktop Entry]'', ''Type=Application'', ''Name=Choir'',
        ''Comment=Discord voice overlay for Vulkan and OpenGL games (not affiliated with Discord Inc.)'',
        ''Exec='' @ quote_exec exec_path, ''Icon=choir'', ''Terminal=false'', ''X-GNOME-Autostart-enabled=true''] \<longleftrightarrow>
      scan_lines [''Icon=choir'', ''Terminal=false'', ''X-GNOME-Autostart-enabled=true'']"
    by (simp add: key_is_true_def)
  moreover have "scan_lines [''Icon=choir'', ''Terminal=false'', ''X-GNOME-Autostart-enabled=true'']" by code_simp
  ultimately show ?thesis by (simp only: simp_thms)
qed

text \<open>
  The toggle does what it shows. After switching autostart on or off, whenever that reports success,
  reading the entry back says the same, and no other file has changed.
\<close>

theorem toggle_reads_back:
  assumes "set_autostart path on exec_path s = (True, s')" and "CHR 0x0A \<notin> set exec_path" and "fst (fs_ask s')"
  shows "fst (autostart_enabled path s') = on \<and> (q \<noteq> path \<longrightarrow> map_of (fs_files s') q = map_of (fs_files s) q)"
proof -
  obtain u where u: "fs_ask s' = (True, u)" using assms(3) by (metis prod.collapse)
  have r: "fst (read_file path s') = content_of (fs_files s') path" using u fs_ask_files [OF u] by (simp add: read_file_def)
  have e: "fst (autostart_enabled path s') = (case content_of (fs_files s') path of None \<Rightarrow> False | Some t \<Rightarrow> scan_lines (lines_of t))"
    using r by (auto simp: autostart_enabled_def Let_def split: prod.splits option.splits)
  show ?thesis
  proof (cases on)
    case False
    then have 1: "remove_file path s = (True, s')" using assms(1) by (simp add: set_autostart_def)
    then have "map_of (fs_files s') path = None"
      by (auto simp: remove_file_def Let_def delete_conv' split: if_splits prod.splits)
    then show ?thesis using False e touches_remove [OF 1] by (simp add: content_of_def touches_def)
  next
    case True
    obtain made s0 where 0: "(if dirname path \<noteq> [] then make_dir (dirname path) s else (True, s)) = (made, s0)" by fastforce
    obtain opened s1 where 1: "open_trunc path 420 s0 = (opened, s1)" by fastforce
    obtain ok s2 where 2: "write_all path (desktop_entry exec_path) s1 = (ok, s2)" by fastforce
    obtain closed s3 where 3: "fs_ask s2 = (closed, s3)" by fastforce
    have all: "made" "opened" "ok" "closed" "s' = s3"
      using assms(1) True by (simp_all add: set_autostart_def Let_def 0 1 2 3 split: if_splits)
    have "touches {path} s s0" using 0 touches_make_dir [of "dirname path" s] by (auto split: if_splits)
    then have t: "touches {path} s s'"
      using touches_trans [OF touches_trans [OF touches_trans [OF _ touches_open [OF 1]] touches_write_all [OF 2]] touches_asked [OF 3]] all(5) by blast
    obtain k where k: "map_of (fs_files s1) path = Some ([], k)" using open_trunc_map [of path 420 s0 s1] 1 all(2) by auto
    have "map_of (fs_files s2) path = Some (desktop_entry exec_path, k)" using write_all_content [OF _ k, of "desktop_entry exec_path" s2] 2 all(3) by simp
    then have "content_of (fs_files s') path = Some (desktop_entry exec_path)" using fs_ask_files [OF 3] all(5) by (simp add: content_of_def)
    then show ?thesis using True e entry_enabled [OF assms(2)] t by (simp add: touches_def)
  qed
qed

section \<open>The command line\<close>

text \<open>
  The first argument of an \<^verbatim>\<open>Exec\<close> value by the XDG desktop entry specification: quoted, with
  escapes, or bare and free of reserved characters; a percent sign starts a field code.
\<close>

definition exec_reserved :: "char \<Rightarrow> bool" where
  "exec_reserved c \<longleftrightarrow> c \<in> set ([CHR 0x0A, CHR 0x27, CHR 0x5C, CHR 0x22, CHR ''$'', CHR 0x60, CHR 0x09] @ '' <>~|&;*?#()'')"

fun exec_quoted :: "string \<Rightarrow> string option" where
  "exec_quoted [] = None"
| "exec_quoted (c # cs) =
     (if c = CHR 0x22 then (if cs = [] then Some [] else None)
      else if c = CHR 0x5C then (case cs of [] \<Rightarrow> None | d # ds \<Rightarrow> if exec_escaped d then map_option ((#) d) (exec_quoted ds) else None)
      else if exec_escaped c then None
      else map_option ((#) c) (exec_quoted cs))"

definition exec_argument :: "string \<Rightarrow> string option" where
  "exec_argument v =
     (if CHR ''%'' \<in> set v then None
      else case v of [] \<Rightarrow> None
      | c # cs \<Rightarrow> if c = CHR 0x22 then exec_quoted cs else if list_ex exec_reserved v then None else Some v)"

lemma exec_quoted_escape: "exec_quoted (escape_exec p @ [CHR 0x22]) = Some p"
  by (induction p) (simp_all add: exec_escaped_def)

lemma escape_exec_percent: "CHR ''%'' \<in> set (escape_exec p) \<longleftrightarrow> CHR ''%'' \<in> set p"
  by (induction p) auto

text \<open>
  The desktop starts the right program. A path without a percent sign, and without those reserved
  characters that the quoting does not look for unless something else calls for quotes, is read
  from the entry as itself.
\<close>

theorem exec_reads_back:
  assumes "p \<noteq> []" and "CHR ''%'' \<notin> set p" and "list_ex exec_special p \<or> \<not> list_ex exec_reserved p"
  shows "exec_argument (quote_exec p) = Some p"
proof (cases "list_ex exec_special p")
  case True
  then show ?thesis using assms(2) exec_quoted_escape [of p] escape_exec_percent [of p]
    by (simp add: quote_exec_def exec_argument_def)
next
  case False
  then have "\<not> list_ex exec_reserved p" using assms(3) by blast
  moreover from this have "hd p \<noteq> CHR 0x22" using assms(1) by (cases p) (auto simp: exec_reserved_def)
  ultimately show ?thesis using False assms(1,2) by (cases p) (simp_all add: quote_exec_def exec_argument_def)
qed

text \<open>What the quoting leaves: a field code, and a reserved character on its own.\<close>

theorem exec_leaves_reserved:
  "exec_argument (quote_exec ''/opt/50%off/choir'') = None \<and> exec_argument (quote_exec ''/opt/choir(1)'') = None"
  by code_simp

text \<open>The scan tolerates blanks before the equals sign for one key and not for the other.\<close>

theorem blank_disables_one_key:
  "\<not> scan_lines [''Hidden =true''] \<and> scan_lines [''X-GNOME-Autostart-enabled =false'']"
  by code_simp

end
