(* ===== verification/Floats.thy ===== *)
theory Floats
  imports Json
begin

text \<open>
  Rounding to single precision (\<^verbatim>\<open>f32_round\<close> of the theory \<^verbatim>\<open>Json\<close>): it changes nothing the second time, and is
  off by half a unit in the last place at most.
\<close>

lemma pow2_powi: "pow2 e = 2 powi e"
  by (auto simp: pow2_def power_int_def inverse_eq_divide power_one_over)

lemma pow2_pos [simp]: "0 < pow2 e"
  by (simp add: pow2_powi)

lemma pow2_nonzero [simp]: "pow2 e \<noteq> 0"
  by (simp add: pow2_powi)

lemma pow2_add: "pow2 (a + b) = pow2 a * pow2 b"
  by (simp add: pow2_powi power_int_add)

lemma pow2_nat: "pow2 (int n) = 2 ^ n"
  by (simp add: pow2_def)

lemma pow2_mono: "a \<le> b \<Longrightarrow> pow2 a \<le> pow2 b"
  by (simp add: pow2_powi power_int_increasing)

lemma pow2_less: "pow2 a < pow2 b \<Longrightarrow> a < b"
  using pow2_mono [of b a] by linarith

text \<open>The exponent of a positive number.\<close>

lemma floorlog_bounds: "0 < n \<Longrightarrow> 2 ^ floorlog 2 n \<le> 2 * n \<and> n < 2 ^ floorlog 2 n"
  using floorlog_bounds [of n 2] by (cases "floorlog 2 n") auto

lemma log2_floor_bounds:
  assumes "0 < q"
  shows "pow2 (log2_floor q) \<le> q" "q < pow2 (log2_floor q + 1)"
proof -
  obtain n d where nd: "quotient_of q = (n, d)" by fastforce
  have d: "0 < d" using quotient_of_denom_pos [OF nd] .
  have q: "q = of_int n / of_int d" using quotient_of_div [OF nd] .
  have n: "0 < n" using assms d q by (simp add: zero_less_divide_iff)
  define a b where "a = floorlog 2 (nat n)" and "b = floorlog 2 (nat d)"
  have "(of_nat (2 ^ a) :: rat) \<le> of_nat (2 * nat n)" "(of_nat (nat n) :: rat) < of_nat (2 ^ a)"
    using floorlog_bounds [of "nat n"] n a_def by (simp_all only: of_nat_le_iff of_nat_less_iff zero_less_nat_eq)
  then have n': "2 ^ a \<le> 2 * (of_int n :: rat)" "(of_int n :: rat) < 2 ^ a" using n by simp_all
  have "(of_nat (2 ^ b) :: rat) \<le> of_nat (2 * nat d)" "(of_nat (nat d) :: rat) < of_nat (2 ^ b)"
    using floorlog_bounds [of "nat d"] d b_def by (simp_all only: of_nat_le_iff of_nat_less_iff zero_less_nat_eq)
  then have d': "2 ^ b \<le> 2 * (of_int d :: rat)" "(of_int d :: rat) < 2 ^ b" using d by simp_all
  have e: "pow2 (int a - int b) * 2 ^ b = 2 ^ a" using pow2_add [of "int a - int b" "int b"] by (simp add: pow2_nat)
  have dq: "q * of_int d = of_int n" using q d by simp
  have lo: "pow2 (int a - int b) \<le> 2 * q"
  proof (rule ccontr)
    assume "\<not> ?thesis"
    then have "2 * q * 2 ^ b < 2 ^ a" using e by (metis mult_strict_right_mono not_le zero_less_numeral zero_less_power)
    moreover have "2 * q * of_int d < 2 * q * 2 ^ b" using d'(2) assms by simp
    ultimately show False using n'(1) dq by (simp add: mult.assoc)
  qed
  have hi: "q < 2 * pow2 (int a - int b)"
  proof (rule ccontr)
    assume "\<not> ?thesis"
    then have "2 * pow2 (int a - int b) * of_int d \<le> q * of_int d" using d by (intro mult_right_mono) auto
    moreover have "pow2 (int a - int b) * 2 ^ b \<le> pow2 (int a - int b) * (2 * of_int d)" using d'(1) by (intro mult_left_mono) (auto intro: less_imp_le)
    ultimately show False using n'(2) dq e by simp
  qed
  have l: "log2_floor q = (if q < pow2 (int a - int b) then int a - int b - 1 else int a - int b)"
    using nd by (simp add: log2_floor_def a_def b_def Let_def)
  have half: "2 * pow2 (x - 1) = pow2 x" for x using pow2_add [of "x - 1" 1] by (simp add: pow2_def)
  show "pow2 (log2_floor q) \<le> q" "q < pow2 (log2_floor q + 1)"
    using l lo hi half [of "int a - int b"] half [of "int a - int b + 1"] by (auto split: if_splits)
qed

lemma round_even_near: "\<bar>of_int (round_even q) - q\<bar> \<le> 1 / 2"
  unfolding round_even_def Let_def using floor_correct [of q] by (auto simp: abs_le_iff)

lemma round_even_int [simp]: "round_even (of_int i) = i"
  by (simp add: round_even_def)

definition ulp :: "rat \<Rightarrow> int" where
  "ulp q = max (log2_floor q - 23) (- 149)"

lemma f32_round_pos: "0 < q \<Longrightarrow> f32_round q = of_int (round_even (q / pow2 (ulp q))) * pow2 (ulp q)"
  by (simp add: f32_round_def ulp_def Let_def)

lemma f32_fixed:
  assumes "0 < q" "q / pow2 (ulp q) = of_int i"
  shows "f32_round q = q"
proof -
  have "f32_round q = of_int i * pow2 (ulp q)" unfolding f32_round_pos [OF assms(1)] assms(2) round_even_int ..
  also have "\<dots> = q" unfolding assms(2) [symmetric] by simp
  finally show ?thesis .
qed

lemma f32_error:
  assumes "0 < q" "q < pow2 (k + 1)" "- 126 \<le> k"
  shows "\<bar>f32_round q - q\<bar> \<le> pow2 (k - 24)"
proof -
  have "pow2 (log2_floor q) < pow2 (k + 1)" using log2_floor_bounds(1) [OF assms(1)] assms(2) by linarith
  then have "ulp q \<le> k - 23" using pow2_less assms(3) by (fastforce simp: ulp_def)
  then have u: "pow2 (ulp q) \<le> pow2 (k - 23)" by (rule pow2_mono)
  have "f32_round q - q = (of_int (round_even (q / pow2 (ulp q))) - q / pow2 (ulp q)) * pow2 (ulp q)"
    using assms(1) by (simp add: f32_round_pos left_diff_distrib pow2_powi)
  then have "\<bar>f32_round q - q\<bar> \<le> 1 / 2 * pow2 (ulp q)"
    using round_even_near [of "q / pow2 (ulp q)"] by (simp only: abs_mult) (simp add: mult_right_mono pow2_powi)
  also have "\<dots> \<le> 1 / 2 * pow2 (k - 23)" using u by simp
  also have "\<dots> = pow2 (k - 24)" using pow2_add [of "k - 24" 1] by (simp add: pow2_def)
  finally show ?thesis .
qed

text \<open>Numbers with at most 24 binary digits from the unit \<open>2 ^ e\<close> on are not changed.\<close>

lemma f32_exact:
  assumes "0 < m" "m \<le> 2 ^ 24" "- 149 \<le> e"
  shows "f32_round (of_int m * pow2 e) = of_int m * pow2 e"
proof -
  let ?q = "of_int m * pow2 e"
  have q: "0 < ?q" using assms(1) by simp
  show ?thesis
  proof (cases "m = 2 ^ 24")
    case True
    have p: "?q = pow2 (24 + e)" using True pow2_add [of 24 e] pow2_nat [of 24] by simp
    have "log2_floor ?q = 24 + e"
    proof -
      have "pow2 (24 + e) < pow2 (25 + e)" using pow2_add [of "24 + e" 1] by (simp add: pow2_def [of 1])
      then have "log2_floor ?q < 25 + e" "24 + e < log2_floor ?q + 1"
        using log2_floor_bounds [OF q] unfolding p by (meson order_le_less_trans pow2_less)+
      then show ?thesis by simp
    qed
    then have "ulp ?q = e + 1" using assms(3) by (simp add: ulp_def)
    moreover have "?q / pow2 (e + 1) = of_int (2 ^ 23)" unfolding p using pow2_add [of 23 "e + 1"] pow2_nat [of 23] by (simp add: add.commute)
    ultimately show ?thesis using f32_fixed [OF q] by metis
  next
    case False
    then have "(of_int m :: rat) < of_int (2 ^ 24)" using assms(2) by (simp only: of_int_less_iff)
    then have "?q < 2 ^ 24 * pow2 e" by simp
    then have "?q < pow2 (24 + e)" using pow2_add [of 24 e] pow2_nat [of 24] by simp
    then have "log2_floor ?q < 24 + e" using log2_floor_bounds(1) [OF q] pow2_less by force
    then have "ulp ?q \<le> e" using assms(3) by (simp add: ulp_def)
    then obtain k where k: "e = ulp ?q + int k" using zle_iff_zadd by blast
    have "?q / pow2 (ulp ?q) = of_int m * 2 ^ k"
      using pow2_add [of "ulp ?q" "int k"] k by (simp add: pow2_nat) (metis mult.commute nonzero_mult_div_cancel_left pow2_pos less_irrefl mult.assoc times_divide_eq_right)
    then have "?q / pow2 (ulp ?q) = of_int (m * 2 ^ k)" by simp
    then show ?thesis by (rule f32_fixed [OF q])
  qed
qed

lemma f32_idem:
  assumes "0 < q"
  shows "is_f32 (f32_round q)"
proof -
  define m where "m = round_even (q / pow2 (ulp q))"
  have r: "f32_round q = of_int m * pow2 (ulp q)" using assms by (simp add: f32_round_pos m_def)
  have "q < pow2 (24 + ulp q)"
  proof -
    have "log2_floor q + 1 \<le> 24 + ulp q" unfolding ulp_def by linarith
    then show ?thesis using log2_floor_bounds(2) [OF assms] pow2_mono by (meson order_less_le_trans)
  qed
  then have "q / pow2 (ulp q) < 2 ^ 24" using pow2_add [of 24 "ulp q"] pow2_nat [of 24] by (simp add: divide_less_eq)
  moreover have "0 \<le> q / pow2 (ulp q)" using assms by (simp add: less_imp_le)
  ultimately have "(of_int m :: rat) < 2 ^ 24 + 1" "- 1 < (of_int m :: rat)"
    using round_even_near [of "q / pow2 (ulp q)"] unfolding m_def by linarith+
  then have "(of_int m :: rat) < of_int (2 ^ 24 + 1)" "of_int (- 1) < (of_int m :: rat)" by simp_all
  then have m: "0 \<le> m" "m \<le> 2 ^ 24" unfolding of_int_less_iff by linarith+
  show ?thesis
  proof (cases "m = 0")
    case True
    then have z: "f32_round q = 0" using r by simp
    show ?thesis unfolding is_f32_def z by (simp add: f32_round_def)
  next
    case False
    then show ?thesis using f32_exact [of m "ulp q"] m r by (simp add: is_f32_def ulp_def)
  qed
qed

end
