(* ===== verification/SettingsWindow.thy ===== *)
theory SettingsWindow
  imports Backends HostConfig Autostart Floats
begin

text \<open>
  The host's settings window (\<^verbatim>\<open>src/host/ui/settings_window.cpp\<close>): the configuration it edits, what
  its widgets hold (each within the range it was given), and its slots. Widgets without state
  (labels, layouts, texts shown) are left out. The plain text editor returns what was put into it;
  trimming a line (\<^verbatim>\<open>QString::trimmed\<close>) is an argument. Floats are rounded to single precision.
\<close>

section \<open>Definitions\<close>

definition anchor_to_index :: "anchor \<Rightarrow> int" where
  "anchor_to_index a = uint (anchor_code a)"

definition index_to_anchor :: "int \<Rightarrow> anchor" where
  "index_to_anchor i =
     (let i = (if i < 0 \<or> i > anchor_to_index CenterRight then anchor_to_index TopRight else i)
      in anchor_of_code (word_of_int i))"

definition anchor_labels :: "string list" where
  "anchor_labels = [''Top Left'', ''Top Right'', ''Bottom Left'', ''Bottom Right'', ''Center Left'', ''Center Right'']"

record widgets =
  wd_autostart :: bool
  wd_installed :: "bool option"
  wd_anchor :: int
  wd_scale :: int
  wd_hdr_nits :: int
  wd_show_all :: bool
  wd_toast_anchor :: int
  wd_toast_duration :: int
  wd_denylist :: string

text \<open>
  \<open>wd_installed\<close> is the row for the overlay libraries: \<^term>\<open>None\<close> outside an AppImage, where it is not
  built; its button is enabled exactly when they are not installed.
\<close>

record settings =
  st_cfg :: config
  st_widgets :: widgets

datatype settings_out = Config_changed config | Warned

definition in_range :: "int \<Rightarrow> int \<Rightarrow> int \<Rightarrow> int" where
  "in_range lo hi v = (if v < lo then lo else if v > hi then hi else v)"

text \<open>What the widgets are after \<open>build_ui\<close>.\<close>

definition build_ui :: "environment \<Rightarrow> widgets" where
  "build_ui env =
     \<lparr>wd_autostart = False, wd_installed = (if appimage_dir env \<noteq> [] then Some False else None),
      wd_anchor = 0, wd_scale = 50, wd_hdr_nits = 80, wd_show_all = False, wd_toast_anchor = 0,
      wd_toast_duration = 500, wd_denylist = []\<rparr>"

definition refresh_backend_row :: "environment \<Rightarrow> widgets \<Rightarrow> fs \<Rightarrow> widgets \<times> fs" where
  "refresh_backend_row env w s =
     (if wd_installed w = None then (w, s)
      else
        let (installed, s) = backends_up_to_date (appimage_payload_dir env) (backend_lib_dir env) s
        in (w\<lparr>wd_installed := Some installed\<rparr>, s))"

fun join_lines :: "string list \<Rightarrow> string" where
  "join_lines [] = []"
| "join_lines [l] = l"
| "join_lines (l # ls) = l @ CHR 0x0A # join_lines ls"

fun split_lines :: "string \<Rightarrow> string list" where
  "split_lines [] = [[]]"
| "split_lines (c # cs) =
     (if c = CHR 0x0A then [] # split_lines cs
      else case split_lines cs of l # ls \<Rightarrow> (c # l) # ls | [] \<Rightarrow> [[c]])"

definition show_appearance :: "appearance \<Rightarrow> widgets \<Rightarrow> widgets" where
  "show_appearance a w =
     w\<lparr>wd_anchor := anchor_to_index (c_anchor a),
       wd_scale := in_range 50 300 \<lfloor>f32_round (f32_round (c_scale a * 100) + 1 / 2)\<rfloor>,
       wd_hdr_nits := in_range 80 1000 \<lfloor>f32_round (c_hdr_nits a + 1 / 2)\<rfloor>,
       wd_show_all := c_show_all_members a,
       wd_toast_anchor := anchor_to_index (c_toast_anchor a),
       wd_toast_duration := in_range 500 60000 (c_toast_duration_ms a)\<rparr>"

definition load_into_widgets :: "environment \<Rightarrow> config \<Rightarrow> widgets \<Rightarrow> fs \<Rightarrow> widgets \<times> fs" where
  "load_into_widgets env cfg w s =
     (let (on, s) = autostart_enabled (autostart_path env) s;
          (w, s) = refresh_backend_row env (w\<lparr>wd_autostart := on\<rparr>) s
      in ((show_appearance (cfg_appearance cfg) w)\<lparr>wd_denylist := join_lines (cfg_denylist cfg)\<rparr>, s))"

definition open_settings :: "environment \<Rightarrow> config \<Rightarrow> fs \<Rightarrow> settings \<times> fs" where
  "open_settings env cfg s =
     (let (w, s) = load_into_widgets env cfg (build_ui env) s in (\<lparr>st_cfg = cfg, st_widgets = w\<rparr>, s))"

definition gather_appearance :: "widgets \<Rightarrow> appearance" where
  "gather_appearance w =
     \<lparr>c_anchor = index_to_anchor (wd_anchor w), c_scale = f32_round (of_int (wd_scale w) / 100), c_hdr_nits = f32_round (of_int (wd_hdr_nits w)),
      c_show_all_members = wd_show_all w, c_toast_anchor = index_to_anchor (wd_toast_anchor w),
      c_toast_duration_ms = wd_toast_duration w\<rparr>"

definition gather_denylist :: "(string \<Rightarrow> string) \<Rightarrow> string \<Rightarrow> string list" where
  "gather_denylist trimmed t = filter (\<lambda>l. l \<noteq> []) (map trimmed (split_lines t))"

definition gather_from_widgets :: "(string \<Rightarrow> string) \<Rightarrow> settings \<Rightarrow> config" where
  "gather_from_widgets trimmed st =
     (st_cfg st)\<lparr>cfg_appearance := gather_appearance (st_widgets st),
                cfg_denylist := gather_denylist trimmed (wd_denylist (st_widgets st))\<rparr>"

text \<open>The slots. \<^term>\<open>None\<close>: an exception leaves the slot and ends the host.\<close>

definition on_save_clicked ::
    "json_lib \<Rightarrow> environment \<Rightarrow> (string \<Rightarrow> string) \<Rightarrow> string \<Rightarrow> settings \<Rightarrow> fs \<Rightarrow> (settings \<times> settings_out list) option \<times> fs" where
  "on_save_clicked lib env trimmed app_path st s =
     (let cfg = gather_from_widgets trimmed st; (saved, s) = save_config lib (config_path env) cfg s in
      if saved = None then (None, s)
      else
        let (_, s) = set_autostart (autostart_path env) (wd_autostart (st_widgets st)) (host_exec_path env app_path) s;
            (on, s) = autostart_enabled (autostart_path env) s
        in (Some (\<lparr>st_cfg = cfg, st_widgets = (st_widgets st)\<lparr>wd_autostart := on\<rparr>\<rparr>, [Config_changed cfg]), s))"

definition on_install_backends_clicked ::
    "json_lib \<Rightarrow> environment \<Rightarrow> settings \<Rightarrow> fs \<Rightarrow> (settings \<times> settings_out list) option \<times> fs" where
  "on_install_backends_clicked lib env st s =
     (let cfg = (st_cfg st)\<lparr>cfg_consent := kBackendGranted\<rparr>;
          (ok, s) = install_backends lib env (appimage_payload_dir env) s in
      if ok = None then (None, s)
      else
        let (saved, s) = save_config lib (config_path env) cfg s in
        if saved = None then (None, s)
        else
          let (w, s) = refresh_backend_row env (st_widgets st) s
          in (Some (\<lparr>st_cfg = cfg, st_widgets = w\<rparr>, (if ok = Some True then [] else [Warned]) @ [Config_changed cfg]), s))"

definition show_event :: "environment \<Rightarrow> settings \<Rightarrow> fs \<Rightarrow> settings \<times> fs" where
  "show_event env st s =
     (let (on, s) = autostart_enabled (autostart_path env) s;
          (w, s) = refresh_backend_row env ((st_widgets st)\<lparr>wd_autostart := on\<rparr>) s
      in (st\<lparr>st_widgets := w\<rparr>, s))"

text \<open>What the user can do to the open window; a widget takes a value within its range only.\<close>

datatype action =
    Tick_autostart bool | Pick_anchor int | Slide_scale int | Spin_hdr_nits int | Tick_show_all bool
  | Pick_toast_anchor int | Spin_toast_duration int | Type_denylist string
  | Click_save | Click_install | Show_again

fun edit_widgets :: "action \<Rightarrow> widgets \<Rightarrow> widgets" where
  "edit_widgets (Tick_autostart b) w = w\<lparr>wd_autostart := b\<rparr>"
| "edit_widgets (Pick_anchor i) w = w\<lparr>wd_anchor := in_range 0 5 i\<rparr>"
| "edit_widgets (Slide_scale i) w = w\<lparr>wd_scale := in_range 50 300 i\<rparr>"
| "edit_widgets (Spin_hdr_nits i) w = w\<lparr>wd_hdr_nits := in_range 80 1000 i\<rparr>"
| "edit_widgets (Tick_show_all b) w = w\<lparr>wd_show_all := b\<rparr>"
| "edit_widgets (Pick_toast_anchor i) w = w\<lparr>wd_toast_anchor := in_range 0 5 i\<rparr>"
| "edit_widgets (Spin_toast_duration i) w = w\<lparr>wd_toast_duration := in_range 500 60000 i\<rparr>"
| "edit_widgets (Type_denylist t) w = w\<lparr>wd_denylist := t\<rparr>"
| "edit_widgets _ w = w"

definition settings_step ::
    "json_lib \<Rightarrow> environment \<Rightarrow> (string \<Rightarrow> string) \<Rightarrow> string \<Rightarrow> settings \<times> fs \<Rightarrow> action \<Rightarrow> ((settings \<times> fs) \<times> settings_out list) option" where
  "settings_step lib env trimmed app_path ss act =
     (case ss of (st, s) \<Rightarrow>
        case act of
          Click_save \<Rightarrow> (case on_save_clicked lib env trimmed app_path st s of
              (Some (st', out), s') \<Rightarrow> Some ((st', s'), out) | (None, s') \<Rightarrow> None)
        | Click_install \<Rightarrow>
            if wd_installed (st_widgets st) \<noteq> Some False then Some ((st, s), [])
            else (case on_install_backends_clicked lib env st s of
              (Some (st', out), s') \<Rightarrow> Some ((st', s'), out) | (None, s') \<Rightarrow> None)
        | Show_again \<Rightarrow> Some (show_event env st s, [])
        | a \<Rightarrow> Some ((st\<lparr>st_widgets := edit_widgets a (st_widgets st)\<rparr>, s), []))"

section \<open>Widgets and values\<close>

lemma index_anchor [simp]: "index_to_anchor (anchor_to_index a) = a"
  by (cases a; hypsubst; code_simp)

lemma anchor_label: "anchor_labels ! nat (anchor_to_index a) =
    (case a of TopLeft \<Rightarrow> ''Top Left'' | TopRight \<Rightarrow> ''Top Right'' | BottomLeft \<Rightarrow> ''Bottom Left'' | BottomRight \<Rightarrow> ''Bottom Right''
      | CenterLeft \<Rightarrow> ''Center Left'' | CenterRight \<Rightarrow> ''Center Right'')"
  by (cases a; hypsubst; code_simp)

lemma anchor_index_range: "0 \<le> anchor_to_index a \<and> anchor_to_index a \<le> 5"
  by (cases a; hypsubst; code_simp)

lemma in_range_bounds: "lo \<le> hi \<Longrightarrow> lo \<le> in_range lo hi v \<and> in_range lo hi v \<le> hi"
  by (simp add: in_range_def)

lemma in_range_id: "lo \<le> v \<Longrightarrow> v \<le> hi \<Longrightarrow> in_range lo hi v = v"
  by (simp add: in_range_def)

definition widgets_ok :: "widgets \<Rightarrow> bool" where
  "widgets_ok w \<longleftrightarrow> 0 \<le> wd_anchor w \<and> wd_anchor w \<le> 5 \<and> 50 \<le> wd_scale w \<and> wd_scale w \<le> 300 \<and>
     80 \<le> wd_hdr_nits w \<and> wd_hdr_nits w \<le> 1000 \<and> 0 \<le> wd_toast_anchor w \<and> wd_toast_anchor w \<le> 5 \<and>
     500 \<le> wd_toast_duration w \<and> wd_toast_duration w \<le> 60000"

lemma show_appearance_ok: "widgets_ok (show_appearance a w)"
  using in_range_bounds anchor_index_range by (simp add: widgets_ok_def show_appearance_def)

text \<open>Rounding errors do not reach the whole numbers of the widgets.\<close>

lemma scale_shown:
  assumes "50 \<le> v" "v \<le> 300"
  shows "\<lfloor>f32_round (f32_round (f32_round (of_int v / 100) * 100) + 1 / 2)\<rfloor> = v"
proof -
  have p: "pow2 2 = 4" "pow2 9 = 512" "pow2 (- 23) = 1 / 8388608" "pow2 (- 16) = 1 / 65536" by (simp_all add: pow2_def)
  have v: "50 \<le> (of_int v :: rat)" "(of_int v :: rat) \<le> 300" using assms by simp_all
  define s t u where "s = f32_round (of_int v / 100 :: rat)" and "t = f32_round (s * 100)" and "u = f32_round (t + 1 / 2)"
  have s: "\<bar>s - of_int v / 100\<bar> \<le> 1 / 8388608" unfolding s_def using f32_error [of "of_int v / 100" 1] v p by simp
  have s100: "\<bar>s * 100 - of_int v\<bar> \<le> 1 / 1000" using s by linarith
  have b: "0 < s * 100" "s * 100 < 512" using s100 v by linarith+
  have t: "\<bar>t - s * 100\<bar> \<le> 1 / 65536" unfolding t_def using f32_error [of "s * 100" 8] b p by simp
  have b: "0 < t + 1 / 2" "t + 1 / 2 < 512" using t s100 v by linarith+
  have u: "\<bar>u - (t + 1 / 2)\<bar> \<le> 1 / 65536" unfolding u_def using f32_error [of "t + 1 / 2" 8] b p by simp
  have "of_int v \<le> u" "u < of_int v + 1" using s100 t u by linarith+
  then show ?thesis unfolding s_def [symmetric] t_def [symmetric] u_def [symmetric] by (rule floor_unique)
qed

lemma nits_shown:
  assumes "80 \<le> v" "v \<le> 1000"
  shows "\<lfloor>f32_round (f32_round (of_int v) + 1 / 2)\<rfloor> = v"
proof -
  have p: "pow2 10 = 1024" "pow2 (- 15) = 1 / 32768" by (simp_all add: pow2_def)
  have v: "80 \<le> (of_int v :: rat)" "(of_int v :: rat) \<le> 1000" using assms by simp_all
  define t u where "t = f32_round (of_int v :: rat)" and "u = f32_round (t + 1 / 2)"
  have t: "\<bar>t - of_int v\<bar> \<le> 1 / 32768" unfolding t_def using f32_error [of "of_int v" 9] v p by simp
  have b: "0 < t + 1 / 2" "t + 1 / 2 < 1024" using t v by linarith+
  have u: "\<bar>u - (t + 1 / 2)\<bar> \<le> 1 / 32768" unfolding u_def using f32_error [of "t + 1 / 2" 9] b p by simp
  have "of_int v \<le> u" "u < of_int v + 1" using t u by linarith+
  then show ?thesis unfolding t_def [symmetric] u_def [symmetric] by (rule floor_unique)
qed

lemma shown_gathered:
  assumes "widgets_ok w"
  shows "gather_appearance (show_appearance (gather_appearance w) v) = gather_appearance w"
  using assms scale_shown nits_shown by (simp add: gather_appearance_def show_appearance_def in_range_id widgets_ok_def)

lemma split_lines_nonempty [simp]: "split_lines t \<noteq> []"
  by (induction t) (auto split: list.split)

lemma split_line: "CHR 0x0A \<notin> set l \<Longrightarrow> split_lines l = [l]"
  by (induction l) auto

lemma split_joined: "CHR 0x0A \<notin> set l \<Longrightarrow> split_lines (l @ CHR 0x0A # t) = l # split_lines t"
  by (induction l) (auto split: list.split)

lemma split_join:
  "list_all (\<lambda>l. CHR 0x0A \<notin> set l) ls \<Longrightarrow> ls \<noteq> [] \<Longrightarrow> split_lines (join_lines ls) = ls"
  by (induction ls rule: join_lines.induct) (simp_all add: split_line split_joined)

lemma split_no_newline: "l \<in> set (split_lines t) \<Longrightarrow> CHR 0x0A \<notin> set l"
  by (induction t arbitrary: l) (auto split: list.splits if_splits)

text \<open>What is documented of trimming.\<close>

definition trims :: "(string \<Rightarrow> string) \<Rightarrow> bool" where
  "trims trimmed \<longleftrightarrow> (\<forall>t. trimmed (trimmed t) = trimmed t \<and> set (trimmed t) \<subseteq> set t)"

lemma gathered_again:
  assumes "trims trimmed"
  shows "gather_denylist trimmed (join_lines (gather_denylist trimmed t)) = gather_denylist trimmed t"
proof -
  let ?ls = "gather_denylist trimmed t"
  have fixed: "map trimmed ?ls = ?ls" "filter (\<lambda>l. l \<noteq> []) ?ls = ?ls"
    using assms by (auto simp: gather_denylist_def trims_def intro!: map_idI)
  have "list_all (\<lambda>l. CHR 0x0A \<notin> set l) ?ls"
    using assms split_no_newline unfolding trims_def gather_denylist_def list_all_iff by fastforce
  then show ?thesis
  proof (cases "?ls = []")
    case True
    have "trimmed [] = []" using assms by (metis list.set(1) subset_empty set_empty trims_def)
    then show ?thesis unfolding True by (simp add: gather_denylist_def)
  next
    case False
    then show ?thesis
      using split_join [OF \<open>list_all _ ?ls\<close> False] fixed unfolding gather_denylist_def [of trimmed "join_lines ?ls"] by simp
  qed
qed

section \<open>What opening shows\<close>

lemma refresh_fields:
  "refresh_backend_row env w s = (w', s') \<Longrightarrow> \<exists>b. w' = w\<lparr>wd_installed := b\<rparr>"
  by (cases "wd_installed w") (auto simp: refresh_backend_row_def split: prod.splits intro: exI [of _ "wd_installed w"])

lemma opened_widgets:
  assumes "open_settings env cfg s = (st, s')"
  shows "st_cfg st = cfg \<and> widgets_ok (st_widgets st) \<and>
     gather_appearance (st_widgets st) = gather_appearance (show_appearance (cfg_appearance cfg) (build_ui env)) \<and>
     wd_denylist (st_widgets st) = join_lines (cfg_denylist cfg)"
proof -
  obtain on s1 where a: "autostart_enabled (autostart_path env) s = (on, s1)" by fastforce
  obtain w s2 where r: "refresh_backend_row env ((build_ui env)\<lparr>wd_autostart := on\<rparr>) s1 = (w, s2)" by fastforce
  obtain b where w: "w = (build_ui env)\<lparr>wd_autostart := on, wd_installed := b\<rparr>" using refresh_fields [OF r] by auto
  have st: "st = \<lparr>st_cfg = cfg, st_widgets = (show_appearance (cfg_appearance cfg) w)\<lparr>wd_denylist := join_lines (cfg_denylist cfg)\<rparr>\<rparr>"
    using assms by (simp add: open_settings_def load_into_widgets_def a r)
  have "widgets_ok (v\<lparr>wd_denylist := t\<rparr>) = widgets_ok v" for v t by (simp add: widgets_ok_def)
  then show ?thesis using show_appearance_ok w unfolding st by (simp add: gather_appearance_def show_appearance_def)
qed

text \<open>
  Saved settings are shown as they were saved: a window opened on what another one gathered, on
  whatever disk, gathers the same again, so that saving twice never drifts.
\<close>

theorem settings_survive_reopening:
  assumes "open_settings env (gather_from_widgets trimmed st) s = (st', s')" and "widgets_ok (st_widgets st)" and "trims trimmed"
  shows "gather_from_widgets trimmed st' = gather_from_widgets trimmed st"
proof -
  let ?c = "gather_from_widgets trimmed st"
  note o = opened_widgets [OF assms(1)]
  have "gather_appearance (st_widgets st') = cfg_appearance ?c"
    using o shown_gathered [OF assms(2)] by (simp add: gather_from_widgets_def)
  moreover have "gather_denylist trimmed (wd_denylist (st_widgets st')) = cfg_denylist ?c"
    using o gathered_again [OF assms(3)] by (simp add: gather_from_widgets_def)
  ultimately show ?thesis using o by (simp add: gather_from_widgets_def [of trimmed st'])
qed

section \<open>A session with the window\<close>

text \<open>What no action can change, and what it may.\<close>

definition same_account :: "config \<Rightarrow> config \<Rightarrow> bool" where
  "same_account c d \<longleftrightarrow> cfg_client_id c = cfg_client_id d \<and> cfg_access_token c = cfg_access_token d \<and>
     cfg_refresh_token c = cfg_refresh_token d"

fun announced_sound :: "config \<Rightarrow> settings_out \<Rightarrow> bool" where
  "announced_sound c (Config_changed d) \<longleftrightarrow> same_account d c \<and> (cfg_consent d = cfg_consent c \<or> cfg_consent d = kBackendGranted)"
| "announced_sound c Warned \<longleftrightarrow> True"

definition settings_inv :: "config \<Rightarrow> settings \<times> fs \<Rightarrow> bool" where
  "settings_inv c ss \<longleftrightarrow> announced_sound c (Config_changed (st_cfg (fst ss))) \<and> widgets_ok (st_widgets (fst ss))"

lemma widgets_ok_upd [simp]:
  "widgets_ok (w\<lparr>wd_autostart := b\<rparr>) = widgets_ok w" "widgets_ok (w\<lparr>wd_installed := i\<rparr>) = widgets_ok w"
  by (simp_all add: widgets_ok_def)

lemma edit_widgets_ok: "widgets_ok w \<Longrightarrow> widgets_ok (edit_widgets a w)"
  using in_range_bounds by (cases a) (simp_all add: widgets_ok_def)

lemma refresh_ok: "refresh_backend_row env w s = (w', s') \<Longrightarrow> widgets_ok w \<Longrightarrow> widgets_ok w'"
  by (auto dest: refresh_fields)

lemma save_kept:
  assumes "on_save_clicked lib env trimmed app_path st s = (Some (st', out), s')"
  shows "st_cfg st' = gather_from_widgets trimmed st \<and> out = [Config_changed (st_cfg st')] \<and>
    (\<exists>b. st_widgets st' = (st_widgets st)\<lparr>wd_autostart := b\<rparr>)"
  using assms by (auto simp: on_save_clicked_def Let_def split: prod.splits if_splits)

lemma install_kept:
  assumes "on_install_backends_clicked lib env st s = (Some (st', out), s')"
  shows "st_cfg st' = (st_cfg st)\<lparr>cfg_consent := kBackendGranted\<rparr> \<and> set out \<subseteq> {Warned, Config_changed (st_cfg st')} \<and>
    (\<exists>b. st_widgets st' = (st_widgets st)\<lparr>wd_installed := b\<rparr>)"
  using assms by (auto simp: on_install_backends_clicked_def Let_def dest!: refresh_fields split: prod.splits if_splits)

lemma settings_step_inv:
  assumes "settings_inv c ss" and "settings_step lib env trimmed app_path ss a = Some (ss', out)"
  shows "settings_inv c ss' \<and> list_all (announced_sound c) out"
proof -
  obtain st s where ss: "ss = (st, s)" by fastforce
  consider "a = Click_save" | "a = Click_install" | "a = Show_again" | "a \<notin> {Click_save, Click_install, Show_again}" by blast
  then show ?thesis
  proof cases
    case 1
    then obtain st' s' where r: "on_save_clicked lib env trimmed app_path st s = (Some (st', out), s')" "ss' = (st', s')"
      using assms(2) ss by (auto simp: settings_step_def split: prod.splits option.splits)
    show ?thesis using save_kept [OF r(1)] assms(1) r(2) ss
      by (auto simp: settings_inv_def gather_from_widgets_def same_account_def)
  next
    case 2
    then consider "ss' = ss" "out = []"
      | st' s' where "on_install_backends_clicked lib env st s = (Some (st', out), s')" "ss' = (st', s')"
      using assms(2) ss by (auto simp: settings_step_def split: prod.splits option.splits if_splits)
    then show ?thesis
    proof cases
      case 1
      then show ?thesis using assms(1) by simp
    next
      case 2
      show ?thesis using install_kept [OF 2(1)] assms(1) 2(2) ss
        by (auto simp: settings_inv_def same_account_def list_all_iff)
    qed
  next
    case 3
    then obtain w s1 on s2 where "ss' = (st\<lparr>st_widgets := w\<rparr>, s2)" "out = []"
      "refresh_backend_row env ((st_widgets st)\<lparr>wd_autostart := on\<rparr>) s1 = (w, s2)"
      using assms(2) ss by (auto simp: settings_step_def show_event_def Let_def split: prod.splits)
    then show ?thesis using assms(1) ss by (auto simp: settings_inv_def dest: refresh_ok)
  next
    case 4
    then have "ss' = (st\<lparr>st_widgets := edit_widgets a (st_widgets st)\<rparr>, s)" "out = []"
      using assms(2) ss by (auto simp: settings_step_def split: action.splits)
    then show ?thesis using assms(1) ss by (simp add: settings_inv_def edit_widgets_ok)
  qed
qed

interpretation window: partial_machine "settings_step lib env trimmed app_path" "settings_inv c" "\<lambda>_. True" "announced_sound c"
  for lib env trimmed app_path c
  by unfold_locales (rule settings_step_inv)


section \<open>The next launch\<close>

lemma gathered_wf: "widgets_ok w \<Longrightarrow> wf_appearance (gather_appearance w)"
  using f32_idem [of "of_int (wd_scale w) / 100"] f32_idem [of "of_int (wd_hdr_nits w)"]
  by (simp add: wf_appearance_def gather_appearance_def widgets_ok_def in_int32_def)

lemma paths_differ: "config_path env \<noteq> autostart_path env"
proof
  assume "config_path env = autostart_path env"
  then have "last (config_path env) = last (autostart_path env)" by simp
  then show False by (simp add: config_path_def autostart_path_def)
qed

lemma touches_set_autostart:
  assumes "set_autostart path on exec s = (ok, s')"
  shows "touches {path} s s'"
proof (cases on)
  case False
  then show ?thesis using assms touches_remove by (simp add: set_autostart_def)
next
  case True
  obtain made s0 where 0: "(if dirname path \<noteq> [] then make_dir (dirname path) s else (True, s)) = (made, s0)" by fastforce
  obtain opened s1 where 1: "open_trunc path 420 s0 = (opened, s1)" by fastforce
  obtain w s2 where 2: "write_all path (desktop_entry exec) s1 = (w, s2)" by fastforce
  obtain closed s3 where 3: "fs_ask s2 = (closed, s3)" by fastforce
  have a: "touches {path} s s0" using 0 touches_make_dir [of "dirname path" s] by (auto split: if_splits)
  have b: "touches {path} s s1" using touches_trans [OF a touches_open [OF 1]] .
  have "touches {path} s s3" using touches_trans [OF touches_trans [OF b touches_write_all [OF 2]] touches_asked [OF 3]] .
  moreover have "s' = s0 \<or> s' = s1 \<or> s' = s3"
    using assms True by (auto simp: set_autostart_def Let_def 0 1 2 3 split: if_splits)
  ultimately show ?thesis using a b by blast
qed

lemma autostart_reads: "autostart_enabled path s = (on, s') \<Longrightarrow> fs_files s' = fs_files s"
  by (auto simp: autostart_enabled_def read_file_def Let_def dest: fs_ask_files split: prod.splits option.splits)


section \<open>Examples\<close>

definition ascii_blank :: "char \<Rightarrow> bool" where
  "ascii_blank c \<longleftrightarrow> c \<in> {CHR '' '', CHR 0x09, CHR 0x0A, CHR 0x0B, CHR 0x0C, CHR 0x0D}"

definition ascii_trimmed :: "string \<Rightarrow> string" where
  "ascii_trimmed t = rev (dropWhile ascii_blank (rev (dropWhile ascii_blank t)))"

lemma dropWhile_rev_dropWhile:
  "dropWhile P (rev (dropWhile P (rev (dropWhile P t)))) = rev (dropWhile P (rev (dropWhile P t)))"
proof (cases "dropWhile P t")
  case Nil
  show ?thesis unfolding Nil by simp
next
  case (Cons x xs)
  then have x: "\<not> P x" using hd_dropWhile [of P t] by simp
  have "dropWhile P (rev (x # xs)) = dropWhile P (rev xs) @ [x]" if "dropWhile P (rev xs) \<noteq> []" using that by (simp add: dropWhile_append)
  moreover have "dropWhile P (rev (x # xs)) = [x]" if "dropWhile P (rev xs) = []" using that x by (simp add: dropWhile_append)
  ultimately show ?thesis unfolding Cons using x by (cases "dropWhile P (rev xs) = []") simp_all
qed

lemma ascii_trims: "trims ascii_trimmed"
proof -
  have "set (dropWhile P t) \<subseteq> set t" for P and t :: string by (metis set_dropWhileD subsetI)
  then have "set (ascii_trimmed t) \<subseteq> set t" for t unfolding ascii_trimmed_def by (metis order_trans set_rev)
  moreover have "dropWhile P (dropWhile P t) = dropWhile P t" for P and t :: string by (induction t) auto
  ultimately show ?thesis by (simp add: trims_def ascii_trimmed_def dropWhile_rev_dropWhile)
qed

definition home :: environment where
  "home = [''HOME'' \<mapsto> ''/home/u'']"

definition a_window :: settings where
  "a_window = \<lparr>st_cfg = a_config,
     st_widgets = (build_ui home)\<lparr>wd_scale := 175, wd_hdr_nits := 200, wd_anchor := 4, wd_denylist := '' obs'' @ [CHR 0x0A, CHR 0x0A] @ ''steam''\<rparr>\<rparr>"

lemma a_window_ok: "widgets_ok (st_widgets a_window)"
  by code_simp

lemma settings_survive_reopening_witness:
  "gather_from_widgets ascii_trimmed (fst (open_settings home (gather_from_widgets ascii_trimmed a_window) a_disk)) =
     gather_from_widgets ascii_trimmed a_window"
proof -
  obtain st s where o: "open_settings home (gather_from_widgets ascii_trimmed a_window) a_disk = (st, s)" by fastforce
  show ?thesis using settings_survive_reopening [OF o a_window_ok ascii_trims] by (simp add: o)
qed

lemma a_window_denylist: "cfg_denylist (gather_from_widgets ascii_trimmed a_window) = [''obs'', ''steam'']"
  by code_simp

definition printing :: json_lib where
  "printing = \<lparr>lib_parse = \<lambda>_. None, lib_dump = \<lambda>_. Some ''{}''\<rparr>"

definition some_clicks :: "action list" where
  "some_clicks = [Slide_scale 900, Click_save, Click_install, Tick_autostart True, Show_again]"

lemma some_clicks_run:
  "run_opt (settings_step printing home ascii_trimmed ''/usr/bin/choir'') (open_settings home a_config a_disk) some_clicks \<noteq> None"
  by code_simp


definition window_doc :: json_lib where
  "window_doc = one_doc (config_to_json (gather_from_widgets ascii_trimmed a_window)) ''{json}''"

lemma window_saves:
  "fst (save_config window_doc (config_path home) (gather_from_widgets ascii_trimmed a_window) a_disk) = Some True"
  "fst (on_save_clicked window_doc home ascii_trimmed ''/usr/bin/choir'' a_window a_disk) \<noteq> None"
  "fst (fs_ask (snd (on_save_clicked window_doc home ascii_trimmed ''/usr/bin/choir'' a_window a_disk)))"
  by code_simp+


text \<open>An emptied denylist protects nothing until the next launch, and then the default names.\<close>

lemma cleared_denylist_comes_back:
  "cfg_denylist (gather_from_widgets ascii_trimmed (a_window\<lparr>st_widgets := (st_widgets a_window)\<lparr>wd_denylist := '' ''\<rparr>\<rparr>)) = []"
  "\<not> blocks fnmatch [] exe"
  by (code_simp, simp add: blocks_def Let_def)

text \<open>A configuration written by hand with a value outside a widget's range is changed by the next Save.\<close>

lemma save_clamps_scale:
  "c_scale (cfg_appearance (gather_from_widgets ascii_trimmed
     (fst (open_settings home (a_config\<lparr>cfg_appearance := default_appearance\<lparr>c_scale := 1 / 4\<rparr>\<rparr>) a_disk)))) = 1 / 2"
  by code_simp

end
