(* ===== verification/AvatarCache.thy ===== *)
theory AvatarCache
  imports HostFiles AvatarFile Emoji
begin

text \<open>
  The host's avatar cache (\<^verbatim>\<open>src/host/model/avatar_cache.cpp\<close>): images fetched once, kept as files,
  and announced to the overlays, which read them. Fetching and decoding (Qt) is an argument, as is
  what happens while a file is written.
\<close>

section \<open>Definitions\<close>

type_synonym decoded_avatar = "u32 \<times> u32 \<times> bytes"

record avatar_cache =
  ac_dir :: string
  ac_known :: "string list"
  ac_fs :: fs
  ac_ready :: "(string \<times> string \<times> u32 \<times> u32) list"
  ac_fetched :: "string list"

definition cdn_url :: "string \<Rightarrow> string \<Rightarrow> string" where
  "cdn_url user_id avatar_hash =
     ''https://cdn.discordapp.com/avatars/'' @ user_id @ ''/'' @ avatar_hash @ ''.png?size=64''"

definition path_for :: "avatar_cache \<Rightarrow> string \<Rightarrow> string" where
  "path_for c avatar_hash = path_append (ac_dir c) (avatar_hash @ ''.rgba'')"

definition announce :: "string \<Rightarrow> u32 \<Rightarrow> u32 \<Rightarrow> avatar_cache \<Rightarrow> avatar_cache" where
  "announce key w h c =
     c\<lparr>ac_known := List.insert key (ac_known c), ac_ready := ac_ready c @ [(key, path_for c key, w, h)]\<rparr>"

text \<open>The check for a hit: what is known is not looked for on the disk.\<close>

definition cached :: "string \<Rightarrow> avatar_cache \<Rightarrow> bool \<times> avatar_cache" where
  "cached key c =
     (if key \<in> set (ac_known c) then (True, c)
      else
        let (ok, s) = fs_ask (ac_fs c)
        in (ok \<and> content_of (fs_files s) (path_for c key) \<noteq> None, c\<lparr>ac_fs := s\<rparr>))"

definition store_file :: "string \<Rightarrow> bytes option \<Rightarrow> fs \<Rightarrow> fs" where
  "store_file path b s = (case b of None \<Rightarrow> s | Some d \<Rightarrow> fs_set (AList.update path (str_of d, 420) (fs_files s)) s)"

definition request_url ::
    "(string \<Rightarrow> decoded_avatar option) \<Rightarrow> write_io \<Rightarrow> string \<Rightarrow> string \<Rightarrow> avatar_cache \<Rightarrow> avatar_cache" where
  "request_url fetch io key url c =
     (if key = [] \<or> url = [] then c
      else
        let path = path_for c key; (hit, c) = cached key c in
        if hit then announce key 64 64 c
        else
          let c = c\<lparr>ac_fetched := ac_fetched c @ [url]\<rparr> in
          case fetch url of
            None \<Rightarrow> c
          | Some (w, h, rgba) \<Rightarrow>
              let (made, s) = make_dir (ac_dir c) (ac_fs c) in
              if \<not> made then c\<lparr>ac_fs := s\<rparr>
              else
                let (ok, content) = write_avatar_rgba io w h (if rgba = [] then None else Some rgba);
                    s = store_file path content s in
                if \<not> ok then c\<lparr>ac_fs := snd (remove_file path s)\<rparr>
                else announce key w h (c\<lparr>ac_fs := s\<rparr>))"

definition request ::
    "(string \<Rightarrow> decoded_avatar option) \<Rightarrow> write_io \<Rightarrow> string \<Rightarrow> string \<Rightarrow> avatar_cache \<Rightarrow> avatar_cache" where
  "request fetch io user_id avatar_hash c =
     (if avatar_hash = [] then c else request_url fetch io avatar_hash (cdn_url user_id avatar_hash) c)"

definition kMaxEmojiPerNotification :: nat where
  "kMaxEmojiPerNotification = 16"

text \<open>Both texts' runs in turn; the return leaves both loops.\<close>

fun request_runs ::
    "(string \<Rightarrow> decoded_avatar option) \<Rightarrow> (string \<Rightarrow> write_io) \<Rightarrow> run list \<Rightarrow> string list \<Rightarrow> avatar_cache \<Rightarrow> avatar_cache" where
  "request_runs fetch io [] seen c = c"
| "request_runs fetch io (r # rs) seen c =
     (if run_key r = [] \<or> run_key r \<in> set seen then request_runs fetch io rs seen c
      else
        let seen = run_key r # seen in
        if length seen > kMaxEmojiPerNotification then c
        else request_runs fetch io rs seen (request_url fetch (io (run_key r)) (run_key r) (url_for (run_key r)) c))"

definition request_notification_emoji ::
    "(string \<Rightarrow> decoded_avatar option) \<Rightarrow> (string \<Rightarrow> write_io) \<Rightarrow> string \<Rightarrow> string \<Rightarrow> avatar_cache \<Rightarrow> avatar_cache" where
  "request_notification_emoji fetch io title body c =
     request_runs fetch io (split_runs title @ split_runs body) [] c"

section \<open>What is announced can be read\<close>

definition readable :: "files \<Rightarrow> string \<Rightarrow> bool" where
  "readable fl path \<longleftrightarrow> (case content_of fl path of Some t \<Rightarrow> read_avatar_rgba (Some (bytes_of t)) \<noteq> None | None \<Rightarrow> False)"

definition plain_key :: "string \<Rightarrow> bool" where
  "plain_key k \<longleftrightarrow> k \<noteq> [] \<and> hd k \<noteq> CHR ''/''"

text \<open>The image source's promise: decoded images are complete and of a size the file format takes.\<close>

definition source_ok :: "(string \<Rightarrow> decoded_avatar option) \<Rightarrow> bool" where
  "source_ok fetch \<longleftrightarrow> (\<forall>url w h px. fetch url = Some (w, h, px) \<longrightarrow> dims_ok w h \<and> length px = body_size w h)"

definition files_sound :: "(string \<Rightarrow> string) \<Rightarrow> files \<Rightarrow> bool" where
  "files_sound pf fl \<longleftrightarrow> (\<forall>k. plain_key k \<longrightarrow> content_of fl (pf k) \<noteq> None \<longrightarrow> readable fl (pf k))"

definition known_sound :: "(string \<Rightarrow> string) \<Rightarrow> string list \<Rightarrow> files \<Rightarrow> bool" where
  "known_sound pf ks fl \<longleftrightarrow> (\<forall>k \<in> set ks. plain_key k \<and> readable fl (pf k))"

definition cache_sound :: "avatar_cache \<Rightarrow> bool" where
  "cache_sound c \<longleftrightarrow> granted (ac_fs c) \<and> files_sound (path_for c) (fs_files (ac_fs c)) \<and>
     known_sound (path_for c) (ac_known c) (fs_files (ac_fs c)) \<and>
     list_all (\<lambda>(k, p, w, h). k \<in> set (ac_known c) \<and> p = path_for c k) (ac_ready c)"

lemma path_for_inj: "plain_key k \<Longrightarrow> plain_key l \<Longrightarrow> path_for c k = path_for c l \<longleftrightarrow> k = l"
  by (cases k; cases l) (auto simp: path_for_def path_append_def plain_key_def)

lemma path_for_upds [simp]:
  "path_for (c\<lparr>ac_fs := s\<rparr>) = path_for c" "path_for (c\<lparr>ac_fetched := u\<rparr>) = path_for c"
  "path_for (c\<lparr>ac_known := x\<rparr>) = path_for c" "path_for (c\<lparr>ac_ready := e\<rparr>) = path_for c"
  by (simp_all add: fun_eq_iff path_for_def)

lemma readable_cong: "map_of fl p = map_of fl' p \<Longrightarrow> readable fl p = readable fl' p"
  by (simp add: readable_def content_of_def)

lemma announce_sound:
  assumes "cache_sound c" and "plain_key key" and "readable (fs_files (ac_fs c)) (path_for c key)"
  shows "cache_sound (announce key w h c)"
proof -
  have "list_all (\<lambda>(k, p, w, h). k \<in> set (List.insert key (ac_known c)) \<and> p = path_for c k) (ac_ready c)"
    using assms(1) by (auto simp: cache_sound_def list_all_iff)
  then show ?thesis using assms by (simp add: cache_sound_def announce_def known_sound_def)
qed

text \<open>Changing a file that no known key has.\<close>

lemma fs_change_sound:
  assumes "cache_sound c" and "granted s" and "plain_key key" "key \<notin> set (ac_known c)"
    and "\<And>q. q \<noteq> path_for c key \<Longrightarrow> map_of (fs_files s) q = map_of (fs_files (ac_fs c)) q"
    and "content_of (fs_files s) (path_for c key) = None \<or> readable (fs_files s) (path_for c key)"
  shows "cache_sound (c\<lparr>ac_fs := s\<rparr>)"
proof -
  let ?old = "fs_files (ac_fs c)" and ?new = "fs_files s"
  have same: "map_of ?new (path_for c k) = map_of ?old (path_for c k)" if "plain_key k" "k \<noteq> key" for k
    using assms(5) path_for_inj [OF that(1) assms(3)] that(2) by blast
  have old: "files_sound (path_for c) ?old" "known_sound (path_for c) (ac_known c) ?old" using assms(1) by (simp_all add: cache_sound_def)
  have "files_sound (path_for c) ?new"
    unfolding files_sound_def
  proof (intro allI impI)
    fix k assume k: "plain_key k" "content_of ?new (path_for c k) \<noteq> None"
    show "readable ?new (path_for c k)"
    proof (cases "k = key")
      case True
      then show ?thesis using assms(6) k(2) by metis
    next
      case False
      have "content_of ?old (path_for c k) \<noteq> None" using k(2) same [OF k(1) False] by (simp add: content_of_def)
      then show ?thesis using old(1) k(1) readable_cong [OF same [OF k(1) False]] by (simp add: files_sound_def)
    qed
  qed
  moreover have "known_sound (path_for c) (ac_known c) ?new"
    unfolding known_sound_def
  proof
    fix k assume k: "k \<in> set (ac_known c)"
    then have "plain_key k" "k \<noteq> key" "readable ?old (path_for c k)" using old(2) assms(4) by (auto simp: known_sound_def)
    then show "plain_key k \<and> readable ?new (path_for c k)" using readable_cong [OF same [of k]] by simp
  qed
  ultimately show ?thesis using assms(1,2) by (simp add: cache_sound_def)
qed

lemma cached_spec:
  assumes "cached key c = (hit, c1)" and "granted (ac_fs c)"
  shows "\<exists>s. c1 = c\<lparr>ac_fs := s\<rparr> \<and> granted s \<and> fs_files s = fs_files (ac_fs c) \<and>
    (hit \<longleftrightarrow> key \<in> set (ac_known c) \<or> content_of (fs_files (ac_fs c)) (path_for c key) \<noteq> None)"
proof (cases "key \<in> set (ac_known c)")
  case True
  then show ?thesis using assms by (intro exI [of _ "ac_fs c"]) (simp add: cached_def)
next
  case False
  obtain ok s where a: "fs_ask (ac_fs c) = (ok, s)" by fastforce
  show ?thesis using assms(1) False a granted_ask [OF assms(2) a] fs_ask_files [OF a]
    by (intro exI [of _ s]) (auto simp: cached_def)
qed

lemma write_avatar_readable:
  assumes "write_avatar_rgba io w h (if px = [] then None else Some px) = (True, b)" and "dims_ok w h" "length px = body_size w h"
  shows "\<exists>d. b = Some d \<and> read_avatar_rgba (Some d) = Some (w, h, px)"
proof -
  have "px \<noteq> []" using assms(2,3) body_size_pos by fastforce
  then have "write_avatar_rgba io w h (Some px) = (True, b)" using assms(1) by simp
  then show ?thesis using read_avatar_image [OF assms(2,3)] assms(3)
    by (auto simp: write_avatar_eq min_def split: if_splits)
qed

lemma store_file_spec:
  "fs_answers (store_file p b s) = fs_answers s" "q \<noteq> p \<Longrightarrow> map_of (fs_files (store_file p b s)) q = map_of (fs_files s) q"
  "content_of (fs_files (store_file p (Some d) s)) p = Some (str_of d)"
  by (auto simp: store_file_def update_conv' files_simps split: option.splits)

lemma make_dir_granted: "granted s \<Longrightarrow> make_dir d s = (ok, s') \<Longrightarrow> granted s'"
  by (cases "fs_ask s") (auto simp: make_dir_def granted_def dest: granted_ask [unfolded granted_def])

lemma remove_granted:
  assumes "granted s" and "remove_file p s = (ok, s')"
  shows "granted s' \<and> content_of (fs_files s') p = None \<and> (\<forall>q. q \<noteq> p \<longrightarrow> map_of (fs_files s') q = map_of (fs_files s) q)"
proof -
  obtain b u where a: "fs_ask s = (b, u)" by fastforce
  have "b" "granted u" "fs_files u = fs_files s" using granted_ask [OF assms(1) a] fs_ask_files [OF a] by simp_all
  then show ?thesis using assms a by (auto simp: remove_file_def content_of_def delete_conv' granted_def split: if_splits)
qed

lemma request_url_sound:
  assumes "cache_sound c" and "source_ok fetch" and "key = [] \<or> plain_key key"
  shows "cache_sound (request_url fetch io key url c)"
proof (cases "key = [] \<or> url = []")
  case True
  then show ?thesis using assms(1) by (auto simp: request_url_def)
next
  case False
  then have k: "plain_key key" using assms(3) by blast
  obtain hit c1 where 1: "cached key c = (hit, c1)" by fastforce
  obtain s where s: "c1 = c\<lparr>ac_fs := s\<rparr>" "granted s" "fs_files s = fs_files (ac_fs c)"
    "hit \<longleftrightarrow> key \<in> set (ac_known c) \<or> content_of (fs_files (ac_fs c)) (path_for c key) \<noteq> None"
    using cached_spec [OF 1] assms(1) by (auto simp: cache_sound_def)
  let ?c = "c1\<lparr>ac_fetched := ac_fetched c1 @ [url]\<rparr>"
  have s1: "cache_sound c1" "cache_sound ?c" using assms(1) s(1-3) by (simp_all add: cache_sound_def)
  show ?thesis
  proof (cases hit)
    case True
    then have "readable (fs_files (ac_fs c1)) (path_for c1 key)"
      using s k assms(1) by (auto simp: cache_sound_def known_sound_def files_sound_def)
    then show ?thesis using announce_sound [OF s1(1) k] False 1 True by (simp add: request_url_def)
  next
    case miss: False
    show ?thesis
    proof (cases "fetch url")
      case None
      then show ?thesis using False 1 miss s1 by (simp add: request_url_def)
    next
      case (Some img)
      obtain w h px where img: "img = (w, h, px)" by (metis prod.exhaust)
      have dims: "dims_ok w h" "length px = body_size w h" using assms(2) Some img by (auto simp: source_ok_def)
      obtain made s2 where 2: "make_dir (ac_dir c) s = (made, s2)" by fastforce
      obtain ok b where 3: "write_avatar_rgba io w h (if px = [] then None else Some px) = (ok, b)" by fastforce
      define s3 where "s3 = store_file (path_for c key) b s2"
      have g2: "granted s2" "fs_files s2 = fs_files s" using make_dir_granted [OF s(2) 2] make_dir_files [OF 2] by simp_all
      have g3: "granted s3" "\<And>q. q \<noteq> path_for c key \<Longrightarrow> map_of (fs_files s3) q = map_of (fs_files s) q"
        using g2 store_file_spec(1,2) by (simp_all add: s3_def granted_def)
      have change: "cache_sound (?c\<lparr>ac_fs := t\<rparr>)" if "granted t" "\<And>q. q \<noteq> path_for c key \<Longrightarrow> map_of (fs_files t) q = map_of (fs_files s) q"
          "content_of (fs_files t) (path_for c key) = None \<or> readable (fs_files t) (path_for c key)" for t
        by (rule fs_change_sound [OF s1(2) that(1) k]) (use that s miss in simp_all)
      have r: "request_url fetch io key url c = (if \<not> made then ?c\<lparr>ac_fs := s2\<rparr>
          else if \<not> ok then ?c\<lparr>ac_fs := snd (remove_file (path_for c key) s3)\<rparr> else announce key w h (?c\<lparr>ac_fs := s3\<rparr>))"
        using False 1 miss Some img 2 3 s(1) by (simp add: request_url_def Let_def s3_def)
      have "content_of (fs_files s2) (path_for c key) = None" using g2 s(3,4) miss by simp
      then have "cache_sound (?c\<lparr>ac_fs := s2\<rparr>)" using change [of s2] g2 by simp
      moreover have "cache_sound (?c\<lparr>ac_fs := snd (remove_file (path_for c key) s3)\<rparr>)"
        using change [of "snd (remove_file (path_for c key) s3)"] remove_granted [OF g3(1)] g3(2) by (metis surjective_pairing)
      moreover have "cache_sound (announce key w h (?c\<lparr>ac_fs := s3\<rparr>))" if fine: "ok"
      proof -
        obtain d where "b = Some d" "read_avatar_rgba (Some d) = Some (w, h, px)"
          using write_avatar_readable [of io w h px b] 3 fine dims by auto
        then have "readable (fs_files s3) (path_for c key)" using store_file_spec(3) by (simp add: readable_def s3_def)
        then show ?thesis using announce_sound [OF change [OF g3] k] s(1) by simp
      qed
      ultimately show ?thesis using r by auto
    qed
  qed
qed

text \<open>One request after another, each with what the source and the disk do meanwhile.\<close>

fun serve_requests ::
    "((string \<Rightarrow> decoded_avatar option) \<times> write_io \<times> string \<times> string) list \<Rightarrow> avatar_cache \<Rightarrow> avatar_cache" where
  "serve_requests [] c = c"
| "serve_requests ((fetch, io, key, url) # rs) c = serve_requests rs (request_url fetch io key url c)"

lemma serve_requests_sound:
  "cache_sound c \<Longrightarrow> list_all (\<lambda>(fetch, io, key, url). source_ok fetch \<and> (key = [] \<or> plain_key key)) rs \<Longrightarrow>
     cache_sound (serve_requests rs c)"
  by (induction rs c rule: serve_requests.induct) (simp_all add: request_url_sound)

text \<open>
  What is announced can be read. Whatever is requested, fetched or refused, and wherever a
  write stops, every file announced so far is there and reads as an avatar, provided that the image
  source keeps its promise, keys are no absolute paths and the kernel lets partial files be removed.
\<close>

theorem announced_avatars_are_readable:
  assumes "cache_sound c" and "list_all (\<lambda>(fetch, io, key, url). source_ok fetch \<and> (key = [] \<or> plain_key key)) rs"
    and "(key, p, w, h) \<in> set (ac_ready (serve_requests rs c))"
  shows "readable (fs_files (ac_fs (serve_requests rs c))) p"
  using serve_requests_sound [OF assms(1,2)] assms(3) by (auto simp: cache_sound_def known_sound_def list_all_iff)

text \<open>A failure leaves the key to be asked for again: it is neither known nor announced.\<close>

theorem failed_request_is_retried:
  assumes "\<not> fst (cached key c)" and "fetch url = None" and "key \<noteq> []" "url \<noteq> []"
  shows "request_url fetch io key url c = (snd (cached key c))\<lparr>ac_fetched := ac_fetched (snd (cached key c)) @ [url]\<rparr>"
  using assms by (simp add: request_url_def split_beta Let_def)

section \<open>Emoji of a notification\<close>

lemma cached_keeps: "ac_fetched (snd (cached key c)) = ac_fetched c"
  by (simp add: cached_def split: prod.splits)

lemma request_url_fetched: "ac_fetched (request_url fetch io key url c) \<in> {ac_fetched c, ac_fetched c @ [url]}"
  using cached_keeps [of key c]
  by (auto simp: request_url_def announce_def Let_def split: prod.splits option.splits)

lemma request_runs_fetched:
  "distinct seen \<Longrightarrow> length seen \<le> kMaxEmojiPerNotification \<Longrightarrow>
     \<exists>ks. ac_fetched (request_runs fetch io rs seen c) = ac_fetched c @ map url_for ks \<and> distinct (seen @ ks) \<and>
       length (seen @ ks) \<le> kMaxEmojiPerNotification \<and> set ks \<subseteq> run_key ` set rs - {[]}"
proof (induction rs arbitrary: seen c)
  case (Cons r rs)
  let ?k = "run_key r"
  show ?case
  proof (cases "?k = [] \<or> ?k \<in> set seen")
    case True
    then show ?thesis using Cons.IH [OF Cons.prems, of c] by auto
  next
    case new: False
    show ?thesis
    proof (cases "length (?k # seen) > kMaxEmojiPerNotification")
      case True
      then show ?thesis using new Cons.prems by (intro exI [of _ "[]"]) simp
    next
      case False
      let ?c = "request_url fetch (io ?k) ?k (url_for ?k) c"
      have "distinct (?k # seen)" "length (?k # seen) \<le> kMaxEmojiPerNotification" using new Cons.prems(1) False by simp_all
      from Cons.IH [OF this, of ?c] obtain ks where ks: "ac_fetched (request_runs fetch io rs (?k # seen) ?c) = ac_fetched ?c @ map url_for ks"
        "distinct ((?k # seen) @ ks)" "length ((?k # seen) @ ks) \<le> kMaxEmojiPerNotification" "set ks \<subseteq> run_key ` set rs - {[]}" by blast
      have r: "request_runs fetch io (r # rs) seen c = request_runs fetch io rs (?k # seen) ?c" using new False by simp
      show ?thesis
      proof (cases "ac_fetched ?c = ac_fetched c")
        case True
        then show ?thesis using ks r by (intro exI [of _ ks]) auto
      next
        case False
        then have "ac_fetched ?c = ac_fetched c @ [url_for ?k]" using request_url_fetched [of fetch "io ?k" ?k "url_for ?k" c] by blast
        then show ?thesis using ks r new by (intro exI [of _ "?k # ks"]) auto
      qed
    qed
  qed
qed simp

text \<open>
  A notification costs at most sixteen fetches. Whatever its title and body hold, the host
  fetches the images of at most sixteen emoji for it, each at most once, and only ones that occur.
\<close>

theorem notification_fetches_bounded:
  "\<exists>ks. ac_fetched (request_notification_emoji fetch io title body c) = ac_fetched c @ map url_for ks \<and> distinct ks \<and>
     length ks \<le> 16 \<and> set ks \<subseteq> run_key ` set (split_runs title @ split_runs body) - {[]}"
  using request_runs_fetched [of "[]" fetch io "split_runs title @ split_runs body" c]
  by (simp add: request_notification_emoji_def kMaxEmojiPerNotification_def)

section \<open>A concrete cache\<close>

definition demo_cache :: avatar_cache where
  "demo_cache = \<lparr>ac_dir = ''/c'', ac_known = [], ac_fs = \<lparr>fs_files = [], fs_dirs = [], fs_answers = [], fs_writes = [], fs_past = []\<rparr>,
     ac_ready = [], ac_fetched = []\<rparr>"

definition demo_source :: "string \<Rightarrow> decoded_avatar option" where
  "demo_source url = Some (1, 1, [1, 2, 3, 4])"

definition good_write :: write_io where
  "good_write = \<lparr>can_open = True, hdr_accepted = 12, body_accepted = 4, close_ok = True\<rparr>"

definition demo_requests :: "((string \<Rightarrow> decoded_avatar option) \<times> write_io \<times> string \<times> string) list" where
  "demo_requests =
     [(demo_source, good_write\<lparr>body_accepted := 3\<rparr>, ''a'', cdn_url ''u'' ''a''), (\<lambda>_. None, good_write, ''a'', cdn_url ''u'' ''a''),
      (demo_source, good_write, ''a'', cdn_url ''u'' ''a''), (demo_source, good_write, ''a'', cdn_url ''u'' ''a'')]"

lemma demo_value: "ac_ready (serve_requests demo_requests demo_cache) = [(''a'', ''/c/a.rgba'', 1, 1), (''a'', ''/c/a.rgba'', 64, 64)]"
  by code_simp

theorem announced_avatars_are_readable_witness:
  "readable (fs_files (ac_fs (serve_requests demo_requests demo_cache))) ''/c/a.rgba''"
proof (rule announced_avatars_are_readable)
  show "cache_sound demo_cache"
    by (simp add: cache_sound_def demo_cache_def granted_def files_sound_def known_sound_def content_of_def)
  have d: "dims_ok 1 1" by (simp add: dims_ok_def kMaxDim_def)
  have "source_ok demo_source" by (simp add: source_ok_def demo_source_def d body_size_eq [OF d])
  moreover have "source_ok (\<lambda>_. None)" by (simp add: source_ok_def)
  ultimately show "list_all (\<lambda>(fetch, io, key, url). source_ok fetch \<and> (key = [] \<or> plain_key key)) demo_requests"
    by (simp add: demo_requests_def plain_key_def)
  show "(''a'', ''/c/a.rgba'', 1, 1) \<in> set (ac_ready (serve_requests demo_requests demo_cache))"
    unfolding demo_value by simp
qed

text \<open>
  A hit announces 64 by 64 whatever the file holds (above, an image of one pixel); and a partial file
  that the kernel would not let go is announced as soon as it is asked for again.
\<close>

theorem partial_file_announced:
  "let c = request_url demo_source (good_write\<lparr>body_accepted := 3\<rparr>) ''a'' (cdn_url ''u'' ''a'')
         (demo_cache\<lparr>ac_fs := (ac_fs demo_cache)\<lparr>fs_answers := [True, True, False]\<rparr>\<rparr>);
       c' = request_url demo_source good_write ''a'' (cdn_url ''u'' ''a'') c
   in ac_ready c = [] \<and> map fst (ac_ready c') = [''a''] \<and> \<not> readable (fs_files (ac_fs c')) ''/c/a.rgba''"
  by code_simp

end
