(* ===== verification/HostMain.thy ===== *)
theory HostMain
  imports SettingsWindow AvatarCache StateServer RpcSession "HOL-Library.Sublist"
begin

text \<open>
  The host's \<^verbatim>\<open>main.cpp\<close>: the command line, the question about the overlay libraries, and the wiring of
  the Discord connection, the overlay state, the avatar cache, the settings and the server. An event of
  the loop is one step; that a download runs a nested loop, in which further polls return at once
  (\<^verbatim>\<open>in_poll_\<close>), is not modelled.
\<close>

section \<open>The command line\<close>

datatype command = Version | Uninstall | Gui

fun command_of :: "string list \<Rightarrow> command" where
  "command_of [] = Gui"
| "command_of (a # as) = (if a = ''--version'' then Version else if a = ''--uninstall'' then Uninstall else command_of as)"

text \<open>The exit code, or \<^term>\<open>None\<close> when saving throws.\<close>

definition run_uninstall :: "json_lib \<Rightarrow> environment \<Rightarrow> fs \<Rightarrow> int option \<times> fs" where
  "run_uninstall lib env s =
     (let (ok, s) = uninstall_backends env s;
          (cfg, s) = load_config lib (config_path env) s;
          (saved, s) =
            (if cfg_consent cfg \<noteq> kBackendUnasked
             then save_config lib (config_path env) (cfg\<lparr>cfg_consent := kBackendUnasked\<rparr>) s
             else (Some True, s))
      in (if saved = None then None else Some (if ok then 0 else 1), s))"

section \<open>The overlay libraries\<close>

text \<open>\<open>install\<close> is the user's answer, should the question be asked.\<close>

definition sync_appimage_backends :: "json_lib \<Rightarrow> environment \<Rightarrow> bool \<Rightarrow> config \<Rightarrow> fs \<Rightarrow> config option \<times> fs" where
  "sync_appimage_backends lib env install cfg s =
     (let payload_dir = appimage_payload_dir env in
      if payload_dir = [] then (Some cfg, s)
      else
        let (current, s) = backends_up_to_date payload_dir (backend_lib_dir env) s in
        if current then (Some cfg, s)
        else
          let (saved, cfg, s) =
            (if cfg_consent cfg = kBackendUnasked then
               let cfg = cfg\<lparr>cfg_consent := if install then kBackendGranted else kBackendDeclined\<rparr>;
                   (saved, s) = save_config lib (config_path env) cfg s
               in (saved, cfg, s)
             else (Some True, cfg, s)) in
          if saved = None then (None, s)
          else if cfg_consent cfg \<noteq> kBackendGranted then (Some cfg, s)
          else
            let (ok, s) = install_backends lib env payload_dir s
            in (if ok = None then None else Some cfg, s))"

section \<open>The wiring\<close>

text \<open>What is outside: the printer, the matcher of the denylist, downloads and how their files are written.\<close>

record outside =
  o_lib :: json_lib
  o_fnmatch :: "string \<Rightarrow> string \<Rightarrow> bool"
  o_fetch :: "string \<Rightarrow> decoded_avatar option"
  o_io :: "string \<Rightarrow> write_io"

record host =
  h_config :: config
  h_denylist :: "string list"
  h_rpc :: rpc
  h_state :: overlay_state
  h_avatars :: avatar_cache
  h_server :: server

definition make_rpc_config :: "config \<Rightarrow> rpc_config" where
  "make_rpc_config cfg =
     \<lparr>g_client_id = cfg_client_id cfg, g_scopes = [''rpc'', ''rpc.notifications.read'', ''messages.read''],
      g_reconnect_delay_ms = 3000\<rparr>"

text \<open>\<^verbatim>\<open>state.on_change\<close> and \<^verbatim>\<open>avatars.ready\<close>, called for each change and each announcement in turn.\<close>

definition on_change :: "json_lib \<Rightarrow> snapshot \<Rightarrow> server \<Rightarrow> (server \<times> srv_output list) option" where
  "on_change lib sn sv = broadcast lib (set_snapshot sv sn) sn"

definition avatar_ready :: "json_lib \<Rightarrow> string \<times> string \<times> u32 \<times> u32 \<Rightarrow> server \<Rightarrow> (server \<times> srv_output list) option" where
  "avatar_ready lib a sv = (case a of (key, path, w, h) \<Rightarrow> broadcast_avatar lib sv key path w h)"

fun server_calls :: "('a \<Rightarrow> server \<Rightarrow> (server \<times> srv_output list) option) \<Rightarrow> 'a list \<Rightarrow> server \<Rightarrow> (server \<times> srv_output list) option" where
  "server_calls call [] sv = Some (sv, [])"
| "server_calls call (x # xs) sv =
     (case call x sv of
        None \<Rightarrow> None
      | Some (sv, out) \<Rightarrow> map_option (\<lambda>(sv, out'). (sv, out @ out')) (server_calls call xs sv))"

text \<open>The requests of the event handler, in its order.\<close>

definition request_images :: "outside \<Rightarrow> rpc_event \<Rightarrow> avatar_cache \<Rightarrow> avatar_cache" where
  "request_images ou ev c =
     (let voice = e_voice ev; n = e_notif ev;
          c = (if (e_kind ev = VoiceCreate \<or> e_kind ev = VoiceUpdate) \<and> v_avatar_hash voice \<noteq> []
               then request (o_fetch ou) (o_io ou (v_avatar_hash voice)) (v_user_id voice) (v_avatar_hash voice) c else c);
          c = (if e_kind ev = NotificationKind \<and> n_icon_hash n \<noteq> [] \<and> e_user_id ev \<noteq> []
               then request (o_fetch ou) (o_io ou (n_icon_hash n)) (e_user_id ev) (n_icon_hash n) c else c)
      in if e_kind ev = NotificationKind then request_notification_emoji (o_fetch ou) (o_io ou) (n_title n) (n_body n) c else c)"

definition on_rpc_event :: "outside \<Rightarrow> int \<Rightarrow> rpc_event \<Rightarrow> host \<Rightarrow> (host \<times> srv_output list) option" where
  "on_rpc_event ou now ev h =
     (let (st, changes) = apply_event (h_state h) ev now in
      case server_calls (on_change (o_lib ou)) changes (h_server h) of
        None \<Rightarrow> None
      | Some (sv, out) \<Rightarrow>
          let c = request_images ou ev (h_avatars h) in
          map_option (\<lambda>(sv, out'). (h\<lparr>h_state := st, h_avatars := c, h_server := sv\<rparr>, out @ out'))
            (server_calls (avatar_ready (o_lib ou)) (drop (length (ac_ready (h_avatars h))) (ac_ready c)) sv))"

fun on_rpc_events :: "outside \<Rightarrow> int \<Rightarrow> rpc_event list \<Rightarrow> host \<Rightarrow> (host \<times> srv_output list) option" where
  "on_rpc_events ou now [] h = Some (h, [])"
| "on_rpc_events ou now (ev # evs) h =
     (case on_rpc_event ou now ev h of
        None \<Rightarrow> None
      | Some (h, out) \<Rightarrow> map_option (\<lambda>(h, out'). (h, out @ out')) (on_rpc_events ou now evs h))"

definition events_of :: "rpc_output list \<Rightarrow> rpc_event list" where
  "events_of xs = concat (map (\<lambda>x. case x of Event ev \<Rightarrow> [ev] | _ \<Rightarrow> []) xs)"

text \<open>A call of the client (the timer's poll, the tray's reconnect), with the events it delivers; \<open>wall\<close> is the
  time the state stamps notifications with.\<close>

definition on_rpc_call :: "outside \<Rightarrow> int \<Rightarrow> rpc_call \<Rightarrow> host \<Rightarrow> (host \<times> srv_output list) option" where
  "on_rpc_call ou wall call h =
     (case rpc_step (o_lib ou) call (h_rpc h) of
        None \<Rightarrow> None
      | Some k \<Rightarrow> on_rpc_events ou wall (events_of (drop (length (k_out (h_rpc h))) (k_out k))) (h\<lparr>h_rpc := k\<rparr>))"

definition on_config_changed :: "outside \<Rightarrow> config \<Rightarrow> host \<Rightarrow> (host \<times> srv_output list) option" where
  "on_config_changed ou cfg h =
     (let (st, changes) = OverlayState.set_config (h_state h) (cfg_appearance cfg) in
      map_option (\<lambda>(sv, out). (h\<lparr>h_config := cfg, h_state := st, h_denylist := cfg_denylist cfg,
            h_server := sv\<lparr>is_blocked := Some (blocks (o_fnmatch ou) (cfg_denylist cfg))\<rparr>\<rparr>, out))
        (server_calls (on_change (o_lib ou)) changes (h_server h)))"

text \<open>What the server's sockets do.\<close>

fun from_socket :: "srv_event \<Rightarrow> bool" where
  "from_socket (Connection sock data) = True"
| "from_socket (Ready_read sock data) = True"
| "from_socket (StateServer.Disconnected sock) = True"
| "from_socket _ = False"

datatype host_event = Discord int rpc_call | Socket srv_event | Settings_saved config

fun host_step :: "outside \<Rightarrow> host \<Rightarrow> host_event \<Rightarrow> (host \<times> srv_output list) option" where
  "host_step ou h (Discord wall call) = on_rpc_call ou wall call h"
| "host_step ou h (Socket e) = (if from_socket e then map_option (\<lambda>(sv, out). (h\<lparr>h_server := sv\<rparr>, out)) (srv_step (o_lib ou) (h_server h) e) else Some (h, []))"
| "host_step ou h (Settings_saved cfg) = on_config_changed ou cfg h"

text \<open>Before the loop: the state's first configuration is set before anyone listens to its changes, and the
  client is started last.\<close>

definition wired :: "outside \<Rightarrow> config \<Rightarrow> rpc \<Rightarrow> avatar_cache \<Rightarrow> host" where
  "wired ou cfg k c =
     (let st = fst (OverlayState.set_config new_overlay_state (cfg_appearance cfg))
      in \<lparr>h_config = cfg, h_denylist = cfg_denylist cfg, h_rpc = k, h_state = st, h_avatars = c,
          h_server = set_snapshot (new_server (Some (blocks (o_fnmatch ou) (cfg_denylist cfg)))) (snap st)\<rparr>)"

definition launch :: "outside \<Rightarrow> int \<Rightarrow> config \<Rightarrow> (rpc_config \<Rightarrow> rpc) \<Rightarrow> avatar_cache \<Rightarrow> (host \<times> srv_output list) option" where
  "launch ou wall cfg new_rpc c =
     (let h = wired ou cfg (new_rpc (make_rpc_config cfg)) c in
      case start (o_lib ou) (h_rpc h) of
        None \<Rightarrow> None
      | Some k \<Rightarrow> on_rpc_events ou wall (events_of (drop (length (k_out (h_rpc h))) (k_out k))) (h\<lparr>h_rpc := k\<rparr>))"

section \<open>The parts stay in step\<close>

text \<open>The announcements, as the server stores them.\<close>

definition announced_entries :: "(string \<times> string \<times> u32 \<times> u32) list \<Rightarrow> (string \<rightharpoonup> avatar_entry)" where
  "announced_entries as = foldl (\<lambda>m (key, path, w, h). m(key \<mapsto> \<lparr>a_path = path, a_w = w, a_h = h\<rparr>)) Map.empty as"

definition in_step :: "outside \<Rightarrow> host \<Rightarrow> bool" where
  "in_step ou h \<longleftrightarrow>
     current (h_server h) = snap (h_state h) \<and>
     map_of (avatars (h_server h)) = announced_entries (ac_ready (h_avatars h)) \<and>
     is_blocked (h_server h) = Some (blocks (o_fnmatch ou) (h_denylist h)) \<and>
     h_denylist h = cfg_denylist (h_config h) \<and>
     s_config (snap (h_state h)) = cfg_appearance (h_config h) \<and>
     ov_inv (h_state h) \<and> srv_inv (h_server h)"

text \<open>The calls on the server are steps of the server's machine.\<close>

lemma on_change_run: "on_change lib sn sv = run_opt (srv_step lib) sv [Set_snapshot sn, Broadcast sn]"
  by (auto simp: on_change_def map_option_case split: option.splits)

lemma avatar_ready_run:
  "avatar_ready lib (key, path, w, h) sv = run_opt (srv_step lib) sv [Broadcast_avatar key path w h]"
  by (auto simp: avatar_ready_def map_option_case split: option.splits)

lemma run_opt_append:
  "run_opt step s (es @ fs) =
     (case run_opt step s es of None \<Rightarrow> None | Some (s1, o1) \<Rightarrow> map_option (\<lambda>(s2, o2). (s2, o1 @ o2)) (run_opt step s1 fs))"
  by (induction es arbitrary: s) (auto simp: map_option_case split: option.splits)

lemma server_calls_run:
  assumes "\<And>x sv. call x sv = run_opt (srv_step lib) sv (f x)"
  shows "server_calls call xs sv = run_opt (srv_step lib) sv (concat (map f xs))"
  by (induction xs arbitrary: sv) (auto simp: run_opt_append assms split: option.splits)

lemma on_changes:
  assumes "server_calls (on_change lib) sns sv = Some (sv', out)" "srv_inv sv"
  shows "current sv' = (if sns = [] then current sv else last sns) \<and> map_of (avatars sv') = map_of (avatars sv) \<and>
    is_blocked sv' = is_blocked sv \<and> srv_inv sv'"
proof -
  let ?es = "concat (map (\<lambda>sn. [Set_snapshot sn, Broadcast sn]) sns)"
  have r: "run_opt (srv_step lib) sv ?es = Some (sv', out)"
    using assms(1) server_calls_run [of "on_change lib" lib "\<lambda>sn. [Set_snapshot sn, Broadcast sn]", OF on_change_run] by simp
  have "foldl after_snapshot s ?es = (if sns = [] then s else last sns)" for s by (induction sns arbitrary: s) auto
  moreover have "foldl after_avatars m ?es = m" for m by (induction sns arbitrary: m) auto
  ultimately show ?thesis using run_store [OF r] srv.run_ok [OF assms(2) _ r] by (simp add: list_all_iff)
qed

lemma on_ready:
  assumes "server_calls (avatar_ready lib) as sv = Some (sv', out)" "srv_inv sv"
  shows "current sv' = current sv \<and> is_blocked sv' = is_blocked sv \<and> srv_inv sv' \<and>
    map_of (avatars sv') = foldl (\<lambda>m (key, path, w, h). m(key \<mapsto> \<lparr>a_path = path, a_w = w, a_h = h\<rparr>)) (map_of (avatars sv)) as"
proof -
  let ?f = "\<lambda>(key, path, w, h). [Broadcast_avatar key path w h]"
  have "avatar_ready lib x sv = run_opt (srv_step lib) sv (?f x)" for x sv by (cases x) (simp only: avatar_ready_run prod.case)
  from server_calls_run [of "avatar_ready lib", OF this] assms(1)
  have r: "run_opt (srv_step lib) sv (concat (map ?f as)) = Some (sv', out)" by simp
  have "foldl after_snapshot s (concat (map ?f as)) = s" for s by (induction as arbitrary: s) auto
  moreover have "foldl after_avatars m (concat (map ?f as)) = foldl (\<lambda>m (key, path, w, h). m(key \<mapsto> \<lparr>a_path = path, a_w = w, a_h = h\<rparr>)) m as" for m
    by (induction as arbitrary: m) auto
  ultimately show ?thesis using run_store [OF r] srv.run_ok [OF assms(2) _ r] by (simp add: list_all_iff)
qed

lemma applied:
  assumes "apply_event s ev now = (s', changes)"
  shows "(changes = [] \<and> s' = s \<or> changes = [snap s']) \<and> s_config (snap s') = s_config (snap s)"
  using assms by (auto simp: apply_event_def commit_def Let_def split: kind.splits option.splits)

text \<open>Announcements are only ever added.\<close>

definition announces_more :: "avatar_cache \<Rightarrow> avatar_cache \<Rightarrow> bool" where
  "announces_more c c' \<longleftrightarrow> prefix (ac_ready c) (ac_ready c')"

lemma announces_more_refl [simp]: "announces_more c c"
  by (simp add: announces_more_def)

lemma announces_more_trans: "announces_more c1 c2 \<Longrightarrow> announces_more c2 c3 \<Longrightarrow> announces_more c1 c3"
  unfolding announces_more_def by (rule prefix_order.trans)

lemma cached_ready: "cached key c = (hit, c') \<Longrightarrow> ac_ready c' = ac_ready c"
  by (auto simp: cached_def split: if_splits prod.splits)

lemma request_url_more: "announces_more c (request_url fetch io key url c)"
proof -
  obtain hit c1 where k: "cached key c = (hit, c1)" by fastforce
  note r = cached_ready [OF k]
  show ?thesis
    by (auto simp: announces_more_def request_url_def k r announce_def Let_def split: option.splits prod.splits)
qed

lemma request_runs_more: "announces_more c (request_runs fetch io rs seen c)"
proof (induction rs arbitrary: seen c)
  case (Cons r rs)
  show ?case
    using Cons.IH announces_more_trans [OF request_url_more Cons.IH] request_url_more by (simp add: Let_def)
qed simp

lemma request_images_more: "announces_more c (request_images ou ev c)"
proof -
  have r: "announces_more c (request fetch io u k c)" for fetch io u k c by (simp add: request_def request_url_more)
  have e: "announces_more c (request_notification_emoji fetch io t b c)" for fetch io t b c
    by (simp add: request_notification_emoji_def request_runs_more)
  define c1 where "c1 = (if (e_kind ev = VoiceCreate \<or> e_kind ev = VoiceUpdate) \<and> v_avatar_hash (e_voice ev) \<noteq> []
    then request (o_fetch ou) (o_io ou (v_avatar_hash (e_voice ev))) (v_user_id (e_voice ev)) (v_avatar_hash (e_voice ev)) c else c)"
  define c2 where "c2 = (if e_kind ev = NotificationKind \<and> n_icon_hash (e_notif ev) \<noteq> [] \<and> e_user_id ev \<noteq> []
    then request (o_fetch ou) (o_io ou (n_icon_hash (e_notif ev))) (e_user_id ev) (n_icon_hash (e_notif ev)) c1 else c1)"
  have "announces_more c c1" "announces_more c1 c2" by (simp_all add: c1_def c2_def r)
  then have "announces_more c c2" by (rule announces_more_trans)
  moreover have "request_images ou ev c =
      (if e_kind ev = NotificationKind then request_notification_emoji (o_fetch ou) (o_io ou) (n_title (e_notif ev)) (n_body (e_notif ev)) c2 else c2)"
    unfolding request_images_def Let_def c1_def c2_def ..
  ultimately show ?thesis using announces_more_trans [OF _ e] by simp
qed

lemma rpc_event_in_step:
  assumes "in_step ou h" and "on_rpc_event ou now ev h = Some (h', out)"
  shows "in_step ou h'"
proof -
  let ?lib = "o_lib ou"
  obtain st changes where a: "apply_event (h_state h) ev now = (st, changes)" by fastforce
  obtain sv out1 where b: "server_calls (on_change ?lib) changes (h_server h) = Some (sv, out1)"
    using assms(2) a by (auto simp: on_rpc_event_def split: option.splits)
  define c where "c = request_images ou ev (h_avatars h)"
  obtain sv' out2 where d: "server_calls (avatar_ready ?lib) (drop (length (ac_ready (h_avatars h))) (ac_ready c)) sv = Some (sv', out2)"
    and h': "h' = h\<lparr>h_state := st, h_avatars := c, h_server := sv'\<rparr>"
    using assms(2) a b by (auto simp: on_rpc_event_def Let_def c_def)
  have srv: "srv_inv (h_server h)" and cur: "current (h_server h) = snap (h_state h)"
    and ov: "ov_inv (h_state h)" using assms(1) by (simp_all add: in_step_def)
  note B = on_changes [OF b srv]
  note D = on_ready [OF d] B
  have "announces_more (h_avatars h) c" unfolding c_def by (rule request_images_more)
  then obtain as where as: "ac_ready c = ac_ready (h_avatars h) @ as" unfolding announces_more_def prefix_def by blast
  have "announced_entries (ac_ready c) = map_of (avatars sv')"
    using D assms(1) unfolding as announced_entries_def in_step_def by simp
  moreover have "ov_inv st" using apply_event_inv [OF ov, of ev now] a by simp
  moreover have "current sv' = snap st" using D applied [OF a] cur by auto
  ultimately show ?thesis using D assms(1) applied [OF a] unfolding in_step_def h' by simp
qed

lemma rpc_events_in_step:
  "in_step ou h \<Longrightarrow> on_rpc_events ou now evs h = Some (h', out) \<Longrightarrow> in_step ou h'"
proof (induction evs arbitrary: h out)
  case (Cons ev evs)
  then show ?case by (auto split: option.splits dest: rpc_event_in_step)
qed simp

lemma in_step_rpc: "in_step ou (h\<lparr>h_rpc := k\<rparr>) = in_step ou h"
  by (simp add: in_step_def)

lemma host_step_in_step:
  assumes "in_step ou h" and "host_step ou h e = Some (h', out)"
  shows "in_step ou h'"
proof (cases e)
  case (Discord wall call)
  then show ?thesis
    using assms rpc_events_in_step [of ou "h\<lparr>h_rpc := _\<rparr>"] by (auto simp: on_rpc_call_def in_step_rpc split: option.splits)
next
  case (Socket ev)
  show ?thesis
  proof (cases "from_socket ev")
    case True
    then obtain sv where s: "srv_step (o_lib ou) (h_server h) ev = Some (sv, out)" "h' = h\<lparr>h_server := sv\<rparr>"
      using assms(2) Socket by auto
    have "srv_inv sv" using srv.step_ok [OF _ _ s(1)] assms(1) by (simp add: in_step_def)
    moreover have "after_snapshot x ev = x" "after_avatars m ev = m" for x m using True by (cases ev; simp)+
    ultimately show ?thesis using srv_step_store [OF s(1)] assms(1) s(2) by (simp add: in_step_def)
  qed (use assms Socket in simp)
next
  case (Settings_saved cfg)
  obtain st changes where a: "OverlayState.set_config (h_state h) (cfg_appearance cfg) = (st, changes)" by fastforce
  have st: "changes = [snap st]" "s_config (snap st) = cfg_appearance cfg" "ov_inv st"
    using a assms(1) ov.inv_step [of "h_state h" "Set_config (cfg_appearance cfg)"] by (auto simp: set_config_def commit_def Let_def in_step_def)
  obtain sv where b: "server_calls (on_change (o_lib ou)) changes (h_server h) = Some (sv, out)"
    and h': "h' = h\<lparr>h_config := cfg, h_state := st, h_denylist := cfg_denylist cfg,
      h_server := sv\<lparr>is_blocked := Some (blocks (o_fnmatch ou) (cfg_denylist cfg))\<rparr>\<rparr>"
    using assms(2) Settings_saved a by (auto simp: on_config_changed_def)
  have "srv_inv (h_server h)" using assms(1) by (simp add: in_step_def)
  from on_changes [OF b this] show ?thesis using assms(1) st unfolding h' by (simp add: in_step_def srv_inv_def)
qed

interpretation host: partial_machine "host_step ou" "in_step ou" "\<lambda>_. True" "\<lambda>_. True" for ou
  by unfold_locales (auto simp: list_all_iff dest: host_step_in_step)

lemma wired_in_step: "ac_ready c = [] \<Longrightarrow> in_step ou (wired ou cfg k c)"
  by (simp add: in_step_def wired_def Let_def set_config_def commit_def set_snapshot_def new_server_def announced_entries_def
      srv_inv_def ov_inv_def new_overlay_state_def new_snapshot_def ids_def fun_eq_iff)

lemma launch_in_step: "launch ou wall cfg new_rpc c = Some (h, out) \<Longrightarrow> ac_ready c = [] \<Longrightarrow> in_step ou h"
  by (auto simp: launch_def Let_def in_step_rpc wired_in_step split: option.splits dest!: rpc_events_in_step [rotated])

lemma run_in_step:
  assumes "launch ou wall cfg new_rpc c = Some (h, out)" "ac_ready c = []" "run_opt (host_step ou) h es = Some (h', out')"
  shows "in_step ou h'"
  using host.run_ok [OF launch_in_step [OF assms(1,2)] _ assms(3)] by (simp add: list_all_iff)

text \<open>
  C6: Over the whole life of the host, whatever Discord sends, the user saves and the overlays' sockets do:
  the server holds the state the reducer computed with the appearance last saved, and every avatar
  announced so far, and admits processes by the denylist last saved.
\<close>

theorem host_parts_agree:
  assumes "launch ou wall cfg new_rpc c = Some (h, out)" "ac_ready c = []" "run_opt (host_step ou) h es = Some (h', out')"
  shows "current (h_server h') = snap (h_state h') \<and> s_config (current (h_server h')) = cfg_appearance (h_config h') \<and>
    map_of (avatars (h_server h')) = announced_entries (ac_ready (h_avatars h')) \<and>
    is_blocked (h_server h') = Some (blocks (o_fnmatch ou) (cfg_denylist (h_config h')))"
  using run_in_step [OF assms] by (auto simp: in_step_def)


section \<open>Consent\<close>

lemma reads_touch: "same_files names a b s = (r, s') \<Longrightarrow> touches ps s s'"
proof (induction names arbitrary: s)
  case (Cons name names)
  obtain x s1 where 1: "read_file (path_append a name) s = (x, s1)" by fastforce
  obtain y s2 where 2: "read_file (path_append b name) s1 = (y, s2)" by fastforce
  have r: "touches ps u u'" if "read_file p u = (z, u')" for p u z u'
    using that touches_asked by (auto simp: read_file_def Let_def split: prod.splits)
  note t = r [OF 1] touches_trans [OF r [OF 1] r [OF 2]]
  have "s' = s1 \<or> s' = s2 \<or> same_files names a b s2 = (r, s')" using Cons.prems by (auto simp: 1 2 Let_def split: if_splits)
  then show ?case using t Cons.IH touches_trans by blast
qed (simp add: touches_refl)

lemma config_apart [simp]:
  "config_path env \<noteq> vulkan_manifest_path env" "config_path env \<noteq> gl_wrapper_path env" "config_path env \<noteq> layer_lib env"
  "config_path env \<noteq> gl_lib env"
proof -
  have e: "p @ u \<noteq> q @ v" if "take 6 (rev u) \<noteq> take 6 (rev v)" "6 \<le> length u" "6 \<le> length v" for p q u v :: string
  proof
    assume "p @ u = q @ v"
    then have "rev u @ rev p = rev v @ rev q" by (metis rev_append)
    then have "take 6 (rev u @ rev p) = take 6 (rev v @ rev q)" by simp
    then show False using that by simp
  qed
  show "config_path env \<noteq> vulkan_manifest_path env" "config_path env \<noteq> gl_wrapper_path env" "config_path env \<noteq> layer_lib env"
    "config_path env \<noteq> gl_lib env"
    by (simp_all add: config_path_def layer_lib_def gl_lib_def path_append_def backend_lib_dir_def kLayerLib_def kGlLib_def
        vulkan_manifest_path_def gl_wrapper_path_def e)
qed

lemma touches_make_dirs: "touches ps s (make_dirs ds s)"
  using make_dirs_files [of ds s] touches_same by blast

lemma save_touches: "save_config lib path c s = (r, s') \<Longrightarrow> touches {path} s s'"
proof (cases r)
  case None
  then show "save_config lib path c s = (r, s') \<Longrightarrow> touches {path} s s'"
    by (auto simp: save_config_def Let_def split: option.splits prod.splits if_splits)
next
  case (Some ok)
  assume "save_config lib path c s = (r, s')"
  then have "save_config lib path c s = (Some ok, s')" using Some by simp
  then show ?thesis
  proof (cases rule: save_run)
    case unopened
    then show ?thesis using touches_trans [OF touches_make_dirs touches_open] by blast
  next
    case (written t s1 w s2 closed)
    show ?thesis
      using touches_trans [OF touches_trans [OF touches_trans [OF touches_trans [OF touches_make_dirs touches_open [OF written(2)]]
        touches_fchmod] touches_write_all [OF written(3)]] touches_asked [OF written(4)]] .
  qed
qed

text \<open>
  C8: Without the user's yes nothing is installed: at every moment of a launch that was declined, now or
  earlier, no file but the configuration is touched, and the answer is kept so that it is not asked again.
\<close>

theorem declined_installs_nothing:
  assumes "sync_appimage_backends lib env False cfg s = (r, s')" and "cfg_consent cfg \<noteq> kBackendGranted"
  shows "touches {config_path env} s s' \<and>
    (\<forall>cfg'. r = Some cfg' \<longrightarrow> cfg' = cfg \<or> cfg_consent cfg = kBackendUnasked \<and> cfg' = cfg\<lparr>cfg_consent := kBackendDeclined\<rparr>)"
proof (cases "appimage_payload_dir env = []")
  case True
  then show ?thesis using assms(1) by (auto simp: sync_appimage_backends_def)
next
  case False
  obtain b s1 where 1: "backends_up_to_date (appimage_payload_dir env) (backend_lib_dir env) s = (b, s1)" by fastforce
  have t: "touches {config_path env} s s1" by (rule reads_touch [OF 1 [unfolded backends_up_to_date_def]])
  obtain saved s2 where 2: "save_config lib (config_path env) (cfg\<lparr>cfg_consent := kBackendDeclined\<rparr>) s1 = (saved, s2)" by fastforce
  have u: "touches {config_path env} s s2" using touches_trans [OF t save_touches [OF 2]] .
  have d: "kBackendDeclined \<noteq> kBackendGranted" by (simp add: kBackendDeclined_def kBackendGranted_def)
  show ?thesis
  proof (cases "b \<or> cfg_consent cfg \<noteq> kBackendUnasked")
    case True
    have "sync_appimage_backends lib env False cfg s = (Some cfg, s1)"
      unfolding sync_appimage_backends_def using True assms(2) False by (auto simp: 1 Let_def)
    then show ?thesis using t assms(1) by simp
  next
    case no: False
    have "sync_appimage_backends lib env False cfg s = (if saved = None then None else Some (cfg\<lparr>cfg_consent := kBackendDeclined\<rparr>), s2)"
      unfolding sync_appimage_backends_def using no False d by (simp add: 1 2 Let_def)
    then show ?thesis using u no assms(1) by (auto split: if_splits)
  qed
qed

definition installed_home :: fs where
  "installed_home = \<lparr>fs_files = [(vulkan_manifest_path home, ''m'', 420), (layer_lib home, ''l'', 493), (gl_lib home, ''g'', 493),
     (''/home/u/x'', ''x'', 420), (config_path home, ''c'', 384)], fs_dirs = [], fs_answers = [], fs_writes = [], fs_past = []\<rparr>"

definition consenting :: json_lib where
  "consenting = \<lparr>lib_parse = \<lambda>_. Some (jobj [(''backend_consent'', JInt 1)]), lib_dump = \<lambda>_. Some ''{}''\<rparr>"

definition asked :: environment where
  "asked = [''HOME'' \<mapsto> ''/home/u'', ''APPDIR'' \<mapsto> ''/m'']"

lemma declined_installs_nothing_witness:
  "\<exists>s'. sync_appimage_backends printing asked False new_config a_disk = (Some (new_config\<lparr>cfg_consent := kBackendDeclined\<rparr>), s') \<and>
     touches {config_path asked} a_disk s' \<and> content_of (fs_files s') (config_path asked) = Some ''{}''"
proof -
  have e: "fst (sync_appimage_backends printing asked False new_config a_disk) = Some (new_config\<lparr>cfg_consent := kBackendDeclined\<rparr>) \<and>
      content_of (fs_files (snd (sync_appimage_backends printing asked False new_config a_disk))) (config_path asked) = Some ''{}''"
    by code_simp
  obtain r s' where 1: "sync_appimage_backends printing asked False new_config a_disk = (r, s')" by fastforce
  have "cfg_consent new_config \<noteq> kBackendGranted" by code_simp
  from declined_installs_nothing [OF 1 this] e 1 show ?thesis by simp
qed

text \<open>
  An uninstallation that exits with 0 has removed the layer's manifest, both libraries and the
  script, and left every other file but the configuration as it was, whatever the kernel refused and
  whatever the configuration held.
\<close>

theorem uninstall_leaves_only_settings:
  assumes "run_uninstall lib env s = (Some 0, s')"
  shows "(\<forall>p \<in> {vulkan_manifest_path env, gl_wrapper_path env, layer_lib env, gl_lib env}. map_of (fs_files s') p = None) \<and>
    (\<forall>p. p \<notin> {vulkan_manifest_path env, gl_wrapper_path env, layer_lib env, gl_lib env, config_path env} \<longrightarrow>
      map_of (fs_files s') p = map_of (fs_files s) p)"
proof -
  obtain ok s1 where 1: "uninstall_backends env s = (ok, s1)" by fastforce
  obtain cfg s2 where 2: "load_config lib (config_path env) s1 = (cfg, s2)" by fastforce
  obtain saved s3 where 3: "save_config lib (config_path env) (cfg\<lparr>cfg_consent := kBackendUnasked\<rparr>) s2 = (saved, s3)" by fastforce
  have ok: ok and s': "s' = s3 \<or> s' = s2"
    using assms by (auto simp: run_uninstall_def 1 2 3 split: if_splits)
  have f2: "fs_files s2 = fs_files s1" using 2 by (auto simp: load_config_def Let_def split: prod.splits option.splits if_splits dest: read_file_spec)
  have "p \<noteq> config_path env \<Longrightarrow> map_of (fs_files s') p = map_of (fs_files s1) p" for p
    using s' save_touches [OF 3] f2 by (auto simp: touches_def)
  moreover have "map_of (fs_files s1) p = (if p \<in> {vulkan_manifest_path env, gl_wrapper_path env, layer_lib env, gl_lib env}
      then None else map_of (fs_files s) p)" for p
    using uninstall_removes [of env s s1] 1 ok by simp
  ultimately show ?thesis using config_apart [of env, symmetric] by simp
qed

lemma uninstall_leaves_only_settings_witness:
  "\<exists>s'. run_uninstall printing home (installed_home\<lparr>fs_answers := []\<rparr>) = (Some 0, s') \<and>
     map_of (fs_files s') (gl_lib home) = None \<and> content_of (fs_files s') ''/home/u/x'' = Some ''x''"
proof -
  have e: "fst (run_uninstall printing home (installed_home\<lparr>fs_answers := []\<rparr>)) = Some 0 \<and>
      content_of (fs_files installed_home) ''/home/u/x'' = Some ''x'' \<and>
      ''/home/u/x'' \<notin> {vulkan_manifest_path home, gl_wrapper_path home, layer_lib home, gl_lib home, config_path home}"
    by code_simp
  obtain r s' where 1: "run_uninstall printing home (installed_home\<lparr>fs_answers := []\<rparr>) = (r, s')" by fastforce
  with e have "run_uninstall printing home (installed_home\<lparr>fs_answers := []\<rparr>) = (Some 0, s')" by simp
  from this uninstall_leaves_only_settings [OF this] e show ?thesis by (simp add: content_of_def)
qed

text \<open>The exit code looks at the removals only: when the consent cannot be withdrawn it is 0 all the same, and the
  next launch installs again without asking.\<close>

theorem uninstall_can_keep_consent:
  "case run_uninstall consenting home (installed_home\<lparr>fs_answers := replicate 5 True @ replicate 9 False\<rparr>) of (r, s) \<Rightarrow>
     r = Some 0 \<and> cfg_consent (fst (load_config consenting (config_path home) (s\<lparr>fs_answers := []\<rparr>))) = kBackendGranted"
  by code_simp

section \<open>An example of a life\<close>

definition demo_outside :: outside where
  "demo_outside = \<lparr>o_lib = demo_lib, o_fnmatch = (=), o_fetch = demo_source, o_io = \<lambda>_. good_write\<rparr>"

lemma demo_starts:
  obtains k where "start demo_lib demo_rpc = Some k" "events_of (drop (length (k_out demo_rpc)) (k_out k)) = []"
proof -
  have "case start demo_lib demo_rpc of None \<Rightarrow> False | Some k \<Rightarrow> events_of (drop (length (k_out demo_rpc)) (k_out k)) = []" by code_simp
  then show thesis using that by (auto split: option.splits)
qed

definition demo_launch :: "(host \<times> srv_output list) option" where
  "demo_launch = launch demo_outside 900 new_config (\<lambda>_. demo_rpc) demo_cache"

lemma demo_launched:
  obtains k where "demo_launch = Some ((wired demo_outside new_config demo_rpc demo_cache)\<lparr>h_rpc := k\<rparr>, [])"
proof -
  obtain k where k: "start demo_lib demo_rpc = Some k" "events_of (drop (length (k_out demo_rpc)) (k_out k)) = []" by (rule demo_starts)
  have "o_lib demo_outside = demo_lib" "h_rpc (wired demo_outside new_config demo_rpc demo_cache) = demo_rpc"
    by (simp_all add: demo_outside_def wired_def Let_def)
  with k that show thesis by (simp add: demo_launch_def launch_def)
qed

text \<open>Saving settings while no overlay is connected only changes the host.\<close>

lemma quiet_save:
  assumes "clients (h_server h) = []" "prints (o_lib ou)"
  obtains h' where "host_step ou h (Settings_saved cfg) = Some (h', [])" "h_config h' = cfg" "clients (h_server h') = []"
    "avatars (h_server h') = avatars (h_server h)"
proof -
  have p: "\<exists>js. to_json_str (o_lib ou) sn = Some js" for sn using assms(2) by (auto simp: to_json_str_def prints_def)
  obtain st changes where a: "OverlayState.set_config (h_state h) (cfg_appearance cfg) = (st, changes)" by fastforce
  have "changes = [snap st]" using a by (auto simp: set_config_def commit_def Let_def)
  moreover obtain js where "to_json_str (o_lib ou) (snap st) = Some js" using p by blast
  ultimately show thesis
    using that a assms(1) by (simp add: on_config_changed_def on_change_def broadcast_def to_active_def set_snapshot_def Let_def)
qed

lemma demo_lifeE:
  obtains h h1 where "demo_launch = Some (h, [])" "run_opt (host_step demo_outside) h [Settings_saved a_config] = Some (h1, [])"
    "h_config h1 = a_config" "clients (h_server h1) = []" "avatars (h_server h1) = []"
proof -
  obtain k where k: "demo_launch = Some ((wired demo_outside new_config demo_rpc demo_cache)\<lparr>h_rpc := k\<rparr>, [])" by (rule demo_launched)
  let ?h = "(wired demo_outside new_config demo_rpc demo_cache)\<lparr>h_rpc := k\<rparr>"
  have s: "clients (h_server ?h) = []" "avatars (h_server ?h) = []" "prints (o_lib demo_outside)"
    by (simp_all add: wired_def new_server_def set_snapshot_def demo_outside_def Let_def)
  show thesis
  proof (rule quiet_save [OF s(1,3), of a_config])
    fix h1 assume "host_step demo_outside ?h (Settings_saved a_config) = Some (h1, [])" "h_config h1 = a_config"
      "clients (h_server h1) = []" "avatars (h_server h1) = avatars (h_server ?h)"
    then show thesis using that [OF k, of h1] s(2) by simp
  qed
qed

lemma demo_cache_fresh: "ac_ready demo_cache = []"
  by (simp add: demo_cache_def)

lemma a_config_denylist: "cfg_denylist a_config = [''obs'']"
  by (simp add: a_config_def)

lemma host_parts_agree_witness:
  "\<exists>h h1. demo_launch = Some (h, []) \<and> run_opt (host_step demo_outside) h [Settings_saved a_config] = Some (h1, []) \<and>
     is_blocked (h_server h1) = Some (blocks (o_fnmatch demo_outside) [''obs'']) \<and> current (h_server h1) = snap (h_state h1)"
proof -
  obtain h h1 where l: "demo_launch = Some (h, [])" "run_opt (host_step demo_outside) h [Settings_saved a_config] = Some (h1, [])"
    "h_config h1 = a_config" by (rule demo_lifeE)
  from host_parts_agree [OF l(1) [unfolded demo_launch_def] demo_cache_fresh l(2)]
  have "is_blocked (h_server h1) = Some (blocks (o_fnmatch demo_outside) [''obs''])" "current (h_server h1) = snap (h_state h1)"
    by (simp_all add: l(3) a_config_denylist)
  then show ?thesis using l(1,2) by blast
qed


end
