(* ===== verification/OverlayLayout.thy ===== *)
theory OverlayLayout
  imports TextureCache Emoji "HOL-Library.Sublist"
begin

text \<open>
  Geometry and text of the overlay's drawing code (\<^verbatim>\<open>src/overlay/overlay_ui.cpp\<close>,
  \<^verbatim>\<open>src/overlay/fade.hpp\<close>): where a panel goes, how colors fade, and how a toast's text with its
  inline emoji is broken into lines. The font (ImGui) is an argument: where it would wrap a text
  and how wide it draws one.
\<close>

section \<open>Positions and colors\<close>

type_synonym vec2 = "rat \<times> rat"

definition is_top :: "anchor \<Rightarrow> bool" where
  "is_top a \<longleftrightarrow> a = TopLeft \<or> a = TopRight"

definition is_left :: "anchor \<Rightarrow> bool" where
  "is_left a \<longleftrightarrow> a = TopLeft \<or> a = BottomLeft \<or> a = CenterLeft"

definition is_center :: "anchor \<Rightarrow> bool" where
  "is_center a \<longleftrightarrow> a = CenterLeft \<or> a = CenterRight"

definition at_least_0 :: "rat \<Rightarrow> rat" where
  "at_least_0 x = (if x < 0 then 0 else x)"

definition anchored_pos :: "anchor \<Rightarrow> u32 \<times> u32 \<Rightarrow> vec2 \<Rightarrow> rat \<Rightarrow> vec2" where
  "anchored_pos a extent sz margin =
     (let W = of_nat (unat (fst extent)); H = of_nat (unat (snd extent));
          x = (if is_left a then margin else W - margin - fst sz);
          y = (if is_center a then (H - snd sz) * (1 / 2) else if is_top a then margin else H - margin - snd sz)
      in (at_least_0 x, at_least_0 y))"

text \<open>A packed color with its alpha in the top byte.\<close>

unbundle bit_operations_syntax

definition scale_alpha :: "u32 \<Rightarrow> real \<Rightarrow> u32" where
  "scale_alpha col m =
     (let m = (if m < 0 then 0 else if m > 1 then 1 else m);
          a = of_nat (unat (drop_bit 24 col AND 0xFF)) * m;
          ai = word_of_int \<lfloor>a + 1 / 2\<rfloor> AND 0xFF
      in (col AND NOT (push_bit 24 0xFF)) OR push_bit 24 ai)"

definition fade_toward :: "real \<Rightarrow> real \<Rightarrow> real \<Rightarrow> real \<Rightarrow> real" where
  "fade_toward current target dt tau =
     (if dt \<le> 0 then current
      else if tau \<le> 0 then target
      else current + (target - current) * (1 - exp (- dt / tau)))"

section \<open>Text\<close>

record font =
  f_wrap :: "rat \<Rightarrow> string \<Rightarrow> rat \<Rightarrow> nat"
  f_width :: "rat \<Rightarrow> string \<Rightarrow> rat"

text \<open>\<open>f_wrap size text width\<close>: how many characters go on the line; \<open>f_width size text\<close>.\<close>

record placed_run =
  pl_pos :: vec2
  pl_text :: string
  pl_tex :: nat

record item =
  it_text :: string
  it_tex :: nat

text \<open>Runs whose emoji resolves become boxes, others join the text before them.\<close>

definition add_item :: "string \<Rightarrow> nat \<Rightarrow> item list \<Rightarrow> item list" where
  "add_item t tex items =
     (if tex \<noteq> 0 then items @ [\<lparr>it_text = [], it_tex = tex\<rparr>]
      else if items \<noteq> [] \<and> it_tex (last items) = 0
      then butlast items @ [(last items)\<lparr>it_text := it_text (last items) @ t\<rparr>]
      else items @ [\<lparr>it_text = t, it_tex = 0\<rparr>])"

fun resolve_items ::
    "(string \<Rightarrow> 'c \<times> 'w \<Rightarrow> nat \<times> 'c \<times> 'w) \<Rightarrow> run list \<Rightarrow> item list \<Rightarrow> 'c \<times> 'w \<Rightarrow> item list \<times> 'c \<times> 'w" where
  "resolve_items resolve [] items cw = (items, cw)"
| "resolve_items resolve (r # rs) items cw =
     (let (tex, cw) = (if run_key r = [] then (0, cw) else resolve (run_key r) cw)
      in resolve_items resolve rs (add_item (run_text r) tex items) cw)"

text \<open>The cursor: line, position on it, whether the lines ran out, and what was placed (in reverse).\<close>

record cursor =
  cu_line :: nat
  cu_x :: rat
  cu_overflow :: bool
  cu_out :: "placed_run list"

record column =
  co_size :: rat
  co_advance :: rat
  co_width :: rat
  co_lines :: nat

definition next_line :: "cursor \<Rightarrow> cursor" where
  "next_line s = s\<lparr>cu_line := Suc (cu_line s), cu_x := 0\<rparr>"

definition place :: "column \<Rightarrow> string \<Rightarrow> nat \<Rightarrow> rat \<Rightarrow> cursor \<Rightarrow> cursor" where
  "place c t tex w s =
     s\<lparr>cu_out := \<lparr>pl_pos = (cu_x s, of_nat (cu_line s) * co_advance c), pl_text = t, pl_tex = tex\<rparr> # cu_out s,
       cu_x := cu_x s + w\<rparr>"

definition is_space :: "char \<Rightarrow> bool" where
  "is_space ch \<longleftrightarrow> ch = CHR '' ''"

text \<open>One whole UTF-8 codepoint.\<close>

definition continuation :: "char \<Rightarrow> bool" where
  "continuation ch \<longleftrightarrow> 0x80 \<le> byte_of ch \<and> byte_of ch < 0xC0"

definition codepoint_len :: "string \<Rightarrow> nat" where
  "codepoint_len p = Suc (length (takeWhile continuation (tl p)))"

text \<open>How much of the text goes here: what the font says, or one codepoint on a line of its own.\<close>

definition fit_len :: "font \<Rightarrow> column \<Rightarrow> string \<Rightarrow> rat \<Rightarrow> nat" where
  "fit_len f c p x = f_wrap f (co_size c) p (co_width c - x)"

function place_text :: "font \<Rightarrow> column \<Rightarrow> string \<Rightarrow> cursor \<Rightarrow> cursor" where
  "place_text f c p s =
     (if p = [] then s
      else
        let fit = fit_len f c p (cu_x s) in
        if fit = 0 \<and> cu_x s > 0 then
          if cu_line s + 1 \<ge> co_lines c then s\<lparr>cu_overflow := True\<rparr>
          else place_text f c (dropWhile is_space p) (next_line s)
        else
          let fit = (if fit = 0 then codepoint_len p else fit);
              s = place c (take fit p) 0 (f_width f (co_size c) (take fit p)) s;
              q = dropWhile is_space (drop fit p)
          in if q = [] then s
             else if cu_line s + 1 \<ge> co_lines c then s\<lparr>cu_overflow := True\<rparr>
             else place_text f c q (next_line s))"
  by auto
termination place_text
proof (relation "measure (\<lambda>(f, c, p, s). 2 * length p + (if cu_x s > 0 then 1 else 0))", goal_cases)
  case 1
  show ?case by simp
next
  case (2 f c p s fit)
  have "length (dropWhile is_space p) \<le> length p" by (rule length_dropWhile_le)
  then show ?case using 2 by (simp add: next_line_def)
next
  case (3 f c p s fit fit' s' q)
  have "length q \<le> length (drop fit' p)" unfolding 3(6) by (rule length_dropWhile_le)
  moreover have "0 < fit'" unfolding 3(4) by (simp add: codepoint_len_def)
  moreover have "0 < length p" using 3(1) by simp
  ultimately have "length q < length p" unfolding length_drop by arith
  then show ?case by (simp add: next_line_def)
qed

declare place_text.simps [simp del]

definition place_box :: "column \<Rightarrow> nat \<Rightarrow> cursor \<Rightarrow> cursor" where
  "place_box c tex s =
     (if cu_x s + co_size c > co_width c \<and> cu_x s > 0 then
        if cu_line s + 1 \<ge> co_lines c then s\<lparr>cu_overflow := True\<rparr>
        else place c [] tex (co_size c) (next_line s)
      else place c [] tex (co_size c) s)"

fun place_items :: "font \<Rightarrow> column \<Rightarrow> item list \<Rightarrow> cursor \<Rightarrow> cursor" where
  "place_items f c [] s = s"
| "place_items f c (i # is) s =
     (if cu_overflow s then s
      else place_items f c is (if it_tex i \<noteq> 0 then place_box c (it_tex i) s else place_text f c (it_text i) s))"

text \<open>Some calls take the text up to its first NUL.\<close>

definition until_nul :: "string \<Rightarrow> string" where
  "until_nul t = takeWhile (\<lambda>ch. ch \<noteq> CHR 0x00) t"

text \<open>The last line's tail shrinks until the dots fit.\<close>

definition strip_end :: "string \<Rightarrow> string" where
  "strip_end t = rev (dropWhile is_space (rev t))"

fun shrink :: "font \<Rightarrow> column \<Rightarrow> rat \<Rightarrow> rat \<Rightarrow> rat \<Rightarrow> placed_run list \<Rightarrow> rat \<times> placed_run list" where
  "shrink f c last_y ell x [] = (x, [])"
| "shrink f c last_y ell x (r # rs) =
     (if snd (pl_pos r) \<ge> last_y \<and> x + ell > co_width c then
        if pl_tex r \<noteq> 0 then shrink f c last_y ell (fst (pl_pos r)) rs
        else
          let avail = co_width c - ell - fst (pl_pos r);
              cut = (if avail > 0 then f_wrap f (co_size c) (pl_text r) avail else 0) in
          if cut = 0 then shrink f c last_y ell (fst (pl_pos r)) rs
          else
            let t = strip_end (take cut (pl_text r))
            in (fst (pl_pos r) + f_width f (co_size c) (until_nul t), r\<lparr>pl_text := t\<rparr> # rs)
      else (x, r # rs))"

definition finish :: "font \<Rightarrow> column \<Rightarrow> cursor \<Rightarrow> placed_run list" where
  "finish f c s =
     (if cu_overflow s then
        let last_y = of_nat (cu_line s) * co_advance c;
            (x, out) = shrink f c last_y (f_width f (co_size c) ''...'') (cu_x s) (cu_out s)
        in rev (\<lparr>pl_pos = (x, last_y), pl_text = ''...'', pl_tex = 0\<rparr> # out)
      else rev (cu_out s))"

definition layout_runs ::
    "font \<Rightarrow> (string \<Rightarrow> 'c \<times> 'w \<Rightarrow> nat \<times> 'c \<times> 'w) \<Rightarrow> string \<Rightarrow> column \<Rightarrow> 'c \<times> 'w \<Rightarrow> nat \<times> placed_run list \<times> 'c \<times> 'w" where
  "layout_runs f resolve t c cw =
     (if t = [] \<or> co_width c \<le> 1 \<or> co_lines c = 0 then (0, [], cw)
      else
        let (items, cw) = resolve_items resolve (split_runs t) [] cw;
            s = place_items f c items \<lparr>cu_line = 0, cu_x = 0, cu_overflow = False, cu_out = []\<rparr>
        in (cu_line s + 1, finish f c s, cw))"

section \<open>Lines\<close>

definition in_lines :: "column \<Rightarrow> cursor \<Rightarrow> bool" where
  "in_lines c s \<longleftrightarrow> cu_line s < co_lines c \<and>
     list_all (\<lambda>r. \<exists>k \<le> cu_line s. snd (pl_pos r) = of_nat k * co_advance c) (cu_out s)"

lemma in_linesD: "in_lines c s \<Longrightarrow> r \<in> set (cu_out s) \<Longrightarrow> \<exists>k \<le> cu_line s. snd (pl_pos r) = of_nat k * co_advance c"
  by (simp add: in_lines_def list_all_iff)

lemma in_lines_next: "in_lines c s \<Longrightarrow> \<not> co_lines c \<le> Suc (cu_line s) \<Longrightarrow> in_lines c (next_line s)"
  by (auto simp: in_lines_def next_line_def list_all_iff intro: le_SucI)

lemma in_lines_place: "in_lines c s \<Longrightarrow> in_lines c (place c t tex w s)"
  by (auto simp: in_lines_def place_def)

lemma in_lines_overflow: "in_lines c s \<Longrightarrow> in_lines c (s\<lparr>cu_overflow := True\<rparr>)"
  by (simp add: in_lines_def)

text \<open>The loop's body once more, with its parts named.\<close>

definition wraps :: "font \<Rightarrow> column \<Rightarrow> string \<Rightarrow> cursor \<Rightarrow> bool" where
  "wraps f c p s \<longleftrightarrow> fit_len f c p (cu_x s) = 0 \<and> cu_x s > 0"

definition taken :: "font \<Rightarrow> column \<Rightarrow> string \<Rightarrow> cursor \<Rightarrow> nat" where
  "taken f c p s = (if fit_len f c p (cu_x s) = 0 then codepoint_len p else fit_len f c p (cu_x s))"

definition placed :: "font \<Rightarrow> column \<Rightarrow> string \<Rightarrow> cursor \<Rightarrow> cursor" where
  "placed f c p s = place c (take (taken f c p s) p) 0 (f_width f (co_size c) (take (taken f c p s) p)) s"

definition left_over :: "font \<Rightarrow> column \<Rightarrow> string \<Rightarrow> cursor \<Rightarrow> string" where
  "left_over f c p s = dropWhile is_space (drop (taken f c p s) p)"

lemma placed_fields [simp]: "cu_line (placed f c p s) = cu_line s" "cu_overflow (placed f c p s) = cu_overflow s"
  by (simp_all add: placed_def place_def)

lemma place_text_eq:
  "place_text f c p s =
     (if p = [] then s
      else if wraps f c p s then
        (if co_lines c \<le> Suc (cu_line s) then s\<lparr>cu_overflow := True\<rparr> else place_text f c (dropWhile is_space p) (next_line s))
      else if left_over f c p s = [] then placed f c p s
      else if co_lines c \<le> Suc (cu_line s) then (placed f c p s)\<lparr>cu_overflow := True\<rparr>
      else place_text f c (left_over f c p s) (next_line (placed f c p s)))"
  by (subst place_text.simps) (simp add: wraps_def taken_def placed_def left_over_def place_def Let_def del: dropWhile_eq_Nil_conv)

lemma place_text_induct:
  assumes "\<And>p s. (\<And>q t. p \<noteq> [] \<Longrightarrow> wraps f c p s \<Longrightarrow> \<not> co_lines c \<le> Suc (cu_line s) \<Longrightarrow> q = dropWhile is_space p \<Longrightarrow>
        t = next_line s \<Longrightarrow> P q t) \<Longrightarrow>
      (\<And>q t. p \<noteq> [] \<Longrightarrow> \<not> wraps f c p s \<Longrightarrow> \<not> co_lines c \<le> Suc (cu_line s) \<Longrightarrow> left_over f c p s \<noteq> [] \<Longrightarrow>
        q = left_over f c p s \<Longrightarrow> t = next_line (placed f c p s) \<Longrightarrow> P q t) \<Longrightarrow> P p s"
  shows "P p s"
proof (induction "2 * length p + (if cu_x s > 0 then 1 else 0)" arbitrary: p s rule: less_induct)
  case less
  show ?case
  proof (rule assms)
    fix q t assume a: "wraps f c p s" "q = dropWhile is_space p" "t = next_line s"
    have "length q \<le> length p" unfolding a(2) by (rule length_dropWhile_le)
    then show "P q t" using a by (intro less) (simp add: wraps_def next_line_def)
  next
    fix q t assume a: "p \<noteq> []" "q = left_over f c p s" "t = next_line (placed f c p s)"
    have "length q \<le> length (drop (taken f c p s) p)" unfolding a(2) left_over_def by (rule length_dropWhile_le)
    moreover have "0 < taken f c p s" by (simp add: taken_def codepoint_len_def)
    moreover have "0 < length p" using a(1) by simp
    ultimately have "length q < length p" unfolding length_drop by arith
    then show "P q t" using a by (intro less) (simp add: next_line_def)
  qed
qed

lemma in_lines_text: "in_lines c s \<Longrightarrow> in_lines c (place_text f c p s)"
proof (induction p s rule: place_text_induct [of f c])
  case (1 p s)
  have "in_lines c (placed f c p s)" using 1(3) by (simp add: placed_def in_lines_place)
  then show ?case using 1 in_lines_next [of c s] in_lines_next [of c "placed f c p s"]
    by (subst place_text_eq) (simp add: in_lines_overflow)
qed

lemma in_lines_box: "in_lines c s \<Longrightarrow> in_lines c (place_box c tex s)"
  using in_lines_next [of c s] by (auto simp: place_box_def not_le intro: in_lines_place in_lines_overflow)

lemma in_lines_items: "in_lines c s \<Longrightarrow> in_lines c (place_items f c is s)"
  by (induction "is" arbitrary: s) (simp_all add: in_lines_text in_lines_box)

section \<open>Nothing is lost or reordered\<close>

text \<open>What a reader sees, boxes and characters in order, spaces aside.\<close>

definition tokens :: "string \<Rightarrow> nat \<Rightarrow> (char + nat) list" where
  "tokens t tex = (if tex \<noteq> 0 then [Inr tex] else map Inl (filter (\<lambda>ch. \<not> is_space ch) t))"

definition item_tokens :: "item list \<Rightarrow> (char + nat) list" where
  "item_tokens is = concat (map (\<lambda>i. tokens (it_text i) (it_tex i)) is)"

definition run_tokens :: "placed_run list \<Rightarrow> (char + nat) list" where
  "run_tokens rs = concat (map (\<lambda>r. tokens (pl_text r) (pl_tex r)) rs)"

definition seen :: "cursor \<Rightarrow> (char + nat) list" where
  "seen s = run_tokens (rev (cu_out s))"

lemma run_tokens_simps [simp]:
  "run_tokens [] = []" "run_tokens (r # rs) = tokens (pl_text r) (pl_tex r) @ run_tokens rs"
  "run_tokens (rs @ ts) = run_tokens rs @ run_tokens ts"
  by (simp_all add: run_tokens_def)

lemma tokens_split: "tokens (take n t) 0 @ tokens (drop n t) 0 = tokens t 0"
proof -
  have "filter (\<lambda>ch. \<not> is_space ch) (take n t) @ filter (\<lambda>ch. \<not> is_space ch) (drop n t) = filter (\<lambda>ch. \<not> is_space ch) t"
    by (metis append_take_drop_id filter_append)
  then show ?thesis by (simp add: tokens_def flip: map_append)
qed

lemma tokens_spaces [simp]: "tokens (dropWhile is_space t) 0 = tokens t 0"
  by (induction t) (auto simp: tokens_def)

lemma seen_simps [simp]:
  "seen (next_line s) = seen s" "seen (s\<lparr>cu_overflow := b\<rparr>) = seen s" "seen (place c t tex w s) = seen s @ tokens t tex"
  by (simp_all add: seen_def next_line_def place_def)

definition shows_more :: "(char + nat) list \<Rightarrow> cursor \<Rightarrow> cursor \<Rightarrow> bool" where
  "shows_more ts s s' \<longleftrightarrow> (if cu_overflow s' then prefix (seen s') (seen s @ ts) \<and> prefix (seen s) (seen s') else seen s' = seen s @ ts)"

lemma shows_overflow: "shows_more ts s (s\<lparr>cu_overflow := True\<rparr>)"
  by (simp add: shows_more_def)

lemma seen_placed: "seen (placed f c p s) @ tokens (left_over f c p s) 0 = seen s @ tokens p 0"
  using tokens_split [of "taken f c p s" p] by (simp add: placed_def left_over_def)

lemma shows_text: "\<not> cu_overflow s \<Longrightarrow> shows_more (tokens p 0) s (place_text f c p s)"
proof (induction p s rule: place_text_induct [of f c])
  case (1 p s)
  let ?t = "placed f c p s" and ?q = "left_over f c p s"
  note split = seen_placed [of f c p s]
  have o: "\<not> cu_overflow (next_line s)" "\<not> cu_overflow (next_line ?t)" using 1(3) by (simp_all add: next_line_def)
  have grow: "prefix (seen s) (seen ?t)" by (simp add: placed_def)
  have part: "prefix (seen ?t) (seen s @ tokens p 0)" unfolding split [symmetric] by simp
  consider "p = []" | "p \<noteq> []" "wraps f c p s" | "p \<noteq> []" "\<not> wraps f c p s" "?q = []"
    | "p \<noteq> []" "\<not> wraps f c p s" "?q \<noteq> []" "co_lines c \<le> Suc (cu_line s)"
    | "p \<noteq> []" "\<not> wraps f c p s" "?q \<noteq> []" "\<not> co_lines c \<le> Suc (cu_line s)" by blast
  then show ?case
  proof cases
    case 1
    then show ?thesis using \<open>\<not> cu_overflow s\<close> by (subst place_text_eq) (simp add: shows_more_def tokens_def)
  next
    case 2
    have "shows_more (tokens p 0) s (place_text f c (dropWhile is_space p) (next_line s))" if "\<not> co_lines c \<le> Suc (cu_line s)"
      using 1(1) [OF 2 that refl refl o(1)] unfolding shows_more_def seen_simps tokens_spaces .
    then show ?thesis using 2 by (subst place_text_eq) (simp add: shows_overflow)
  next
    case 3
    then have "seen ?t = seen s @ tokens p 0" using split by (simp add: tokens_def)
    then show ?thesis using 3 \<open>\<not> cu_overflow s\<close> by (subst place_text_eq) (simp add: shows_more_def)
  next
    case 4
    then show ?thesis using part grow by (subst place_text_eq) (simp add: shows_more_def)
  next
    case 5
    have "shows_more (tokens ?q 0) (next_line ?t) (place_text f c ?q (next_line ?t))"
      by (rule 1(2) [OF 5(1,2,4,3) refl refl o(2)])
    then have "shows_more (tokens p 0) s (place_text f c ?q (next_line ?t))"
      using split grow prefix_order.trans [OF grow] by (auto simp: shows_more_def)
    then show ?thesis using 5 by (subst place_text_eq) simp
  qed
qed

lemma shows_box: "tex \<noteq> 0 \<Longrightarrow> \<not> cu_overflow s \<Longrightarrow> shows_more (tokens [] tex) s (place_box c tex s)"
  by (simp add: place_box_def shows_overflow shows_more_def place_def next_line_def seen_def tokens_def)

lemma shows_more_trans:
  assumes "shows_more ts s s'" "\<not> cu_overflow s'" "shows_more us s' t"
  shows "shows_more (ts @ us) s t"
  using assms unfolding shows_more_def by (auto dest: append_prefixD)

lemma place_items_overflow: "cu_overflow s \<Longrightarrow> place_items f c is s = s"
  by (cases "is") simp_all

lemma shows_more_prefix: "shows_more ts s s' \<Longrightarrow> cu_overflow s' \<Longrightarrow> shows_more (ts @ us) s s'"
  by (auto simp: shows_more_def intro: prefix_order.trans)

text \<open>Boxes carry no text.\<close>

definition plain_boxes :: "item list \<Rightarrow> bool" where
  "plain_boxes is \<longleftrightarrow> list_all (\<lambda>i. it_tex i \<noteq> 0 \<longrightarrow> it_text i = []) is"

lemma shows_items: "\<not> cu_overflow s \<Longrightarrow> shows_more (item_tokens is) s (place_items f c is s)"
proof (induction "is" arbitrary: s)
  case Nil
  then show ?case by (simp add: shows_more_def item_tokens_def)
next
  case (Cons i "is")
  let ?t = "if it_tex i \<noteq> 0 then place_box c (it_tex i) s else place_text f c (it_text i) s"
  have first: "shows_more (tokens (it_text i) (it_tex i)) s ?t"
    using Cons.prems shows_box [of "it_tex i" s c] shows_text [of s "it_text i" f c] by (simp add: tokens_def)
  have parts: "item_tokens (i # is) = tokens (it_text i) (it_tex i) @ item_tokens is" by (simp add: item_tokens_def)
  have "shows_more (item_tokens (i # is)) s (place_items f c is ?t)"
  proof (cases "cu_overflow ?t")
    case True
    then show ?thesis unfolding place_items_overflow [OF True] parts by (rule shows_more_prefix [OF first])
  next
    case False
    then show ?thesis unfolding parts by (rule shows_more_trans [OF first False Cons.IH])
  qed
  then show ?case using Cons.prems by simp
qed

section \<open>The dots\<close>

definition kept :: "placed_run list \<Rightarrow> (char + nat) list" where
  "kept rs = run_tokens (rev rs)"

lemma tokens_strip [simp]: "tokens (strip_end t) 0 = tokens t 0"
proof -
  have "filter (\<lambda>ch. \<not> is_space ch) (dropWhile is_space u) = filter (\<lambda>ch. \<not> is_space ch) u" for u by (induction u) auto
  from this [of "rev t"] show ?thesis by (simp add: tokens_def strip_end_def flip: rev_filter)
qed

lemma tokens_take: "prefix (tokens (take n t) 0) (tokens t 0)"
  using tokens_split [of n t] by (metis prefixI)

lemma shrink_keeps:
  "shrink f c y ell x rs = (x', out) \<Longrightarrow>
     prefix (kept out) (kept rs) \<and> (\<forall>r \<in> set out. \<exists>r' \<in> set rs. pl_pos r = pl_pos r')"
proof (induction f c y ell x rs arbitrary: x' out rule: shrink.induct)
  case (1 f c y ell x)
  then show ?case by simp
next
  case (2 f c y ell x r rs)
  have drop: "prefix (kept out) (kept (r # rs))" if "prefix (kept out) (kept rs)" for out
    using that by (simp add: kept_def prefix_prefix)
  have cut: "prefix (kept (r\<lparr>pl_text := strip_end (take n (pl_text r))\<rparr> # rs)) (kept (r # rs))" if "pl_tex r = 0" for n
    using that tokens_take [of n "pl_text r"] by (simp add: kept_def)
  let ?P = "\<lambda>out rs. prefix (kept out) (kept rs) \<and> (\<forall>r \<in> set out. \<exists>r' \<in> set rs. pl_pos r = pl_pos r')"
  have dropped: "?P out (r # rs)" if "?P out rs" using that drop by auto
  consider "\<not> (snd (pl_pos r) \<ge> y \<and> x + ell > co_width c)" | "snd (pl_pos r) \<ge> y" "x + ell > co_width c" by blast
  then show ?case
  proof cases
    case 1
    then have "out = r # rs" using "2.prems" by auto
    then show ?thesis by blast
  next
    case 2
    define n where "n = (if co_width c - ell - fst (pl_pos r) > 0 then f_wrap f (co_size c) (pl_text r) (co_width c - ell - fst (pl_pos r)) else 0)"
    consider "pl_tex r \<noteq> 0" | "pl_tex r = 0" "n = 0" | "pl_tex r = 0" "n \<noteq> 0" by blast
    then show ?thesis
    proof cases
      case 1
      then show ?thesis using 2 "2.prems" "2.IH"(1) dropped by simp
    next
      case 2
      then show ?thesis using \<open>snd (pl_pos r) \<ge> y\<close> \<open>x + ell > co_width c\<close> "2.prems" "2.IH"(2) dropped by (simp add: n_def)
    next
      case 3
      then have "out = r\<lparr>pl_text := strip_end (take n (pl_text r))\<rparr> # rs"
        using 2 "2.prems" by (simp add: n_def Let_def)
      then show ?thesis using cut [OF 3(1)] by auto
    qed
  qed
qed

section \<open>The line the dots go on\<close>

text \<open>The pieces of the last line follow each other from its start: dropping them all leads back to it.\<close>

fun line_starts :: "rat \<Rightarrow> rat \<Rightarrow> placed_run list \<Rightarrow> bool" where
  "line_starts y x [] \<longleftrightarrow> x = 0"
| "line_starts y x (r # rs) \<longleftrightarrow> (if y \<le> snd (pl_pos r) then line_starts y (fst (pl_pos r)) rs else x = 0)"

definition aligned :: "column \<Rightarrow> cursor \<Rightarrow> bool" where
  "aligned c s \<longleftrightarrow> in_lines c s \<and> line_starts (of_nat (cu_line s) * co_advance c) (cu_x s) (cu_out s)"

lemma aligned_next:
  assumes "co_advance c > 0" "aligned c s" "\<not> co_lines c \<le> Suc (cu_line s)"
  shows "aligned c (next_line s)"
proof -
  have below: "snd (pl_pos r) < of_nat (Suc (cu_line s)) * co_advance c" if "r \<in> set (cu_out s)" for r
  proof -
    have "\<exists>k \<le> cu_line s. snd (pl_pos r) = of_nat k * co_advance c"
      using assms(2) that in_linesD by (auto simp: aligned_def)
    then obtain k where "k \<le> cu_line s" "snd (pl_pos r) = of_nat k * co_advance c" by blast
    then show ?thesis using assms(1) by (simp add: less_Suc_eq_le)
  qed
  have "line_starts (of_nat (Suc (cu_line s)) * co_advance c) 0 (cu_out s)"
  proof (cases "cu_out s")
    case (Cons r rs)
    then have "\<not> of_nat (Suc (cu_line s)) * co_advance c \<le> snd (pl_pos r)" using below [of r] by simp
    then show ?thesis unfolding Cons by simp
  qed simp
  then show ?thesis using assms in_lines_next by (simp add: aligned_def next_line_def in_lines_def)
qed

lemma aligned_place: "aligned c s \<Longrightarrow> aligned c (place c t tex w s)"
  using in_lines_place [of c s t tex w] by (simp add: aligned_def) (simp add: place_def)

lemma aligned_overflow: "aligned c s \<Longrightarrow> aligned c (s\<lparr>cu_overflow := True\<rparr>)"
  by (simp add: aligned_def in_lines_overflow)

lemma aligned_text: "co_advance c > 0 \<Longrightarrow> aligned c s \<Longrightarrow> aligned c (place_text f c p s)"
proof (induction p s rule: place_text_induct [of f c])
  case (1 p s)
  have "aligned c (placed f c p s)" using 1(4) by (simp add: placed_def aligned_place)
  then show ?case using 1 aligned_next [of c s] aligned_next [of c "placed f c p s"]
    by (subst place_text_eq) (simp add: aligned_overflow)
qed

lemma aligned_box: "co_advance c > 0 \<Longrightarrow> aligned c s \<Longrightarrow> aligned c (place_box c tex s)"
  using aligned_next [of c s] by (auto simp: place_box_def not_le intro: aligned_place aligned_overflow)

lemma aligned_items: "co_advance c > 0 \<Longrightarrow> aligned c s \<Longrightarrow> aligned c (place_items f c is s)"
  by (induction "is" arbitrary: s) (simp_all add: aligned_text aligned_box)

text \<open>What is documented of the font: the part it breaks off is no wider than asked, spaces at the end aside.\<close>

definition wraps_within :: "font \<Rightarrow> bool" where
  "wraps_within f \<longleftrightarrow> (\<forall>sz t w. 0 < f_wrap f sz t w \<longrightarrow> f_width f sz (until_nul (strip_end (take (f_wrap f sz t w) t))) \<le> w)"

lemma shrink_fits:
  "wraps_within f \<Longrightarrow> ell \<le> co_width c \<Longrightarrow> line_starts y x rs \<Longrightarrow> shrink f c y ell x rs = (x', out) \<Longrightarrow> x' + ell \<le> co_width c"
proof (induction f c y ell x rs arbitrary: x' out rule: shrink.induct)
  case (1 f c y ell x)
  then show ?case by simp
next
  case (2 f c y ell x r rs)
  consider "\<not> y \<le> snd (pl_pos r)" | "\<not> x + ell > co_width c" | "y \<le> snd (pl_pos r)" "x + ell > co_width c" by blast
  then show ?case
  proof cases
    case 3
    define n where "n = (if co_width c - ell - fst (pl_pos r) > 0 then f_wrap f (co_size c) (pl_text r) (co_width c - ell - fst (pl_pos r)) else 0)"
    consider "pl_tex r \<noteq> 0" | "pl_tex r = 0" "n = 0" | "pl_tex r = 0" "n \<noteq> 0" by blast
    then show ?thesis
    proof cases
      case 1
      then show ?thesis using 3 "2.prems" "2.IH"(1) by simp
    next
      case 2
      then show ?thesis using 3 "2.prems" "2.IH"(2) by (simp add: n_def)
    next
      case n: 3
      then have "x' = fst (pl_pos r) + f_width f (co_size c) (until_nul (strip_end (take n (pl_text r))))"
        using 3 "2.prems" by (simp add: n_def Let_def)
      moreover have "f_width f (co_size c) (until_nul (strip_end (take n (pl_text r)))) \<le> co_width c - ell - fst (pl_pos r)"
        using n "2.prems"(1) by (simp add: n_def wraps_within_def split: if_splits)
      ultimately show ?thesis by simp
    qed
  qed (use 2 in \<open>auto split: if_splits\<close>)
qed

lemma layout_runs_cases:
  assumes "layout_runs f resolve t c cw = (n, out, cw')"
  obtains "n = 0" "out = []" "t = [] \<or> co_width c \<le> 1 \<or> co_lines c = 0"
  | "items" "s" where "t \<noteq> []" "1 < co_width c" "0 < co_lines c" "items = fst (resolve_items resolve (split_runs t) [] cw)"
      "s = place_items f c items \<lparr>cu_line = 0, cu_x = 0, cu_overflow = False, cu_out = []\<rparr>"
      "n = cu_line s + 1" "out = finish f c s"
proof (cases "t = [] \<or> co_width c \<le> 1 \<or> co_lines c = 0")
  case True
  then show thesis using assms that(1) by (auto simp: layout_runs_def)
next
  case False
  then show thesis using assms that(2) by (auto simp: layout_runs_def Let_def split: prod.splits)
qed

lemma in_lines_finish:
  assumes "in_lines c s" "r \<in> set (finish f c s)"
  shows "\<exists>k \<le> cu_line s. snd (pl_pos r) = of_nat k * co_advance c"
proof (cases "cu_overflow s")
  case True
  obtain x out where sh: "shrink f c (of_nat (cu_line s) * co_advance c) (f_width f (co_size c) ''...'') (cu_x s) (cu_out s) = (x, out)"
    by (metis prod.exhaust)
  then consider "snd (pl_pos r) = of_nat (cu_line s) * co_advance c" | "r \<in> set out"
    using assms(2) True by (auto simp: finish_def)
  then show ?thesis
    using shrink_keeps [OF sh] assms(1) unfolding in_lines_def list_all_iff by cases (blast, metis)
qed (use assms in \<open>auto simp: finish_def in_lines_def list_all_iff\<close>)

text \<open>A font of equal letters, for the examples: half its size wide, a line is filled to its end.\<close>

definition fixed_font :: font where
  "fixed_font = \<lparr>f_wrap = \<lambda>sz t w. if 0 < sz then nat \<lfloor>w / (sz / 2)\<rfloor> else 0, f_width = \<lambda>sz t. of_nat (length t) * (sz / 2)\<rparr>"

definition two_lines :: column where
  "two_lines = \<lparr>co_size = 10, co_advance = 10, co_width = 50, co_lines = 2\<rparr>"

definition no_icons :: "string \<Rightarrow> unit \<times> unit \<Rightarrow> nat \<times> unit \<times> unit" where
  "no_icons h cw = (0, cw)"

text \<open>
  A text is laid out in at most the allowed number of lines, every piece on one of them.\<close>

theorem layout_lines_bounded:
  assumes "layout_runs f resolve t c cw = (n, out, cw')"
  shows "n \<le> co_lines c \<and> list_all (\<lambda>r. \<exists>k < n. snd (pl_pos r) = of_nat k * co_advance c) out"
proof -
  from assms show ?thesis
  proof (cases rule: layout_runs_cases)
    case (2 items s)
    have "in_lines c s" unfolding 2(5) by (rule in_lines_items) (simp add: in_lines_def 2(3))
    then show ?thesis
      using in_lines_finish [of c s _ f] unfolding 2(6,7) list_all_iff
      by (simp add: less_Suc_eq_le in_lines_def [of c s] Suc_le_eq)
  qed simp
qed

text \<open>Twenty-four letters where twenty fit.\<close>

definition crowded :: string where
  "crowded = ''ab cdefgh ijkl mnop qrst''"

definition crowded_out :: "placed_run list" where
  "crowded_out =
     [\<lparr>pl_pos = (0, 0), pl_text = ''ab cdefgh '', pl_tex = 0\<rparr>, \<lparr>pl_pos = (0, 10), pl_text = ''ijkl mn'', pl_tex = 0\<rparr>,
      \<lparr>pl_pos = (35, 10), pl_text = ''...'', pl_tex = 0\<rparr>]"

lemma crowded_layout: "layout_runs fixed_font no_icons crowded two_lines ((), ()) = (2, crowded_out, (), ())"
  by code_simp

lemma layout_lines_bounded_witness:
  "2 \<le> co_lines two_lines \<and> list_all (\<lambda>r. \<exists>k < (2::nat). snd (pl_pos r) = of_nat k * co_advance two_lines) crowded_out"
  by (rule layout_lines_bounded [OF crowded_layout])

text \<open>What the panel's reader sees.\<close>

definition dots :: "(char + nat) list" where
  "dots = tokens ''...'' 0"



text \<open>
  Where the dots fit the column at all, they never stick out of it: the text before them gives way.\<close>

theorem layout_dots_fit:
  assumes "layout_runs f resolve t c cw = (n, out, cw')" and "wraps_within f" "0 < co_advance c"
    and "f_width f (co_size c) ''...'' \<le> co_width c" and "out \<noteq> []"
    and "cu_overflow (place_items f c (fst (resolve_items resolve (split_runs t) [] cw)) \<lparr>cu_line = 0, cu_x = 0, cu_overflow = False, cu_out = []\<rparr>)"
  shows "pl_text (last out) = ''...'' \<and> fst (pl_pos (last out)) + f_width f (co_size c) ''...'' \<le> co_width c"
  using assms(1)
proof (cases rule: layout_runs_cases)
  case 1
  then show ?thesis using assms(5) by simp
next
  case (2 items s)
  have "aligned c s" unfolding 2(5) by (rule aligned_items [OF assms(3)]) (simp add: aligned_def in_lines_def 2(3))
  then have starts: "line_starts (of_nat (cu_line s) * co_advance c) (cu_x s) (cu_out s)" by (simp add: aligned_def)
  obtain x out' where sh: "shrink f c (of_nat (cu_line s) * co_advance c) (f_width f (co_size c) ''...'') (cu_x s) (cu_out s) = (x, out')"
    by (metis prod.exhaust)
  from shrink_fits [OF assms(2,4) starts sh] show ?thesis
    using 2(4-7) assms(6) sh by (simp add: finish_def)
qed

lemma fixed_font_wraps: "wraps_within fixed_font"
  unfolding wraps_within_def
proof (intro allI impI)
  fix sz w :: rat and t
  assume pos: "0 < f_wrap fixed_font sz t w"
  let ?n = "nat \<lfloor>w / (sz / 2)\<rfloor>"
  have sz: "0 < sz" and n: "0 < ?n" using pos by (auto simp: fixed_font_def split: if_splits)
  have "length (until_nul (strip_end (take ?n t))) \<le> ?n"
    using length_dropWhile_le [of is_space "rev (take ?n t)"] length_takeWhile_le [of _ "strip_end (take ?n t)"]
    unfolding until_nul_def by (metis (no_types, lifting) length_rev length_take min.bounded_iff order_trans strip_end_def)
  then have "of_nat (length (until_nul (strip_end (take ?n t)))) \<le> (of_nat ?n :: rat)" by simp
  also have "\<dots> \<le> w / (sz / 2)" using n by linarith
  finally have "of_nat (length (until_nul (strip_end (take ?n t)))) * (sz / 2) \<le> w" using sz by (simp add: field_simps)
  then show "f_width fixed_font sz (until_nul (strip_end (take (f_wrap fixed_font sz t w) t))) \<le> w" using sz by (simp add: fixed_font_def)
qed

lemma layout_dots_fit_witness:
  "pl_text (last crowded_out) = ''...'' \<and>
   fst (pl_pos (last crowded_out)) + f_width fixed_font (co_size two_lines) ''...'' \<le> co_width two_lines"
proof (rule layout_dots_fit [OF crowded_layout fixed_font_wraps])
  show "cu_overflow (place_items fixed_font two_lines (fst (resolve_items no_icons (split_runs crowded) [] ((), ())))
     \<lparr>cu_line = 0, cu_x = 0, cu_overflow = False, cu_out = []\<rparr>)" by code_simp
qed (simp_all add: two_lines_def fixed_font_def crowded_out_def)

end
