(* ===== verification/OverlayUi.thy ===== *)
theory OverlayUi
  imports OverlayLayout OverlayState
begin

text \<open>
  The overlay's drawing code (\<^verbatim>\<open>src/overlay/overlay_ui.cpp\<close>): the voice panel with its fading, the
  notification toasts and the font search. What a function draws is the list of calls it makes on
  ImGui, in order; floats are rationals, the eased opacities reals.
\<close>

section \<open>Fonts\<close>

text \<open>The paths tried, with the answer of each \<^verbatim>\<open>load\<close>: readable, and accepted by ImGui.\<close>

definition kPrefixes :: "string list" where
  "kPrefixes = [[], ''/run/host'']"

definition kFonts :: "string list" where
  "kFonts =
     [''/usr/share/fonts/TTF/DejaVuSans.ttf'', ''/usr/share/fonts/dejavu/DejaVuSans.ttf'',
      ''/usr/share/fonts/truetype/dejavu/DejaVuSans.ttf'', ''/usr/share/fonts/noto/NotoSans-Regular.ttf'',
      ''/usr/share/fonts/truetype/noto/NotoSans-Regular.ttf'',
      ''/usr/share/fonts/liberation/LiberationSans-Regular.ttf'',
      ''/usr/share/fonts/truetype/liberation/LiberationSans-Regular.ttf'',
      ''/usr/share/fonts/TTF/LiberationSans-Regular.ttf'']"

definition load_font :: "(string \<Rightarrow> bool) \<Rightarrow> (string \<Rightarrow> bool) \<Rightarrow> string \<Rightarrow> string list \<Rightarrow> bool \<times> string list" where
  "load_font readable add path added = (if readable path then (add path, added @ [path]) else (False, added))"

fun first_font :: "(string \<Rightarrow> bool) \<Rightarrow> (string \<Rightarrow> bool) \<Rightarrow> string list \<Rightarrow> string list \<Rightarrow> bool \<times> string list" where
  "first_font readable add [] added = (False, added)"
| "first_font readable add (p # ps) added =
     (let (ok, added) = load_font readable add p added in if ok then (True, added) else first_font readable add ps added)"

definition load_overlay_font ::
    "(string \<Rightarrow> bool) \<Rightarrow> (string \<Rightarrow> bool) \<Rightarrow> string option \<Rightarrow> string list \<Rightarrow> bool \<times> string list" where
  "load_overlay_font readable add env added =
     (let (ok, added) = (case env of Some p \<Rightarrow> if p \<noteq> [] then load_font readable add p added else (False, added)
                         | None \<Rightarrow> (False, added))
      in if ok then (True, added)
         else first_font readable add (concat (map (\<lambda>prefix. map (\<lambda>f. prefix @ f) kFonts) kPrefixes)) added)"

section \<open>Calls on ImGui\<close>

datatype flag = NoInputs | NoNav | NoDecoration | NoSavedSettings | NoFocusOnAppearing | NoMove | NoResize |
  NoBackground | NoBringToFrontOnFocus

datatype draw =
    Window string vec2 vec2 "flag list"
  | Window_end
  | Line vec2 vec2 u32 rat
  | Rect_filled vec2 vec2 u32 rat
  | Circle vec2 rat u32 nat rat
  | Circle_filled vec2 rat u32 nat
  | Path_arc vec2 rat rat rat nat
  | Path_stroke u32 rat
  | Path_fill u32
  | Image nat vec2 vec2
  | Image_rounded nat vec2 vec2 u32 rat
  | Label vec2 u32 string
  | Label_sized rat vec2 u32 string
  | Clip_full
  | Clip_pop

text \<open>ImGui's side: its font and how it measures, and whether a window has anything to show.\<close>

record ui =
  ui_font :: font
  ui_size :: rat
  ui_line_height :: rat
  ui_shown :: "string \<Rightarrow> bool"

definition im_col32 :: "u32 \<Rightarrow> u32 \<Rightarrow> u32 \<Rightarrow> u32 \<Rightarrow> u32" where
  "im_col32 r g b a = push_bit 24 a OR push_bit 16 b OR push_bit 8 g OR r"

definition kOverlayWindowFlags :: "flag list" where
  "kOverlayWindowFlags = [NoInputs, NoNav, NoDecoration, NoSavedSettings, NoFocusOnAppearing, NoMove, NoResize,
     NoBackground, NoBringToFrontOnFocus]"

definition kMargin :: rat where "kMargin = 16"
definition kPad :: rat where "kPad = 10"
definition kAvatar :: rat where "kAvatar = 32"
definition kRowGap :: rat where "kRowGap = 8"
definition kAvatarTextGap :: rat where "kAvatarTextGap = 10"
definition kPanelWidth :: rat where "kPanelWidth = 220"
definition kRowHeight :: rat where "kRowHeight = kAvatar"
definition kRing :: rat where "kRing = 5 / 2"
definition kNamePadX :: rat where "kNamePadX = 6"
definition kNamePadY :: rat where "kNamePadY = 2"
definition kNameRound :: rat where "kNameRound = 5"
definition kPillBg :: u32 where "kPillBg = im_col32 24 26 32 205"
definition kIdleAlpha :: real where "kIdleAlpha = 2 / 5"
definition kTauUp :: real where "kTauUp = 1 / 20"
definition kTauDown :: real where "kTauDown = 18 / 100"
definition kToastWidth :: rat where "kToastWidth = 320"
definition kToastPad :: rat where "kToastPad = 14"
definition kToastGap :: rat where "kToastGap = 8"
definition kToastIcon :: rat where "kToastIcon = 40"
definition kToastIconGap :: rat where "kToastIconGap = 12"
definition kToastRound :: rat where "kToastRound = 12"
definition kTitleBodyGap :: rat where "kTitleBodyGap = 4"
definition kTitleScale :: rat where "kTitleScale = 6 / 5"
definition kToastBodyLines :: nat where "kToastBodyLines = 2"
definition kPi :: rat where "kPi = 314159265358979323846 / 100000000000000000000"

section \<open>Glyphs\<close>

definition draw_slash :: "rat \<Rightarrow> rat \<Rightarrow> rat \<Rightarrow> u32 \<Rightarrow> real \<Rightarrow> draw list" where
  "draw_slash cx cy r fg a =
     (let d = r * (3 / 4); p0 = (cx - d, cy - d); p1 = (cx + d, cy + d)
      in [Line p0 p1 (scale_alpha kPillBg a) 4, Line p0 p1 fg (3 / 2)])"

definition draw_mic_off :: "rat \<Rightarrow> rat \<Rightarrow> rat \<Rightarrow> real \<Rightarrow> draw list" where
  "draw_mic_off cx cy r a =
     (let fg = scale_alpha (im_col32 230 230 235 255) a; bw = r * (7 / 10); bh = r * (11 / 10)
      in [Rect_filled (cx - bw * (1 / 2), cy - bh * (6 / 10)) (cx + bw * (1 / 2), cy + bh * (2 / 10)) fg (bw * (1 / 2)),
          Line (cx, cy + bh * (2 / 10)) (cx, cy + bh * (55 / 100)) fg (3 / 2)] @ draw_slash cx cy r fg a)"

definition draw_deaf :: "rat \<Rightarrow> rat \<Rightarrow> rat \<Rightarrow> real \<Rightarrow> draw list" where
  "draw_deaf cx cy r a =
     (let fg = scale_alpha (im_col32 230 230 235 255) a; ew = r * (35 / 100); eh = r * (55 / 100); br = r * (85 / 100)
      in [Path_arc (cx, cy) br kPi (2 * kPi) 12, Path_stroke fg (18 / 10),
          Rect_filled (cx - br - ew * (1 / 2), cy - eh * (2 / 10)) (cx - br + ew * (1 / 2), cy + eh * (8 / 10)) fg (ew * (4 / 10)),
          Rect_filled (cx + br - ew * (1 / 2), cy - eh * (2 / 10)) (cx + br + ew * (1 / 2), cy + eh * (8 / 10)) fg (ew * (4 / 10))]
         @ draw_slash cx cy r fg a)"

definition draw_user_glyph :: "rat \<Rightarrow> rat \<Rightarrow> rat \<Rightarrow> real \<Rightarrow> draw list" where
  "draw_user_glyph cx cy r a =
     (let fg = scale_alpha (im_col32 176 181 191 255) a; sr = r * (58 / 100); sc = (cx, cy + r * (62 / 100))
      in [Circle_filled (cx, cy - r * (28 / 100)) (r * (32 / 100)) fg 24, Path_arc sc sr kPi (2 * kPi) 24, Path_fill fg])"

definition draw_circle_icon :: "rat \<Rightarrow> rat \<Rightarrow> rat \<Rightarrow> nat \<Rightarrow> real \<Rightarrow> draw list" where
  "draw_circle_icon x y d tex a =
     (let r = d * (1 / 2); cx = x + r; cy = y + r
      in if tex \<noteq> 0 then [Image_rounded tex (x, y) (x + d, y + d) (scale_alpha (im_col32 255 255 255 255) a) r]
         else Circle_filled (cx, cy) r (scale_alpha (im_col32 70 74 82 255) a) 24 # draw_user_glyph cx cy r a)"

section \<open>The voice panel\<close>

text \<open>The function's static variables.\<close>

record fades =
  g_anim :: "string \<rightharpoonup> real"
  g_last_ms :: int

definition new_fades :: fades where
  "new_fades = \<lparr>g_anim = Map.empty, g_last_ms = 0\<rparr>"

definition ui_scale :: "appearance \<Rightarrow> rat" where
  "ui_scale cfg = (if c_scale cfg > 5 / 100 then c_scale cfg else 1)"

definition panel_rows :: "snapshot \<Rightarrow> participant list" where
  "panel_rows sn = filter (\<lambda>p. \<not> (\<not> c_show_all_members (s_config sn) \<and> \<not> p_speaking p)) (s_participants sn)"

definition frame_dt :: "int \<Rightarrow> fades \<Rightarrow> real" where
  "frame_dt now f =
     (let dt = (if g_last_ms f = 0 then 0 else of_int (now - g_last_ms f) / 1000)
      in if dt < 0 then 0 else if 1 / 4 < dt then 1 / 4 else dt)"

definition target_of :: "participant \<Rightarrow> real" where
  "target_of p = (if p_speaking p then 1 else kIdleAlpha)"

definition ease_row :: "real \<Rightarrow> participant \<Rightarrow> (string \<rightharpoonup> real) \<Rightarrow> (string \<rightharpoonup> real)" where
  "ease_row dt p anim =
     (case anim (p_user_id p) of
        None \<Rightarrow> anim(p_user_id p \<mapsto> target_of p)
      | Some a \<Rightarrow> anim(p_user_id p \<mapsto> fade_toward a (target_of p) dt (if target_of p > a then kTauUp else kTauDown)))"

definition ease_rows :: "real \<Rightarrow> participant list \<Rightarrow> (string \<rightharpoonup> real) \<Rightarrow> (string \<rightharpoonup> real)" where
  "ease_rows dt rows anim = fold (ease_row dt) rows anim |` (p_user_id ` set rows)"

definition advance_fades :: "participant list \<Rightarrow> int \<Rightarrow> fades \<Rightarrow> fades" where
  "advance_fades rows now f = \<lparr>g_anim = ease_rows (frame_dt now f) rows (g_anim f), g_last_ms = now\<rparr>"

text \<open>\<^verbatim>\<open>g_anim[id]\<close>, which enters 0 where there is nothing yet.\<close>

definition anim_at :: "string \<Rightarrow> (string \<rightharpoonup> real) \<Rightarrow> real \<times> (string \<rightharpoonup> real)" where
  "anim_at k anim = (case anim k of Some a \<Rightarrow> (a, anim) | None \<Rightarrow> (0, anim(k \<mapsto> 0)))"

definition resolve_avatar :: "(string \<Rightarrow> 'c \<times> 'w \<Rightarrow> nat \<times> 'c \<times> 'w) \<Rightarrow> participant \<Rightarrow> 'c \<times> 'w \<Rightarrow> nat \<times> 'c \<times> 'w" where
  "resolve_avatar resolve p cw = resolve (p_avatar_hash p) cw"

definition draw_row :: "ui \<Rightarrow> rat \<Rightarrow> rat \<Rightarrow> rat \<Rightarrow> participant \<Rightarrow> nat \<Rightarrow> real \<Rightarrow> draw list" where
  "draw_row u s ax ay p tex a =
     (let avatar = kAvatar * s; cx = ax + avatar * (1 / 2); cy = ay + avatar * (1 / 2); radius = avatar * (1 / 2);
          line_h = ui_line_height u;
          tx = ax + avatar + kAvatarTextGap * s;
          name_y = cy - line_h * (1 / 2);
          name = until_nul (p_display_name p);
          tw = f_width (ui_font u) (ui_size u) name;
          nbx = kNamePadX * s; nby = kNamePadY * s;
          deaf = p_deaf p \<or> p_self_deaf p;
          muted = deaf \<or> p_mute p \<or> p_self_mute p;
          gr = radius * (55 / 100);
          gx = tx + tw + nbx + gr;
          pill_r = (if muted then gx + gr else tx + tw) + nbx
      in draw_circle_icon ax ay avatar tex a
         @ (if p_speaking p
            then [Circle (cx, cy) (radius + kRing * s * (1 / 2)) (scale_alpha (im_col32 60 230 90 255) a) 32 (kRing * s)]
            else [])
         @ [Rect_filled (tx - nbx, name_y - nby) (pill_r, name_y + line_h + nby) (scale_alpha kPillBg a) (kNameRound * s),
            Label (tx, name_y) (scale_alpha (im_col32 235 235 240 255) a) name]
         @ (if deaf then draw_deaf gx cy gr a else if muted then draw_mic_off gx cy gr a else []))"

fun draw_rows ::
    "ui \<Rightarrow> (string \<Rightarrow> 'c \<times> 'w \<Rightarrow> nat \<times> 'c \<times> 'w) \<Rightarrow> rat \<Rightarrow> rat \<Rightarrow> rat \<Rightarrow> participant list \<Rightarrow> (string \<rightharpoonup> real) \<Rightarrow>
       'c \<times> 'w \<Rightarrow> draw list \<times> (string \<rightharpoonup> real) \<times> 'c \<times> 'w" where
  "draw_rows u resolve s left cursor_y [] anim cw = ([], anim, cw)"
| "draw_rows u resolve s left cursor_y (p # ps) anim cw =
     (let (a, anim) = anim_at (p_user_id p) anim;
          (tex, cw) = resolve_avatar resolve p cw;
          (ds, anim, cw) = draw_rows u resolve s left (cursor_y + (kRowHeight * s + kRowGap * s)) ps anim cw
      in (draw_row u s left cursor_y p tex a @ ds, anim, cw))"

definition panel_size :: "rat \<Rightarrow> nat \<Rightarrow> vec2" where
  "panel_size s n =
     (kPanelWidth * s,
      kPad * s * 2 + (of_nat n * (kRowHeight * s) + (if n > 1 then of_nat (n - 1) * (kRowGap * s) else 0)))"

definition draw_voice_panel ::
    "ui \<Rightarrow> (string \<Rightarrow> 'c \<times> 'w \<Rightarrow> nat \<times> 'c \<times> 'w) \<Rightarrow> snapshot \<Rightarrow> u32 \<times> u32 \<Rightarrow> int \<Rightarrow> fades \<Rightarrow> 'c \<times> 'w \<Rightarrow>
       draw list \<times> fades \<times> 'c \<times> 'w" where
  "draw_voice_panel u resolve sn extent now f cw =
     (let s = ui_scale (s_config sn); rows = panel_rows sn in
      if rows = [] then ([], f, cw)
      else
        let f = advance_fades rows now f;
            sz = panel_size s (length rows);
            pos = anchored_pos (c_anchor (s_config sn)) extent sz (kMargin * s);
            (ds, anim, cw) =
              (if ui_shown u ''##choir_voice_panel''
               then draw_rows u resolve s (fst pos + kPad * s) (snd pos + kPad * s) rows (g_anim f) cw
               else ([], g_anim f, cw))
        in (Window ''##choir_voice_panel'' pos sz kOverlayWindowFlags # ds @ [Window_end], f\<lparr>g_anim := anim\<rparr>, cw))"

section \<open>Notification toasts\<close>

definition live_toasts :: "snapshot \<Rightarrow> int \<Rightarrow> notification list" where
  "live_toasts sn now =
     (let dur = (if c_toast_duration_ms (s_config sn) > 0 then c_toast_duration_ms (s_config sn) else 5000)
      in filter (\<lambda>n. 0 \<le> now - n_created_ms n \<and> now - n_created_ms n < dur) (rev (s_notifications sn)))"

record card =
  cd_title :: "placed_run list"
  cd_body :: "placed_run list"
  cd_text_x :: rat
  cd_text_h :: rat
  cd_inner_h :: rat
  cd_h :: rat

definition toast_card ::
    "ui \<Rightarrow> (string \<Rightarrow> 'c \<times> 'w \<Rightarrow> nat \<times> 'c \<times> 'w) \<Rightarrow> rat \<Rightarrow> notification \<Rightarrow> 'c \<times> 'w \<Rightarrow> card \<times> 'c \<times> 'w" where
  "toast_card u resolve s n cw =
     (let has_icon = n_icon_hash n \<noteq> []; pad = kToastPad * s; icon = kToastIcon * s; gap = kTitleBodyGap * s;
          base = ui_size u; title_sz = base * kTitleScale; line_h = ui_line_height u;
          text_x = pad + (if has_icon then icon + kToastIconGap * s else 0);
          text_w = kToastWidth * s - text_x - pad;
          (title_n, title, cw) = layout_runs (ui_font u) resolve (n_title n)
             \<lparr>co_size = title_sz, co_advance = title_sz, co_width = text_w, co_lines = 1\<rparr> cw;
          (body_n, body, cw) = layout_runs (ui_font u) resolve (n_body n)
             \<lparr>co_size = base, co_advance = line_h, co_width = text_w, co_lines = kToastBodyLines\<rparr> cw;
          text_h = title_sz + (if body_n = 0 then 0 else gap + of_nat body_n * line_h);
          inner_h = max (if has_icon then icon else 0) text_h
      in (\<lparr>cd_title = title, cd_body = body, cd_text_x = text_x, cd_text_h = text_h, cd_inner_h = inner_h,
           cd_h = inner_h + pad * 2\<rparr>, cw))"

text \<open>The position of the next card, and where the stack goes on.\<close>

definition stack_next :: "anchor \<Rightarrow> rat \<Rightarrow> rat \<Rightarrow> rat \<Rightarrow> rat \<times> rat" where
  "stack_next a s h stack_y =
     (if is_top a then (stack_y, stack_y + (h + kToastGap * s))
      else (stack_y - h, stack_y - h - kToastGap * s))"

definition draw_shadow :: "rat \<Rightarrow> vec2 \<Rightarrow> vec2 \<Rightarrow> draw list" where
  "draw_shadow s pos sz =
     (Clip_full # map (\<lambda>i. let g = of_nat i * 2 * s in
         Rect_filled (fst pos - g, snd pos - g + 3 * s) (fst pos + fst sz + g, snd pos + snd sz + g + 3 * s)
           (im_col32 0 0 0 (of_nat (24 - i * 6))) (kToastRound * s + g)) [1, 2, 3]) @ [Clip_pop]"

definition draw_title_run :: "rat \<Rightarrow> vec2 \<Rightarrow> placed_run \<Rightarrow> draw list" where
  "draw_title_run sz org r =
     (let rp = (fst org + fst (pl_pos r), snd org + snd (pl_pos r)); tc = im_col32 255 255 255 255 in
      if pl_tex r \<noteq> 0 then [Image (pl_tex r) rp (fst rp + sz, snd rp + sz)]
      else [Label_sized sz rp tc (until_nul (pl_text r)), Label_sized sz (fst rp + 1, snd rp) tc (until_nul (pl_text r))])"

definition draw_body_run :: "rat \<Rightarrow> vec2 \<Rightarrow> placed_run \<Rightarrow> draw list" where
  "draw_body_run sz org r =
     (let rp = (fst org + fst (pl_pos r), snd org + snd (pl_pos r)) in
      if pl_tex r \<noteq> 0 then [Image (pl_tex r) rp (fst rp + sz, snd rp + sz)]
      else [Label rp (im_col32 185 187 196 255) (until_nul (pl_text r))])"

definition draw_card ::
    "ui \<Rightarrow> (string \<Rightarrow> 'c \<times> 'w \<Rightarrow> nat \<times> 'c \<times> 'w) \<Rightarrow> rat \<Rightarrow> notification \<Rightarrow> card \<Rightarrow> vec2 \<Rightarrow> 'c \<times> 'w \<Rightarrow>
       draw list \<times> 'c \<times> 'w" where
  "draw_card u resolve s n cd pos cw =
     (let pad = kToastPad * s; icon = kToastIcon * s; sz = (kToastWidth * s, cd_h cd);
          base = ui_size u; title_sz = base * kTitleScale;
          (icon_draw, cw) =
            (if n_icon_hash n \<noteq> [] then
               let (tex, cw) = resolve (n_icon_hash n) cw
               in (draw_circle_icon (fst pos + pad) (snd pos + pad + (cd_inner_h cd - icon) * (1 / 2)) icon tex 1, cw)
             else ([], cw));
          tx = fst pos + cd_text_x cd;
          ty = snd pos + pad + (cd_inner_h cd - cd_text_h cd) * (1 / 2)
      in (draw_shadow s pos sz
          @ Rect_filled pos (fst pos + fst sz, snd pos + snd sz) (im_col32 32 34 40 245) (kToastRound * s) # icon_draw
          @ concat (map (draw_title_run title_sz (tx, ty)) (cd_title cd))
          @ concat (map (draw_body_run base (tx, ty + (title_sz + kTitleBodyGap * s))) (cd_body cd)), cw))"

definition toast_name :: "nat \<Rightarrow> string" where
  "toast_name i = ''##choir_toast_'' @ dec_of i"

fun draw_stack ::
    "ui \<Rightarrow> (string \<Rightarrow> 'c \<times> 'w \<Rightarrow> nat \<times> 'c \<times> 'w) \<Rightarrow> anchor \<Rightarrow> rat \<Rightarrow> rat \<Rightarrow> nat \<Rightarrow> notification list \<Rightarrow> rat \<Rightarrow>
       'c \<times> 'w \<Rightarrow> draw list \<times> 'c \<times> 'w" where
  "draw_stack u resolve a s x idx [] stack_y cw = ([], cw)"
| "draw_stack u resolve a s x idx (n # ns) stack_y cw =
     (let (cd, cw) = toast_card u resolve s n cw;
          (y, stack_y) = stack_next a s (cd_h cd) stack_y
      in if y < 0 then ([], cw)
         else
           let pos = (if x < 0 then 0 else x, y); name = toast_name idx;
               (inner, cw) = (if ui_shown u name then draw_card u resolve s n cd pos cw else ([], cw));
               (ds, cw) = draw_stack u resolve a s x (idx + 1) ns stack_y cw
           in (Window name pos (kToastWidth * s, cd_h cd) kOverlayWindowFlags # inner @ Window_end # ds, cw))"

definition draw_toasts ::
    "ui \<Rightarrow> (string \<Rightarrow> 'c \<times> 'w \<Rightarrow> nat \<times> 'c \<times> 'w) \<Rightarrow> snapshot \<Rightarrow> u32 \<times> u32 \<Rightarrow> int \<Rightarrow> 'c \<times> 'w \<Rightarrow> draw list \<times> 'c \<times> 'w" where
  "draw_toasts u resolve sn extent now cw =
     (let s = ui_scale (s_config sn); live = live_toasts sn now in
      if live = [] then ([], cw)
      else
        let a = c_toast_anchor (s_config sn); margin = kMargin * s;
            W = of_nat (unat (fst extent)); H = of_nat (unat (snd extent))
        in draw_stack u resolve a s (if is_left a then margin else W - margin - kToastWidth * s) 0 live
             (if is_top a then margin else H - margin) cw)"

definition draw_overlay ::
    "ui \<Rightarrow> (string \<Rightarrow> 'c \<times> 'w \<Rightarrow> nat \<times> 'c \<times> 'w) \<Rightarrow> snapshot \<Rightarrow> u32 \<times> u32 \<Rightarrow> int \<Rightarrow> fades \<Rightarrow> 'c \<times> 'w \<Rightarrow>
       draw list \<times> fades \<times> 'c \<times> 'w" where
  "draw_overlay u resolve sn extent now f cw =
     (if \<not> s_in_voice sn then ([], f, cw)
      else
        let (panel, f, cw) = draw_voice_panel u resolve sn extent now f cw;
            (toasts, cw) = draw_toasts u resolve sn extent now cw
        in (panel @ toasts, f, cw))"

text \<open>One step of the two drawing loops, taken apart.\<close>

lemma draw_rows_ConsE:
  assumes "draw_rows u resolve s left y (p # ps) anim cw = (ds, anim', cw')"
  obtains a anim1 tex cw1 ds2 where "anim_at (p_user_id p) anim = (a, anim1)" "resolve_avatar resolve p cw = (tex, cw1)"
    "draw_rows u resolve s left (y + (kRowHeight * s + kRowGap * s)) ps anim1 cw1 = (ds2, anim', cw')"
    "ds = draw_row u s left y p tex a @ ds2"
proof -
  obtain a anim1 where a: "anim_at (p_user_id p) anim = (a, anim1)" by (metis prod.exhaust)
  obtain tex cw1 where r: "resolve_avatar resolve p cw = (tex, cw1)" by (metis prod.exhaust)
  obtain ds2 anim2 cw2 where rest: "draw_rows u resolve s left (y + (kRowHeight * s + kRowGap * s)) ps anim1 cw1 = (ds2, anim2, cw2)"
    by (metis prod.exhaust)
  show thesis using that [OF a r] assms a r rest by simp
qed

lemma draw_stack_ConsE:
  assumes "draw_stack u resolve a s x idx (n # ns) y cw = (ds, cw')"
  obtains (off) "ds = []"
  | (card) cd cw1 y1 y2 pos inner cw2 ds2 where "toast_card u resolve s n cw = (cd, cw1)" "stack_next a s (cd_h cd) y = (y1, y2)"
      "0 \<le> y1" "pos = (if x < 0 then 0 else x, y1)"
      "(if ui_shown u (toast_name idx) then draw_card u resolve s n cd pos cw1 else ([], cw1)) = (inner, cw2)"
      "draw_stack u resolve a s x (idx + 1) ns y2 cw2 = (ds2, cw')"
      "ds = Window (toast_name idx) pos (kToastWidth * s, cd_h cd) kOverlayWindowFlags # inner @ Window_end # ds2"
proof -
  obtain cd cw1 where cd: "toast_card u resolve s n cw = (cd, cw1)" by (metis prod.exhaust)
  obtain y1 y2 where y: "stack_next a s (cd_h cd) y = (y1, y2)" by (metis prod.exhaust)
  show thesis
  proof (cases "y1 < 0")
    case True
    then show thesis using off assms cd y by simp
  next
    case False
    let ?pos = "(if x < 0 then 0 else x, y1)"
    obtain inner cw2 where i: "(if ui_shown u (toast_name idx) then draw_card u resolve s n cd ?pos cw1 else ([], cw1)) = (inner, cw2)"
      by (metis prod.exhaust)
    obtain ds2 cw3 where r: "draw_stack u resolve a s x (idx + 1) ns y2 cw2 = (ds2, cw3)" by (metis prod.exhaust)
    show thesis using card [OF cd y _ refl i] assms cd y False i r by simp
  qed
qed

section \<open>Opacities\<close>

lemma fade_eq: "0 < dt \<Longrightarrow> 0 < tau \<Longrightarrow> fade_toward c t dt tau = t + (c - t) * exp (- dt / tau)"
  by (simp add: fade_toward_def algebra_simps)

text \<open>The easing never overshoots.\<close>

lemma fade_between: "0 \<le> tau \<Longrightarrow> min c t \<le> fade_toward c t dt tau \<and> fade_toward c t dt tau \<le> max c t"
proof (cases "dt \<le> 0 \<or> tau \<le> 0")
  case False
  define k where "k = exp (- dt / tau)"
  have k: "0 \<le> k" "k \<le> 1" using False by (simp_all add: k_def)
  have e: "fade_toward c t dt tau = (1 - k) * t + k * c" using False by (simp add: fade_eq k_def algebra_simps)
  have "(1 - k) * t + k * c \<le> (1 - k) * max c t + k * max c t" "(1 - k) * min c t + k * min c t \<le> (1 - k) * t + k * c"
    using k by (intro add_mono mult_left_mono; simp)+
  then show ?thesis unfolding e by (simp add: algebra_simps)
qed (auto simp: fade_toward_def)

lemma target_range: "kIdleAlpha \<le> target_of p" "target_of p \<le> 1"
  by (simp_all add: target_of_def kIdleAlpha_def)

definition lit :: "(string \<rightharpoonup> real) \<Rightarrow> bool" where
  "lit anim \<longleftrightarrow> (\<forall>k a. anim k = Some a \<longrightarrow> kIdleAlpha \<le> a \<and> a \<le> 1)"

lemma lit_ease_row: "lit anim \<Longrightarrow> lit (ease_row dt p anim)"
proof -
  assume l: "lit anim"
  have step: "kIdleAlpha \<le> fade_toward a (target_of p) dt tau \<and> fade_toward a (target_of p) dt tau \<le> 1"
    if "kIdleAlpha \<le> a" "a \<le> 1" "0 \<le> tau" for a tau
    using fade_between [OF that(3), of a "target_of p" dt] target_range [of p] that by linarith
  show ?thesis
    using l step target_range [of p] unfolding lit_def ease_row_def
    by (auto split: option.splits simp: kTauUp_def kTauDown_def)
qed

lemma lit_ease_rows: "lit anim \<Longrightarrow> lit (fold (ease_row dt) rows anim)"
  by (induction rows arbitrary: anim) (simp_all add: lit_ease_row)

lemma dom_ease_row: "dom (ease_row dt p anim) = insert (p_user_id p) (dom anim)"
  by (auto simp: ease_row_def split: option.splits)

lemma dom_ease_rows: "dom (fold (ease_row dt) rows anim) = p_user_id ` set rows \<union> dom anim"
  by (induction rows arbitrary: anim) (auto simp: dom_ease_row)

lemma dom_advance: "dom (g_anim (advance_fades rows now f)) = p_user_id ` set rows"
  by (auto simp: advance_fades_def ease_rows_def dom_ease_rows)

lemma lit_restrict: "lit anim \<Longrightarrow> lit (anim |` A)"
  by (auto simp: lit_def restrict_map_def split: if_splits)

lemma lit_advance: "lit (g_anim f) \<Longrightarrow> lit (g_anim (advance_fades rows now f))"
  by (simp add: advance_fades_def ease_rows_def lit_restrict lit_ease_rows)

text \<open>Drawing finds every opacity it asks for.\<close>

lemma draw_rows_anim:
  "p_user_id ` set rows \<subseteq> dom anim \<Longrightarrow> draw_rows u resolve s left y rows anim cw = (ds, anim', cw') \<Longrightarrow> anim' = anim"
proof (induction rows arbitrary: y cw ds anim' cw')
  case (Cons p ps)
  from Cons.prems(2) show ?case
  proof (cases rule: draw_rows_ConsE)
    case (1 a anim1 tex cw1 ds2)
    have same: "anim1 = anim" using 1(1) Cons.prems(1) by (auto simp: anim_at_def dom_def)
    show ?thesis using Cons.IH [OF _ 1(3) [unfolded same]] Cons.prems(1) by simp
  qed
qed simp

lemma panel_fades:
  assumes "draw_voice_panel u resolve sn extent now f cw = (ds, f', cw')"
  shows "f' = (if panel_rows sn = [] then f else advance_fades (panel_rows sn) now f)"
proof (cases "panel_rows sn = []")
  case False
  let ?f = "advance_fades (panel_rows sn) now f"
  have d: "p_user_id ` set (panel_rows sn) \<subseteq> dom (g_anim ?f)" by (simp add: dom_advance)
  have keep: "?f\<lparr>g_anim := g_anim ?f\<rparr> = ?f" by simp
  show ?thesis using assms False keep
    by (auto simp: draw_voice_panel_def Let_def dest: draw_rows_anim [OF d] split: prod.splits if_splits)
qed (use assms in \<open>simp add: draw_voice_panel_def Let_def\<close>)

text \<open>A game's frames: what there is to show, the size of the window and the time.\<close>

type_synonym frame = "snapshot \<times> (u32 \<times> u32) \<times> int"

fun draw_frames ::
    "ui \<Rightarrow> (string \<Rightarrow> 'c \<times> 'w \<Rightarrow> nat \<times> 'c \<times> 'w) \<Rightarrow> frame list \<Rightarrow> fades \<Rightarrow> 'c \<times> 'w \<Rightarrow> fades \<times> 'c \<times> 'w" where
  "draw_frames u resolve [] f cw = (f, cw)"
| "draw_frames u resolve ((sn, extent, now) # fs) f cw =
     (let (ds, f, cw) = draw_overlay u resolve sn extent now f cw in draw_frames u resolve fs f cw)"

definition panel_shown :: "frame \<Rightarrow> bool" where
  "panel_shown fr \<longleftrightarrow> s_in_voice (fst fr) \<and> panel_rows (fst fr) \<noteq> []"

definition faded_ids :: "frame list \<Rightarrow> string set" where
  "faded_ids fs = (let ps = filter panel_shown fs in if ps = [] then {} else p_user_id ` set (panel_rows (fst (last ps))))"

lemma overlay_fades:
  assumes "draw_overlay u resolve sn extent now f cw = (ds, f', cw')"
  shows "f' = (if panel_shown (sn, extent, now) then advance_fades (panel_rows sn) now f else f)"
proof (cases "s_in_voice sn")
  case True
  obtain pd f1 cw1 where p: "draw_voice_panel u resolve sn extent now f cw = (pd, f1, cw1)" by (metis prod.exhaust)
  have "f' = f1" using assms True p by (auto simp: draw_overlay_def Let_def split: prod.splits)
  then show ?thesis using panel_fades [OF p] True by (simp add: panel_shown_def)
qed (use assms in \<open>simp add: draw_overlay_def panel_shown_def\<close>)

lemma frames_faded:
  "draw_frames u resolve fs f cw = (f', cw') \<Longrightarrow>
     (lit (g_anim f) \<longrightarrow> lit (g_anim f')) \<and>
     dom (g_anim f') = (if filter panel_shown fs = [] then dom (g_anim f) else faded_ids fs)"
proof (induction fs arbitrary: f cw)
  case (Cons fr fs)
  obtain sn extent now where fr: "fr = (sn, extent, now)" by (metis prod.exhaust)
  obtain ds f1 cw1 where d: "draw_overlay u resolve sn extent now f cw = (ds, f1, cw1)" by (metis prod.exhaust)
  have rest: "draw_frames u resolve fs f1 cw1 = (f', cw')" using Cons.prems fr d by simp
  show ?case
    using Cons.IH [OF rest] overlay_fades [OF d] fr lit_advance [of f "panel_rows sn" now] dom_advance [of "panel_rows sn" now f]
    by (auto simp: faded_ids_def Let_def)
qed simp

definition speaker :: participant where
  "speaker = new_participant\<lparr>p_user_id := ''7'', p_display_name := ''Ada'', p_speaking := True\<rparr>"

definition in_call :: snapshot where
  "in_call = new_snapshot\<lparr>s_in_voice := True, s_participants := [speaker, speaker\<lparr>p_user_id := ''8'', p_speaking := False\<rparr>]\<rparr>"

definition plain_ui :: ui where
  "plain_ui = \<lparr>ui_font = fixed_font, ui_size = 10, ui_line_height = 10, ui_shown = \<lambda>_. True\<rparr>"

text \<open>
  C30: However many frames are drawn, every opacity stays between the idle one and full, and the table of
  fades holds exactly the members shown in the last frame that drew the panel.\<close>

theorem fades_stay_bounded:
  assumes "draw_frames u resolve fs new_fades cw = (f, cw')"
  shows "(\<forall>k a. g_anim f k = Some a \<longrightarrow> kIdleAlpha \<le> a \<and> a \<le> 1) \<and> dom (g_anim f) = faded_ids fs"
  using frames_faded [OF assms] by (auto simp: new_fades_def lit_def faded_ids_def)

lemma fades_stay_bounded_witness:
  "dom (g_anim (fst (draw_frames plain_ui no_icons [(in_call, (640, 480), 1000), (in_call, (640, 480), 1016)] new_fades ((), ())))) = {''7'', ''8''}"
proof -
  obtain f cw where d: "draw_frames plain_ui no_icons [(in_call, (640, 480), 1000), (in_call, (640, 480), 1016)] new_fades ((), ()) = (f, cw)"
    by (metis prod.exhaust)
  show ?thesis
    using fades_stay_bounded [OF d] unfolding d
    by (simp add: faded_ids_def panel_shown_def panel_rows_def in_call_def speaker_def new_snapshot_def default_appearance_def
        new_participant_def)
qed

lemma fade_side: "0 < dt \<Longrightarrow> 0 < tau \<Longrightarrow> t > fade_toward c t dt tau \<longleftrightarrow> t > c"
  by (simp add: fade_eq) (smt (verit) exp_gt_zero mult_neg_pos zero_le_mult_iff)

lemma fade_twice:
  assumes "0 < tau" "0 \<le> d1" "0 \<le> d2"
  shows "fade_toward (fade_toward c t d1 tau) t d2 tau = fade_toward c t (d1 + d2) tau"
proof -
  have e: "exp (- d1 / tau) * exp (- d2 / tau) = exp (- (d1 + d2) / tau)" by (simp add: diff_divide_distrib flip: exp_add)
  consider "d1 = 0" | "d2 = 0" | "0 < d1" "0 < d2" using assms by linarith
  then show ?thesis
  proof cases
    case 3
    then show ?thesis using assms(1) by (simp only: fade_eq add_pos_pos e [symmetric]) simp
  qed (simp_all add: fade_toward_def [of _ _ 0])
qed



section \<open>Where the panel goes\<close>

lemma anchored_inside:
  assumes "0 \<le> m" "fst sz + m \<le> of_nat (unat (fst extent))" "snd sz + m \<le> of_nat (unat (snd extent))" "0 \<le> snd sz"
  shows "0 \<le> fst (anchored_pos a extent sz m)" "0 \<le> snd (anchored_pos a extent sz m)"
    "fst (anchored_pos a extent sz m) + fst sz \<le> of_nat (unat (fst extent))"
    "snd (anchored_pos a extent sz m) + snd sz \<le> of_nat (unat (snd extent))"
  using assms by (auto simp: anchored_pos_def at_least_0_def Let_def field_simps)

text \<open>A row: its avatar and its name stay in the window of the panel.\<close>

definition row_top :: "rat \<Rightarrow> rat \<Rightarrow> nat \<Rightarrow> rat" where
  "row_top s y i = y + of_nat i * (kRowHeight * s + kRowGap * s)"

lemma panel_height: "snd (panel_size s (Suc m)) = kPad * s * 2 + of_nat m * (kRowHeight * s + kRowGap * s) + kRowHeight * s"
  by (simp add: panel_size_def distrib_left distrib_right)

lemma row_in_panel:
  assumes "i < n" "0 \<le> s"
  shows "row_top s (y + kPad * s) i + kRowHeight * s + kPad * s \<le> y + snd (panel_size s n)"
proof -
  obtain m where n: "n = Suc m" "i \<le> m" using assms(1) by (cases n) auto
  have "of_nat i * (kRowHeight * s + kRowGap * s) \<le> (of_nat m :: rat) * (kRowHeight * s + kRowGap * s)"
    using n assms(2) by (intro mult_right_mono) (auto simp: kRowHeight_def kAvatar_def kRowGap_def)
  then show ?thesis unfolding n(1) panel_height row_top_def by linarith
qed

text \<open>The names a list of calls shows, with where they start.\<close>

fun labels :: "draw list \<Rightarrow> (vec2 \<times> string) list" where
  "labels [] = []"
| "labels (Label p col t # ds) = (p, t) # labels ds"
| "labels (d # ds) = labels ds"

lemma labels_append [simp]: "labels (xs @ ys) = labels xs @ labels ys"
  by (induction xs rule: labels.induct) simp_all

lemma labels_glyphs [simp]:
  "labels (draw_slash cx cy r fg a) = []" "labels (draw_mic_off cx cy r a) = []" "labels (draw_deaf cx cy r a) = []"
  "labels (draw_user_glyph cx cy r a) = []" "labels (draw_circle_icon cx cy r tex a) = []"
  by (simp_all add: draw_slash_def draw_mic_off_def draw_deaf_def draw_user_glyph_def draw_circle_icon_def Let_def)

definition name_pos :: "ui \<Rightarrow> rat \<Rightarrow> rat \<Rightarrow> rat \<Rightarrow> vec2" where
  "name_pos u s left y = (left + kAvatar * s + kAvatarTextGap * s, y + kAvatar * s * (1 / 2) - ui_line_height u * (1 / 2))"

lemma labels_row: "labels (draw_row u s left y p tex a) = [(name_pos u s left y, until_nul (p_display_name p))]"
  by (simp add: draw_row_def name_pos_def Let_def)

lemma labels_rows:
  "draw_rows u resolve s left y rows anim cw = (ds, anim', cw') \<Longrightarrow>
     labels ds = map (\<lambda>(i, p). (name_pos u s left (row_top s y i), until_nul (p_display_name p))) (enumerate 0 rows)"
proof (induction rows arbitrary: y anim cw ds anim' cw')
  case (Cons p ps)
  have shift: "row_top s (y + (kRowHeight * s + kRowGap * s)) i = row_top s y (Suc i)" for i
    by (simp add: row_top_def algebra_simps)
  from Cons.prems show ?case
  proof (cases rule: draw_rows_ConsE)
    case (1 a anim1 tex cw1 ds2)
    show ?thesis unfolding 1(4) labels_append labels_row Cons.IH [OF 1(3)]
      by (simp add: enumerate_Suc_eq row_top_def [of s y 0] shift case_prod_beta)
  qed
qed simp

lemma ui_scale_pos: "0 < ui_scale cfg"
  by (auto simp: ui_scale_def)

lemma draw_voice_panel_labels:
  assumes "draw_voice_panel u resolve sn extent now f cw = (ds, f', cw')" "panel_rows sn \<noteq> []" "ui_shown u ''##choir_voice_panel''"
    and "s = ui_scale (s_config sn)" "pos = anchored_pos (c_anchor (s_config sn)) extent (panel_size s (length (panel_rows sn))) (kMargin * s)"
  shows "labels ds = map (\<lambda>(i, p). (name_pos u s (fst pos + kPad * s) (row_top s (snd pos + kPad * s) i), until_nul (p_display_name p)))
           (enumerate 0 (panel_rows sn))"
  using assms by (auto simp: draw_voice_panel_def Let_def split: prod.splits dest: labels_rows)

text \<open>The middle of a name's line, where the avatar's center is too.\<close>

definition middle :: "ui \<Rightarrow> vec2 \<Rightarrow> rat" where
  "middle u p = snd p + ui_line_height u * (1 / 2)"

lemma map_enumerate_snd: "map (\<lambda>x. g (snd x)) (enumerate n xs) = map g xs"
  by (induction xs arbitrary: n) simp_all

text \<open>
  The panel names, once each and in the order of the call, everyone in it, or with the setting
  off exactly those who speak.\<close>

theorem panel_names_members:
  assumes "draw_voice_panel u resolve sn extent now f cw = (ds, f', cw')" and "ui_shown u ''##choir_voice_panel''"
  shows "map snd (labels ds) = map (\<lambda>p. until_nul (p_display_name p))
     (if c_show_all_members (s_config sn) then s_participants sn else filter p_speaking (s_participants sn))"
proof -
  have rows: "panel_rows sn = (if c_show_all_members (s_config sn) then s_participants sn else filter p_speaking (s_participants sn))"
    by (simp add: panel_rows_def)
  show ?thesis
  proof (cases "panel_rows sn = []")
    case True
    then have "ds = []" using assms(1) by (simp add: draw_voice_panel_def Let_def)
    then show ?thesis using True unfolding rows by simp
  next
    case False
    show ?thesis unfolding draw_voice_panel_labels [OF assms(1) False assms(2) refl refl] rows [symmetric]
      by (simp add: comp_def case_prod_beta map_enumerate_snd [of "\<lambda>p. until_nul (p_display_name p)"])
  qed
qed

lemma panel_names_members_witness:
  "map snd (labels (fst (draw_voice_panel plain_ui no_icons in_call (640, 480) 1000 new_fades ((), ())))) = [''Ada'', ''Ada'']"
proof -
  obtain ds f cw where d: "draw_voice_panel plain_ui no_icons in_call (640, 480) 1000 new_fades ((), ()) = (ds, f, cw)"
    by (metis prod.exhaust)
  show ?thesis
    using panel_names_members [OF d] unfolding d
    by (simp add: plain_ui_def in_call_def speaker_def new_snapshot_def default_appearance_def new_participant_def until_nul_def)
qed

text \<open>
  A panel that fits the game's window with its margin is inside it whatever its anchor: every
  name's line is, vertically, and begins inside.\<close>

theorem panel_on_screen:
  assumes "draw_voice_panel u resolve sn extent now f cw = (ds, f', cw')" and "ui_shown u ''##choir_voice_panel''"
    and "s = ui_scale (s_config sn)" "panel_rows sn \<noteq> []"
    and "kPanelWidth * s + kMargin * s \<le> of_nat (unat (fst extent))"
    and "snd (panel_size s (length (panel_rows sn))) + kMargin * s \<le> of_nat (unat (snd extent))"
  shows "list_all (\<lambda>(p, t). 0 \<le> fst p \<and> fst p \<le> of_nat (unat (fst extent)) \<and>
     0 \<le> middle u p \<and> middle u p \<le> of_nat (unat (snd extent))) (labels ds)"
proof -
  let ?sz = "panel_size s (length (panel_rows sn))"
  define pos where "pos = anchored_pos (c_anchor (s_config sn)) extent ?sz (kMargin * s)"
  have s: "0 < s" using assms(3) ui_scale_pos by simp
  have h: "0 \<le> snd ?sz" using s by (auto simp: panel_size_def kPad_def kRowHeight_def kAvatar_def kRowGap_def)
  have w: "fst ?sz = kPanelWidth * s" by (simp add: panel_size_def)
  have m: "0 \<le> kMargin * s" using s by (simp add: kMargin_def)
  note inside = anchored_inside [of "kMargin * s" ?sz extent "c_anchor (s_config sn)", OF m _ assms(6) h, unfolded w, OF assms(5), folded pos_def]
  have row: "0 \<le> fst (name_pos u s (fst pos + kPad * s) y) \<and> fst (name_pos u s (fst pos + kPad * s) y) \<le> of_nat (unat (fst extent))" for y
    using inside(1,3) s by (simp add: name_pos_def kPad_def kAvatar_def kAvatarTextGap_def kPanelWidth_def)
  have mid: "0 \<le> middle u (name_pos u s x (row_top s (snd pos + kPad * s) i)) \<and>
      middle u (name_pos u s x (row_top s (snd pos + kPad * s) i)) \<le> of_nat (unat (snd extent))"
    if "i < length (panel_rows sn)" for x i
  proof -
    have "0 \<le> (of_nat i :: rat) * (kRowHeight * s + kRowGap * s)" using s by (simp add: kRowHeight_def kAvatar_def kRowGap_def)
    then show ?thesis
      using row_in_panel [OF that, of s "snd pos"] inside(2,4) s
      by (simp add: middle_def name_pos_def kRowHeight_def kAvatar_def kPad_def row_top_def)
  qed
  have "i < length (panel_rows sn)" if "(i, p) \<in> set (enumerate 0 (panel_rows sn))" for i p
    using that by (simp add: in_set_enumerate_eq)
  then show ?thesis unfolding draw_voice_panel_labels [OF assms(1,4,2,3) pos_def] list_all_iff set_map
    using row mid by auto
qed

lemma panel_on_screen_witness:
  "list_all (\<lambda>(p, t). 0 \<le> fst p \<and> fst p \<le> 640 \<and> 0 \<le> middle plain_ui p \<and> middle plain_ui p \<le> 480)
     (labels (fst (draw_voice_panel plain_ui no_icons in_call (640, 480) 1000 new_fades ((), ()))))"
proof -
  obtain ds f cw where d: "draw_voice_panel plain_ui no_icons in_call (640, 480) 1000 new_fades ((), ()) = (ds, f, cw)"
    by (metis prod.exhaust)
  have sc: "ui_scale (s_config in_call) = 1" by (simp add: ui_scale_def in_call_def new_snapshot_def default_appearance_def)
  have rows: "length (panel_rows in_call) = 2" by (simp add: panel_rows_def in_call_def new_snapshot_def default_appearance_def)
  have "panel_rows in_call \<noteq> []" using rows by auto
  from panel_on_screen [OF d _ sc [symmetric] this] show ?thesis
    unfolding d rows by (simp add: plain_ui_def panel_size_def kPanelWidth_def kMargin_def kPad_def kRowHeight_def kAvatar_def kRowGap_def)
qed

section \<open>How the toasts stack\<close>

text \<open>The windows of a list of calls.\<close>

fun windows :: "draw list \<Rightarrow> (string \<times> vec2 \<times> vec2) list" where
  "windows [] = []"
| "windows (Window name pos sz fl # ds) = (name, pos, sz) # windows ds"
| "windows (d # ds) = windows ds"

lemma windows_append [simp]: "windows (xs @ ys) = windows xs @ windows ys"
  by (induction xs rule: windows.induct) simp_all

lemma windows_concat: "list_all (\<lambda>d. windows d = []) ds \<Longrightarrow> windows (concat ds) = []"
  by (induction ds) simp_all

lemma windows_none [simp]:
  "windows (draw_circle_icon cx cy r tex a) = []" "windows (draw_shadow s pos sz) = []"
  "windows (draw_title_run sz2 org r2) = []" "windows (draw_body_run sz2 org r2) = []"
  by (simp_all add: draw_user_glyph_def draw_circle_icon_def draw_shadow_def draw_title_run_def draw_body_run_def Let_def)

lemma windows_card: "draw_card u resolve s n cd pos cw = (ds, cw') \<Longrightarrow> windows ds = []"
  by (auto simp: draw_card_def Let_def windows_concat list_all_iff split: prod.splits if_splits)

definition card_above :: "rat \<Rightarrow> string \<times> vec2 \<times> vec2 \<Rightarrow> string \<times> vec2 \<times> vec2 \<Rightarrow> bool" where
  "card_above g w v \<longleftrightarrow> snd (fst (snd w)) + snd (snd (snd w)) + g \<le> snd (fst (snd v))"

lemma card_height: "0 \<le> s \<Longrightarrow> toast_card u resolve s n cw = (cd, cw') \<Longrightarrow> kToastPad * s * 2 \<le> cd_h cd"
  by (auto simp: toast_card_def Let_def kToastPad_def kToastIcon_def le_max_iff_disj split: prod.splits)

text \<open>Where the cards of a stack are: below its start for the top anchors, above it for the others.\<close>

definition stacked :: "anchor \<Rightarrow> rat \<Rightarrow> rat \<Rightarrow> (string \<times> vec2 \<times> vec2) list \<Rightarrow> bool" where
  "stacked a g y ws \<longleftrightarrow>
     (if is_top a then sorted_wrt (card_above g) ws \<and> list_all (\<lambda>w. y \<le> snd (fst (snd w))) ws
      else sorted_wrt (\<lambda>w v. card_above g v w) ws \<and> list_all (\<lambda>w. snd (fst (snd w)) + snd (snd (snd w)) \<le> y) ws)"

lemma stacked_mono: "stacked a g y ws \<Longrightarrow> (if is_top a then y' \<le> y else y \<le> y') \<Longrightarrow> stacked a g y' ws"
  unfolding stacked_def list_all_iff by (cases "is_top a") (auto intro: order_trans)

lemma stacked_Cons:
  assumes "stack_next a s (snd sz) y = (y1, y2)" "stacked a (kToastGap * s) y2 ws" "0 \<le> s" "0 \<le> snd sz"
  shows "stacked a (kToastGap * s) y ((name, (x, y1), sz) # ws)"
proof (cases "is_top a")
  case True
  then have y: "y1 = y" "y2 = y + (snd sz + kToastGap * s)" using assms(1) by (simp_all add: stack_next_def)
  have g: "0 \<le> kToastGap * s" using assms(3) by (simp add: kToastGap_def)
  have b: "y2 \<le> snd (fst (snd w))" if "w \<in> set ws" for w using assms(2) True that by (simp add: stacked_def list_all_iff)
  show ?thesis using assms(2,4) True y g unfolding stacked_def list_all_iff card_above_def
    by simp (use b y g in fastforce)
next
  case False
  then have y: "y1 = y - snd sz" "y2 = y1 - kToastGap * s" using assms(1) by (simp_all add: stack_next_def)
  have g: "0 \<le> kToastGap * s" using assms(3) by (simp add: kToastGap_def)
  have b: "snd (fst (snd w)) + snd (snd (snd w)) \<le> y2" if "w \<in> set ws" for w
    using assms(2) False that by (simp add: stacked_def list_all_iff)
  show ?thesis using assms(2,4) False y g unfolding stacked_def list_all_iff card_above_def
    by simp (use b y g in fastforce)
qed

lemma draw_stack_windows:
  "0 \<le> s \<Longrightarrow> draw_stack u resolve a s x idx ns y cw = (ds, cw') \<Longrightarrow>
     stacked a (kToastGap * s) y (windows ds) \<and>
     list_all (\<lambda>w. 0 \<le> fst (fst (snd w)) \<and> 0 \<le> snd (fst (snd w))) (windows ds) \<and>
     map fst (windows ds) = map toast_name [idx..<idx + length (windows ds)] \<and>
     length (windows ds) \<le> length ns"
proof (induction ns arbitrary: idx y cw ds cw')
  case Nil
  then show ?case by (simp add: stacked_def)
next
  case (Cons n ns)
  from Cons.prems(2) show ?case
  proof (cases rule: draw_stack_ConsE)
    case off
    then show ?thesis by (simp add: stacked_def)
  next
    case (card cd cw1 y1 y2 pos inner cw2 ds2)
    have w: "windows ds = (toast_name idx, pos, kToastWidth * s, cd_h cd) # windows ds2"
      using card(5) by (auto simp: card(7) windows_card split: if_splits)
    have h: "0 \<le> cd_h cd" using card_height [OF Cons.prems(1) card(1)] Cons.prems(1) by (simp add: kToastPad_def)
    note IH = Cons.IH [OF Cons.prems(1) card(6)]
    have "stacked a (kToastGap * s) y (windows ds)"
      unfolding w card(4) using IH Cons.prems(1) h card(2) by (intro stacked_Cons) auto
    moreover have "map fst (windows ds) = map toast_name [idx..<idx + length (windows ds)]"
    proof -
      have "map fst (windows ds2) = map toast_name [Suc idx..<Suc idx + length (windows ds2)]" using IH by (simp del: upt_Suc)
      moreover have "[idx..<idx + length (windows ds)] = idx # [Suc idx..<Suc idx + length (windows ds2)]"
        unfolding w by (simp add: upt_conv_Cons del: upt_Suc)
      ultimately show ?thesis unfolding w by (simp del: upt_Suc)
    qed
    ultimately show ?thesis using IH card(3,4) unfolding w by simp
  qed
qed

definition two_toasts :: snapshot where
  "two_toasts = in_call\<lparr>s_notifications := [new_notification\<lparr>n_title := ''Bob'', n_body := ''hi there'', n_created_ms := 950\<rparr>,
     new_notification\<lparr>n_title := ''Eve'', n_body := ''hello'', n_icon_hash := ''1/ab'', n_created_ms := 900\<rparr>]\<rparr>"


lemmas overlay_examples = plain_ui_def in_call_def speaker_def new_snapshot_def default_appearance_def new_participant_def
  two_toasts_def new_notification_def


text \<open>The two cards of the example, computed.\<close>

lemma two_toasts_windows:
  "windows (fst (draw_toasts plain_ui no_icons two_toasts (640, 480) 1000 ((), ()))) =
     [(toast_name 0, (304, 16), (320, 68)), (toast_name 1, (304, 92), (320, 54))]"
  by code_simp

section \<open>Well-formed drawing\<close>

text \<open>ImGui's rules for a list of calls: a window is begun only outside every other and ended, drawing happens in
  a window, every clip rectangle pushed is popped in the same window; and the overlay's own rule, that no
  window ever takes input.\<close>

fun obeys :: "bool \<Rightarrow> nat \<Rightarrow> draw list \<Rightarrow> bool" where
  "obeys w k [] \<longleftrightarrow> \<not> w \<and> k = 0"
| "obeys w k (Window name pos sz fl # ds) \<longleftrightarrow> \<not> w \<and> k = 0 \<and> NoInputs \<in> set fl \<and> NoNav \<in> set fl \<and> obeys True 0 ds"
| "obeys w k (Window_end # ds) \<longleftrightarrow> w \<and> k = 0 \<and> obeys False 0 ds"
| "obeys w k (Clip_full # ds) \<longleftrightarrow> w \<and> obeys w (Suc k) ds"
| "obeys w k (Clip_pop # ds) \<longleftrightarrow> w \<and> k \<noteq> 0 \<and> obeys w (k - 1) ds"
| "obeys w k (d # ds) \<longleftrightarrow> w \<and> obeys w k ds"

text \<open>Calls that stay inside the window they are made in.\<close>

definition inside :: "draw list \<Rightarrow> bool" where
  "inside xs \<longleftrightarrow> (\<forall>k ds. obeys True k (xs @ ds) = obeys True k ds)"

lemma inside_append [simp]: "inside xs \<Longrightarrow> inside ys \<Longrightarrow> inside (xs @ ys)"
  by (simp add: inside_def)

lemma inside_Nil [simp]: "inside []"
  by (simp add: inside_def)

lemma inside_concat: "list_all inside xss \<Longrightarrow> inside (concat xss)"
  by (induction xss) simp_all

lemma inside_Cons [simp]:
  "inside (Line p q c th # xs) = inside xs" "inside (Rect_filled p q c th # xs) = inside xs" "inside (Circle p r c n th # xs) = inside xs"
  "inside (Circle_filled p r c n # xs) = inside xs" "inside (Path_arc p r a1 a2 n # xs) = inside xs" "inside (Path_stroke c th # xs) = inside xs"
  "inside (Path_fill c # xs) = inside xs" "inside (Image t p q # xs) = inside xs" "inside (Image_rounded t p q c th # xs) = inside xs"
  "inside (Label p c tx # xs) = inside xs" "inside (Label_sized th p c tx # xs) = inside xs"
  by (simp_all add: inside_def)

lemma inside_parts [simp]:
  "inside (draw_slash cx cy r fg a)" "inside (draw_mic_off cx cy r a)" "inside (draw_deaf cx cy r a)" "inside (draw_user_glyph cx cy r a)"
  "inside (draw_circle_icon cx cy r tex a)" "inside (draw_title_run sz2 org r2)" "inside (draw_body_run sz2 org r2)"
  by (simp_all add: draw_slash_def draw_mic_off_def draw_deaf_def draw_user_glyph_def draw_circle_icon_def draw_title_run_def
      draw_body_run_def Let_def)

lemma inside_shadow [simp]: "inside (draw_shadow s pos sz)"
  by (simp add: draw_shadow_def inside_def Let_def)

lemma inside_row [simp]: "inside (draw_row u s ax ay p tex a)"
  by (simp add: draw_row_def Let_def)

lemma inside_rows: "draw_rows u resolve s left y rows anim cw = (ds, anim', cw') \<Longrightarrow> inside ds"
proof (induction rows arbitrary: y anim cw ds anim' cw')
  case (Cons p ps)
  from Cons.prems show ?case
    by (cases rule: draw_rows_ConsE) (simp add: Cons.IH)
qed simp

lemma inside_card: "draw_card u resolve s n cd pos cw = (ds, cw') \<Longrightarrow> inside ds"
  by (auto simp: draw_card_def Let_def list_all_iff intro!: inside_concat inside_append split: prod.splits if_splits)

lemma obeys_window:
  "inside xs \<Longrightarrow> obeys False 0 (Window name pos sz kOverlayWindowFlags # xs @ Window_end # ds) = obeys False 0 ds"
  by (simp add: inside_def kOverlayWindowFlags_def)

lemma obeys_empty_window: "obeys False 0 (Window name pos sz kOverlayWindowFlags # Window_end # ds) = obeys False 0 ds"
  using obeys_window [of "[]"] by simp

lemma obeys_stack: "draw_stack u resolve a s x idx ns y cw = (ds, cw') \<Longrightarrow> obeys False 0 ds"
proof (induction ns arbitrary: idx y cw ds cw')
  case (Cons n ns)
  from Cons.prems show ?case
  proof (cases rule: draw_stack_ConsE)
    case (card cd cw1 y1 y2 pos inner cw2 ds2)
    have "inside inner" using card(5) by (auto dest: inside_card split: if_splits)
    then show ?thesis using Cons.IH [OF card(6)] by (simp add: card(7) obeys_window del: obeys.simps(2))
  qed simp
qed simp

lemma obeys_panel: "draw_voice_panel u resolve sn extent now f cw = (ds, f', cw') \<Longrightarrow> obeys False 0 (ds @ rest) = obeys False 0 rest"
  by (auto simp: draw_voice_panel_def Let_def obeys_window obeys_empty_window dest!: inside_rows simp del: obeys.simps(2) split: prod.splits if_splits)

text \<open>
  C29: Every frame is well formed for ImGui, and no window of the overlay can take the game's input.\<close>

theorem overlay_is_click_through:
  assumes "draw_overlay u resolve sn extent now f cw = (ds, f', cw')"
  shows "obeys False 0 ds"
proof (cases "s_in_voice sn")
  case True
  obtain pd f1 cw1 where p: "draw_voice_panel u resolve sn extent now f cw = (pd, f1, cw1)" by (metis prod.exhaust)
  obtain td cw2 where t: "draw_toasts u resolve sn extent now cw1 = (td, cw2)" by (metis prod.exhaust)
  have "obeys False 0 td" using t by (auto simp: draw_toasts_def Let_def dest: obeys_stack split: if_splits)
  then show ?thesis using assms True p t obeys_panel [OF p] by (auto simp: draw_overlay_def)
qed (use assms in \<open>simp add: draw_overlay_def\<close>)

lemma overlay_is_click_through_witness:
  "obeys False 0 (fst (draw_overlay plain_ui no_icons two_toasts (640, 480) 1000 new_fades ((), ())))"
proof -
  obtain ds f cw where d: "draw_overlay plain_ui no_icons two_toasts (640, 480) 1000 new_fades ((), ()) = (ds, f, cw)"
    by (metis prod.exhaust)
  show ?thesis using overlay_is_click_through [OF d] by (simp add: d)
qed

section \<open>The order of the toasts\<close>

text \<open>The overlay state of the host keeps the newest notification first.\<close>

fun event_times :: "ov_input list \<Rightarrow> int list" where
  "event_times [] = []"
| "event_times (Apply ev now # is) = now # event_times is"
| "event_times (Set_config cfg # is) = event_times is"

lemma notifications_step:
  "s_notifications (snap (fst (apply_event s ev now))) =
     (if e_kind ev = NotificationKind
      then take kMaxNotifications ((e_notif ev)\<lparr>n_created_ms := now\<rparr> # s_notifications (snap s))
      else s_notifications (snap s))"
  by (simp add: apply_event_def commit_def Let_def split: kind.splits option.splits)

definition newest_first :: "int \<Rightarrow> notification list \<Rightarrow> bool" where
  "newest_first t ns \<longleftrightarrow> sorted_wrt (\<lambda>x y. y \<le> x) (map n_created_ms ns) \<and> list_all (\<lambda>n. n_created_ms n \<le> t) ns"

lemma newest_first_take: "newest_first t ns \<Longrightarrow> newest_first t (take k ns)"
  by (auto simp: newest_first_def list_all_iff sorted_wrt_map sorted_wrt_take dest: in_set_takeD)

lemma newest_first_Cons: "newest_first t ns \<Longrightarrow> t \<le> t' \<Longrightarrow> newest_first t' (n\<lparr>n_created_ms := t'\<rparr> # ns)"
  by (fastforce simp: newest_first_def list_all_iff)

lemma newest_first_later: "newest_first t ns \<Longrightarrow> t \<le> t' \<Longrightarrow> newest_first t' ns"
  by (fastforce simp: newest_first_def list_all_iff)

lemma newest_first_run:
  "sorted (t # event_times is) \<Longrightarrow> newest_first t (s_notifications (snap s)) \<Longrightarrow>
     \<exists>t'. newest_first t' (s_notifications (snap (fst (run_events ov_step s is))))"
proof (induction "is" arbitrary: s t)
  case (Cons i "is")
  have run: "fst (run_events ov_step s (i # is)) = fst (run_events ov_step (fst (ov_step s i)) is)"
    by (simp add: Let_def split: prod.splits)
  show ?case
  proof (cases i)
    case (Apply ev now)
    have "newest_first now (s_notifications (snap (fst (ov_step s i))))"
      using Cons.prems newest_first_Cons [of t _ now] newest_first_later [of t _ now]
      by (simp add: Apply notifications_step newest_first_take)
    then show ?thesis unfolding run using Cons.IH [of now] Cons.prems(1) by (simp add: Apply)
  next
    case (Set_config cfg)
    then show ?thesis unfolding run using Cons.IH [of t] Cons.prems by (simp add: set_config_def commit_def)
  qed
qed auto

text \<open>
  Over the host's state, where newer notifications come first, the toasts run from the oldest, at the
  anchor, to the newest, the farthest from it.\<close>

theorem oldest_toast_at_anchor:
  assumes "sorted (event_times is)"
  shows "sorted (map n_created_ms (live_toasts (snap (fst (run_events ov_step new_overlay_state is))) now))"
proof -
  obtain t where t: "sorted (t # event_times is)"
    using assms by (cases "event_times is") auto
  have "newest_first t (s_notifications (snap new_overlay_state))"
    by (simp add: newest_first_def new_overlay_state_def new_snapshot_def)
  from newest_first_run [OF t this] obtain t' where
    "newest_first t' (s_notifications (snap (fst (run_events ov_step new_overlay_state is))))" by blast
  then have "sorted (map n_created_ms (rev (s_notifications (snap (fst (run_events ov_step new_overlay_state is))))))"
    by (simp add: newest_first_def sorted_wrt_rev flip: rev_map)
  then show ?thesis by (simp add: live_toasts_def Let_def sorted_filter)
qed

definition notify :: "string \<Rightarrow> rpc_event" where
  "notify title = (new_event NotificationKind)\<lparr>e_notif := new_notification\<lparr>n_title := title\<rparr>\<rparr>"

lemma oldest_toast_at_anchor_witness:
  "sorted (map n_created_ms (live_toasts (snap (fst (run_events ov_step new_overlay_state
     [Apply (notify ''older'') 100, Apply (notify ''newer'') 200]))) 300))"
  by (rule oldest_toast_at_anchor) simp

lemma older_toast_first:
  "map n_title (live_toasts (snap (fst (run_events ov_step new_overlay_state
     [Apply (notify ''older'') 100, Apply (notify ''newer'') 200]))) 300) = [''older'', ''newer'']"
  by code_simp

text \<open>Only the stacks that grow upwards stop at the edge: with a top anchor a toast may start below the screen.\<close>

lemma top_stack_runs_off:
  "\<exists>w \<in> set (windows (fst (draw_toasts plain_ui no_icons two_toasts (640, 64) 1000 ((), ())))). 64 < snd (fst (snd w))"
  by code_simp

section \<open>Colors\<close>

lemma byte_floor: "0 \<le> x \<Longrightarrow> x \<le> 255 \<Longrightarrow> 0 \<le> \<lfloor>x + 1 / 2\<rfloor> \<and> \<lfloor>x + 1 / 2 :: real\<rfloor> \<le> 255"
  by linarith

text \<open>Fading touches the opacity only.\<close>

lemma scale_alpha_rgb: "scale_alpha col m AND 0xFFFFFF = col AND 0xFFFFFF"
proof -
  have m: "(0xFFFFFF :: u32) = mask 24" "(0xFF :: u32) = mask 8" by (simp_all add: mask_numeral)
  show ?thesis unfolding scale_alpha_def Let_def m by (rule bit_word_eqI) (auto simp: bit_simps)
qed

section \<open>The font search\<close>

lemma first_font_spec:
  "first_font readable add ps added =
     (case dropWhile (\<lambda>p. \<not> (readable p \<and> add p)) ps of
        [] \<Rightarrow> (False, added @ filter readable ps)
      | p # _ \<Rightarrow> (True, added @ filter readable (takeWhile (\<lambda>p. \<not> (readable p \<and> add p)) ps) @ [p]))"
proof (induction ps arbitrary: added)
  case (Cons p ps)
  show ?case
    by (cases "readable p"; cases "add p")
      (simp_all add: load_font_def Cons.IH del: dropWhile_eq_Nil_conv split: list.split)
qed simp

definition font_candidates :: "string option \<Rightarrow> string list" where
  "font_candidates env = (case env of Some p \<Rightarrow> if p \<noteq> [] then [p] else [] | None \<Rightarrow> []) @
     concat (map (\<lambda>prefix. map (\<lambda>f. prefix @ f) kFonts) kPrefixes)"

text \<open>
  The font search is the first usable candidate, the user's own before the system's: a font is loaded
  exactly if one of them is readable and accepted, and of what was handed to ImGui only the last was accepted.\<close>

theorem font_search_first_usable:
  "load_overlay_font readable add env added =
     (case dropWhile (\<lambda>p. \<not> (readable p \<and> add p)) (font_candidates env) of
        [] \<Rightarrow> (False, added @ filter readable (font_candidates env))
      | p # _ \<Rightarrow> (True, added @ filter readable (takeWhile (\<lambda>p. \<not> (readable p \<and> add p)) (font_candidates env)) @ [p]))"
proof -
  have "load_overlay_font readable add env added = first_font readable add (font_candidates env) added"
    by (simp add: load_overlay_font_def font_candidates_def Let_def split: option.splits prod.splits)
  then show ?thesis by (simp add: first_font_spec)
qed

end
