(* ===== verification/ClientThread.thy ===== *)
theory ClientThread
  imports StateClient
begin

text \<open>
  The life of the overlay's client thread (\<^verbatim>\<open>src/overlay/state_client.cpp\<close>): the wake pipe it starts
  with, \<open>connect_once\<close>, the pauses, the loop of \<open>run\<close> around \<open>serve\<close>, and the end of the
  client. The descriptors it holds are those of the game it runs in: they are numbered in the order they are opened, and
  the record keeps which are open, the most there ever were, and whether each use was of an open one.
\<close>

section \<open>Descriptors\<close>

record fds =
  fd_open :: "nat list"
  fd_next :: nat
  fd_legal :: bool
  fd_most :: nat

definition open_fd :: "fds \<Rightarrow> nat \<times> fds" where
  "open_fd s = (fd_next s, s\<lparr>fd_open := fd_next s # fd_open s, fd_next := Suc (fd_next s),
     fd_most := max (fd_most s) (Suc (length (fd_open s)))\<rparr>)"

definition use_fd :: "nat \<Rightarrow> fds \<Rightarrow> fds" where
  "use_fd fd s = s\<lparr>fd_legal := fd_legal s \<and> fd \<in> set (fd_open s)\<rparr>"

definition close_fd :: "nat \<Rightarrow> fds \<Rightarrow> fds" where
  "close_fd fd s = (use_fd fd s)\<lparr>fd_open := remove1 fd (fd_open s)\<rparr>"

section \<open>Connecting\<close>

text \<open>Answers: the four \<^verbatim>\<open>fcntl\<close> calls (a missing one succeeds), \<^verbatim>\<open>connect\<close>, and while that is in progress
  whether the socket is writable within the second and what \<^verbatim>\<open>getsockopt\<close> then says.\<close>

datatype connect_result = Connected | In_progress bool "int option" | Refused

record connect_answers =
  ca_socket :: bool
  ca_fcntl :: "bool list"
  ca_connect :: connect_result

fun set_nonblock_cloexec :: "nat \<Rightarrow> nat \<Rightarrow> bool list \<Rightarrow> fds \<Rightarrow> bool \<times> fds" where
  "set_nonblock_cloexec 0 fd as s = (True, s)"
| "set_nonblock_cloexec (Suc calls) fd as s =
     (if as \<noteq> [] \<and> \<not> hd as then (False, use_fd fd s) else set_nonblock_cloexec calls fd (tl as) (use_fd fd s))"

definition connect_once :: "string \<Rightarrow> connect_answers \<Rightarrow> fds \<Rightarrow> nat option \<times> fds" where
  "connect_once name a s =
     (if make_abstract_addr name = None then (None, s)
      else if \<not> ca_socket a then (None, s)
      else
        let (fd, s) = open_fd s;
            (set_ok, s) = set_nonblock_cloexec 4 fd (ca_fcntl a) s in
        if \<not> set_ok then (None, close_fd fd s)
        else
          let s = use_fd fd s in
          case ca_connect a of
            Connected \<Rightarrow> (Some fd, s)
          | In_progress writable err \<Rightarrow>
              let s = use_fd fd s in if writable \<and> err = Some 0 then (Some fd, s) else (None, close_fd fd s)
          | Refused \<Rightarrow> (None, close_fd fd s))"

section \<open>The thread\<close>

text \<open>What a pause finds: the stop flag before it, the wake pipe readable, the stop flag after it.\<close>

record nap =
  n_stop_before :: bool
  n_wake :: bool
  n_stop_after :: bool

definition backoff_sleep :: "nat option \<Rightarrow> nap \<Rightarrow> bool" where
  "backoff_sleep wake_r n =
     (if n_stop_before n then False
      else if wake_r = None then \<not> n_stop_after n
      else if n_wake n then False
      else \<not> n_stop_after n)"

text \<open>A turn of the loop of \<open>run\<close> as the outside decides it.\<close>

record attempt =
  r_stop :: bool
  r_connect :: connect_answers
  r_hello :: bool
  r_turns :: "turn list"
  r_stop_after :: bool
  r_nap :: nap

record client =
  c_lib :: json_lib
  c_socket :: string
  c_pid :: int
  c_comm :: "string option"
  c_cmdline :: string
  c_dump :: "bool option"

datatype thread_output = Wrote client_output | Pause int

text \<open>Where the thread is when the outside has nothing more to say: about to connect, serving a
  connection, or returned.\<close>

datatype place = Looping | Serving nat | Returned

fun run :: "client \<Rightarrow> nat option \<Rightarrow> attempt list \<Rightarrow> int \<Rightarrow> client_state \<times> fds \<Rightarrow> ((client_state \<times> fds) \<times> thread_output list \<times> place) option" where
  "run c wake_r [] backoff ss = Some (ss, [], Looping)"
| "run c wake_r (r # rs) backoff (st, s) =
     (if r_stop r then Some ((st, s), [], Returned)
      else case connect_once (c_socket c) (r_connect r) s of
        (None, s) \<Rightarrow>
          if \<not> backoff_sleep wake_r (r_nap r) then Some ((st, s), [Pause backoff], Returned)
          else map_option (\<lambda>(ss, out, p). (ss, Pause backoff # out, p)) (run c wake_r rs (next_backoff backoff) (st, s))
      | (Some fd, s) \<Rightarrow>
          (case serve (c_lib c) (c_pid c) (c_comm c) (c_cmdline c) (r_hello r) (c_dump c) (r_turns r) st of
             None \<Rightarrow> None
           | Some (st, out, alive) \<Rightarrow>
               let s = use_fd fd s; out = map Wrote out in
               if alive then Some ((st, s), out, Serving fd)
               else
                 let s = close_fd fd s in
                 if r_stop_after r then Some ((st, s), out, Returned)
                 else if \<not> backoff_sleep wake_r (r_nap r) then Some ((st, s), out @ [Pause kBackoffStartMs], Returned)
                 else map_option (\<lambda>(ss, out', p). (ss, out @ Pause kBackoffStartMs # out', p))
                        (run c wake_r rs kBackoffStartMs (st, s))))"

text \<open>The constructor, which starts the thread, and the destructor once the thread has returned.\<close>

definition start_client :: "bool \<Rightarrow> fds \<Rightarrow> (nat \<times> nat) option \<times> fds" where
  "start_client piped s =
     (if piped then let (r, s) = open_fd s; (w, s) = open_fd s in (Some (r, w), s) else (None, s))"

definition wake :: "(nat \<times> nat) option \<Rightarrow> fds \<Rightarrow> fds" where
  "wake pipe s = (case pipe of Some (r, w) \<Rightarrow> use_fd w s | None \<Rightarrow> s)"

definition end_client :: "(nat \<times> nat) option \<Rightarrow> fds \<Rightarrow> fds" where
  "end_client pipe s = (case pipe of Some (r, w) \<Rightarrow> close_fd w (close_fd r s) | None \<Rightarrow> s)"

definition client_life :: "client \<Rightarrow> bool \<Rightarrow> attempt list \<Rightarrow> fds \<Rightarrow> ((nat \<times> nat) option \<times> (client_state \<times> fds) \<times> thread_output list \<times> place) option" where
  "client_life c piped rs s =
     (let (pipe, s) = start_client piped s
      in map_option (Pair pipe) (run c (map_option fst pipe) rs kBackoffStartMs (new_client_state, s)))"

section \<open>Lemmas\<close>

text \<open>\<open>holds xs s\<close>: open are \<open>xs\<close>, and every use so far was of an open descriptor.\<close>

definition holds :: "nat list \<Rightarrow> nat \<Rightarrow> fds \<Rightarrow> bool" where
  "holds xs n s \<longleftrightarrow> fd_open s = xs \<and> fd_legal s \<and> (\<forall>x \<in> set xs. x < fd_next s) \<and> fd_most s \<le> n"

lemma holds_open:
  "holds xs n s \<Longrightarrow> open_fd s = (fd, s') \<Longrightarrow> holds (fd # xs) (max n (Suc (length xs))) s' \<and> fd \<notin> set xs"
  by (auto simp: holds_def open_fd_def)

lemma holds_use: "holds xs n s \<Longrightarrow> fd \<in> set xs \<Longrightarrow> holds xs n (use_fd fd s)"
  by (simp add: holds_def use_fd_def)

lemma holds_close: "holds xs n s \<Longrightarrow> fd \<in> set xs \<Longrightarrow> holds (remove1 fd xs) n (close_fd fd s)"
  by (auto simp: holds_def close_fd_def use_fd_def dest: notin_set_remove1)

lemma holds_fcntl: "holds xs n s \<Longrightarrow> fd \<in> set xs \<Longrightarrow> set_nonblock_cloexec k fd as s = (ok, s') \<Longrightarrow> holds xs n s'"
  by (induction k fd as s rule: set_nonblock_cloexec.induct) (auto simp: holds_use split: if_splits)

lemma connect_holds:
  assumes "connect_once name a s = (r, s')" "holds xs n s" "Suc (length xs) \<le> n"
  shows "holds (case r of None \<Rightarrow> xs | Some fd \<Rightarrow> fd # xs) n s'"
proof (cases "make_abstract_addr name = None \<or> \<not> ca_socket a")
  case True
  then show ?thesis using assms by (auto simp: connect_once_def split: if_splits)
next
  case False
  obtain fd s1 where 1: "open_fd s = (fd, s1)" by fastforce
  obtain ok s2 where 2: "set_nonblock_cloexec 4 fd (ca_fcntl a) s1 = (ok, s2)" by fastforce
  have "holds (fd # xs) n s1" using holds_open [OF assms(2) 1] assms(3) by (simp add: max_absorb1)
  then have h: "holds (fd # xs) n s2" using holds_fcntl [OF _ _ 2] by simp
  note u = holds_use [OF h, of fd] holds_use [OF holds_use [OF h, of fd], of fd]
  show ?thesis
    using assms(1) False h u holds_close [OF h, of fd] holds_close [OF u(1), of fd] holds_close [OF u(2), of fd]
    by (auto simp: connect_once_def 1 2 Let_def split: if_splits connect_result.splits)
qed

lemma run_holds:
  assumes "run c wake_r rs b (st, s) = Some ((st', s'), out, p)" "holds xs n s" "Suc (length xs) \<le> n"
  shows "holds (case p of Serving fd \<Rightarrow> fd # xs | _ \<Rightarrow> xs) n s'"
  using assms
proof (induction rs arbitrary: b st s out)
  case (Cons r rs)
  obtain f s1 where 1: "connect_once (c_socket c) (r_connect r) s = (f, s1)" by fastforce
  note h = connect_holds [OF 1 Cons.prems(2,3)]
  show ?case
  proof (cases "r_stop r")
    case True
    then show ?thesis using Cons.prems by auto
  next
    case go: False
    show ?thesis
    proof (cases f)
      case None
      then show ?thesis using Cons.prems go 1 h Cons.IH [of _ st s1] by (auto split: if_splits)
    next
      case (Some fd)
      obtain st1 o1 alive where v: "serve (c_lib c) (c_pid c) (c_comm c) (c_cmdline c) (r_hello r) (c_dump c) (r_turns r) st = Some (st1, o1, alive)"
        using Cons.prems(1) go 1 Some by (auto split: option.splits)
      have u: "holds (fd # xs) n (use_fd fd s1)" using h Some by (simp add: holds_use)
      have k: "holds xs n (close_fd fd (use_fd fd s1))" using holds_close [OF u, of fd] by simp
      show ?thesis using Cons.prems(1,3) go 1 Some v u k Cons.IH [of _ st1 "close_fd fd (use_fd fd s1)"]
        by (auto simp: Let_def split: if_splits)
    qed
  qed
qed simp

lemma life_holds:
  assumes "client_life c piped rs s = Some (pipe, (st, s'), out, p)" "holds xs n s" "length xs + 3 \<le> n"
  shows "holds ((case p of Serving fd \<Rightarrow> [fd] | _ \<Rightarrow> []) @ (case pipe of Some (r, w) \<Rightarrow> [w, r] | None \<Rightarrow> []) @ xs) n s' \<and>
    (\<forall>r w. pipe = Some (r, w) \<longrightarrow> r \<noteq> w)"
proof (cases piped)
  case True
  obtain r s1 where 1: "open_fd s = (r, s1)" by fastforce
  obtain w s2 where 2: "open_fd s1 = (w, s2)" by fastforce
  have "holds (r # xs) n s1" using holds_open [OF assms(2) 1] assms(3) by (simp add: max_absorb1)
  from holds_open [OF this 2] have h: "holds (w # r # xs) n s2" "w \<noteq> r" using assms(3) by (simp_all add: max_absorb1)
  have "run c (Some r) rs kBackoffStartMs (new_client_state, s2) = Some ((st, s'), out, p)" "pipe = Some (r, w)"
    using assms(1) True by (auto simp: client_life_def start_client_def 1 2)
  with run_holds [OF this(1) h(1)] h(2) assms(3) show ?thesis by (auto split: place.splits)
next
  case False
  then have "run c None rs kBackoffStartMs (new_client_state, s) = Some ((st, s'), out, p)" "pipe = None"
    using assms(1) by (auto simp: client_life_def start_client_def)
  with run_holds [OF this(1) assms(2)] assms(3) show ?thesis by (auto split: place.splits)
qed

lemma end_holds:
  assumes "holds ((case pipe of Some (r, w) \<Rightarrow> [w, r] | None \<Rightarrow> []) @ xs) n s" "\<And>r w. pipe = Some (r, w) \<Longrightarrow> r \<noteq> w"
  shows "holds xs n (end_client pipe (wake pipe s))"
proof (cases pipe)
  case (Some rw)
  obtain r w where rw: "rw = (r, w)" by (cases rw)
  have "r \<noteq> w" using assms(2) Some rw by simp
  moreover have h: "holds (w # r # xs) n (use_fd w s)" using assms(1) Some rw by (simp add: holds_use)
  ultimately have "holds (w # xs) n (close_fd r (use_fd w s))" using holds_close [OF h, of r] by simp
  from holds_close [OF this, of w] show ?thesis by (simp add: Some rw end_client_def wake_def)
qed (use assms(1) in \<open>simp add: end_client_def wake_def\<close>)

text \<open>The pauses, and which attempts connect.\<close>

definition pauses :: "thread_output list \<Rightarrow> int list" where
  "pauses out = concat (map (\<lambda>x. case x of Pause ms \<Rightarrow> [ms] | Wrote _ \<Rightarrow> []) out)"

lemma pauses_simps [simp]:
  "pauses [] = []" "pauses (Pause ms # out) = ms # pauses out" "pauses (xs @ ys) = pauses xs @ pauses ys" "pauses (map Wrote os) = []"
  by (simp_all add: pauses_def comp_def)

definition connects :: "string \<Rightarrow> connect_answers \<Rightarrow> bool" where
  "connects name a \<longleftrightarrow> fst (connect_once name a \<lparr>fd_open = [], fd_next = 0, fd_legal = True, fd_most = 0\<rparr>) \<noteq> None"

lemma fcntl_answer: "fst (set_nonblock_cloexec k fd as s) = list_all id (take k as)"
proof (induction k fd as s rule: set_nonblock_cloexec.induct)
  case (2 k fd as s)
  then show ?case by (cases as) auto
qed simp

lemma connect_answer:
  "(fst (connect_once name a s) \<noteq> None) \<longleftrightarrow>
     make_abstract_addr name \<noteq> None \<and> ca_socket a \<and> list_all id (take 4 (ca_fcntl a)) \<and>
     (case ca_connect a of Connected \<Rightarrow> True | In_progress writable err \<Rightarrow> writable \<and> err = Some 0 | Refused \<Rightarrow> False)"
proof (cases "make_abstract_addr name = None \<or> \<not> ca_socket a")
  case False
  obtain fd s1 where 1: "open_fd s = (fd, s1)" by fastforce
  obtain ok s2 where 2: "set_nonblock_cloexec 4 fd (ca_fcntl a) s1 = (ok, s2)" by fastforce
  have "list_all id (take 4 (ca_fcntl a)) = ok" using fcntl_answer [of 4 fd "ca_fcntl a" s1] 2 by simp
  then show ?thesis using False by (cases "ca_connect a") (simp_all add: connect_once_def 1 2 Let_def)
qed (auto simp: connect_once_def)

lemma connects_anywhere: "connect_once name a s = (f, s') \<Longrightarrow> connects name a = (f \<noteq> None)"
  using connect_answer [of name a s] connect_answer [of name a "\<lparr>fd_open = [], fd_next = 0, fd_legal = True, fd_most = 0\<rparr>"]
  by (simp add: connects_def)

lemma run_schedule:
  "run c wake_r rs b (st, s) = Some (ss, out, Looping) \<Longrightarrow> pauses out = run_sleeps (map (\<lambda>r. connects (c_socket c) (r_connect r)) rs) b"
proof (induction rs arbitrary: b st s out)
  case (Cons r rs)
  obtain f s1 where 1: "connect_once (c_socket c) (r_connect r) s = (f, s1)" by fastforce
  show ?case
    using Cons.prems Cons.IH 1 connects_anywhere [OF 1]
    by (cases f) (auto simp: Let_def split: if_splits option.splits)
qed simp

text \<open>Once the wake byte is written, the loop of \<open>serve\<close> ends.\<close>

fun last_turn :: "turn \<Rightarrow> bool" where
  "last_turn Stop = True"
| "last_turn (Polled woken sock) = woken"
| "last_turn (Poll_failed e) = False"

lemma serve_loop_ends:
  "serve_loop lib dp ts r s = Some (s', out, alive) \<Longrightarrow> list_ex last_turn ts \<Longrightarrow> \<not> alive"
proof (induction ts arbitrary: r s out)
  case (Cons t ts)
  obtain fs r1 where dr: "reader_drain r = (fs, r1)" by fastforce
  show ?case using Cons.prems Cons.IH dr
    by (cases t) (auto simp: Let_def split: option.splits if_splits prod.splits)
qed simp

section \<open>Properties\<close>


text \<open>
  While the client is not told to stop its pauses are those of the backoff schedule over which attempts
  connected: doubling from 200 ms to 2 s, back to 200 ms after each connection.
\<close>

theorem client_backs_off:
  assumes "client_life c piped rs s = Some (pipe, ss, out, Looping)"
  shows "pauses out = run_sleeps (map (\<lambda>r. connects (c_socket c) (r_connect r)) rs) kBackoffStartMs"
  using assms run_schedule [of c _ rs kBackoffStartMs new_client_state] by (cases ss) (auto simp: client_life_def split: prod.splits)

text \<open>
  Shutting down does not wait: if the flag is set and the wake byte written while an attempt connects or serves, the
  thread returns without another attempt, whatever else the outside says.
\<close>

theorem stop_ends_client:
  assumes "run c wake_r (r # rs) backoff (st, s) = Some (ss, out, p)"
    and "r_stop r \<or> list_ex last_turn (r_turns r) \<and> r_stop_after r \<and> n_stop_before (r_nap r)"
  shows "p = Returned"
proof (cases "r_stop r")
  case False
  obtain f s1 where 1: "connect_once (c_socket c) (r_connect r) s = (f, s1)" by fastforce
  have v: "serve lib pid comm cmdline hello dp (r_turns r) st \<noteq> Some (st', o1, True)" for lib pid comm cmdline hello dp st' o1
    using assms(2) False by (auto simp: serve_def dest: serve_loop_ends split: option.splits if_splits)
  show ?thesis
  proof (cases f)
    case None
    then show ?thesis using assms False by (simp add: 1 backoff_sleep_def)
  next
    case (Some fd)
    then show ?thesis using assms False v by (auto simp: 1 Let_def split: option.splits if_splits)
  qed
qed (use assms(1) in simp)

section \<open>An example\<close>

definition refused :: connect_answers where
  "refused = \<lparr>ca_socket = True, ca_fcntl = [True, False], ca_connect = Connected\<rparr>"

definition accepted :: connect_answers where
  "accepted = \<lparr>ca_socket = True, ca_fcntl = [], ca_connect = In_progress True (Some 0)\<rparr>"

definition rests :: nap where
  "rests = \<lparr>n_stop_before = False, n_wake = False, n_stop_after = False\<rparr>"

definition an_attempt :: "connect_answers \<Rightarrow> turn list \<Rightarrow> bool \<Rightarrow> attempt" where
  "an_attempt a ts stop = \<lparr>r_stop = False, r_connect = a, r_hello = True, r_turns = ts, r_stop_after = stop, r_nap = rests\<lparr>n_stop_before := stop\<rparr>\<rparr>"

definition a_client :: client where
  "a_client = \<lparr>c_lib = \<lparr>lib_parse = \<lambda>_. None, lib_dump = \<lambda>_. Some ''h''\<rparr>, c_socket = ''choir'', c_pid = 7, c_comm = None, c_cmdline = [], c_dump = None\<rparr>"

definition game_fds :: fds where
  "game_fds = \<lparr>fd_open = [2, 1, 0], fd_next = 3, fd_legal = True, fd_most = 3\<rparr>"

definition a_life :: "attempt list" where
  "a_life = [an_attempt refused [] False, an_attempt accepted [Poll_failed EWOULDBLOCK] False]"

lemma fresh_drain: "reader_drain new_reader = ([], new_reader)" "\<not> failed new_reader"
  by (simp_all add: reader_drain.simps next_frame_def new_reader_def try_decode_frame_def)

lemma a_life_runs:
  "map_option (\<lambda>(pipe, ss, out, p). (out, p)) (client_life a_client True a_life game_fds) =
     Some ([Pause 200, Wrote (Frame Hello ''h''), Pause 200], Looping)"
  "map_option (\<lambda>(pipe, ss, out, p). p) (client_life a_client True (a_life @ [an_attempt accepted [Polled True None] True]) game_fds) = Some Returned"
  by (simp_all add: client_life_def start_client_def Let_def a_life_def a_client_def an_attempt_def refused_def accepted_def rests_def game_fds_def
      connect_once_def open_fd_def backoff_sleep_def serve_def hello_payload_def make_abstract_addr_def sun_path_size_def numeral_eq_Suc fresh_drain kBackoffStartMs_def)


theorem client_backs_off_witness:
  "\<exists>pipe ss out. client_life a_client True a_life game_fds = Some (pipe, ss, out, Looping) \<and> pauses out = run_sleeps [False, True] kBackoffStartMs"
proof -
  obtain pipe ss out where l: "client_life a_client True a_life game_fds = Some (pipe, ss, out, Looping)"
    using a_life_runs(1) by auto
  have "map (\<lambda>r. connects (c_socket a_client) (r_connect r)) a_life = [False, True]" by code_simp
  with client_backs_off [OF l] l show ?thesis by simp
qed

lemma stops_runs:
  "map_option (\<lambda>(ss, out, p). (out, p)) (run a_client (Some 3) [an_attempt accepted [Polled True None] True, an_attempt accepted [] False] 400 (new_client_state, game_fds)) =
     Some ([Wrote (Frame Hello ''h'')], Returned)"
  by (simp add: a_client_def an_attempt_def accepted_def rests_def game_fds_def Let_def
      connect_once_def open_fd_def backoff_sleep_def serve_def hello_payload_def make_abstract_addr_def sun_path_size_def numeral_eq_Suc fresh_drain)

theorem stop_ends_client_witness:
  "\<exists>ss out p. run a_client (Some 3) [an_attempt accepted [Polled True None] True, an_attempt accepted [] False] 400 (new_client_state, game_fds) = Some (ss, out, p) \<and> p = Returned"
proof -
  obtain ss out p where l: "run a_client (Some 3) [an_attempt accepted [Polled True None] True, an_attempt accepted [] False] 400 (new_client_state, game_fds) = Some (ss, out, p)"
    using stops_runs by auto
  have "list_ex last_turn (r_turns (an_attempt accepted [Polled True None] True)) \<and> r_stop_after (an_attempt accepted [Polled True None] True) \<and>
      n_stop_before (r_nap (an_attempt accepted [Polled True None] True))" by (simp add: an_attempt_def rests_def)
  with stop_ends_client [OF l] l show ?thesis by blast
qed

end
