(* ===== verification/QtHttp.thy ===== *)
theory QtHttp
  imports OAuth AvatarCache Denylist
begin

text \<open>
  The host's network requests (\<^verbatim>\<open>src/host/discord/qt_http.cpp\<close>): the waiting with a time limit, the POST
  behind the token exchange and the avatar source behind the cache. The network and Qt's image
  functions are arguments; \<open>qt_ok\<close> and \<open>qt_shapes\<close> say what their documentation promises.
\<close>

section \<open>Requests\<close>

type_synonym headers = "(string \<times> string) list"

record http_request =
  hr_url :: string
  hr_headers :: headers
  hr_body :: string

text \<open>What a reply comes to: whether it finished before the timer, its error, its status attribute (invalid
  when there was none) and its body.\<close>

record reply =
  rp_in_time :: bool
  rp_error :: bool
  rp_status :: "int option"
  rp_body :: string

text \<open>A header set again replaces the one of the same name, whose case does not matter.\<close>

definition set_raw_header :: "string \<times> string \<Rightarrow> headers \<Rightarrow> headers" where
  "set_raw_header h hs = filter (\<lambda>g. to_lower (fst g) \<noteq> to_lower (fst h)) hs @ [h]"

definition wait_for_reply :: "reply \<Rightarrow> bool" where
  "wait_for_reply r = rp_in_time r"

definition run_post :: "(http_request \<Rightarrow> reply) \<Rightarrow> http_request \<Rightarrow> headers \<Rightarrow> string \<Rightarrow> http_response" where
  "run_post network req headers body =
     (let req = fold (\<lambda>h req. req\<lparr>hr_headers := set_raw_header h (hr_headers req)\<rparr>) headers req;
          reply = network (req\<lparr>hr_body := body\<rparr>) in
      if \<not> wait_for_reply reply then \<lparr>h_status = 0, h_body = ''request timed out''\<rparr>
      else \<lparr>h_status = (case rp_status reply of Some c \<Rightarrow> c | None \<Rightarrow> 0), h_body = rp_body reply\<rparr>)"

definition post_json :: "(http_request \<Rightarrow> reply) \<Rightarrow> string \<Rightarrow> string \<Rightarrow> headers \<Rightarrow> http_response" where
  "post_json network url json_body headers =
     run_post network \<lparr>hr_url = url, hr_headers = set_raw_header (''Content-Type'', ''application/json'') [], hr_body = []\<rparr> headers json_body"

section \<open>Images\<close>

text \<open>An image by its size and scan lines, as RGBA8888.\<close>

record image =
  im_w :: int
  im_h :: int
  im_line :: "int \<Rightarrow> bytes"

text \<open>\<open>q_scaled\<close> is \<^verbatim>\<open>scaled\<close> to 64x64 by expanding, \<open>q_copy x y\<close> is \<^verbatim>\<open>copy(x, y, 64, 64)\<close> and the conversion.\<close>

record qt_images =
  q_load :: "string \<Rightarrow> image option"
  q_scaled :: "image \<Rightarrow> image"
  q_copy :: "int \<Rightarrow> int \<Rightarrow> image \<Rightarrow> image"

definition cpp_half :: "int \<Rightarrow> int" where
  "cpp_half n = (if n < 0 then - (- n div 2) else n div 2)"

definition crop_64 :: "qt_images \<Rightarrow> image \<Rightarrow> image" where
  "crop_64 qt img =
     (let scaled = q_scaled qt img; x = cpp_half (im_w scaled - 64); y = cpp_half (im_h scaled - 64) in q_copy qt x y scaled)"

definition rgba_of :: "image \<Rightarrow> bytes" where
  "rgba_of img = concat (map (\<lambda>row. take (64 * 4) (im_line img (int row))) [0..<64])"

definition fetch :: "qt_images \<Rightarrow> (string \<Rightarrow> reply) \<Rightarrow> string \<Rightarrow> decoded_avatar option" where
  "fetch qt network url =
     (let reply = network url in
      if \<not> wait_for_reply reply then None
      else if rp_error reply then None
      else case q_load qt (rp_body reply) of
        None \<Rightarrow> None
      | Some img \<Rightarrow>
          let cropped = crop_64 qt img in
          if im_w cropped \<noteq> 64 \<or> im_h cropped \<noteq> 64 then None else Some (64, 64, rgba_of cropped))"

section \<open>Lemmas\<close>

text \<open>The lines of an RGBA8888 image hold four bytes for each pixel.\<close>

definition rgba8888 :: "image \<Rightarrow> bool" where
  "rgba8888 img \<longleftrightarrow> (\<forall>r. 0 \<le> r \<and> r < im_h img \<longrightarrow> 4 * im_w img \<le> int (length (im_line img r)))"

definition qt_ok :: "qt_images \<Rightarrow> bool" where
  "qt_ok qt \<longleftrightarrow> (\<forall>x y img. rgba8888 (q_copy qt x y img))"

text \<open>Scaling by expanding covers the square; a copy within the image is that part of it.\<close>

definition qt_shapes :: "qt_images \<Rightarrow> bool" where
  "qt_shapes qt \<longleftrightarrow> (\<forall>t img. q_load qt t = Some img \<longrightarrow> 64 \<le> im_w (q_scaled qt img) \<and> 64 \<le> im_h (q_scaled qt img) \<and> rgba8888 (q_scaled qt img)) \<and>
     (\<forall>x y img r. rgba8888 img \<and> 0 \<le> x \<and> 0 \<le> y \<and> x + 64 \<le> im_w img \<and> y + 64 \<le> im_h img \<longrightarrow>
        im_w (q_copy qt x y img) = 64 \<and> im_h (q_copy qt x y img) = 64 \<and>
        (0 \<le> r \<and> r < 64 \<longrightarrow> im_line (q_copy qt x y img) r = take (4 * 64) (drop (nat (4 * x)) (im_line img (y + r)))))"

lemma rgba_length:
  "(\<And>r. 0 \<le> r \<Longrightarrow> r < 64 \<Longrightarrow> 256 \<le> length (im_line img r)) \<Longrightarrow> length (rgba_of img) = 64 * 256"
proof -
  assume l: "\<And>r. 0 \<le> r \<Longrightarrow> r < 64 \<Longrightarrow> 256 \<le> length (im_line img r)"
  have "n \<le> 64 \<Longrightarrow> length (concat (map (\<lambda>row. take 256 (im_line img (int row))) [0..<n])) = n * 256" for n
    by (induction n) (simp_all add: l min_absorb2)
  from this [of 64] show ?thesis unfolding rgba_of_def by simp
qed

lemma fetch_source_ok:
  assumes "qt_ok qt"
  shows "source_ok (fetch qt network)"
proof -
  have d: "dims_ok 64 64" by (simp add: dims_ok_def kMaxDim_def)
  have "length (rgba_of (crop_64 qt img)) = body_size 64 64" if "im_w (crop_64 qt img) = 64" "im_h (crop_64 qt img) = 64" for img
  proof -
    have "256 \<le> length (im_line (crop_64 qt img) r)" if r: "0 \<le> r" "r < 64" for r
    proof -
      obtain x y j where c: "crop_64 qt img = q_copy qt x y j" by (simp add: crop_64_def Let_def)
      have "int (length (im_line (q_copy qt x y j) r)) \<ge> 4 * im_w (q_copy qt x y j)"
        using assms r \<open>im_h (crop_64 qt img) = 64\<close> c by (simp add: qt_ok_def rgba8888_def)
      then show ?thesis using \<open>im_w (crop_64 qt img) = 64\<close> c by simp
    qed
    from rgba_length [OF this] show ?thesis by (simp add: body_size_eq [OF d])
  qed
  then show ?thesis using d by (auto simp: source_ok_def fetch_def Let_def split: option.splits if_splits)
qed

section \<open>Properties\<close>


text \<open>
  An avatar is the middle square of the scaled image: the margins on both sides are equal up to one pixel,
  and no pixel is from outside the image.
\<close>

theorem avatar_is_the_middle:
  assumes "qt_shapes qt" and "q_load qt (rp_body (network url)) = Some img" and "rp_in_time (network url)" "\<not> rp_error (network url)"
    and "s = q_scaled qt img"
  shows "\<exists>x y. 0 \<le> x \<and> 0 \<le> y \<and> x + 64 \<le> im_w s \<and> y + 64 \<le> im_h s \<and>
    (im_w s - 64 - x) - x \<in> {0, 1} \<and> (im_h s - 64 - y) - y \<in> {0, 1} \<and>
    fetch qt network url = Some (64, 64, concat (map (\<lambda>r. take 256 (drop (nat (4 * x)) (im_line s (y + int r)))) [0..<64]))"
proof -
  define x y where "x = (im_w s - 64) div 2" and "y = (im_h s - 64) div 2"
  have big: "64 \<le> im_w s" "64 \<le> im_h s" "rgba8888 s" using assms(1,2,5) by (auto simp: qt_shapes_def)
  have "x \<ge> 0" "y \<ge> 0" "x + 64 \<le> im_w s" "y + 64 \<le> im_h s" using big by (simp_all add: x_def y_def)
  note in_image = this
  have m: "(im_w s - 64 - x) - x \<in> {0, 1}" "(im_h s - 64 - y) - y \<in> {0, 1}" unfolding x_def y_def by auto
  have c: "crop_64 qt img = q_copy qt x y s" using big by (simp add: crop_64_def Let_def cpp_half_def assms(5) x_def y_def)
  have q: "im_w (q_copy qt x y s) = 64 \<and> im_h (q_copy qt x y s) = 64 \<and>
      (0 \<le> r \<and> r < 64 \<longrightarrow> im_line (q_copy qt x y s) r = take (4 * 64) (drop (nat (4 * x)) (im_line s (y + r))))" for r
    using assms(1) in_image big(3) unfolding qt_shapes_def by blast
  have "rgba_of (q_copy qt x y s) = concat (map (\<lambda>r. take 256 (drop (nat (4 * x)) (im_line s (y + int r)))) [0..<64])"
    unfolding rgba_of_def using q by (intro arg_cong [where f = concat] map_cong) auto
  then have "fetch qt network url = Some (64, 64, concat (map (\<lambda>r. take 256 (drop (nat (4 * x)) (im_line s (y + int r)))) [0..<64]))"
    using q [of 0] assms(2-4) by (simp add: fetch_def wait_for_reply_def c)
  then show ?thesis using in_image m by blast
qed

text \<open>
  C25: A login's token is one the server sent in time, with status 200, in answer to the code as JSON: a timeout, another
  status or a missing one never gives a token.
\<close>

theorem token_needs_prompt_answer:
  assumes "exchange_code lib (\<lambda>url body. post_json network url body []) code = Some tok" and "tok_ok tok"
  shows "\<exists>body r j. lib_dump lib (jobj [(''code'', JStr code)]) = Some body \<and>
    r = network \<lparr>hr_url = kStreamkitTokenUrl, hr_headers = [(''Content-Type'', ''application/json'')], hr_body = body\<rparr> \<and>
    rp_in_time r \<and> rp_status r = Some 200 \<and> lib_parse lib (rp_body r) = Some j \<and> tok_access tok = str_or j ''access_token'' [] \<and> tok_access tok \<noteq> []"
proof -
  obtain body where b: "lib_dump lib (jobj [(''code'', JStr code)]) = Some body"
    and t: "tok = token_of_response lib (post_json network kStreamkitTokenUrl body [])"
    using assms(1) by (auto simp: exchange_code_def split: option.splits)
  let ?r = "network \<lparr>hr_url = kStreamkitTokenUrl, hr_headers = [(''Content-Type'', ''application/json'')], hr_body = body\<rparr>"
  have p: "post_json network kStreamkitTokenUrl body [] = (if rp_in_time ?r then \<lparr>h_status = (case rp_status ?r of Some c \<Rightarrow> c | None \<Rightarrow> 0), h_body = rp_body ?r\<rparr>
      else \<lparr>h_status = 0, h_body = ''request timed out''\<rparr>)"
    by (simp add: post_json_def run_post_def set_raw_header_def wait_for_reply_def Let_def)
  obtain j where j: "h_status (post_json network kStreamkitTokenUrl body []) = 200"
    "lib_parse lib (h_body (post_json network kStreamkitTokenUrl body [])) = Some j" "str_or j ''access_token'' [] \<noteq> []"
    using assms(2) t token_ok_iff by blast
  have r: "rp_in_time ?r" "rp_status ?r = Some 200" using j(1) p by (auto split: if_splits option.splits)
  have "tok_access tok = str_or j ''access_token'' []"
    using assms(2) j t by (auto simp: token_of_response_def failed_token_def Let_def split: if_splits)
  then show ?thesis using b j(2,3) p r by auto
qed

section \<open>Examples\<close>

definition demo_qt :: qt_images where
  "demo_qt = \<lparr>q_load = \<lambda>t. if t = ''png'' then Some \<lparr>im_w = 128, im_h = 64, im_line = \<lambda>r. replicate 512 (word_of_int r)\<rparr> else None,
     q_scaled = \<lambda>img. img,
     q_copy = \<lambda>x y img. \<lparr>im_w = 64, im_h = 64, im_line = \<lambda>r. take 256 (drop (nat (4 * x)) (im_line img (y + r)) @ replicate 256 0)\<rparr>\<rparr>"

lemma demo_qt_ok: "qt_ok demo_qt" "qt_shapes demo_qt"
proof -
  have l: "256 \<le> int (min (a - b) 256) + int (256 - (a - b))" for a b :: nat by simp
  show "qt_ok demo_qt" by (simp add: qt_ok_def demo_qt_def rgba8888_def l)
  have c: "256 \<le> length (im_line img (y + r)) - nat (4 * x)"
    if "rgba8888 img" "0 \<le> x" "0 \<le> y" "x + 64 \<le> im_w img" "y + 64 \<le> im_h img" "0 \<le> r" "r < 64" for x y r and img :: image
  proof -
    have "4 * im_w img \<le> int (length (im_line img (y + r)))" using that by (simp add: rgba8888_def)
    then show ?thesis using that by linarith
  qed
  show "qt_shapes demo_qt"
    unfolding qt_shapes_def demo_qt_def by (auto simp: c) (auto simp: rgba8888_def)
qed

definition quick :: "string \<Rightarrow> reply" where
  "quick url = \<lparr>rp_in_time = True, rp_error = False, rp_status = Some 200, rp_body = ''png''\<rparr>"

lemma avatar_is_the_middle_witness:
  "\<exists>px. fetch demo_qt quick ''u'' = Some (64, 64, px)"
proof -
  obtain img where i: "q_load demo_qt (rp_body (quick ''u'')) = Some img" by (simp add: demo_qt_def quick_def)
  have "rp_in_time (quick ''u'')" "\<not> rp_error (quick ''u'')" by (simp_all add: quick_def)
  from avatar_is_the_middle [where network = quick and url = "''u''", OF demo_qt_ok(2) i this refl] show ?thesis by blast
qed

definition qt_requests :: "(string \<times> string \<times> write_io \<times> (string \<Rightarrow> reply)) list" where
  "qt_requests = [(''a'', cdn_url ''u'' ''a'', good_write, \<lambda>url. (quick url)\<lparr>rp_in_time := False\<rparr>), (''a'', cdn_url ''u'' ''a'', good_write\<lparr>body_accepted := 16384\<rparr>, quick)]"

lemma qt_requests_value:
  "ac_ready (serve_requests (map (\<lambda>(key, url, io, network). (fetch demo_qt network, io, key, url)) qt_requests) demo_cache) = [(''a'', ''/c/a.rgba'', 64, 64)]"
proof -
  have "fetch demo_qt quick url \<noteq> None" for url
    by (simp add: fetch_def crop_64_def demo_qt_def quick_def wait_for_reply_def Let_def)
  moreover have "fetch demo_qt quick url = Some (w, h, px) \<Longrightarrow> w = 64 \<and> h = 64" for url w h px
    by (auto simp: fetch_def Let_def split: option.splits if_splits)
  ultimately obtain px where p: "fetch demo_qt quick (cdn_url ''u'' ''a'') = Some (64, 64, px)"
    by (metis not_None_eq prod_cases3)
  have d: "dims_ok 64 64" by (simp add: dims_ok_def kMaxDim_def)
  have l: "length px = 16384" using fetch_source_ok [OF demo_qt_ok(1), of quick] p unfolding source_ok_def
    by (fastforce simp: body_size_eq [OF d])
  have n: "fetch demo_qt (\<lambda>url. (quick url)\<lparr>rp_in_time := False\<rparr>) url = None" for url by (simp add: fetch_def wait_for_reply_def)
  have u: "cdn_url ''u'' ''a'' \<noteq> []" by (simp add: cdn_url_def)
  have px: "px \<noteq> []" using l by auto
  have "write_avatar_rgba (good_write\<lparr>body_accepted := 16384\<rparr>) 64 64 (Some px) = (True, Some (avatar_image 64 64 px))"
    using l by (simp add: write_avatar_eq body_size_eq [OF d] good_write_def)
  then show ?thesis using u px
    by (simp add: qt_requests_def request_url_def cached_def fs_ask_def demo_cache_def content_of_def n p make_dir_def announce_def
        path_for_def path_append_def Let_def)
qed


definition token_lib :: json_lib where
  "token_lib = \<lparr>lib_parse = \<lambda>t. if t = ''t'' then Some (jobj [(''access_token'', JStr ''secret'')]) else None, lib_dump = \<lambda>_. Some ''c''\<rparr>"

lemma token_needs_prompt_answer_witness:
  "\<exists>tok. exchange_code token_lib (\<lambda>url body. post_json (\<lambda>_. (quick [])\<lparr>rp_body := ''t''\<rparr>) url body []) ''code'' = Some tok \<and> tok_access tok = ''secret''"
proof -
  have e: "case exchange_code token_lib (\<lambda>url body. post_json (\<lambda>_. (quick [])\<lparr>rp_body := ''t''\<rparr>) url body []) ''code'' of
      Some tok \<Rightarrow> tok_ok tok | None \<Rightarrow> False" by code_simp
  then obtain tok where t: "exchange_code token_lib (\<lambda>url body. post_json (\<lambda>_. (quick [])\<lparr>rp_body := ''t''\<rparr>) url body []) ''code'' = Some tok" "tok_ok tok"
    by (auto split: option.splits)
  from token_needs_prompt_answer [OF this] have "tok_access tok = ''secret''"
    by (auto simp: token_lib_def quick_def str_or_def)
  then show ?thesis using t(1) by blast
qed

end
