(* ===== verification/Spec2Isabelle.thy ===== *)
theory Spec2Isabelle
  imports StateServer RpcSession SwapchainFrames SwapchainColor Interposer HostMain OverlayUi
    ClientThread QtHttp
begin

text \<open>
  The Choir voice overlay: a host process follows the user's Discord voice channel and publishes
  a snapshot of it on a local socket; a Vulkan layer and an OpenGL interposer inside the games
  draw the snapshot over each frame. Paths are relative to \<^verbatim>\<open>src/src\<close>.

  \<^bold>\<open>Data and wire formats.\<close> \<^verbatim>\<open>Codec\<close> has little-endian integers and bytes as characters.
  \<^verbatim>\<open>Protocol\<close> (\<^verbatim>\<open>ipc/protocol\<close>) frames messages, \<^verbatim>\<open>Framing\<close> (\<^verbatim>\<open>ipc/framing\<close>) reads them from a
  stream cut anywhere and writes them to a socket that takes what it likes; the locale of a frame
  codec is interpreted for this protocol and for Discord's. \<^verbatim>\<open>AvatarFile\<close> (\<^verbatim>\<open>ipc/avatar_file\<close>),
  \<^verbatim>\<open>Emoji\<close> (\<^verbatim>\<open>ipc/emoji\<close>), \<^verbatim>\<open>Json\<close> (what is relied on of the JSON library), \<^verbatim>\<open>State\<close>
  (\<^verbatim>\<open>ipc/state\<close>) and \<^verbatim>\<open>Paths\<close> (\<^verbatim>\<open>ipc/paths\<close>) are the other shared parts.

  \<^bold>\<open>Host.\<close> \<^verbatim>\<open>RpcMessages\<close> (\<^verbatim>\<open>host/discord/rpc_messages\<close>) parses what Discord sends,
  \<^verbatim>\<open>IpcTransport\<close> and \<^verbatim>\<open>OAuth\<close> are below the connection's state machine \<^verbatim>\<open>RpcClient\<close>
  (\<^verbatim>\<open>host/discord/rpc_client\<close>); \<^verbatim>\<open>QtHttp\<close> (\<^verbatim>\<open>host/discord/qt_http\<close>) makes the requests of the login and of the
  avatars over a network and Qt's images, which are arguments. The client's properties over whole sessions are in \<^verbatim>\<open>RpcSession\<close>.
  \<^verbatim>\<open>OverlayState\<close> (\<^verbatim>\<open>host/model/overlay_state\<close>) reduces events to the snapshot and refines an
  abstract roster. \<^verbatim>\<open>Denylist\<close> and \<^verbatim>\<open>StateServer\<close> (\<^verbatim>\<open>host/server/state_server\<close>) decide which
  process receives it. \<^verbatim>\<open>HostFiles\<close> is the file system below the rest: any call may be refused, any write
  be partial, and all past states are kept, so that "at every moment" can be said of them.
  \<^verbatim>\<open>Backends\<close>, \<^verbatim>\<open>HostConfig\<close>, \<^verbatim>\<open>Autostart\<close> (\<^verbatim>\<open>host/config\<close>) and \<^verbatim>\<open>AvatarCache\<close>
  (\<^verbatim>\<open>host/model/avatar_cache\<close>) are over it, and so is \<^verbatim>\<open>SettingsWindow\<close> (\<^verbatim>\<open>host/ui/settings_window\<close>): what
  its widgets hold, its slots, and what a Save leaves for the next launch. \<^verbatim>\<open>Floats\<close> has rounding to
  single precision for it. \<^verbatim>\<open>HostMain\<close> (\<^verbatim>\<open>host/main.cpp\<close>) is the command line, the question about the
  overlay libraries, and the wiring: one step for each call of the client's timer, event of the server's
  sockets and saved configuration; its lemmas lift the parts' invariants to the whole host's life.

  \<^bold>\<open>Overlay.\<close> \<^verbatim>\<open>StateClient\<close> (\<^verbatim>\<open>overlay/state_client\<close>) is the other end of the socket,
  \<^verbatim>\<open>ClientThread\<close> the life of its thread inside the game, with the descriptors it holds.
  \<^verbatim>\<open>TextureCache\<close> states what \<^verbatim>\<open>resolve_icon\<close> (\<^verbatim>\<open>overlay/overlay_ui.cpp\<close>) needs of a texture cache
  as a locale, interpreted for the layer's and the interposer's caches. \<^verbatim>\<open>OverlayLayout\<close> lays out text
  with inline emoji in lines, \<^verbatim>\<open>OverlayUi\<close> draws the voice panel and the toasts (\<^verbatim>\<open>overlay/overlay_ui.cpp\<close>,
  \<^verbatim>\<open>overlay/fade.hpp\<close>): a frame is the list of calls made on ImGui, whose font measures are an argument.

  \<^bold>\<open>Vulkan layer.\<close> \<^verbatim>\<open>Vulkan\<close> is the device below: handles, fences, semaphores, what is in flight,
  which calls were legal, and a script of the driver's answers (success once it is exhausted).
  Handles are positive numbers, 0 the null handle. \<^verbatim>\<open>Dispatch\<close> (\<^verbatim>\<open>layer/dispatch\<close>,
  \<^verbatim>\<open>layer/layer_entry\<close>), \<^verbatim>\<open>SwapchainColor\<close>, \<^verbatim>\<open>Renderer\<close> (\<^verbatim>\<open>layer/imgui_renderer\<close>),
  \<^verbatim>\<open>AvatarTextures\<close> and \<^verbatim>\<open>Swapchain\<close> (\<^verbatim>\<open>layer/swapchain.cpp\<close>) follow the files of these names;
  \<^verbatim>\<open>SwapchainSafety\<close>, \<^verbatim>\<open>SwapchainLife\<close> and \<^verbatim>\<open>SwapchainPresent\<close> prove that the hooks keep every object
  accounted for and every call legal, \<^verbatim>\<open>SwapchainTrace\<close> that this holds over every life of a game (a
  step relation of its calls and of what the GPU and driver do meanwhile), for presents of one
  swapchain each; \<^verbatim>\<open>SwapchainCalls\<close> and \<^verbatim>\<open>SwapchainFrames\<close> say what a present submits and where, for
  any number of swapchains. With two or more drawn ones the present is an illegal call
  (\<open>two_windows_wait_twice\<close>). \<open>accounts B xs v\<close> says that all calls so far were legal and that what is alive
  is \<open>B\<close> and what the handles \<open>xs\<close> hold; each operation's lemma says how it changes \<open>xs\<close>.

  \<^bold>\<open>OpenGL interposer.\<close> \<^verbatim>\<open>OpenGl\<close> is the API below, \<^verbatim>\<open>GlOverlay\<close> the texture cache and the frame
  (\<^verbatim>\<open>gl/gl_avatar_textures\<close>, \<^verbatim>\<open>gl/gl_renderer\<close>), \<^verbatim>\<open>Interposer\<close> the exported functions
  (\<^verbatim>\<open>gl/interposer.cpp\<close>, \<^verbatim>\<open>gl/gl_api.cpp\<close>).

  \<^bold>\<open>Conventions.\<close> A \<^verbatim>\<open>std::string\<close> is a list of characters, a byte vector a list of 8-bit words,
  integers keep their width where it matters, a \<^verbatim>\<open>float\<close> is a rational (a real number in the color
  math, rounded to single precision where the settings window computes with it), function pointers are names that resolved. Loops over input are structural recursions or
  end by a measure; loops that wait for the outside world (\<^verbatim>\<open>write_frame\<close>, the client's reconnects)
  run over a list of what the outside world does, and the theorems on them say how much of it is
  enough. The JSON library, HTTP, the kernel's answers, the linker, the GPU driver and what ImGui
  draws are arguments or scripts.

  \<^bold>\<open>Not modelled.\<close> What ImGui makes of the calls, the host's
  tray and icons, image decoding and the network itself (Qt), events that run inside another (a download
  runs a nested event loop), threads and their locks (each operation is one step), the
  contents of Vulkan create-info structures, shaders, vendored code and packaging.
\<close>

end
